(* ===== verification/Prelude.thy ===== *)
theory Prelude
  imports Main "HOL-Library.Word"
begin

text \<open>
  Shared vocabulary of the development: machine integers at the widths the C code uses,
  byte strings, little-endian memory images, and the list and word lemmas the components
  share.  The rule collections \<open>mem_simps\<close> (reads and writes of byte buffers) and
  \<open>byte_simps\<close> (values of character constants) are extended by the component theories.
\<close>

unbundle bit_operations_syntax

named_theorems mem_simps
named_theorems byte_simps

type_synonym byte = "8 word"
type_synonym bytes = "byte list"
type_synonym u16 = "16 word"
type_synonym u32 = "32 word"
type_synonym u64 = "64 word"

text \<open>A C character constant as a byte, and a C string literal without its terminator.\<close>

abbreviation ch :: "char \<Rightarrow> byte" where
  "ch c \<equiv> of_char c"

definition str :: "string \<Rightarrow> bytes" where
  "str s = map of_char s"

lemma str_simps [simp, byte_simps]:
  "str [] = []" "str (c # s) = ch c # str s"
  by (simp_all add: str_def)

lemma str_append [byte_simps]: "str (s @ t) = str s @ str t"
  by (simp add: str_def)

lemma length_str [simp]: "length (str s) = length s"
  by (simp add: str_def)

section \<open>Buffers\<close>

text \<open>
  \<open>mem_get off n xs\<close> is what \<open>memcpy(\<dots>, xs+off, n)\<close> reads and \<open>mem_put off bs xs\<close> the
  buffer after \<open>memcpy(xs+off, bs, length bs)\<close>.  \<open>mem_resize fill n xs\<close> is \<open>zrealloc\<close>:
  the bytes it does not initialise are \<open>fill\<close>, which every theorem leaves arbitrary.
\<close>

definition mem_get :: "nat \<Rightarrow> nat \<Rightarrow> 'a list \<Rightarrow> 'a list" where
  "mem_get off n xs = take n (drop off xs)"

definition mem_put :: "nat \<Rightarrow> 'a list \<Rightarrow> 'a list \<Rightarrow> 'a list" where
  "mem_put off bs xs = take off xs @ bs @ drop (off + length bs) xs"

definition mem_resize :: "'a \<Rightarrow> nat \<Rightarrow> 'a list \<Rightarrow> 'a list" where
  "mem_resize fill n xs = take n xs @ replicate (n - length xs) fill"

text \<open>\<open>memmove(xs+dst, xs+src, n)\<close> inside one buffer.\<close>

definition memmove :: "nat \<Rightarrow> nat \<Rightarrow> nat \<Rightarrow> 'a list \<Rightarrow> 'a list" where
  "memmove dst src n xs = mem_put dst (mem_get src n xs) xs"

lemma length_mem_get [simp, mem_simps]: "length (mem_get off n xs) = min n (length xs - off)"
  by (simp add: mem_get_def)

lemma length_mem_put [mem_simps]:
  "off + length bs \<le> length xs \<Longrightarrow> length (mem_put off bs xs) = length xs"
  by (simp add: mem_put_def)

lemma length_mem_resize [simp, mem_simps]: "length (mem_resize fill n xs) = n"
  by (simp add: mem_resize_def)

lemma length_memmove [mem_simps]:
  "dst + n \<le> length xs \<Longrightarrow> src + n \<le> length xs \<Longrightarrow> length (memmove dst src n xs) = length xs"
  by (simp add: memmove_def length_mem_put)

lemma mem_get_append1: "off + n \<le> length xs \<Longrightarrow> mem_get off n (xs @ ys) = mem_get off n xs"
  by (simp add: mem_get_def)

lemma mem_get_append2: "length xs \<le> off \<Longrightarrow> mem_get off n (xs @ ys) = mem_get (off - length xs) n ys"
  by (simp add: mem_get_def)

lemma mem_get_whole [simp]: "mem_get 0 (length xs) xs = xs"
  by (simp add: mem_get_def)

lemma mem_get_mid: "length xs = off \<Longrightarrow> length ys = n \<Longrightarrow> mem_get off n (xs @ ys @ zs) = ys"
  by (simp add: mem_get_def)

lemma mem_get_put_same [mem_simps]:
  "off + length bs \<le> length xs \<Longrightarrow> mem_get off (length bs) (mem_put off bs xs) = bs"
  by (simp add: mem_get_def mem_put_def)

lemma mem_get_put_before [mem_simps]:
  "o1 + n \<le> off \<Longrightarrow> off \<le> length xs \<Longrightarrow> mem_get o1 n (mem_put off bs xs) = mem_get o1 n xs"
  by (simp add: mem_get_def mem_put_def drop_take)

lemma mem_get_put_after [mem_simps]:
  "off + length bs \<le> o1 \<Longrightarrow> off + length bs \<le> length xs \<Longrightarrow>
     mem_get o1 n (mem_put off bs xs) = mem_get o1 n xs"
  by (simp add: mem_get_def mem_put_def)

lemma mem_put_adjacent:
  "o1 + length as = o2 \<Longrightarrow> o2 + length bs \<le> length xs \<Longrightarrow>
     mem_put o1 as (mem_put o2 bs xs) = mem_put o1 (as @ bs) xs"
  by (auto simp: mem_put_def min_def add.assoc)

lemma nth_mem_put:
  "off + length bs \<le> length xs \<Longrightarrow> i < length xs \<Longrightarrow>
     mem_put off bs xs ! i = (if off \<le> i \<and> i < off + length bs then bs ! (i - off) else xs ! i)"
  by (auto simp: mem_put_def nth_append)

section \<open>Little-endian images of words\<close>

fun le_bytes :: "nat \<Rightarrow> 'a::len word \<Rightarrow> bytes" where
  "le_bytes 0 w = []"
| "le_bytes (Suc n) w = ucast w # le_bytes n (drop_bit 8 w)"

fun le_word :: "bytes \<Rightarrow> 'a::len word" where
  "le_word [] = 0"
| "le_word (b # bs) = ucast b OR push_bit 8 (le_word bs)"

lemma length_le_bytes [simp]: "length (le_bytes n w) = n"
  by (induction n arbitrary: w) auto

lemma le_word_le_bytes_take: "le_word (le_bytes n w) = take_bit (8 * n) (w :: 'a::len word)"
proof (induction n arbitrary: w)
  case 0
  then show ?case by simp
next
  case (Suc n)
  have "le_word (le_bytes (Suc n) w) = ucast (ucast w :: byte) OR push_bit 8 (take_bit (8 * n) (drop_bit 8 w))"
    by (simp add: Suc.IH)
  also have "\<dots> = take_bit (8 * Suc n) w"
    by (rule bit_word_eqI) (auto simp: bit_simps)
  finally show ?case .
qed

lemma le_word_le_bytes:
  "LENGTH('a::len) \<le> 8 * n \<Longrightarrow> le_word (le_bytes n (w :: 'a word)) = w"
  by (simp add: le_word_le_bytes_take take_bit_word_eq_self)

lemma le_bytes_le_word:
  "8 * length bs \<le> LENGTH('a::len) \<Longrightarrow> le_bytes (length bs) (le_word bs :: 'a word) = bs"
proof (induction bs)
  case Nil
  then show ?case by simp
next
  case (Cons b bs)
  from Cons.prems have le: "8 + 8 * length bs \<le> LENGTH('a)" by simp
  have hd: "ucast (ucast b OR push_bit 8 (le_word bs) :: 'a word) = b"
    by (rule bit_word_eqI) (use le in \<open>auto simp: bit_simps\<close>)
  have tl: "drop_bit 8 (ucast b OR push_bit 8 (le_word bs) :: 'a word)
      = take_bit (LENGTH('a) - 8) (le_word bs)"
    by (rule bit_word_eqI) (use le in \<open>auto simp: bit_simps not_less dest: bit_imp_le_length\<close>)
  have agree: "le_bytes n (take_bit k w) = le_bytes n w" if "8 * n \<le> k" for n k and w :: "'a word"
    using that
  proof (induction n arbitrary: k w)
    case 0
    then show ?case by simp
  next
    case (Suc n)
    have "ucast (take_bit k w) = (ucast w :: byte)"
      by (rule bit_word_eqI) (use Suc.prems in \<open>auto simp: bit_simps\<close>)
    moreover have "drop_bit 8 (take_bit k w) = take_bit (k - 8) (drop_bit 8 w)"
      by (rule bit_word_eqI) (use Suc.prems in \<open>auto simp: bit_simps\<close>)
    ultimately show ?case using Suc by simp
  qed
  have "le_bytes (length bs) (drop_bit 8 (ucast b OR push_bit 8 (le_word bs) :: 'a word)) = bs"
    unfolding tl using Cons.IH le by (simp add: agree)
  with hd show ?case by simp
qed

lemma le_bytes_inj:
  "LENGTH('a::len) \<le> 8 * n \<Longrightarrow> le_bytes n (v :: 'a word) = le_bytes n w \<longleftrightarrow> v = w"
  by (metis le_word_le_bytes)

section \<open>Words\<close>

lemma unat_ucast_up:
  "LENGTH('a::len) \<le> LENGTH('b::len) \<Longrightarrow> unat (ucast (w :: 'a word) :: 'b word) = unat w"
proof -
  assume le: "LENGTH('a) \<le> LENGTH('b)"
  have "unat w < 2 ^ LENGTH('a)" by simp
  also have "(2::nat) ^ LENGTH('a) \<le> 2 ^ LENGTH('b)" using le by simp
  finally show ?thesis by (simp add: unsigned_ucast_eq take_bit_nat_eq_self)
qed

lemma unat_of_nat_small: "n < 2 ^ LENGTH('a) \<Longrightarrow> unat (of_nat n :: 'a::len word) = n"
  by (simp add: unat_of_nat)

section \<open>Narrow integers\<close>

text \<open>
  What a store into an \<open>unsigned int\<close>, an \<open>int\<close> or a \<open>size_t\<close> keeps of a number.
\<close>

definition u32_of :: "int \<Rightarrow> nat" where
  "u32_of k = nat (k mod 2 ^ 32)"

definition s32_of :: "int \<Rightarrow> int" where
  "s32_of k = (k + 2 ^ 31) mod 2 ^ 32 - 2 ^ 31"

definition u64_of :: "int \<Rightarrow> nat" where
  "u64_of k = nat (k mod 2 ^ 64)"

lemma u32_of_small: "0 \<le> k \<Longrightarrow> k < 2 ^ 32 \<Longrightarrow> u32_of k = nat k"
  by (simp add: u32_of_def)

lemma u32_of_int: "n < 2 ^ 32 \<Longrightarrow> u32_of (int n) = n"
  by (simp add: u32_of_def)

lemma u32_of_less: "u32_of k < 2 ^ 32"
  by (simp add: u32_of_def nat_less_iff)

lemma s32_of_small: "- (2 ^ 31) \<le> k \<Longrightarrow> k < 2 ^ 31 \<Longrightarrow> s32_of k = k"
  by (simp add: s32_of_def)

lemma s32_of_range: "- (2 ^ 31) \<le> s32_of k" "s32_of k < 2 ^ 31"
  by (simp_all add: s32_of_def)

lemma u64_of_small: "0 \<le> k \<Longrightarrow> k < 2 ^ 64 \<Longrightarrow> u64_of k = nat k"
  by (simp add: u64_of_def)

lemma u64_of_int: "n < 2 ^ 64 \<Longrightarrow> u64_of (int n) = n"
  by (simp add: u64_of_def)

section \<open>Lists\<close>

text \<open>The C string in a buffer: what is before its first zero byte.\<close>

definition c_str :: "bytes \<Rightarrow> bytes" where
  "c_str s = takeWhile (\<lambda>b. b \<noteq> 0) s"


lemma list_update_take_drop:
  "i < length xs \<Longrightarrow> xs[i := x] = take i xs @ x # drop (Suc i) xs"
  by (simp add: upd_conv_take_nth_drop)

lemma mem_put_single: "i < length xs \<Longrightarrow> mem_put i [x] xs = xs[i := x]"
  by (simp add: mem_put_def upd_conv_take_nth_drop)

lemma mem_put_pair: "Suc i < length xs \<Longrightarrow> mem_put i [x, y] xs = xs[Suc i := y, i := x]"
  using mem_put_adjacent [of i "[x]" "Suc i" "[y]" xs] by (simp add: mem_put_single)

lemma takeWhile_eq_all [simp]: "(\<And>x. x \<in> set xs \<Longrightarrow> P x) \<Longrightarrow> takeWhile P xs = xs"
  by (induction xs) auto

lemma c_str_clean: "0 \<notin> set s \<Longrightarrow> c_str s = s"
  unfolding c_str_def by (rule takeWhile_eq_all) auto

lemma length_c_str: "length (c_str s) \<le> length s"
  by (simp add: c_str_def length_takeWhile_le)

lemma concat_map_singleton [simp]: "concat (map (\<lambda>x. [f x]) xs) = map f xs"
  by (induction xs) auto

section \<open>Arrays of fixed-width items\<close>

lemma take_concat_width:
  "\<forall>b\<in>set bs. length b = e \<Longrightarrow> take (e * i) (concat bs) = concat (take i bs)"
proof (induction bs arbitrary: i)
  case Nil
  then show ?case by simp
next
  case (Cons b bs)
  then show ?case by (cases i) auto
qed

lemma drop_concat_width:
  "\<forall>b\<in>set bs. length b = e \<Longrightarrow> drop (e * i) (concat bs) = concat (drop i bs)"
proof (induction bs arbitrary: i)
  case Nil
  then show ?case by simp
next
  case (Cons b bs)
  then show ?case by (cases i) auto
qed

lemma length_concat_width:
  "\<forall>b\<in>set bs. length b = e \<Longrightarrow> length (concat bs) = e * length bs"
  by (induction bs) auto

lemma mem_get_concat_width:
  "\<forall>b\<in>set bs. length b = e \<Longrightarrow> i < length bs \<Longrightarrow> mem_get (e * i) e (concat bs) = bs ! i"
  using nth_mem [of i bs] by (simp add: mem_get_def drop_concat_width Cons_nth_drop_Suc [symmetric])

lemma mem_put_concat_width:
  assumes "\<forall>b\<in>set bs. length b = e" "length x = e" "i < length bs"
  shows "mem_put (e * i) x (concat bs) = concat (bs[i := x])"
proof -
  have "drop (e * i + e) (concat bs) = concat (drop (Suc i) bs)"
    using drop_concat_width [OF assms(1), of "Suc i"] by (simp add: add.commute)
  with assms show ?thesis
    by (simp add: mem_put_def take_concat_width list_update_take_drop)
qed

lemma mem_get_concat_block:
  assumes "\<forall>b\<in>set bs. length b = e"
  shows "mem_get (e * i) (e * n) (concat bs) = concat (mem_get i n bs)"
proof -
  have "\<forall>b\<in>set (drop i bs). length b = e" using assms by (auto dest: in_set_dropD)
  with assms show ?thesis by (simp add: mem_get_def drop_concat_width take_concat_width)
qed

lemma mem_put_concat_block:
  assumes "\<forall>b\<in>set bs. length b = e" "\<forall>x\<in>set xs. length x = e"
  shows "mem_put (e * i) (concat xs) (concat bs) = concat (mem_put i xs bs)"
proof -
  have "drop (e * i + e * length xs) (concat bs) = concat (drop (i + length xs) bs)"
    using drop_concat_width [OF assms(1), of "i + length xs"] by (simp add: algebra_simps)
  with assms(1) show ?thesis
    by (simp add: mem_put_def take_concat_width length_concat_width [OF assms(2)])
qed

text \<open>Moving whole items inside an array is moving bytes inside its image.\<close>

lemma memmove_concat:
  assumes "\<forall>b\<in>set bs. length b = e"
  shows "memmove (e * d) (e * s) (e * n) (concat bs) = concat (memmove d s n bs)"
proof -
  have "\<forall>b\<in>set (mem_get s n bs). length b = e"
    using assms by (auto simp: mem_get_def dest: in_set_dropD in_set_takeD)
  with assms show ?thesis
    by (simp add: memmove_def mem_get_concat_block mem_put_concat_block)
qed

lemma concat_chunks:
  "length xs = e * n \<Longrightarrow> xs = concat (map (\<lambda>i. mem_get (e * i) e xs) [0..<n])"
proof (induction n arbitrary: xs)
  case 0
  then show ?case by simp
next
  case (Suc n)
  let ?ys = "take (e * n) xs"
  have ys: "?ys = concat (map (\<lambda>i. mem_get (e * i) e ?ys) [0..<n])"
    using Suc by (intro Suc.IH) simp
  have eq: "mem_get (e * i) e ?ys = mem_get (e * i) e xs" if "i < n" for i
  proof -
    have "e * i + e \<le> e * n" using that by (metis Suc_leI mult_Suc_right add.commute mult_le_mono2)
    then show ?thesis by (simp add: mem_get_def drop_take)
  qed
  have "xs = ?ys @ mem_get (e * n) e xs" using Suc.prems by (simp add: mem_get_def)
  also have "?ys = concat (map (\<lambda>i. mem_get (e * i) e xs) [0..<n])"
  proof -
    have "map (\<lambda>i. mem_get (e * i) e ?ys) [0..<n] = map (\<lambda>i. mem_get (e * i) e xs) [0..<n]"
      using eq by simp
    with ys show ?thesis by (simp only:)
  qed
  finally show ?case by simp
qed

end
