(* ===== verification/Util.thy ===== *)
theory Util
  imports Prelude
begin

text \<open>
  The integer conversions of \<open>util.c\<close>: \<open>digits10\<close>, \<open>ll2string\<close>, \<open>string2ll\<close>,
  \<open>string2l\<close>.  A \<open>long long\<close> is a 64-bit word read with \<open>sint\<close>, an
  \<open>unsigned long long\<close> the same word read with \<open>unat\<close>; all arithmetic wraps as in C.
  The reference is \<open>decimal\<close>, the canonical decimal text of an integer.
\<close>

section \<open>Model\<close>

definition LLONG_MAX :: u64 where "LLONG_MAX = 0x7fffffffffffffff"
definition LLONG_MIN :: u64 where "LLONG_MIN = 0x8000000000000000"
definition ULLONG_MAX :: u64 where "ULLONG_MAX = 0xffffffffffffffff"

lemmas limit_defs = LLONG_MAX_def LLONG_MIN_def ULLONG_MAX_def

text \<open>\<open>digits10\<close>: a decision tree below \<open>10 ^ 12\<close>, a recursive call above.\<close>

function digits10 :: "u64 \<Rightarrow> nat" where
  "digits10 v =
    (if v < 10 then 1
     else if v < 100 then 2
     else if v < 1000 then 3
     else if v < 1000000000000 then
       (if v < 100000000 then
          (if v < 1000000 then
             (if v < 10000 then 4 else 5 + of_bool (v \<ge> 100000))
           else 7 + of_bool (v \<ge> 10000000))
        else if v < 10000000000 then 9 + of_bool (v \<ge> 1000000000)
        else 11 + of_bool (v \<ge> 100000000000))
     else 12 + digits10 (v div 1000000000000))"
  by pat_completeness auto
termination
  by (relation "measure unat") (auto simp: unat_div_distrib word_less_nat_alt word_le_nat_alt not_less
      intro!: div_less_dividend)

declare digits10.simps [simp del]

text \<open>The table \<open>digits[201]\<close>: the two digits of \<open>00\<close> to \<open>99\<close>, without the terminator.\<close>

definition digits :: bytes where
  "digits = str (''0001020304050607080910111213141516171819'' @
                 ''2021222324252627282930313233343536373839'' @
                 ''4041424344454647484950515253545556575859'' @
                 ''6061626364656667686970717273747576777879'' @
                 ''8081828384858687888990919293949596979899'')"

text \<open>
  The loop \<open>while (value >= 100)\<close> over the buffer \<open>dst\<close>, the write position \<open>next\<close>
  and the value.
\<close>

function ll2string_loop :: "bytes \<Rightarrow> nat \<Rightarrow> u64 \<Rightarrow> bytes \<times> nat \<times> u64" where
  "ll2string_loop dst nxt value =
    (if value \<ge> 100
     then let i = unat (value mod 100) * 2;
              value' = value div 100;
              dst1 = dst[nxt := digits ! (i + 1)];
              dst2 = dst1[nxt - 1 := digits ! i]
          in ll2string_loop dst2 (nxt - 2) value'
     else (dst, nxt, value))"
  by pat_completeness auto
termination
  by (relation "measure (\<lambda>(_, _, v). unat v)")
    (auto simp: unat_div_distrib word_le_nat_alt intro!: div_less_dividend)

declare ll2string_loop.simps [simp del]

text \<open>
  \<open>ll2string(dst, dstlen, svalue)\<close>: the returned length and the buffer afterwards.
\<close>

definition ll2string :: "bytes \<Rightarrow> nat \<Rightarrow> u64 \<Rightarrow> nat \<times> bytes" where
  "ll2string dst dstlen svalue =
    (let negative = svalue <s 0;
         value = (if negative
                  then (if svalue \<noteq> LLONG_MIN then - svalue else LLONG_MAX + 1)
                  else svalue);
         len = digits10 value + of_bool negative
     in if len \<ge> dstlen then (0, dst)
        else
          let dst0 = dst[len := 0];
              (dst1, nxt, v) = ll2string_loop dst0 (len - 1) value;
              dst2 = (if v < 10 then dst1[nxt := ch CHR ''0'' + ucast v]
                      else let i = unat v * 2
                           in (dst1[nxt := digits ! (i + 1)])[nxt - 1 := digits ! i]);
              dst3 = (if negative then dst2[0 := ch CHR ''-''] else dst2)
          in (len, dst3))"

text \<open>The digit loop of \<open>string2ll\<close>: \<open>None\<close> on overflow, else the value and what is left.\<close>

fun string2ll_loop :: "u64 \<Rightarrow> bytes \<Rightarrow> (u64 \<times> bytes) option" where
  "string2ll_loop v [] = Some (v, [])"
| "string2ll_loop v (c # p) =
    (if ch CHR ''0'' \<le> c \<and> c \<le> ch CHR ''9'' then
       (if v > ULLONG_MAX div 10 then None
        else let v1 = v * 10
             in if v1 > ULLONG_MAX - ucast (c - ch CHR ''0'') then None
                else string2ll_loop (v1 + ucast (c - ch CHR ''0'')) p)
     else Some (v, c # p))"

text \<open>
  \<open>string2ll(s, slen, &value)\<close> with \<open>slen = length s\<close>: \<open>Some\<close> the stored value when it
  returns 1, \<open>None\<close> when it returns 0.
\<close>

definition string2ll :: "bytes \<Rightarrow> u64 option" where
  "string2ll s =
    (if s = [] then None
     else if length s = 1 \<and> hd s = ch CHR ''0'' then Some 0
     else
       let negative = (hd s = ch CHR ''-'');
           p = (if negative then tl s else s)
       in if negative \<and> p = [] then None
          else if ch CHR ''1'' \<le> hd p \<and> hd p \<le> ch CHR ''9'' then
            (case string2ll_loop (ucast (hd p - ch CHR ''0'')) (tl p) of
               None \<Rightarrow> None
             | Some (v, rest) \<Rightarrow>
                 if rest \<noteq> [] then None
                 else if negative then
                   (if v > (- (LLONG_MIN + 1)) + 1 then None else Some (- v))
                 else (if v > LLONG_MAX then None else Some v))
          else if hd p = ch CHR ''0'' \<and> length s = 1 then Some 0
          else None)"

text \<open>\<open>string2l\<close>: on the platforms Redis builds for with a 64-bit \<open>long\<close> the range test never fails.\<close>

definition string2l :: "bytes \<Rightarrow> u64 option" where
  "string2l s =
    (case string2ll s of
       None \<Rightarrow> None
     | Some llval \<Rightarrow> if llval <s LLONG_MIN \<or> LLONG_MAX <s llval then None else Some llval)"

section \<open>Reference: canonical decimal text\<close>

definition digit :: "nat \<Rightarrow> byte" where
  "digit d = ch CHR ''0'' + of_nat d"

fun dec_nat :: "nat \<Rightarrow> bytes" where
  "dec_nat n = (if n < 10 then [digit n] else dec_nat (n div 10) @ [digit (n mod 10)])"

declare dec_nat.simps [simp del]

definition decimal :: "int \<Rightarrow> bytes" where
  "decimal i = (if i < 0 then ch CHR ''-'' # dec_nat (nat (- i)) else dec_nat (nat i))"

definition is_digit :: "byte \<Rightarrow> bool" where
  "is_digit c \<longleftrightarrow> ch CHR ''0'' \<le> c \<and> c \<le> ch CHR ''9''"

definition digit_val :: "byte \<Rightarrow> nat" where
  "digit_val c = unat c - 48"

definition digits_val :: "nat \<Rightarrow> bytes \<Rightarrow> nat" where
  "digits_val a ds = foldl (\<lambda>a d. 10 * a + digit_val d) a ds"

section \<open>Decimal text\<close>

lemma dec_nat_small: "n < 10 \<Longrightarrow> dec_nat n = [digit n]"
  by (subst dec_nat.simps) simp

lemma dec_nat_step: "10 \<le> n \<Longrightarrow> dec_nat n = dec_nat (n div 10) @ [digit (n mod 10)]"
  by (subst dec_nat.simps) simp

lemma dec_nat_nonempty [simp]: "dec_nat n \<noteq> []"
  by (subst dec_nat.simps) simp

lemma digit_zero [simp]: "digit 0 = 48"
  by (simp add: digit_def)

lemma dec_nat_zero [simp]: "dec_nat 0 = [48]"
  by (simp add: dec_nat_small)

lemma dec_nat_nonempty' [simp]: "[] \<noteq> dec_nat n"
  by (metis dec_nat_nonempty)

lemma dec_nat_hundred:
  "100 \<le> n \<Longrightarrow> dec_nat n = dec_nat (n div 100) @ [digit (n mod 100 div 10), digit (n mod 10)]"
proof -
  assume n: "100 \<le> n"
  have "n mod 100 = 10 * (n div 10 mod 10) + n mod 10"
    using mod_mult2_eq [of n 10 10] by simp
  then have "n div 10 mod 10 = n mod 100 div 10" by simp
  with n show ?thesis
    by (simp add: dec_nat_step [of n] dec_nat_step [of "n div 10"] flip: div_mult2_eq)
qed

lemma length_dec_nat_div:
  "10 ^ k \<le> n \<Longrightarrow> length (dec_nat n) = k + length (dec_nat (n div 10 ^ k))"
proof (induction k arbitrary: n)
  case 0
  then show ?case by simp
next
  case (Suc k)
  have "1 \<le> (10::nat) ^ k" by simp
  with Suc.prems have "10 \<le> n" unfolding power_Suc by linarith
  moreover have "10 ^ k \<le> n div 10"
    using Suc.prems by (simp add: less_eq_div_iff_mult_less_eq mult.commute)
  ultimately show ?case
    using Suc.IH [of "n div 10"] by (simp add: dec_nat_step [of n] div_mult2_eq)
qed

lemma length_dec_nat_range:
  assumes "10 ^ k \<le> n" "n < 10 ^ Suc k"
  shows "length (dec_nat n) = Suc k"
proof -
  have "n div 10 ^ k < 10" using assms(2) by (simp add: less_mult_imp_div_less)
  with length_dec_nat_div [OF assms(1)] show ?thesis by (simp add: dec_nat_small)
qed

lemma unat_digit: "d < 10 \<Longrightarrow> unat (digit d) = 48 + d"
  by (simp add: digit_def unat_word_ariths unat_of_nat)

lemma is_digit_digit [simp]: "d < 10 \<Longrightarrow> is_digit (digit d)"
  by (simp add: is_digit_def word_le_nat_alt unat_digit)

lemma digit_val_digit [simp]: "d < 10 \<Longrightarrow> digit_val (digit d) = d"
  by (simp add: digit_val_def unat_digit)

lemma digit_digit_val: "is_digit c \<Longrightarrow> digit (digit_val c) = c"
  by (rule word_unat_eq_iff [THEN iffD2])
    (auto simp: digit_def digit_val_def is_digit_def word_le_nat_alt unat_word_ariths unat_of_nat)

lemma digit_val_lt: "is_digit c \<Longrightarrow> digit_val c < 10"
  by (auto simp: digit_val_def is_digit_def word_le_nat_alt)

lemma digit_val_word: "is_digit c \<Longrightarrow> unat (c - 48) = digit_val c"
  by (auto simp: digit_val_def is_digit_def word_le_nat_alt unat_sub)

lemma dec_nat_digits: "d \<in> set (dec_nat n) \<Longrightarrow> is_digit d"
proof (induction n rule: dec_nat.induct)
  case (1 n)
  then show ?case by (cases "n < 10") (auto simp: dec_nat_small dec_nat_step)
qed

lemma digits_val_simps [simp]:
  "digits_val a [] = a"
  "digits_val a (d # ds) = digits_val (10 * a + digit_val d) ds"
  by (simp_all add: digits_val_def)

lemma digits_val_snoc: "digits_val a (ds @ [d]) = 10 * digits_val a ds + digit_val d"
  by (simp add: digits_val_def)

lemma digits_val_dec_nat [simp]: "digits_val 0 (dec_nat n) = n"
proof (induction n rule: dec_nat.induct)
  case (1 n)
  then show ?case by (cases "n < 10") (auto simp: dec_nat_small dec_nat_step digits_val_snoc)
qed

lemma dec_nat_eq_iff [simp]: "dec_nat m = dec_nat n \<longleftrightarrow> m = n"
  by (metis digits_val_dec_nat)

lemma digits_val_mono: "a \<le> digits_val a ds"
proof (induction ds arbitrary: a)
  case Nil
  then show ?case by simp
next
  case (Cons d ds)
  have "a \<le> 10 * a + digit_val d" by simp
  also have "\<dots> \<le> digits_val (10 * a + digit_val d) ds" by (rule Cons.IH)
  finally show ?case by simp
qed

text \<open>A digit string without a leading zero is the canonical text of its value.\<close>

lemma dec_nat_digits_val:
  assumes "ds \<noteq> []" "\<forall>d\<in>set ds. is_digit d" "ds = [ch CHR ''0''] \<or> hd ds \<noteq> ch CHR ''0''"
  shows "dec_nat (digits_val 0 ds) = ds"
  using assms
proof (induction ds rule: rev_induct)
  case Nil
  then show ?case by simp
next
  case (snoc d ds)
  show ?case
  proof (cases "ds = []")
    case True
    with snoc.prems show ?thesis
      by (simp add: dec_nat_small digit_val_lt digit_digit_val)
  next
    case False
    with snoc.prems have hd: "hd ds \<noteq> ch CHR ''0''" and dig: "is_digit d" by auto
    with False snoc have IH: "dec_nat (digits_val 0 ds) = ds" by simp
    have "digits_val 0 ds \<noteq> 0"
    proof
      assume "digits_val 0 ds = 0"
      then have "ds = [digit 0]" using IH by (simp add: dec_nat_small)
      with hd show False by (simp add: digit_def)
    qed
    then have "10 \<le> 10 * digits_val 0 ds + digit_val d" by simp
    then show ?thesis
      using dig IH digit_val_lt [OF dig]
      by (simp add: digits_val_snoc dec_nat_step digit_digit_val)
  qed
qed

lemma hd_dec_nat: "0 < n \<Longrightarrow> hd (dec_nat n) \<noteq> ch CHR ''0''"
proof (induction n rule: dec_nat.induct)
  case (1 n)
  show ?case
  proof (cases "n < 10")
    case True
    then have "unat (hd (dec_nat n)) = 48 + n" by (simp add: dec_nat_small unat_digit)
    with "1.prems" show ?thesis by auto
  next
    case False
    with 1 show ?thesis by (simp add: dec_nat_step)
  qed
qed

section \<open>\<open>digits10\<close>\<close>

lemma digits10_eq: "digits10 v = length (dec_nat (unat v))"
proof (induction v rule: digits10.induct)
  case (1 v)
  note range = length_dec_nat_range
  show ?case
  proof (cases "v < 1000000000000")
    case True
    then have "unat v < 10 ^ 12" by (simp add: word_less_nat_alt)
    then show ?thesis
      by (subst digits10.simps)
        (auto simp: word_less_nat_alt word_le_nat_alt not_less not_le dec_nat_small
          range [of 1, simplified] range [of 2, simplified] range [of 3, simplified]
          range [of 4, simplified] range [of 5, simplified] range [of 6, simplified]
          range [of 7, simplified] range [of 8, simplified] range [of 9, simplified]
          range [of 10, simplified] range [of 11, simplified])
  next
    case False
    then have ge: "10 ^ 12 \<le> unat v" by (simp add: word_less_nat_alt)
    have "\<not> v < 10" "\<not> v < 100" "\<not> v < 1000" using False by (auto simp: word_less_nat_alt)
    moreover from this False have "digits10 (v div 1000000000000)
        = length (dec_nat (unat (v div 1000000000000)))"
      using "1.IH" by simp
    ultimately show ?thesis
      using False length_dec_nat_div [OF ge]
      by (subst digits10.simps) (simp add: unat_div_distrib)
  qed
qed

lemma digits10_pos: "0 < digits10 v"
  by (simp add: digits10_eq)

section \<open>\<open>ll2string\<close>\<close>

lemma nth_concat_pairs:
  assumes "i < n"
  shows "concat (map (\<lambda>i. [f i, g i]) [0..<n]) ! (2 * i) = f i
    \<and> concat (map (\<lambda>i. [f i, g i]) [0..<n]) ! (2 * i + 1) = g i"
  using assms
proof (induction n)
  case 0
  then show ?case by simp
next
  case (Suc n)
  have len: "length (concat (map (\<lambda>i. [f i, g i]) [0..<n])) = 2 * n"
    by (induction n) auto
  show ?case
    using Suc by (cases "i = n") (auto simp: nth_append len)
qed

lemma digits_concat: "digits = concat (map (\<lambda>i. [digit (i div 10), digit (i mod 10)]) [0..<100])"
  by (simp add: digits_def digit_def upt_rec)

lemma digits_table:
  "i < 100 \<Longrightarrow> digits ! (2 * i) = digit (i div 10) \<and> digits ! (2 * i + 1) = digit (i mod 10)"
  unfolding digits_concat by (rule nth_concat_pairs)

text \<open>What the loop and the last two digits write: the decimal text, ending at \<open>nxt\<close>.\<close>

lemma ll2string_loop_writes:
  assumes "ll2string_loop dst nxt v = (dst1, n1, v1)"
    and "length (dec_nat (unat v)) \<le> Suc nxt" and "nxt < length dst"
  shows "(if v1 < 10 then dst1[n1 := ch CHR ''0'' + ucast v1]
          else (dst1[n1 := digits ! (unat v1 * 2 + 1)])[n1 - 1 := digits ! (unat v1 * 2)])
        = mem_put (Suc nxt - length (dec_nat (unat v))) (dec_nat (unat v)) dst"
  using assms
proof (induction dst nxt v rule: ll2string_loop.induct)
  case (1 dst nxt v)
  show ?case
  proof (cases "100 \<le> v")
    case True
    let ?i = "unat (v mod 100)"
    let ?d1 = "dst[nxt := digits ! (?i * 2 + 1)]" let ?d2 = "?d1[nxt - 1 := digits ! (?i * 2)]"
    let ?hi = "dec_nat (unat (v div 100))"
    have i: "?i = unat v mod 100" "?i < 100" by (simp_all add: unat_mod_distrib)
    have ge: "100 \<le> unat v" using True by (simp add: word_le_nat_alt)
    have dec: "dec_nat (unat v) = ?hi @ [digit (?i div 10), digit (?i mod 10)]"
      using dec_nat_hundred [OF ge] by (simp add: i unat_div_distrib mod_mod_cancel)
    have pos: "0 < length ?hi" by simp
    have "Suc (length ?hi) \<le> nxt" using "1.prems"(2) unfolding dec by simp
    with pos have nxt: "Suc (Suc (nxt - 2)) = nxt" "2 \<le> nxt" by linarith+
    have d2: "?d2 = mem_put (nxt - 1) [digit (?i div 10), digit (?i mod 10)] dst"
      using digits_table [OF i(2)] nxt "1.prems"(3)
      by (simp add: mem_put_pair mult.commute)
    have "ll2string_loop ?d2 (nxt - 2) (v div 100) = (dst1, n1, v1)"
      using "1.prems"(1) True by (subst (asm) ll2string_loop.simps) (simp add: Let_def)
    then have "(if v1 < 10 then dst1[n1 := ch CHR ''0'' + ucast v1]
          else (dst1[n1 := digits ! (unat v1 * 2 + 1)])[n1 - 1 := digits ! (unat v1 * 2)])
        = mem_put (Suc (nxt - 2) - length ?hi) ?hi ?d2"
      using "1.IH" [OF True refl refl refl refl] "1.prems"(2,3) nxt unfolding dec by simp
    also have "\<dots> = mem_put (Suc nxt - length (dec_nat (unat v))) (dec_nat (unat v)) dst"
      unfolding d2 dec using "1.prems"(2,3) nxt unfolding dec
      by (subst mem_put_adjacent) auto
    finally show ?thesis .
  next
    case False
    then have eq: "dst1 = dst" "n1 = nxt" "v1 = v"
      using "1.prems"(1) by (simp_all add: ll2string_loop.simps [of dst nxt v])
    have lt: "unat v < 100" using False by (simp add: word_le_nat_alt)
    show ?thesis
    proof (cases "v < 10")
      case True
      then have "unat v < 10" by (simp add: word_less_nat_alt)
      moreover have "digit (unat v) = ch CHR ''0'' + ucast v"
        by (simp add: digit_def unsigned_of_nat)
      ultimately show ?thesis using True "1.prems"(3)
        by (simp add: eq dec_nat_small mem_put_single)
    next
      case False
      then have ge: "10 \<le> unat v" by (simp add: word_less_nat_alt)
      moreover from lt have "unat v div 10 < 10" by simp
      ultimately have "dec_nat (unat v) = [digit (unat v div 10), digit (unat v mod 10)]"
        by (simp add: dec_nat_step dec_nat_small)
      then show ?thesis using False "1.prems"(2,3) digits_table [OF lt]
        by (simp add: eq mem_put_pair mult.commute)
    qed
  qed
qed

text \<open>The magnitude the code computes before the loop.\<close>

definition magnitude :: "u64 \<Rightarrow> u64" where
  "magnitude svalue = (if svalue <s 0 then - svalue else svalue)"

lemma magnitude_code:
  "(if svalue <s 0 then (if svalue \<noteq> LLONG_MIN then - svalue else LLONG_MAX + 1) else svalue)
     = magnitude svalue"
  by (auto simp: magnitude_def limit_defs)

lemma sint_range64: "- (2 ^ 63) \<le> sint (v :: u64)" "sint (v :: u64) < 2 ^ 63"
  using sint_greater_eq [of v] sint_less [of v] by simp_all

lemma uint_sint64: "uint (v :: u64) = (if sint v < 0 then sint v + 2 ^ 64 else sint v)"
proof -
  have "uint v = sint v mod 2 ^ 64" by (simp add: uint_sint take_bit_eq_mod)
  also have "\<dots> = (if sint v < 0 then sint v + 2 ^ 64 else sint v)"
  proof (cases "sint v < 0")
    case True
    have "sint v mod 2 ^ 64 = (sint v + 2 ^ 64) mod 2 ^ 64" by simp
    also have "\<dots> = sint v + 2 ^ 64"
      by (rule mod_pos_pos_trivial) (use sint_range64 [of v] True in simp_all)
    finally show ?thesis using True by simp
  next
    case False
    then show ?thesis using sint_range64 [of v] by (simp add: mod_pos_pos_trivial)
  qed
  finally show ?thesis .
qed

lemma unat_magnitude: "unat (magnitude v) = nat \<bar>sint v\<bar>"
proof (cases "sint v < 0")
  case True
  have "uint (- v) = (- uint v) mod 2 ^ 64" by (simp add: uint_word_ariths)
  also have "\<dots> = (- sint v) mod 2 ^ 64" using True by (subst uint_sint64) (simp add: mod_diff_left_eq [symmetric])
  also have "\<dots> = - sint v"
    by (rule mod_pos_pos_trivial) (use sint_range64 [of v] True in simp_all)
  finally have "uint (- v) = - sint v" .
  with True show ?thesis by (simp add: magnitude_def word_sless_alt unat_eq_nat_uint)
next
  case False
  then show ?thesis by (simp add: magnitude_def word_sless_alt unat_eq_nat_uint uint_sint64)
qed

lemma unat64_less: "unat (v :: u64) < 2 ^ 64"
  using unsigned_less [of v, where 'a = nat] by simp

lemma length_decimal: "length (decimal (sint v)) = digits10 (magnitude v) + of_bool (v <s 0)"
  by (auto simp: decimal_def digits10_eq unat_magnitude word_sless_alt)

lemma ll2string_ok:
  assumes "dstlen \<le> length dst"
  shows "ll2string dst dstlen v =
    (if length (decimal (sint v)) < dstlen
     then (length (decimal (sint v)), mem_put 0 (decimal (sint v) @ [0]) dst)
     else (0, dst))"
proof -
  let ?neg = "v <s 0" let ?dec = "dec_nat (unat (magnitude v))"
  let ?len = "digits10 (magnitude v) + of_bool ?neg"
  have d: "decimal (sint v) = (if ?neg then ch CHR ''-'' # ?dec else ?dec)"
    by (auto simp: decimal_def unat_magnitude word_sless_alt)
  have pos: "0 < digits10 (magnitude v)" by (rule digits10_pos)
  show ?thesis
  proof (cases "?len < dstlen")
    case False
    then show ?thesis
      by (simp add: ll2string_def magnitude_code Let_def length_decimal)
  next
    case True
    let ?dst0 = "dst[?len := 0]"
    have lt: "?len < length dst" using True assms by simp
    obtain dst1 n1 v1 where loop: "ll2string_loop ?dst0 (?len - 1) (magnitude v) = (dst1, n1, v1)"
      by (metis prod_cases3)
    let ?dst2 = "if v1 < 10 then dst1[n1 := ch CHR ''0'' + ucast v1]
          else (dst1[n1 := digits ! (unat v1 * 2 + 1)])[n1 - 1 := digits ! (unat v1 * 2)]"
    have "?dst2 = mem_put (Suc (?len - 1) - length ?dec) ?dec ?dst0"
      using loop by (rule ll2string_loop_writes) (use lt pos in \<open>auto simp: digits10_eq\<close>)
    also have "Suc (?len - 1) - length ?dec = of_bool ?neg"
      using pos by (simp add: digits10_eq)
    also have "?dst0 = mem_put ?len [0] dst" using lt by (simp add: mem_put_single)
    also have "mem_put (of_bool ?neg) ?dec (mem_put ?len [0] dst) = mem_put (of_bool ?neg) (?dec @ [0]) dst"
      using lt by (intro mem_put_adjacent) (auto simp: digits10_eq)
    finally have dst2: "?dst2 = mem_put (of_bool ?neg) (?dec @ [0]) dst" .
    have fin: "(if ?neg then ?dst2[0 := ch CHR ''-''] else ?dst2) = mem_put 0 (decimal (sint v) @ [0]) dst"
    proof (cases ?neg)
      case True
      have l: "length (mem_put (Suc 0) (?dec @ [0]) dst) = length dst"
        using lt True by (intro length_mem_put) (simp add: digits10_eq)
      have "?dst2[0 := ch CHR ''-''] = mem_put 0 [ch CHR ''-''] (mem_put (Suc 0) (?dec @ [0]) dst)"
        using True lt l by (subst mem_put_single) (auto simp: dst2 simp del: length_greater_0_conv)
      also have "\<dots> = mem_put 0 ([ch CHR ''-''] @ ?dec @ [0]) dst"
        using lt True by (intro mem_put_adjacent) (auto simp: digits10_eq)
      finally show ?thesis using True by (simp add: d)
    next
      case False
      then show ?thesis by (simp add: dst2 d)
    qed
    show ?thesis
      unfolding ll2string_def magnitude_code Let_def length_decimal
      using True fin loop by (simp split del: if_split)
  qed
qed

text \<open>
  C36: \<open>ll2string\<close> writes exactly the canonical decimal text of the 64-bit value and its
  terminator when the buffer has room for both, touches nothing else, and returns 0 with the
  buffer unchanged when it has not.
\<close>

theorem ll2string_decimal:
  assumes "dstlen \<le> length dst"
  shows "ll2string dst dstlen v =
    (if length (decimal (sint v)) < dstlen
     then (length (decimal (sint v)), mem_put 0 (decimal (sint v) @ [0]) dst)
     else (0, dst))"
  by (rule ll2string_ok [OF assms])

theorem ll2string_decimal_witness:
  "fst (ll2string (replicate 21 1) 21 LLONG_MIN) = length (decimal (- (2 ^ 63)))"
proof -
  have len: "length (decimal (sint LLONG_MIN)) = 20" by (simp add: limit_defs decimal_def dec_nat.simps)
  have "ll2string (replicate 21 1) 21 LLONG_MIN =
     (20, mem_put 0 (decimal (sint LLONG_MIN) @ [0]) (replicate 21 1))"
    using ll2string_decimal [of 21 "replicate 21 1" LLONG_MIN] by (simp add: len)
  with len show ?thesis by (simp add: limit_defs)
qed

section \<open>\<open>string2ll\<close>\<close>

lemma string2ll_loop_digit:
  "string2ll_loop v (c # p) =
    (if is_digit c then
       (if v > ULLONG_MAX div 10 then None
        else if v * 10 > ULLONG_MAX - ucast (c - 48) then None
        else string2ll_loop (v * 10 + ucast (c - 48)) p)
     else Some (v, c # p))"
  by (simp add: is_digit_def Let_def)

lemma string2ll_loop_eq:
  "string2ll_loop v p =
    (let n = digits_val (unat v) (takeWhile is_digit p)
     in if n < 2 ^ 64 then Some (of_nat n, dropWhile is_digit p) else None)"
proof (induction v p rule: string2ll_loop.induct)
  case (1 v)
  then show ?case using unat64_less [of v] by (simp add: Let_def)
next
  case (2 v c p)
  show ?case
  proof (cases "is_digit c")
    case False
    then show ?thesis using unat64_less [of v]
      by (simp add: string2ll_loop_digit Let_def del: string2ll_loop.simps)
  next
    case True
    let ?d = "digit_val c" let ?w = "ucast (c - 48) :: u64"
    let ?n = "digits_val (10 * unat v + ?d) (takeWhile is_digit p)"
    have d: "unat ?w = ?d" "?d < 10" using True
      by (simp_all add: digit_val_word digit_val_lt unat_ucast_up)
    have mono: "10 * unat v + ?d \<le> ?n" by (rule digits_val_mono)
    have range: "ch CHR ''0'' \<le> c \<and> c \<le> ch CHR ''9''" using True by (simp add: is_digit_def)
    show ?thesis
    proof (cases "v > ULLONG_MAX div 10")
      case over: True
      then have "1844674407370955161 < unat v" by (simp add: limit_defs word_less_nat_alt)
      then have "\<not> ?n < 2 ^ 64" using mono by simp
      with True over show ?thesis
        by (simp add: string2ll_loop_digit Let_def del: string2ll_loop.simps)
    next
      case nover: False
      then have le: "unat v \<le> 1844674407370955161" by (simp add: limit_defs word_less_nat_alt)
      then have v1: "unat (v * 10) = 10 * unat v" by (simp add: unat_word_ariths)
      have max: "unat (ULLONG_MAX - ?w) = 2 ^ 64 - 1 - ?d"
        using d by (subst unat_sub) (simp_all add: limit_defs word_le_nat_alt)
      show ?thesis
      proof (cases "v * 10 > ULLONG_MAX - ?w")
        case over: True
        then have "\<not> ?n < 2 ^ 64" using mono d v1 max by (simp add: word_less_nat_alt)
        with True nover over show ?thesis
        by (simp add: string2ll_loop_digit Let_def del: string2ll_loop.simps)
      next
        case nover2: False
        then have "10 * unat v + ?d < 2 ^ 64" using d v1 max by (simp add: word_less_nat_alt)
        then have "unat (v * 10 + ?w) = 10 * unat v + ?d" by (simp add: unat_word_ariths v1 d)
        then show ?thesis using True nover nover2 "2.IH" range
          by (simp add: string2ll_loop_digit Let_def del: string2ll_loop.simps)
      qed
    qed
  qed
qed

lemma string2ll_unsigned:
  assumes "p \<noteq> []"
  shows "(\<exists>v. string2ll_loop (ucast (hd p - ch CHR ''0'')) (tl p) = Some (v, []) \<and> unat v = n)
      \<and> ch CHR ''1'' \<le> hd p \<and> hd p \<le> ch CHR ''9''
    \<longleftrightarrow> p = dec_nat n \<and> 0 < n \<and> n < 2 ^ 64"
    (is "?L \<longleftrightarrow> ?R")
proof
  obtain c q where p: "p = c # q" using assms by (cases p) auto
  have hd_digit: "is_digit c \<and> c \<noteq> ch CHR ''0'' \<longleftrightarrow> ch CHR ''1'' \<le> c \<and> c \<le> ch CHR ''9''" for c
    by (auto simp: is_digit_def word_le_nat_alt word_unat_eq_iff)
  let ?w = "ucast (c - ch CHR ''0'') :: u64"
  {
    assume L: ?L
    then have dig: "is_digit c" "c \<noteq> ch CHR ''0''" using hd_digit [of c] by (auto simp: p)
    have w: "unat ?w = digit_val c" using dig by (simp add: digit_val_word unat_ucast_up)
    from L obtain v where "string2ll_loop ?w q = Some (v, [])" "unat v = n" by (auto simp: p)
    then have q: "dropWhile is_digit q = []" and n: "n = digits_val (unat ?w) (takeWhile is_digit q)"
      and lt: "n < 2 ^ 64"
      by (auto simp: string2ll_loop_eq Let_def unat_of_nat split: if_splits)
    have all: "\<forall>d\<in>set q. is_digit d" using q by simp
    then have nv: "n = digits_val 0 p" using n w by (simp add: p)
    have pn: "p = dec_nat n"
      unfolding nv by (rule dec_nat_digits_val [symmetric]) (use all dig in \<open>auto simp: p\<close>)
    have "0 < n"
    proof (rule ccontr)
      assume "\<not> 0 < n"
      then have "p = [digit 0]" using pn by (simp add: dec_nat_small)
      then show False using dig by (simp add: p digit_def)
    qed
    with pn lt show ?R by simp
  }
  {
    assume R: ?R
    then have all: "\<forall>d\<in>set p. is_digit d" using dec_nat_digits by blast
    have c0: "c \<noteq> ch CHR ''0''" using R hd_dec_nat [of n] by (metis p list.sel(1))
    have w: "unat ?w = digit_val c" using all by (simp add: p digit_val_word unat_ucast_up)
    have "n = digits_val 0 p" using R by simp
    then have nv: "n = digits_val (unat ?w) q" using w by (simp add: p)
    have tw: "takeWhile is_digit q = q" "dropWhile is_digit q = []" using all by (auto simp: p)
    have "string2ll_loop ?w q = Some (of_nat n, [])"
      using R nv tw by (simp add: string2ll_loop_eq Let_def)
    moreover have "ch CHR ''1'' \<le> c \<and> c \<le> ch CHR ''9''"
      using all c0 hd_digit [of c] by (simp add: p)
    ultimately show ?L
      using R unfolding p list.sel by (auto simp: unat_of_nat simp del: of_char_Char)
  }
qed

text \<open>The unsigned part of \<open>string2ll\<close>: what is parsed after the optional sign.\<close>

definition parse_magnitude :: "bytes \<Rightarrow> u64 option" where
  "parse_magnitude p =
    (if ch CHR ''1'' \<le> hd p \<and> hd p \<le> ch CHR ''9'' then
       (case string2ll_loop (ucast (hd p - ch CHR ''0'')) (tl p) of
          None \<Rightarrow> None
        | Some (v, rest) \<Rightarrow> if rest \<noteq> [] then None else Some v)
     else None)"

lemma parse_magnitude_iff:
  "p \<noteq> [] \<Longrightarrow> parse_magnitude p = Some w \<longleftrightarrow> p = dec_nat (unat w) \<and> 0 < unat w"
  using string2ll_unsigned [of p "unat w"] unat64_less [of w]
  by (auto simp: parse_magnitude_def simp del: of_char_Char split: option.splits if_splits
      dest!: word_unat_eq_iff [THEN iffD2])

lemma string2ll_parse:
  "s \<noteq> [] \<Longrightarrow> s \<noteq> [ch CHR ''0''] \<Longrightarrow>
    string2ll s =
      (if hd s = ch CHR ''-'' then
         (if tl s = [] then None else
          case parse_magnitude (tl s) of None \<Rightarrow> None
          | Some v \<Rightarrow> if v > LLONG_MIN then None else Some (- v))
       else
         (case parse_magnitude s of None \<Rightarrow> None
          | Some v \<Rightarrow> if v > LLONG_MAX then None else Some v))"
proof -
  assume "s \<noteq> []" and ne0: "s \<noteq> [ch CHR ''0'']"
  then obtain c q where s: "s = c # q" by (cases s) auto
  have no0: "\<not> (length s = 1 \<and> hd s = ch CHR ''0'')" "\<not> (hd s = ch CHR ''0'' \<and> length s = 1)"
    using ne0 by (auto simp: s)
  have min: "(- (LLONG_MIN + 1)) + 1 = LLONG_MIN" by (simp add: limit_defs)
  show ?thesis
  proof (cases "c = ch CHR ''-''")
    case True
    then show ?thesis using no0
      unfolding string2ll_def parse_magnitude_def min Let_def s list.sel True
      by (auto simp del: of_char_Char split: option.splits)
  next
    case False
    then show ?thesis using no0
      unfolding string2ll_def parse_magnitude_def min Let_def s list.sel
      by (auto simp del: of_char_Char split: option.splits)
  qed
qed

lemma sint_nonneg_iff: "0 \<le> sint v \<longleftrightarrow> v \<le> LLONG_MAX"
  using sint_range64 [of v] uint_sint64 [of v]
  by (auto simp: limit_defs word_le_def split: if_splits)

lemma nat_sint: "0 \<le> sint (v :: u64) \<Longrightarrow> nat (sint v) = unat v"
  using uint_sint64 [of v] by (simp add: unat_eq_nat_uint)

lemma hd_dec_nat_minus: "dec_nat n \<noteq> ch CHR ''-'' # p"
  using dec_nat_digits [of "ch CHR ''-''" n]
  by (auto simp: is_digit_def)

lemma decimal_neg_iff:
  "ch CHR ''-'' # p = decimal (sint v) \<longleftrightarrow>
     (\<exists>w. p = dec_nat (unat w) \<and> 0 < unat w \<and> w \<le> LLONG_MIN \<and> v = - w)"
proof
  assume L: "ch CHR ''-'' # p = decimal (sint v)"
  then have neg: "sint v < 0" using hd_dec_nat_minus [symmetric] by (auto simp: decimal_def split: if_splits)
  then have w: "unat (- v) = nat (- sint v)"
    using unat_magnitude [of v] by (simp add: magnitude_def word_sless_alt)
  then have "p = dec_nat (unat (- v)) \<and> 0 < unat (- v) \<and> - v \<le> LLONG_MIN \<and> v = - (- v)"
    using L neg sint_range64 [of v] by (simp add: decimal_def limit_defs word_le_nat_alt)
  then show "\<exists>w. p = dec_nat (unat w) \<and> 0 < unat w \<and> w \<le> LLONG_MIN \<and> v = - w" by blast
next
  assume "\<exists>w. p = dec_nat (unat w) \<and> 0 < unat w \<and> w \<le> LLONG_MIN \<and> v = - w"
  then obtain w where w: "p = dec_nat (unat w)" "0 < unat w" "w \<le> LLONG_MIN" "v = - w" by blast
  have "uint v = 2 ^ 64 - uint w"
    using w uint_idem [of w] by (simp add: uint_word_ariths zmod_zminus1_eq_if unat_gt_0 uint_0_iff)
  moreover have "uint w \<le> 2 ^ 63" using w(3) by (simp add: limit_defs word_le_def)
  ultimately have neg: "sint v < 0"
    using uint_sint64 [of v] sint_range64 [of v] by (simp split: if_splits)
  then have "unat w = nat (- sint v)"
    using unat_magnitude [of v] w(4) by (simp add: magnitude_def word_sless_alt)
  with neg w(1) show "ch CHR ''-'' # p = decimal (sint v)" by (simp add: decimal_def)
qed

lemma decimal_nonneg_iff:
  assumes "s \<noteq> []" "hd s \<noteq> ch CHR ''-''"
  shows "s = decimal (sint v) \<longleftrightarrow> s = dec_nat (unat v) \<and> v \<le> LLONG_MAX"
  using assms nat_sint [of v] sint_nonneg_iff [of v]
  by (auto simp: decimal_def not_less simp del: of_char_Char)

lemma decimal_zero_iff: "[48] = decimal (sint (v :: u64)) \<longleftrightarrow> v = 0"
proof -
  have a: "[48] = dec_nat (unat v) \<longleftrightarrow> v = 0"
    by (metis dec_nat_zero dec_nat_eq_iff unat_0_iff)
  have b: "[48] = decimal (sint v) \<longleftrightarrow> [48] = dec_nat (unat v) \<and> v \<le> LLONG_MAX"
    by (rule decimal_nonneg_iff) simp_all
  have c: "0 \<le> LLONG_MAX" by simp
  show ?thesis using a b c by metis
qed

lemma string2ll_ok: "string2ll s = Some v \<longleftrightarrow> s = decimal (sint v)"
proof (cases "s = [] \<or> s = [ch CHR ''0'']")
  case True
  have "string2ll [48] = Some 0" "string2ll [] = None"
    by (simp_all add: string2ll_def)
  moreover have "[] \<noteq> decimal (sint v)" by (simp add: decimal_def)
  moreover have "s = [] \<or> s = [48]" using True by simp
  moreover have "Some 0 = Some v \<longleftrightarrow> v = 0" by auto
  ultimately show ?thesis by (elim disjE) (simp_all add: decimal_zero_iff)
next
  case False
  then have ne: "s \<noteq> []" "s \<noteq> [ch CHR ''0'']" by auto
  show ?thesis
  proof (cases "hd s = ch CHR ''-''")
    case True
    then obtain p where s: "s = ch CHR ''-'' # p" using ne by (cases s) auto
    show ?thesis
      unfolding string2ll_parse [OF ne] unfolding s decimal_neg_iff
      using parse_magnitude_iff [of p]
      by (cases "p = []") (auto simp: not_less word_unat_eq_iff [symmetric] split: option.splits)
  next
    case False
    then show ?thesis
      unfolding string2ll_parse [OF ne] decimal_nonneg_iff [OF ne(1) False]
      using parse_magnitude_iff [of s] ne
      by (auto simp: not_less word_unat_eq_iff [symmetric] split: option.splits)
  qed
qed

text \<open>
  C35: \<open>string2ll\<close> accepts a byte string exactly when it is the canonical decimal text of a
  64-bit signed integer, and returns that integer.  Leading zeros, a plus sign, minus zero,
  trailing bytes and every overflow are refused.
\<close>

theorem string2ll_iff_decimal: "string2ll s = Some v \<longleftrightarrow> s = decimal (sint v)"
  by (rule string2ll_ok)

text \<open>\<open>string2l\<close> never refuses what \<open>string2ll\<close> accepts when a \<open>long\<close> has 64 bits.\<close>

lemma long_in_range: "\<not> v <s LLONG_MIN" "\<not> LLONG_MAX <s v"
  using sint_range64 [of v] by (simp_all add: limit_defs word_sless_alt)

lemma string2l_eq: "string2l s = string2ll s"
  by (simp add: string2l_def long_in_range split: option.splits)

lemma length_dec_nat_le: "n < 10 ^ Suc k \<Longrightarrow> length (dec_nat n) \<le> Suc k"
proof (induction k arbitrary: n)
  case 0
  then show ?case by (simp add: dec_nat_small)
next
  case (Suc k)
  show ?case
  proof (cases "n < 10")
    case True
    then show ?thesis by (simp add: dec_nat_small)
  next
    case False
    with Suc.IH [of "n div 10"] Suc.prems show ?thesis
      by (simp add: dec_nat_step less_mult_imp_div_less)
  qed
qed

lemma length_decimal_le: "length (decimal (sint (v :: u64))) \<le> 20"
proof -
  have "nat \<bar>sint v\<bar> < 10 ^ Suc 18"
    using sint_range64 [of v] by (simp add: nat_less_iff)
  then have "length (dec_nat (nat \<bar>sint v\<bar>)) \<le> Suc 18" by (rule length_dec_nat_le)
  then show ?thesis by (auto simp: decimal_def)
qed

lemma decimal_nonempty: "decimal i \<noteq> []"
  by (simp add: decimal_def)

text \<open>
  C37: the round trip through text.  For every 64-bit value, \<open>string2ll\<close> reads back what
  \<open>ll2string\<close> wrote, whatever the buffer held before, as long as it has the 21 bytes
  (\<open>REDIS_LONGSTR_SIZE\<close>) every caller provides.
\<close>

theorem ll2string_string2ll:
  assumes "21 \<le> length dst"
  shows "let (n, dst') = ll2string dst (length dst) v
         in 0 < n \<and> dst' ! n = 0 \<and> string2ll (take n dst') = Some v"
proof -
  let ?d = "decimal (sint v)"
  have fits: "length ?d < length dst" using assms length_decimal_le [of v] by simp
  have "string2ll ?d = Some v" using string2ll_ok by blast
  then show ?thesis
    using fits decimal_nonempty [of "sint v"] ll2string_ok [of "length dst" dst v]
    by (simp add: mem_put_def nth_append)
qed

theorem ll2string_string2ll_witness:
  "let (n, dst') = ll2string (replicate 21 7) (length (replicate 21 (7 :: byte))) LLONG_MIN
   in 0 < n \<and> dst' ! n = 0 \<and> string2ll (take n dst') = Some LLONG_MIN"
  by (rule ll2string_string2ll) simp

end
