(* ===== verification/Interfaces.thy ===== *)
theory Interfaces
  imports Prelude
begin

text \<open>
  The contracts the components of the server offer each other, as locales.  A locale's
  parameters are the operations a client calls, its assumptions the laws the provider
  promises; what a client may conclude from the laws alone is proved once, in the locale.
  Every locale is interpreted on the model of each C file that provides the contract.
\<close>

section \<open>Sets\<close>

text \<open>
  A set of values with C's calling convention: every operation returns the structure it
  leaves behind and a flag.  \<open>count\<close> and \<open>cap\<close> bound the number of elements below the
  point where the provider's size arithmetic would wrap.
\<close>

datatype 'a set_op = SetAdd 'a | SetDel 'a | SetHas 'a

fun set_ref :: "'a set \<Rightarrow> 'a set_op \<Rightarrow> 'a set \<times> bool" where
  "set_ref A (SetAdd x) = (insert x A, x \<notin> A)"
| "set_ref A (SetDel x) = (A - {x}, x \<in> A)"
| "set_ref A (SetHas x) = (A, x \<in> A)"

fun set_op_val :: "'a set_op \<Rightarrow> 'a" where
  "set_op_val (SetAdd x) = x"
| "set_op_val (SetDel x) = x"
| "set_op_val (SetHas x) = x"

fun set_exec :: "('s \<Rightarrow> 'a \<Rightarrow> 's \<times> bool) \<Rightarrow> ('s \<Rightarrow> 'a \<Rightarrow> 's \<times> bool) \<Rightarrow> ('s \<Rightarrow> 'a \<Rightarrow> 's \<times> bool)
    \<Rightarrow> 's \<Rightarrow> 'a set_op \<Rightarrow> 's \<times> bool" where
  "set_exec add del has s (SetAdd x) = add s x"
| "set_exec add del has s (SetDel x) = del s x"
| "set_exec add del has s (SetHas x) = has s x"

text \<open>Running a list of operations: the final state and the flags in order.\<close>

fun run_ops :: "('s \<Rightarrow> 'o \<Rightarrow> 's \<times> 'r) \<Rightarrow> 's \<Rightarrow> 'o list \<Rightarrow> 's \<times> 'r list" where
  "run_ops step s [] = (s, [])"
| "run_ops step s (x # xs) =
     (let (s1, r) = step s x; (s2, rs) = run_ops step s1 xs in (s2, r # rs))"

text \<open>A step-for-step simulation with a bounded counter lifts to runs.\<close>

lemma run_ops_simulation:
  assumes step: "\<And>s op. I s \<Longrightarrow> Suc (count s) \<le> cap \<Longrightarrow> ok op \<Longrightarrow>
      I (fst (step s op)) \<and> count (fst (step s op)) \<le> Suc (count s)
      \<and> (absf (fst (step s op)), snd (step s op)) = ref (absf s) op"
    and "I s" "count s + length ops \<le> cap" "\<forall>op\<in>set ops. ok op"
  shows "I (fst (run_ops step s ops))
    \<and> (absf (fst (run_ops step s ops)), snd (run_ops step s ops)) = run_ops ref (absf s) ops"
  using assms(2-)
proof (induction ops arbitrary: s)
  case Nil
  then show ?case by simp
next
  case (Cons op ops)
  obtain s1 r where s1: "step s op = (s1, r)" by fastforce
  have st: "I s1" "count s1 \<le> Suc (count s)" "(absf s1, r) = ref (absf s) op"
    using step [of s op] Cons.prems by (simp_all add: s1)
  have "count s1 + length ops \<le> cap" using st(2) Cons.prems(2) by simp
  with Cons.IH [of s1] st(1) Cons.prems(3)
  have "I (fst (run_ops step s1 ops))"
    "(absf (fst (run_ops step s1 ops)), snd (run_ops step s1 ops)) = run_ops ref (absf s1) ops"
    by simp_all
  then show ?case
    using st(3) [symmetric] by (simp add: s1 split_beta) (metis fst_conv snd_conv)
qed

locale set_store =
  fixes invar :: "'s \<Rightarrow> bool" and ok :: "'a \<Rightarrow> bool" and count :: "'s \<Rightarrow> nat" and cap :: nat
    and members :: "'s \<Rightarrow> 'a set"
    and add del has :: "'s \<Rightarrow> 'a \<Rightarrow> 's \<times> bool"
  assumes add: "invar s \<Longrightarrow> Suc (count s) \<le> cap \<Longrightarrow> ok x \<Longrightarrow>
      invar (fst (add s x)) \<and> count (fst (add s x)) \<le> Suc (count s)
      \<and> (members (fst (add s x)), snd (add s x)) = (insert x (members s), x \<notin> members s)"
    and del: "invar s \<Longrightarrow> Suc (count s) \<le> cap \<Longrightarrow> ok x \<Longrightarrow>
      invar (fst (del s x)) \<and> count (fst (del s x)) \<le> Suc (count s)
      \<and> (members (fst (del s x)), snd (del s x)) = (members s - {x}, x \<in> members s)"
    and has: "invar s \<Longrightarrow> Suc (count s) \<le> cap \<Longrightarrow> ok x \<Longrightarrow>
      invar (fst (has s x)) \<and> count (fst (has s x)) \<le> Suc (count s)
      \<and> (members (fst (has s x)), snd (has s x)) = (members s, x \<in> members s)"
begin

lemma exec_step:
  "invar s \<Longrightarrow> Suc (count s) \<le> cap \<Longrightarrow> ok (set_op_val op) \<Longrightarrow>
     invar (fst (set_exec add del has s op)) \<and> count (fst (set_exec add del has s op)) \<le> Suc (count s)
     \<and> (members (fst (set_exec add del has s op)), snd (set_exec add del has s op))
       = set_ref (members s) op"
  using add del has by (cases op) auto

lemma run_refines_set:
  assumes "invar s" "count s + length ops \<le> cap" "\<forall>op\<in>set ops. ok (set_op_val op)"
  shows "invar (fst (run_ops (set_exec add del has) s ops))
    \<and> (members (fst (run_ops (set_exec add del has) s ops)), snd (run_ops (set_exec add del has) s ops))
      = run_ops set_ref (members s) ops"
  by (rule run_ops_simulation [where count = count and cap = cap and ok = "\<lambda>op. ok (set_op_val op)"])
    (use assms exec_step in auto)

lemma run_flags:
  "invar s \<Longrightarrow> count s + length ops \<le> cap \<Longrightarrow> \<forall>op\<in>set ops. ok (set_op_val op) \<Longrightarrow>
     snd (run_ops (set_exec add del has) s ops) = snd (run_ops set_ref (members s) ops)"
  using run_refines_set by (metis snd_conv)

end

section \<open>Maps\<close>

datatype ('k, 'v) kv_op = KvSet 'k 'v | KvGet 'k | KvDel 'k

datatype 'v kv_res = KvFlag bool | KvValue "'v option"

fun kv_ref :: "('k \<rightharpoonup> 'v) \<Rightarrow> ('k, 'v) kv_op \<Rightarrow> ('k \<rightharpoonup> 'v) \<times> 'v kv_res" where
  "kv_ref m (KvSet k v) = (m(k \<mapsto> v), KvFlag (m k \<noteq> None))"
| "kv_ref m (KvGet k) = (m, KvValue (m k))"
| "kv_ref m (KvDel k) = (m(k := None), KvFlag (m k \<noteq> None))"

fun kv_op_ok :: "('k \<Rightarrow> bool) \<Rightarrow> ('v \<Rightarrow> bool) \<Rightarrow> ('k, 'v) kv_op \<Rightarrow> bool" where
  "kv_op_ok kok vok (KvSet k v) = (kok k \<and> vok v)"
| "kv_op_ok kok vok (KvGet k) = kok k"
| "kv_op_ok kok vok (KvDel k) = kok k"

fun kv_exec :: "('s \<Rightarrow> 'k \<Rightarrow> 'v \<Rightarrow> 's \<times> bool) \<Rightarrow> ('s \<Rightarrow> 'k \<Rightarrow> 's \<times> 'v option) \<Rightarrow> ('s \<Rightarrow> 'k \<Rightarrow> 's \<times> bool)
    \<Rightarrow> 's \<Rightarrow> ('k, 'v) kv_op \<Rightarrow> 's \<times> 'v kv_res" where
  "kv_exec put get del s (KvSet k v) = (let (s', b) = put s k v in (s', KvFlag b))"
| "kv_exec put get del s (KvGet k) = (let (s', r) = get s k in (s', KvValue r))"
| "kv_exec put get del s (KvDel k) = (let (s', b) = del s k in (s', KvFlag b))"

text \<open>
  \<open>put\<close> reports whether the key was there before, \<open>get\<close> may reorganise the structure while
  it searches (as the incremental rehash of the hash table does).
\<close>

locale kv_store =
  fixes invar :: "'s \<Rightarrow> bool" and kok :: "'k \<Rightarrow> bool" and vok :: "'v \<Rightarrow> bool"
    and count :: "'s \<Rightarrow> nat" and cap :: nat
    and lookup :: "'s \<Rightarrow> 'k \<rightharpoonup> 'v"
    and put :: "'s \<Rightarrow> 'k \<Rightarrow> 'v \<Rightarrow> 's \<times> bool"
    and get :: "'s \<Rightarrow> 'k \<Rightarrow> 's \<times> 'v option"
    and del :: "'s \<Rightarrow> 'k \<Rightarrow> 's \<times> bool"
  assumes put: "invar s \<Longrightarrow> Suc (count s) \<le> cap \<Longrightarrow> kok k \<Longrightarrow> vok v \<Longrightarrow>
      invar (fst (put s k v)) \<and> count (fst (put s k v)) \<le> Suc (count s)
      \<and> lookup (fst (put s k v)) = (lookup s)(k \<mapsto> v) \<and> snd (put s k v) = (lookup s k \<noteq> None)"
    and get: "invar s \<Longrightarrow> Suc (count s) \<le> cap \<Longrightarrow> kok k \<Longrightarrow>
      invar (fst (get s k)) \<and> count (fst (get s k)) \<le> Suc (count s)
      \<and> lookup (fst (get s k)) = lookup s \<and> snd (get s k) = lookup s k"
    and del: "invar s \<Longrightarrow> Suc (count s) \<le> cap \<Longrightarrow> kok k \<Longrightarrow>
      invar (fst (del s k)) \<and> count (fst (del s k)) \<le> Suc (count s)
      \<and> lookup (fst (del s k)) = (lookup s)(k := None) \<and> snd (del s k) = (lookup s k \<noteq> None)"
begin

lemma exec_step:
  "invar s \<Longrightarrow> Suc (count s) \<le> cap \<Longrightarrow> kv_op_ok kok vok op \<Longrightarrow>
     invar (fst (kv_exec put get del s op)) \<and> count (fst (kv_exec put get del s op)) \<le> Suc (count s)
     \<and> (lookup (fst (kv_exec put get del s op)), snd (kv_exec put get del s op))
       = kv_ref (lookup s) op"
  using put get del by (cases op) (auto simp: split_beta)

text \<open>Any run of operations answers as the mathematical map does, and ends in it.\<close>

lemma run_refines_map:
  assumes "invar s" "count s + length ops \<le> cap" "\<forall>op\<in>set ops. kv_op_ok kok vok op"
  shows "invar (fst (run_ops (kv_exec put get del) s ops))
    \<and> (lookup (fst (run_ops (kv_exec put get del) s ops)), snd (run_ops (kv_exec put get del) s ops))
      = run_ops kv_ref (lookup s) ops"
  by (rule run_ops_simulation [where count = count and cap = cap and ok = "kv_op_ok kok vok"])
    (use assms exec_step in auto)

end

section \<open>Codecs\<close>

text \<open>Decoding a sequence of \<open>n\<close> items, one after the other.\<close>

fun dec_many :: "(bytes \<Rightarrow> ('a \<times> bytes) option) \<Rightarrow> nat \<Rightarrow> bytes \<Rightarrow> ('a list \<times> bytes) option" where
  "dec_many dec 0 bs = Some ([], bs)"
| "dec_many dec (Suc n) bs =
     (case dec bs of None \<Rightarrow> None
      | Some (x, rest) \<Rightarrow>
          (case dec_many dec n rest of None \<Rightarrow> None | Some (xs, rest') \<Rightarrow> Some (x # xs, rest')))"

text \<open>A self-delimiting encoding: the decoder finds the item and leaves what follows.\<close>

locale codec =
  fixes ok :: "'a \<Rightarrow> bool" and enc :: "'a \<Rightarrow> bytes" and dec :: "bytes \<Rightarrow> ('a \<times> bytes) option"
  assumes dec_enc: "ok x \<Longrightarrow> dec (enc x @ rest) = Some (x, rest)"
begin

lemma dec_many_enc:
  "\<forall>x\<in>set xs. ok x \<Longrightarrow> dec_many dec (length xs) (concat (map enc xs) @ rest) = Some (xs, rest)"
  by (induction xs) (auto simp: dec_enc)

lemma enc_inj: "ok x \<Longrightarrow> ok y \<Longrightarrow> enc x = enc y \<Longrightarrow> x = y"
  using dec_enc [of x "[]"] dec_enc [of y "[]"] by simp

lemma prefix_free: "ok x \<Longrightarrow> ok y \<Longrightarrow> enc x @ r = enc y @ r' \<Longrightarrow> x = y \<and> r = r'"
  by (metis dec_enc option.inject prod.inject)

end

section \<open>Checksums\<close>

text \<open>A checksum that consumes its input byte by byte.\<close>

locale checksum =
  fixes step :: "'c \<Rightarrow> byte \<Rightarrow> 'c" and crc :: "'c \<Rightarrow> bytes \<Rightarrow> 'c"
  assumes crc_nil: "crc c [] = c"
    and crc_cons: "crc c (b # bs) = crc (step c b) bs"
begin

lemma crc_fold: "crc c bs = foldl step c bs"
  by (induction bs arbitrary: c) (simp_all add: crc_nil crc_cons)

text \<open>Feeding the data in pieces gives the checksum of the whole.\<close>

lemma crc_append: "crc c (as @ bs) = crc (crc c as) bs"
  by (simp add: crc_fold)

lemma crc_concat: "crc c (concat pieces) = foldl crc c pieces"
  by (induction pieces arbitrary: c) (simp_all add: crc_nil crc_append)

end

end
