(* ===== verification/Intset.thy ===== *)
theory Intset
  imports Interfaces
begin

text \<open>
  The integer set of \<open>intset.c\<close>: a sorted array of 16-, 32- or 64-bit integers kept as
  little-endian bytes, upgraded in place when a wider value arrives.  The header's
  \<open>encoding\<close> and \<open>length\<close> are numbers, \<open>contents\<close> is the flexible array member.  On the
  little-endian hosts modelled here \<open>memrev16ifbe\<close> and its kin do nothing.
  \<open>fill\<close> is the byte \<open>zrealloc\<close> happens to leave in memory it does not initialise.
\<close>

section \<open>Model\<close>

record intset =
  enc :: nat
  len :: nat
  contents :: bytes

definition INTSET_ENC_INT16 :: nat where "INTSET_ENC_INT16 = 2"
definition INTSET_ENC_INT32 :: nat where "INTSET_ENC_INT32 = 4"
definition INTSET_ENC_INT64 :: nat where "INTSET_ENC_INT64 = 8"

lemmas enc_defs = INTSET_ENC_INT16_def INTSET_ENC_INT32_def INTSET_ENC_INT64_def

definition intsetValueEncoding :: "int \<Rightarrow> nat" where
  "intsetValueEncoding v =
    (if v < - (2 ^ 31) \<or> v > 2 ^ 31 - 1 then INTSET_ENC_INT64
     else if v < - (2 ^ 15) \<or> v > 2 ^ 15 - 1 then INTSET_ENC_INT32
     else INTSET_ENC_INT16)"

definition intsetGetEncoded :: "intset \<Rightarrow> nat \<Rightarrow> nat \<Rightarrow> int" where
  "intsetGetEncoded s pos e =
    (if e = INTSET_ENC_INT64 then sint (le_word (mem_get (8 * pos) 8 (contents s)) :: u64)
     else if e = INTSET_ENC_INT32 then sint (le_word (mem_get (4 * pos) 4 (contents s)) :: u32)
     else sint (le_word (mem_get (2 * pos) 2 (contents s)) :: u16))"

definition intsetGetAt :: "intset \<Rightarrow> nat \<Rightarrow> int" where
  "intsetGetAt s pos = intsetGetEncoded s pos (enc s)"

definition intsetSet :: "intset \<Rightarrow> nat \<Rightarrow> int \<Rightarrow> intset" where
  "intsetSet s pos value =
    (if enc s = INTSET_ENC_INT64
     then s\<lparr>contents := mem_put (8 * pos) (le_bytes 8 (word_of_int value :: u64)) (contents s)\<rparr>
     else if enc s = INTSET_ENC_INT32
     then s\<lparr>contents := mem_put (4 * pos) (le_bytes 4 (word_of_int value :: u32)) (contents s)\<rparr>
     else s\<lparr>contents := mem_put (2 * pos) (le_bytes 2 (word_of_int value :: u16)) (contents s)\<rparr>)"

definition intsetNew :: intset where
  "intsetNew = \<lparr>enc = INTSET_ENC_INT16, len = 0, contents = []\<rparr>"

text \<open>The byte count is computed in \<open>uint32_t\<close>.\<close>

definition intsetResize :: "byte \<Rightarrow> intset \<Rightarrow> nat \<Rightarrow> intset" where
  "intsetResize fill s n =
    (let size = (n * enc s) mod 2 ^ 32 in s\<lparr>contents := mem_resize fill size (contents s)\<rparr>)"

text \<open>
  The binary search loop; the result is the triple \<open>(min, mid, cur)\<close> it ends with.  Both
  ends are non-negative \<open>int\<close>s when they are added as \<open>unsigned int\<close>s, so the sum does not wrap.
\<close>

function intsetSearch_loop :: "intset \<Rightarrow> int \<Rightarrow> int \<Rightarrow> int \<Rightarrow> int \<Rightarrow> int \<Rightarrow> int \<times> int \<times> int" where
  "intsetSearch_loop s value mn mx mid cur =
    (if mx \<ge> mn then
       (let mid = (mn + mx) div 2;
            cur = intsetGetAt s (nat mid)
        in if value > cur then intsetSearch_loop s value (mid + 1) mx mid cur
           else if value < cur then intsetSearch_loop s value mn (mid - 1) mid cur
           else (mn, mid, cur))
     else (mn, mid, cur))"
  by pat_completeness auto
termination
  by (relation "measure (\<lambda>(s, v, mn, mx, _, _). nat (mx - mn + 1))") auto

declare intsetSearch_loop.simps [simp del]

definition intsetSearch :: "intset \<Rightarrow> int \<Rightarrow> bool \<times> nat" where
  "intsetSearch s value =
    (if len s = 0 then (False, 0)
     else if value > intsetGetAt s (len s - 1) then (False, len s)
     else if value < intsetGetAt s 0 then (False, 0)
     else
       (let (mn, mid, cur) = intsetSearch_loop s value 0 (int (len s) - 1) (- 1) (- 1)
        in if value = cur then (True, nat mid) else (False, nat mn)))"

text \<open>\<open>while(length--)\<close> of the upgrade: from the last element down to the first.\<close>

fun intsetUpgrade_loop :: "intset \<Rightarrow> nat \<Rightarrow> nat \<Rightarrow> nat \<Rightarrow> intset" where
  "intsetUpgrade_loop s curenc prepend 0 = s"
| "intsetUpgrade_loop s curenc prepend (Suc n) =
     intsetUpgrade_loop (intsetSet s (n + prepend) (intsetGetEncoded s n curenc)) curenc prepend n"

definition intsetUpgradeAndAdd :: "byte \<Rightarrow> intset \<Rightarrow> int \<Rightarrow> intset" where
  "intsetUpgradeAndAdd fill s value =
    (let curenc = enc s;
         newenc = intsetValueEncoding value;
         prepend = (if value < 0 then 1 else 0);
         s1 = intsetResize fill (s\<lparr>enc := newenc\<rparr>) (len s + 1);
         s2 = intsetUpgrade_loop s1 curenc prepend (len s);
         s3 = (if prepend = 1 then intsetSet s2 0 value else intsetSet s2 (len s) value)
     in s3\<lparr>len := len s + 1\<rparr>)"

definition intsetMoveTail :: "intset \<Rightarrow> nat \<Rightarrow> nat \<Rightarrow> intset" where
  "intsetMoveTail s from to =
    (let n = len s - from
     in if enc s = INTSET_ENC_INT64
        then s\<lparr>contents := memmove (8 * to) (8 * from) (8 * n) (contents s)\<rparr>
        else if enc s = INTSET_ENC_INT32
        then s\<lparr>contents := memmove (4 * to) (4 * from) (4 * n) (contents s)\<rparr>
        else s\<lparr>contents := memmove (2 * to) (2 * from) (2 * n) (contents s)\<rparr>)"

definition intsetAdd :: "byte \<Rightarrow> intset \<Rightarrow> int \<Rightarrow> intset \<times> bool" where
  "intsetAdd fill s value =
    (if intsetValueEncoding value > enc s then (intsetUpgradeAndAdd fill s value, True)
     else
       (let (found, pos) = intsetSearch s value
        in if found then (s, False)
           else
             (let s1 = intsetResize fill s (len s + 1);
                  s2 = (if pos < len s then intsetMoveTail s1 pos (pos + 1) else s1);
                  s3 = intsetSet s2 pos value
              in (s3\<lparr>len := len s + 1\<rparr>, True))))"

definition intsetRemove :: "byte \<Rightarrow> intset \<Rightarrow> int \<Rightarrow> intset \<times> bool" where
  "intsetRemove fill s value =
    (let (found, pos) = intsetSearch s value
     in if intsetValueEncoding value \<le> enc s \<and> found
        then
          (let s1 = (if pos < len s - 1 then intsetMoveTail s (pos + 1) pos else s);
               s2 = intsetResize fill s1 (len s - 1)
           in (s2\<lparr>len := len s - 1\<rparr>, True))
        else (s, False))"

definition intsetFind :: "intset \<Rightarrow> int \<Rightarrow> bool" where
  "intsetFind s value \<longleftrightarrow> intsetValueEncoding value \<le> enc s \<and> fst (intsetSearch s value)"

text \<open>\<open>rand()\<close> is the argument \<open>r\<close>; the caller never passes an empty set.\<close>

definition intsetRandom :: "intset \<Rightarrow> nat \<Rightarrow> int" where
  "intsetRandom s r = intsetGetAt s (r mod len s)"

definition intsetGet :: "intset \<Rightarrow> nat \<Rightarrow> int option" where
  "intsetGet s pos = (if pos < len s then Some (intsetGetAt s pos) else None)"

definition intsetLen :: "intset \<Rightarrow> nat" where
  "intsetLen s = len s"

text \<open>\<open>sizeof(intset)\<close> is the 8 bytes of the two header words.\<close>

definition intsetBlobLen :: "intset \<Rightarrow> nat" where
  "intsetBlobLen s = 8 + (len s * enc s) mod 2 ^ 32"

section \<open>Items\<close>

text \<open>One item at width \<open>e\<close>: its bytes, its value, and the values that fit.\<close>

definition item :: "nat \<Rightarrow> int \<Rightarrow> bytes" where
  "item e v = (if e = 8 then le_bytes 8 (word_of_int v :: u64)
    else if e = 4 then le_bytes 4 (word_of_int v :: u32) else le_bytes 2 (word_of_int v :: u16))"

definition item_val :: "nat \<Rightarrow> bytes \<Rightarrow> int" where
  "item_val e bs = (if e = 8 then sint (le_word bs :: u64)
    else if e = 4 then sint (le_word bs :: u32) else sint (le_word bs :: u16))"

definition valid_enc :: "nat \<Rightarrow> bool" where
  "valid_enc e \<longleftrightarrow> e = 2 \<or> e = 4 \<or> e = 8"

definition fits :: "nat \<Rightarrow> int \<Rightarrow> bool" where
  "fits e v \<longleftrightarrow> - (2 ^ (8 * e - 1)) \<le> v \<and> v < 2 ^ (8 * e - 1)"

definition elems :: "intset \<Rightarrow> int list" where
  "elems s = map (intsetGetAt s) [0..<len s]"

text \<open>The representation invariant.\<close>

definition intset_inv :: "intset \<Rightarrow> bool" where
  "intset_inv s \<longleftrightarrow> valid_enc (enc s) \<and> length (contents s) = enc s * len s \<and>
     sorted_wrt (<) (elems s)"

lemma length_item [simp]: "valid_enc e \<Longrightarrow> length (item e v) = e"
  by (auto simp: item_def valid_enc_def)

lemma item_val_item: "valid_enc e \<Longrightarrow> fits e v \<Longrightarrow> item_val e (item e v) = v"
  by (auto simp: item_def item_val_def valid_enc_def fits_def le_word_le_bytes signed_of_int
      signed_take_bit_int_eq_self)

lemma item_item_val: "valid_enc e \<Longrightarrow> length bs = e \<Longrightarrow> item e (item_val e bs) = bs"
  by (auto simp: item_def item_val_def valid_enc_def dest: le_bytes_le_word
      intro: trans [OF _ le_bytes_le_word])

lemma fits_item_val: "valid_enc e \<Longrightarrow> fits e (item_val e bs)"
  using sint_greater_eq [of "le_word bs :: u64"] sint_less [of "le_word bs :: u64"]
    sint_greater_eq [of "le_word bs :: u32"] sint_less [of "le_word bs :: u32"]
    sint_greater_eq [of "le_word bs :: u16"] sint_less [of "le_word bs :: u16"]
  by (auto simp: item_val_def valid_enc_def fits_def)

lemma getEncoded_eq:
  "valid_enc e \<Longrightarrow> intsetGetEncoded s pos e = item_val e (mem_get (e * pos) e (contents s))"
  by (auto simp: intsetGetEncoded_def item_val_def valid_enc_def enc_defs)

lemma getAt_eq:
  "valid_enc (enc s) \<Longrightarrow> intsetGetAt s pos = item_val (enc s) (mem_get (enc s * pos) (enc s) (contents s))"
  by (simp add: intsetGetAt_def getEncoded_eq)

lemma set_eq:
  "valid_enc (enc s) \<Longrightarrow> intsetSet s pos v = s\<lparr>contents := mem_put (enc s * pos) (item (enc s) v) (contents s)\<rparr>"
  by (auto simp: intsetSet_def item_def valid_enc_def enc_defs)

lemma moveTail_eq:
  "valid_enc (enc s) \<Longrightarrow> intsetMoveTail s from to =
     s\<lparr>contents := memmove (enc s * to) (enc s * from) (enc s * (len s - from)) (contents s)\<rparr>"
  by (auto simp: intsetMoveTail_def valid_enc_def enc_defs Let_def)

section \<open>The array behind a set\<close>

text \<open>\<open>repr e es\<close> is the structure that stores the integers \<open>es\<close> at width \<open>e\<close>.\<close>

definition repr :: "nat \<Rightarrow> int list \<Rightarrow> intset" where
  "repr e es = \<lparr>enc = e, len = length es, contents = concat (map (item e) es)\<rparr>"

lemma repr_sel [simp]:
  "enc (repr e es) = e" "len (repr e es) = length es"
  "contents (repr e es) = concat (map (item e) es)"
  by (simp_all add: repr_def)

lemma items_width: "valid_enc e \<Longrightarrow> \<forall>b\<in>set (map (item e) es). length b = e"
  by auto

lemma take_items:
  "valid_enc e \<Longrightarrow> take (e * i) (concat (map (item e) es)) = concat (map (item e) (take i es))"
  by (simp add: take_concat_width items_width take_map)

lemma length_items [simp]: "valid_enc e \<Longrightarrow> length (concat (map (item e) es)) = e * length es"
  by (simp add: length_concat_width [OF items_width] del: length_concat)

lemma getEncoded_prefix:
  assumes "valid_enc e" "\<forall>v\<in>set es. fits e v" "i < length es"
    and "take (e * Suc i) (contents s) = concat (map (item e) (take (Suc i) es))"
  shows "intsetGetEncoded s i e = es ! i"
proof -
  have "mem_get (e * i) e (contents s) = mem_get (e * i) e (take (e * Suc i) (contents s))"
    by (simp add: mem_get_def drop_take)
  also have "\<dots> = map (item e) (take (Suc i) es) ! i"
    unfolding assms(4) using assms(1,3) by (intro mem_get_concat_width) (auto dest: in_set_takeD)
  also have "\<dots> = item e (es ! i)" using assms(3) by simp
  finally show ?thesis using assms by (simp add: getEncoded_eq item_val_item)
qed

lemma getAt_repr:
  "valid_enc e \<Longrightarrow> \<forall>v\<in>set es. fits e v \<Longrightarrow> i < length es \<Longrightarrow> intsetGetAt (repr e es) i = es ! i"
  unfolding intsetGetAt_def
  by (simp, rule getEncoded_prefix) (simp_all only: repr_sel take_items)

lemma elems_repr: "valid_enc e \<Longrightarrow> \<forall>v\<in>set es. fits e v \<Longrightarrow> elems (repr e es) = es"
  by (rule nth_equalityI) (auto simp: elems_def getAt_repr)

lemma repr_elems:
  assumes "valid_enc (enc s)" "length (contents s) = enc s * len s"
  shows "s = repr (enc s) (elems s)"
proof -
  let ?e = "enc s"
  have w: "item ?e (item_val ?e (mem_get (?e * i) ?e (contents s))) = mem_get (?e * i) ?e (contents s)"
    if "i < len s" for i
  proof -
    have "?e * i + ?e \<le> ?e * len s" using that by (metis Suc_leI mult_Suc_right add.commute mult_le_mono2)
    with assms show ?thesis by (intro item_item_val) auto
  qed
  have "contents s = concat (map (\<lambda>i. mem_get (?e * i) ?e (contents s)) [0..<len s])"
    using assms(2) by (rule concat_chunks)
  also have "\<dots> = concat (map (item ?e) (elems s))"
    by (rule arg_cong [where f = concat]) (use assms(1) w in \<open>simp add: elems_def getAt_eq\<close>)
  finally show ?thesis by (simp add: repr_def elems_def)
qed

lemma fits_elems: "valid_enc (enc s) \<Longrightarrow> v \<in> set (elems s) \<Longrightarrow> fits (enc s) v"
  by (auto simp: elems_def getAt_eq fits_item_val)

lemma intset_inv_repr:
  "intset_inv s \<longleftrightarrow> (\<exists>es. s = repr (enc s) es \<and> valid_enc (enc s) \<and> (\<forall>v\<in>set es. fits (enc s) v)
     \<and> sorted_wrt (<) es)" (is "?L \<longleftrightarrow> ?R")
proof
  assume ?L
  then have "s = repr (enc s) (elems s)" "valid_enc (enc s)" "sorted_wrt (<) (elems s)"
    using repr_elems by (auto simp: intset_inv_def)
  then show ?R using fits_elems by blast
next
  assume ?R
  then obtain es where es: "s = repr (enc s) es" "valid_enc (enc s)" "\<forall>v\<in>set es. fits (enc s) v"
    "sorted_wrt (<) es" by blast
  then have "elems s = es" by (metis elems_repr)
  moreover have "len s = length es" by (subst es(1)) simp
  moreover have "contents s = concat (map (item (enc s)) es)" by (subst es(1)) simp
  ultimately show ?L
    using es(2,4) by (simp add: intset_inv_def del: length_concat)
qed

lemma repr_inv:
  "valid_enc e \<Longrightarrow> \<forall>v\<in>set es. fits e v \<Longrightarrow> sorted_wrt (<) es \<Longrightarrow> intset_inv (repr e es)"
  unfolding intset_inv_repr by auto

section \<open>Search\<close>

lemma search_loop:
  assumes "valid_enc e" "\<forall>v\<in>set es. fits e v" "sorted_wrt (<) es"
    and "0 \<le> mn" "mx < int (length es)" "mn \<le> mx + 1" "mn \<le> mx \<or> value \<noteq> cur"
    and "\<forall>i. int i < mn \<longrightarrow> es ! i < value"
    and "\<forall>i. mx < int i \<and> i < length es \<longrightarrow> value < es ! i"
    and "intsetSearch_loop (repr e es) value mn mx mid cur = (mn', mid', cur')"
  shows "if value = cur' then 0 \<le> mid' \<and> nat mid' < length es \<and> es ! nat mid' = value
    else 0 \<le> mn' \<and> nat mn' \<le> length es \<and> (\<forall>i < nat mn'. es ! i < value) \<and>
      (\<forall>i. nat mn' \<le> i \<and> i < length es \<longrightarrow> value < es ! i)"
  using assms(4-)
proof (induction "nat (mx - mn + 1)" arbitrary: mn mx mid cur rule: less_induct)
  case less
  show ?case
  proof (cases "mn \<le> mx")
    case False
    then have "(mn', mid', cur') = (mn, mid, cur)"
      using less.prems(7) by (simp add: intsetSearch_loop.simps [of "repr e es" "value" mn mx])
    moreover have "mn = mx + 1" using False less.prems by simp
    ultimately show ?thesis using False less.prems by (auto simp: nat_less_iff nat_le_iff)
  next
    case True
    let ?mid = "(mn + mx) div 2"
    have mid: "mn \<le> ?mid" "?mid \<le> mx" "nat ?mid < length es" using True less.prems by auto
    have cur: "intsetGetAt (repr e es) (nat ?mid) = es ! nat ?mid"
      using assms(1,2) mid by (intro getAt_repr)
    have mono: "es ! i < es ! j" if "i < j" "j < length es" for i j
      using assms(3) that by (simp add: sorted_wrt_nth_less)
    note step = less.prems(7) [unfolded intsetSearch_loop.simps [of "repr e es" "value" mn mx]]
    consider "es ! nat ?mid < value" | "value < es ! nat ?mid" | "value = es ! nat ?mid" by linarith
    then show ?thesis
    proof cases
      case 1
      then have ne: "value \<noteq> es ! nat ?mid" by simp
      have "es ! i < value" if i: "int i < ?mid + 1" for i
      proof (cases "i = nat ?mid")
        case False
        then have "i < nat ?mid" using i by linarith
        from mono [OF this mid(3)] 1 show ?thesis by simp
      qed (use 1 in simp)
      moreover have "intsetSearch_loop (repr e es) value (?mid + 1) mx ?mid (es ! nat ?mid) = (mn', mid', cur')"
        using step True 1 by (simp add: Let_def cur)
      ultimately show ?thesis
        using less.prems mid ne by (intro less.hyps) auto
    next
      case 2
      then have ne: "value \<noteq> es ! nat ?mid" by simp
      have "value < es ! i" if i: "?mid - 1 < int i" "i < length es" for i
      proof (cases "i = nat ?mid")
        case False
        then have "nat ?mid < i" using i by linarith
        from mono [OF this i(2)] 2 show ?thesis by simp
      qed (use 2 in simp)
      moreover have "intsetSearch_loop (repr e es) value mn (?mid - 1) ?mid (es ! nat ?mid) = (mn', mid', cur')"
        using step True 2 by (simp add: Let_def cur)
      ultimately show ?thesis
        using less.prems mid ne by (intro less.hyps) auto
    next
      case 3
      then have "intsetSearch_loop (repr e es) value mn mx mid cur = (mn, ?mid, es ! nat ?mid)"
        unfolding intsetSearch_loop.simps [of "repr e es" "value" mn mx] using True
        by (simp add: Let_def cur)
      then have "mn = mn'" "?mid = mid'" "es ! nat ?mid = cur'" using less.prems(7) by simp_all
      then show ?thesis using 3 mid less.prems(1) by (metis order_trans)
    qed
  qed
qed

text \<open>What \<open>intsetSearch\<close> promises: the index of the value, or the index where it belongs.\<close>

lemma intsetSearch_repr:
  assumes "valid_enc e" "\<forall>v\<in>set es. fits e v" "sorted_wrt (<) es"
    and "intsetSearch (repr e es) v = (found, pos)"
  shows "if found then pos < length es \<and> es ! pos = v
    else pos \<le> length es \<and> (\<forall>i < pos. es ! i < v) \<and> (\<forall>i. pos \<le> i \<and> i < length es \<longrightarrow> v < es ! i)"
proof -
  have mono: "i < j \<Longrightarrow> j < length es \<Longrightarrow> es ! i < es ! j" for i j
    using assms(3) by (rule sorted_wrt_nth_less)
  have at: "i < length es \<Longrightarrow> intsetGetAt (repr e es) i = es ! i" for i
    using assms(1,2) by (rule getAt_repr)
  note search = assms(4) [unfolded intsetSearch_def repr_sel]
  consider (empty) "es = []" | (above) "es \<noteq> []" "es ! (length es - 1) < v"
    | (below) "es \<noteq> []" "\<not> es ! (length es - 1) < v" "v < es ! 0"
    | (mid) "es \<noteq> []" "\<not> es ! (length es - 1) < v" "\<not> v < es ! 0" by blast
  then show ?thesis
  proof cases
    case empty
    then show ?thesis using search by simp
  next
    case above
    have "es ! i < v" if "i < length es" for i
    proof (cases "i = length es - 1")
      case False
      then have "i < length es - 1" "length es - 1 < length es" using that by linarith+
      from mono [OF this] above show ?thesis by simp
    qed (use above in simp)
    then show ?thesis using search above by (simp add: at)
  next
    case below
    have "v < es ! i" if "i < length es" for i
      using mono [of 0 i] below that by (cases "i = 0") auto
    then show ?thesis using search below by (simp add: at)
  next
    case mid
    obtain mn mi cur where loop:
      "intsetSearch_loop (repr e es) v 0 (int (length es) - 1) (- 1) (- 1) = (mn, mi, cur)"
      by (metis prod_cases3)
    have "if v = cur then 0 \<le> mi \<and> nat mi < length es \<and> es ! nat mi = v
      else 0 \<le> mn \<and> nat mn \<le> length es \<and> (\<forall>i < nat mn. es ! i < v) \<and>
        (\<forall>i. nat mn \<le> i \<and> i < length es \<longrightarrow> v < es ! i)"
      by (rule search_loop [OF assms(1-3) _ _ _ _ _ _ loop]) (use mid in \<open>auto simp: Suc_le_eq\<close>)
    moreover have "(found, pos) = (if v = cur then (True, nat mi) else (False, nat mn))"
      using search mid by (simp add: at loop)
    ultimately show ?thesis by (auto split: if_splits)
  qed
qed

lemma search_found_iff:
  assumes "valid_enc e" "\<forall>v\<in>set es. fits e v" "sorted_wrt (<) es"
  shows "fst (intsetSearch (repr e es) v) \<longleftrightarrow> v \<in> set es"
proof (cases "intsetSearch (repr e es) v")
  case (Pair found pos)
  note res = intsetSearch_repr [OF assms Pair]
  show ?thesis
  proof (cases found)
    case True
    then show ?thesis using res Pair by auto
  next
    case False
    then have "v \<noteq> es ! i" if "i < length es" for i
      using res that by (metis less_irrefl not_le)
    then show ?thesis using False Pair by (auto simp: in_set_conv_nth)
  qed
qed

lemma insort_append_less: "\<forall>x\<in>set xs. x < v \<Longrightarrow> insort v (xs @ ys) = xs @ insort v ys"
  for v :: int by (induction xs) auto

lemma insort_greater: "\<forall>y\<in>set ys. v < y \<Longrightarrow> insort v ys = v # ys"
  for v :: int by (cases ys) auto

lemma insert_position:
  fixes es :: "int list"
  assumes "\<forall>i < pos. es ! i < v" "\<forall>i. pos \<le> i \<and> i < length es \<longrightarrow> v < es ! i" "pos \<le> length es"
  shows "take pos es @ v # drop pos es = insort v es"
proof -
  have lt: "\<forall>x\<in>set (take pos es). x < v" using assms(1,3) by (auto simp: in_set_conv_nth)
  have gt: "\<forall>x\<in>set (drop pos es). v < x" using assms(2) by (auto simp: in_set_conv_nth)
  have "insort v (take pos es @ drop pos es) = take pos es @ v # drop pos es"
    by (simp only: insort_append_less [OF lt] insort_greater [OF gt])
  then show ?thesis by simp
qed

lemma sorted_wrt_insort:
  "sorted_wrt (<) es \<Longrightarrow> v \<notin> set es \<Longrightarrow> sorted_wrt (<) (insort v es)" for v :: int
  by (simp add: strict_sorted_iff sorted_insort distinct_insort)

section \<open>Insertion\<close>

text \<open>All byte counts of a set of \<open>n\<close> integers fit \<open>uint32_t\<close>.\<close>

definition bytes_fit :: "nat \<Rightarrow> bool" where
  "bytes_fit n \<longleftrightarrow> n * 8 < 2 ^ 32"

lemma bytes_fit_mod: "bytes_fit n \<Longrightarrow> valid_enc e \<Longrightarrow> (n * e) mod 2 ^ 32 = n * e"
  by (rule mod_less) (auto simp: bytes_fit_def valid_enc_def)

lemma memmove_gap:
  assumes "length cs = n" "pos < n"
  shows "(memmove (Suc pos) pos (n - pos) (cs @ [x]))[pos := y] = take pos cs @ y # drop pos cs"
  using assms
  by (simp add: memmove_def mem_get_def mem_put_def list_update_append take_Suc_conv_app_nth)

lemma insert_repr:
  fixes fill :: byte
  assumes "valid_enc e" "bytes_fit (Suc (length es))" "pos \<le> length es"
  defines "s1 \<equiv> intsetResize fill (repr e es) (length es + 1)"
  shows "(intsetSet (if pos < length es then intsetMoveTail s1 pos (pos + 1) else s1) pos v)
      \<lparr>len := length es + 1\<rparr> = repr e (take pos es @ v # drop pos es)"
proof -
  let ?n = "length es" let ?cs = "map (item e) es" let ?bs = "?cs @ [replicate e fill]"
  have w: "\<forall>b\<in>set ?bs. length b = e" using assms(1) by auto
  have mod: "(Suc ?n * e) mod 2 ^ 32 = Suc ?n * e" using assms(1,2) bytes_fit_mod by blast
  have s1: "s1 = (repr e es)\<lparr>contents := concat ?bs\<rparr>"
    unfolding s1_def intsetResize_def Let_def Suc_eq_plus1 [symmetric] repr_sel mod
    using assms(1) by (simp add: mem_resize_def algebra_simps del: length_concat)
  let ?s2 = "if pos < ?n then intsetMoveTail s1 pos (pos + 1) else s1"
  let ?bs2 = "if pos < ?n then memmove (Suc pos) pos (?n - pos) ?bs else ?bs"
  have enc1: "enc s1 = e" "len s1 = ?n" "contents s1 = concat ?bs" by (simp_all add: s1)
  have s2: "?s2 = (repr e es)\<lparr>contents := concat ?bs2\<rparr>"
    using assms(1) by (auto simp: moveTail_eq enc1 memmove_concat [OF w]
        simp del: map_append concat_append mult_Suc_right simp: s1)
  have w2: "\<forall>b\<in>set ?bs2. length b = e"
    using w by (auto simp: memmove_def mem_put_def mem_get_def dest!: in_set_takeD in_set_dropD)
  have "length ?bs2 = Suc ?n" by (simp add: length_memmove)
  then have "pos < length ?bs2" using assms(3) by simp
  then have "mem_put (e * pos) (item e v) (concat ?bs2) = concat (?bs2[pos := item e v])"
    using w2 assms(1) by (intro mem_put_concat_width) auto
  also have "?bs2[pos := item e v] = map (item e) (take pos es @ v # drop pos es)"
    using assms(3) memmove_gap [of ?cs ?n pos "replicate e fill" "item e v"]
    by (cases "pos < ?n") (auto simp: take_map drop_map list_update_append)
  finally show ?thesis
    unfolding s2 using assms(1,3) by (simp add: set_eq repr_def del: map_append)
qed

lemma not_fits_upgrade:
  "valid_enc e \<Longrightarrow> fits 8 v \<Longrightarrow> e < intsetValueEncoding v \<Longrightarrow> fits e x \<Longrightarrow> if v < 0 then v < x else x < v"
  by (auto simp: intsetValueEncoding_def enc_defs valid_enc_def fits_def split: if_splits)

lemma valueEncoding_valid [simp]: "valid_enc (intsetValueEncoding v)"
  by (simp add: intsetValueEncoding_def enc_defs valid_enc_def)

lemma valueEncoding_fits:
  "valid_enc e \<Longrightarrow> fits 8 v \<Longrightarrow> intsetValueEncoding v \<le> e \<Longrightarrow> fits e v"
  by (auto simp: intsetValueEncoding_def enc_defs valid_enc_def fits_def split: if_splits)

lemma fits_valueEncoding: "valid_enc e \<Longrightarrow> fits e v \<Longrightarrow> intsetValueEncoding v \<le> e"
  by (auto simp: intsetValueEncoding_def enc_defs valid_enc_def fits_def split: if_splits)

lemma fits_mono: "valid_enc e \<Longrightarrow> valid_enc e' \<Longrightarrow> e \<le> e' \<Longrightarrow> fits e v \<Longrightarrow> fits e' v"
  by (auto simp: valid_enc_def fits_def)

section \<open>Upgrade\<close>

text \<open>
  After the items from \<open>n\<close> on have been widened, the first \<open>n\<close> still stand at the old width
  and the others at the new one, shifted by \<open>prepend\<close>: writing back to front never
  overwrites an item that is still to be read.
\<close>

definition upgrading :: "nat \<Rightarrow> nat \<Rightarrow> nat \<Rightarrow> int list \<Rightarrow> nat \<Rightarrow> intset \<Rightarrow> bool" where
  "upgrading e e' p es n s \<longleftrightarrow> enc s = e' \<and> len s = length es
     \<and> length (contents s) = e' * Suc (length es)
     \<and> take (e * n) (contents s) = concat (map (item e) (take n es))
     \<and> (\<forall>i. n \<le> i \<and> i < length es \<longrightarrow> mem_get (e' * (i + p)) e' (contents s) = item e' (es ! i))"

lemma upgrade_loop:
  assumes "valid_enc e" "valid_enc e'" "e \<le> e'" "\<forall>v\<in>set es. fits e v" "p \<le> 1"
    and "upgrading e e' p es n s" "n \<le> length es"
  shows "upgrading e e' p es 0 (intsetUpgrade_loop s e p n)"
  using assms(6,7)
proof (induction n arbitrary: s)
  case 0
  then show ?case by simp
next
  case (Suc n)
  let ?c = "contents s"
  let ?c' = "mem_put (e' * (n + p)) (item e' (es ! n)) ?c"
  note inv = Suc.prems(1) [unfolded upgrading_def]
  have val: "intsetGetEncoded s n e = es ! n"
    using assms(1,4) Suc.prems(2) inv by (intro getEncoded_prefix) auto
  have len: "length (item e' (es ! n)) = e'" using assms(2) by simp
  have bound: "e' * (n + p) + e' \<le> length ?c"
  proof -
    have "e' * Suc (n + p) \<le> e' * Suc (length es)" using Suc.prems(2) assms(5) by (intro mult_le_mono2) simp
    then show ?thesis using inv by simp
  qed
  have off: "e * n \<le> e' * (n + p)" using assms(3) by (simp add: mult_le_mono)
  have "take (e * n) ?c' = take (e * n) ?c"
    using off bound by (simp add: mem_put_def)
  also have "\<dots> = take (e * n) (take (e * Suc n) ?c)" by simp
  also have "\<dots> = concat (map (item e) (take n es))"
    using inv Suc.prems(2) assms(1) by (simp add: take_items min_def del: mult_Suc_right)
  finally have pre: "take (e * n) ?c' = concat (map (item e) (take n es))" .
  have post: "mem_get (e' * (i + p)) e' ?c' = item e' (es ! i)" if "n \<le> i" "i < length es" for i
  proof (cases "i = n")
    case True
    then show ?thesis using mem_get_put_same [of "e' * (n + p)" "item e' (es ! n)" ?c] bound len by simp
  next
    case False
    then have "e' * Suc (n + p) \<le> e' * (i + p)" using that by (intro mult_le_mono2) simp
    then have "mem_get (e' * (i + p)) e' ?c' = mem_get (e' * (i + p)) e' ?c"
      using bound len by (intro mem_get_put_after) auto
    also have "\<dots> = item e' (es ! i)" using inv False that by simp
    finally show ?thesis .
  qed
  have "upgrading e e' p es n (s\<lparr>contents := ?c'\<rparr>)"
    using inv pre post bound len by (simp add: upgrading_def length_mem_put)
  then show ?case using Suc assms(2) inv by (simp add: val set_eq)
qed

lemma upgrade_repr:
  fixes fill :: byte
  assumes "valid_enc e" "\<forall>x\<in>set es. fits e x" "bytes_fit (Suc (length es))" "e < intsetValueEncoding v"
  shows "intsetUpgradeAndAdd fill (repr e es) v
    = repr (intsetValueEncoding v) (if v < 0 then v # es else es @ [v])"
proof -
  let ?e = "intsetValueEncoding v" and ?n = "length es" and ?p = "if v < 0 then 1 else 0 :: nat"
  let ?fin = "if v < 0 then v # es else es @ [v]"
  let ?s1 = "intsetResize fill ((repr e es)\<lparr>enc := ?e\<rparr>) (?n + 1)"
  have mod: "(Suc ?n * ?e) mod 2 ^ 32 = Suc ?n * ?e" using assms(3) by (simp only: bytes_fit_mod valueEncoding_valid)
  have le: "e * ?n \<le> ?e * Suc ?n" using assms(4) by (intro mult_le_mono) auto
  have s1: "?s1 = (repr e es)\<lparr>enc := ?e, contents := mem_resize fill (?e * Suc ?n) (concat (map (item e) es))\<rparr>"
    using mod by (simp add: intsetResize_def mult.commute)
  have "upgrading e ?e ?p es ?n ?s1"
    unfolding upgrading_def s1 using le assms(1)
    by (auto simp: mem_resize_def simp del: mult_Suc_right length_concat)
  then have up: "upgrading e ?e ?p es 0 (intsetUpgrade_loop ?s1 e ?p ?n)"
    using assms by (intro upgrade_loop) auto
  let ?s2 = "intsetUpgrade_loop ?s1 e ?p ?n" and ?at = "if v < 0 then 0 else ?n"
  let ?c = "mem_put (?e * ?at) (item ?e v) (contents ?s2)"
  note inv = up [unfolded upgrading_def]
  have item: "length (item ?e v) = ?e" by simp
  have bound: "?e * ?at + ?e \<le> length (contents ?s2)"
    using inv by (auto simp: algebra_simps)
  have chunk: "mem_get (?e * i) ?e ?c = map (item ?e) ?fin ! i" if "i < Suc ?n" for i
  proof (cases "i = ?at")
    case True
    then show ?thesis using mem_get_put_same [of "?e * ?at" "item ?e v"] bound item
      by (auto simp: nth_append)
  next
    case False
    let ?j = "i - ?p"
    have j: "?j < ?n" "i = ?j + ?p" "?fin ! i = es ! ?j"
      using False that by (cases "v < 0"; cases i; auto simp: nth_append)+
    have "mem_get (?e * i) ?e ?c = mem_get (?e * i) ?e (contents ?s2)"
    proof (cases "v < 0")
      case True
      then have "?e * Suc 0 \<le> ?e * i" using False by (intro mult_le_mono2) simp
      then show ?thesis using True bound item by (intro mem_get_put_after) auto
    next
      case nneg: False
      then have "?e * Suc i \<le> ?e * ?n" using False that by (intro mult_le_mono2) simp
      then show ?thesis using nneg bound item by (intro mem_get_put_before) auto
    qed
    also have "\<dots> = item ?e (es ! ?j)" using inv j(1) j(2) by auto
    finally show ?thesis using j that by (simp del: nth_append)
  qed
  have "length ?c = ?e * Suc ?n" using inv bound item by (simp add: length_mem_put)
  then have "?c = concat (map (\<lambda>i. mem_get (?e * i) ?e ?c) [0..<Suc ?n])" by (rule concat_chunks)
  also have "map (\<lambda>i. mem_get (?e * i) ?e ?c) [0..<Suc ?n] = map (item ?e) ?fin"
  proof (rule nth_equalityI)
    show "length (map (\<lambda>i. mem_get (?e * i) ?e ?c) [0..<Suc ?n]) = length (map (item ?e) ?fin)"
      by simp
    fix i
    assume "i < length (map (\<lambda>i. mem_get (?e * i) ?e ?c) [0..<Suc ?n])"
    then have "i < Suc ?n" by simp
    then show "map (\<lambda>i. mem_get (?e * i) ?e ?c) [0..<Suc ?n] ! i = map (item ?e) ?fin ! i"
      using chunk [of i] by (simp del: upt_Suc split del: if_split)
  qed
  finally have c: "?c = concat (map (item ?e) ?fin)" .
  have "intsetUpgradeAndAdd fill (repr e es) v = ?s2\<lparr>contents := ?c, len := ?n + 1\<rparr>"
    using inv by (auto simp: intsetUpgradeAndAdd_def Let_def set_eq)
  also have "\<dots> = repr ?e ?fin"
    using inv unfolding c by (auto simp: repr_def intro: intset.equality)
  finally show ?thesis .
qed

section \<open>Removal\<close>

lemma memmove_close_gap:
  assumes "length cs = n" "pos < n - 1"
  shows "take (n - 1) (memmove pos (Suc pos) (n - Suc pos) cs) = take pos cs @ drop (Suc pos) cs"
  using assms by (simp add: memmove_def mem_get_def mem_put_def)

lemma delete_repr:
  fixes fill :: byte
  assumes "valid_enc e" "bytes_fit (length es)" "pos < length es"
  shows "(intsetResize fill (if pos < length es - 1 then intsetMoveTail (repr e es) (pos + 1) pos
        else repr e es) (length es - 1))\<lparr>len := length es - 1\<rparr>
    = repr e (take pos es @ drop (Suc pos) es)"
proof -
  let ?n = "length es" let ?cs = "map (item e) es"
  let ?cs1 = "if pos < ?n - 1 then memmove pos (Suc pos) (?n - Suc pos) ?cs else ?cs"
  have w: "\<forall>b\<in>set ?cs. length b = e" using assms(1) by auto
  have w1: "\<forall>b\<in>set ?cs1. length b = e"
    using w by (auto simp: memmove_def mem_put_def mem_get_def dest!: in_set_takeD in_set_dropD)
  have len1: "length ?cs1 = ?n" using assms(3) by (simp add: length_memmove)
  have "((?n - 1) * e) \<le> ?n * e" by simp
  then have mod: "((?n - 1) * e) mod 2 ^ 32 = e * (?n - 1)"
    using assms(1,2) bytes_fit_mod [of "?n - 1" e]
    by (simp add: bytes_fit_def mult.commute)
  have move: "(if pos < ?n - 1 then intsetMoveTail (repr e es) (pos + 1) pos else repr e es)
      = (repr e es)\<lparr>contents := concat ?cs1\<rparr>"
    using assms(1) by (auto simp: moveTail_eq memmove_concat [OF w] simp del: mult_Suc_right)
  have "mem_resize fill (e * (?n - 1)) (concat ?cs1) = take (e * (?n - 1)) (concat ?cs1)"
    using len1 assms(3) length_concat_width [OF w1] by (simp add: mem_resize_def del: length_concat)
  also have "\<dots> = concat (take (?n - 1) ?cs1)" using w1 by (rule take_concat_width)
  also have "take (?n - 1) ?cs1 = map (item e) (take pos es @ drop (Suc pos) es)"
  proof (cases "pos < ?n - 1")
    case True
    then show ?thesis using memmove_close_gap [of ?cs ?n pos] by (simp add: take_map drop_map)
  next
    case False
    then have "?n - 1 = pos" "drop (Suc pos) es = []" using assms(3) by auto
    then show ?thesis using False by (simp add: take_map)
  qed
  finally show ?thesis
    unfolding move intsetResize_def Let_def using assms(3) mod by (auto simp: repr_def mult.commute)
qed

lemma remove_position:
  fixes es :: "int list"
  assumes "sorted_wrt (<) es" "pos < length es"
  shows "take pos es @ drop (Suc pos) es = remove1 (es ! pos) es"
proof -
  have "distinct es" using assms(1) by (simp add: strict_sorted_iff)
  moreover have "es = take pos es @ es ! pos # drop (Suc pos) es" using assms(2) by (rule id_take_nth_drop)
  ultimately have "es ! pos \<notin> set (take pos es)"
    by (metis assms(2) distinct_take in_set_conv_nth length_take min_less_iff_conj nth_eq_iff_index_eq nth_take less_irrefl)
  then have "remove1 (es ! pos) (take pos es @ es ! pos # drop (Suc pos) es) = take pos es @ drop (Suc pos) es"
    by (simp add: remove1_append)
  then show ?thesis using \<open>es = _\<close> by simp
qed

lemma sorted_wrt_remove1: "sorted_wrt (<) es \<Longrightarrow> sorted_wrt (<) (remove1 v es)" for v :: int
  by (simp add: strict_sorted_iff sorted_remove1)

section \<open>The operations on a well-formed set\<close>

lemma intset_cases:
  assumes "intset_inv s"
  obtains e es where "s = repr e es" "valid_enc e" "\<forall>v\<in>set es. fits e v" "sorted_wrt (<) es"
    "elems s = es" "len s = length es"
  using assms unfolding intset_inv_repr by (metis elems_repr repr_sel(2))

lemma intsetAdd_ok:
  assumes "intset_inv s" "bytes_fit (Suc (len s))" "fits 8 v"
  shows "intset_inv (fst (intsetAdd fill s v))
    \<and> elems (fst (intsetAdd fill s v)) = (if v \<in> set (elems s) then elems s else insort v (elems s))
    \<and> snd (intsetAdd fill s v) = (v \<notin> set (elems s))"
proof -
  obtain e es where s: "s = repr e es" and ok: "valid_enc e" "\<forall>x\<in>set es. fits e x" "sorted_wrt (<) es"
    and es: "elems s = es" "len s = length es"
    using assms(1) by (rule intset_cases)
  show ?thesis
  proof (cases "e < intsetValueEncoding v")
    case True
    let ?e = "intsetValueEncoding v" and ?fin = "if v < 0 then v # es else es @ [v]"
    have out: "\<forall>x\<in>set es. if v < 0 then v < x else x < v"
      using ok(1,2) assms(3) True not_fits_upgrade by blast
    then have fin: "?fin = insort v es" and nin: "v \<notin> set es"
      using insort_append_less [of es v "[]"] insort_greater [of es v] by auto
    have "\<forall>x\<in>set (insort v es). fits ?e x"
      using ok(1,2) True fits_mono [OF ok(1) valueEncoding_valid [of v]] valueEncoding_fits [OF _ assms(3)]
      by (auto simp: set_insort_key less_imp_le)
    moreover have "sorted_wrt (<) (insort v es)" using ok(3) nin by (rule sorted_wrt_insort)
    moreover have "intsetAdd fill s v = (repr ?e (insort v es), True)"
      using True ok assms(2) es(2) unfolding intsetAdd_def s
      by (simp add: upgrade_repr fin)
    ultimately show ?thesis using nin es by (simp add: repr_inv elems_repr)
  next
    case False
    then have fv: "fits e v" using ok(1) assms(3) by (simp add: valueEncoding_fits)
    obtain found pos where search: "intsetSearch (repr e es) v = (found, pos)" by fastforce
    note res = intsetSearch_repr [OF ok search]
    have found: "found \<longleftrightarrow> v \<in> set es" using search_found_iff [OF ok, of v] search by simp
    show ?thesis
    proof (cases found)
      case True
      then show ?thesis using False found search es assms(1) unfolding intsetAdd_def s
        by (simp add: repr_inv ok)
    next
      case nf: False
      then have pos: "pos \<le> length es" and fin: "take pos es @ v # drop pos es = insort v es"
        using res insert_position [of pos es v] by auto
      have "intsetAdd fill s v = (repr e (insort v es), True)"
        using False nf search assms(2) insert_repr [OF ok(1) _ pos, of fill v] es(2)
        unfolding intsetAdd_def s Suc_eq_plus1 [symmetric] by (simp add: Let_def fin split del: if_split)
      moreover have "\<forall>x\<in>set (insort v es). fits e x" using ok(2) fv by (auto simp: set_insort_key)
      moreover have "sorted_wrt (<) (insort v es)" using ok(3) nf found by (intro sorted_wrt_insort) auto
      ultimately show ?thesis using nf found es ok(1) by (simp add: repr_inv elems_repr)
    qed
  qed
qed

text \<open>
  C23: \<open>intsetAdd\<close>.  On a well-formed set it returns a well-formed set holding exactly the old
  integers and the new one in ascending order, whether the value fits the current encoding or
  forces the upgrade to a wider one, and reports 0 exactly when the value was already there.
\<close>

theorem intsetAdd_correct:
  assumes "intset_inv s" "bytes_fit (Suc (len s))" "fits 8 v"
  shows "intset_inv (fst (intsetAdd fill s v))
    \<and> elems (fst (intsetAdd fill s v)) = (if v \<in> set (elems s) then elems s else insort v (elems s))
    \<and> snd (intsetAdd fill s v) = (v \<notin> set (elems s))"
  by (rule intsetAdd_ok [OF assms])

theorem intsetAdd_correct_witness:
  "elems (fst (intsetAdd 0 (repr 2 [- 7, 3]) 70000)) = [- 7, 3, 70000]"
proof -
  have "elems (repr 2 [- 7, 3]) = [- 7, 3]"
    by (rule elems_repr) (auto simp: valid_enc_def fits_def)
  moreover have "intset_inv (repr 2 [- 7, 3])"
    by (rule repr_inv) (auto simp: valid_enc_def fits_def)
  ultimately show ?thesis
    using intsetAdd_correct [of "repr 2 [- 7, 3]" 70000 0]
    by (simp add: bytes_fit_def fits_def)
qed

lemma intsetRemove_ok:
  assumes "intset_inv s" "bytes_fit (len s)" "fits 8 v"
  shows "intset_inv (fst (intsetRemove fill s v))
    \<and> elems (fst (intsetRemove fill s v)) = remove1 v (elems s)
    \<and> snd (intsetRemove fill s v) = (v \<in> set (elems s))"
proof -
  obtain e es where s: "s = repr e es" and ok: "valid_enc e" "\<forall>x\<in>set es. fits e x" "sorted_wrt (<) es"
    and es: "elems s = es" "len s = length es"
    using assms(1) by (rule intset_cases)
  obtain found pos where search: "intsetSearch (repr e es) v = (found, pos)" by fastforce
  note res = intsetSearch_repr [OF ok search]
  have found: "found \<longleftrightarrow> v \<in> set es" using search_found_iff [OF ok, of v] search by simp
  show ?thesis
  proof (cases found)
    case False
    then show ?thesis using found search es assms(1) unfolding intsetRemove_def s
      by (simp add: remove1_idem)
  next
    case True
    then have pos: "pos < length es" "es ! pos = v" using res by simp_all
    have enc: "intsetValueEncoding v \<le> e" using True found ok fits_valueEncoding by blast
    have fin: "take pos es @ drop (Suc pos) es = remove1 v es"
      using remove_position [OF ok(3) pos(1)] pos(2) by simp
    have "intsetRemove fill s v = (repr e (remove1 v es), True)"
      using True search enc assms(2) delete_repr [OF ok(1) _ pos(1), of fill] es(2)
      unfolding intsetRemove_def s by (simp add: Let_def fin split del: if_split)
    moreover have "\<forall>x\<in>set (remove1 v es). fits e x" using ok(2) by (auto dest: notin_set_remove1)
    moreover have "sorted_wrt (<) (remove1 v es)" using ok(3) by (rule sorted_wrt_remove1)
    ultimately show ?thesis using True found es ok(1) by (simp add: repr_inv elems_repr)
  qed
qed

text \<open>
  C24: \<open>intsetRemove\<close>.  On a well-formed set it removes exactly the given integer, keeps the
  order and the invariant, and reports whether the integer was there.
\<close>

theorem intsetRemove_correct:
  assumes "intset_inv s" "bytes_fit (len s)" "fits 8 v"
  shows "intset_inv (fst (intsetRemove fill s v))
    \<and> elems (fst (intsetRemove fill s v)) = remove1 v (elems s)
    \<and> snd (intsetRemove fill s v) = (v \<in> set (elems s))"
  by (rule intsetRemove_ok [OF assms])

theorem intsetRemove_correct_witness:
  "elems (fst (intsetRemove 0 (repr 4 [- 70000, 3, 9]) 3)) = [- 70000, 9]"
proof -
  have "elems (repr 4 [- 70000, 3, 9]) = [- 70000, 3, 9]"
    by (rule elems_repr) (auto simp: valid_enc_def fits_def)
  moreover have "intset_inv (repr 4 [- 70000, 3, 9])"
    by (rule repr_inv) (auto simp: valid_enc_def fits_def)
  ultimately show ?thesis
    using intsetRemove_correct [of "repr 4 [- 70000, 3, 9]" 3 0]
    by (simp add: bytes_fit_def fits_def)
qed

lemma intsetFind_iff:
  assumes "intset_inv s" "fits 8 v"
  shows "intsetFind s v \<longleftrightarrow> v \<in> set (elems s)"
  using assms(1)
proof (rule intset_cases)
  fix e es
  assume s: "s = repr e es" and ok: "valid_enc e" "\<forall>x\<in>set es. fits e x" "sorted_wrt (<) es"
    and es: "elems s = es"
  have "v \<in> set es \<Longrightarrow> intsetValueEncoding v \<le> e" using ok fits_valueEncoding by blast
  then show ?thesis
    using search_found_iff [OF ok, of v] es by (auto simp: intsetFind_def s)
qed

lemma intsetNew_inv: "intset_inv intsetNew" "elems intsetNew = []"
  by (simp_all add: intset_inv_def intsetNew_def elems_def valid_enc_def enc_defs)

lemma intsetGet_elems:
  "intsetGet s pos = (if pos < length (elems s) then Some (elems s ! pos) else None)"
  by (simp add: intsetGet_def elems_def)

lemma intsetRandom_member: "0 < len s \<Longrightarrow> intsetRandom s r \<in> set (elems s)"
  by (auto simp: intsetRandom_def elems_def)

lemma intsetBlobLen_eq:
  "intset_inv s \<Longrightarrow> bytes_fit (len s) \<Longrightarrow> intsetBlobLen s = 8 + length (contents s)"
  unfolding intset_inv_def intsetBlobLen_def by (simp only: bytes_fit_mod) (simp add: mult.commute)

section \<open>The set contract\<close>

text \<open>
  \<open>intset\<close> provides the set contract for 64-bit integers, up to the \<open>2 ^ 29 - 1\<close> elements at
  which \<open>len * encoding\<close> still fits \<open>uint32_t\<close>.
\<close>

definition intset_cap :: nat where
  "intset_cap = 2 ^ 29 - 1"

lemma bytes_fit_cap: "n \<le> intset_cap \<longleftrightarrow> bytes_fit n"
  by (auto simp: intset_cap_def bytes_fit_def)

lemma length_elems: "length (elems s) = len s"
  by (simp add: elems_def)

lemma elems_distinct: "intset_inv s \<Longrightarrow> distinct (elems s)"
  by (simp add: intset_inv_def strict_sorted_iff)

interpretation iset: set_store intset_inv "fits 8" len intset_cap "\<lambda>s. set (elems s)"
  "intsetAdd fill" "intsetRemove fill" "\<lambda>s v. (s, intsetFind s v)"
proof
  fix s v
  assume pre: "intset_inv s" "Suc (len s) \<le> intset_cap" "fits 8 v"
  then have fit: "bytes_fit (Suc (len s))" "bytes_fit (len s)"
    using bytes_fit_cap by (auto simp: bytes_fit_def)
  note add = intsetAdd_ok [OF pre(1) fit(1) pre(3), of fill]
    and del = intsetRemove_ok [OF pre(1) fit(2) pre(3), of fill]
  show "intset_inv (fst (intsetAdd fill s v)) \<and> len (fst (intsetAdd fill s v)) \<le> Suc (len s)
      \<and> (set (elems (fst (intsetAdd fill s v))), snd (intsetAdd fill s v))
        = (insert v (set (elems s)), v \<notin> set (elems s))"
    using add by (auto simp: set_insort_key simp flip: length_elems)
  show "intset_inv (fst (intsetRemove fill s v)) \<and> len (fst (intsetRemove fill s v)) \<le> Suc (len s)
      \<and> (set (elems (fst (intsetRemove fill s v))), snd (intsetRemove fill s v))
        = (set (elems s) - {v}, v \<in> set (elems s))"
    using del elems_distinct [OF pre(1)]
    by (auto simp: set_remove1_eq length_remove1 simp flip: length_elems)
  show "intset_inv (fst (s, intsetFind s v)) \<and> len (fst (s, intsetFind s v)) \<le> Suc (len s)
      \<and> (set (elems (fst (s, intsetFind s v))), snd (s, intsetFind s v))
        = (set (elems s), v \<in> set (elems s))"
    using pre intsetFind_iff by simp
qed

text \<open>
  C9: every sequence of additions, removals and membership tests on an \<open>intset\<close> created by
  \<open>intsetNew\<close> answers exactly as the mathematical set does and ends in that set.
\<close>

theorem intset_refines_set:
  assumes "length ops \<le> intset_cap" "\<forall>op\<in>set ops. fits 8 (set_op_val op)"
  shows "let (s, flags) = run_ops (set_exec (intsetAdd fill) (intsetRemove fill)
            (\<lambda>s v. (s, intsetFind s v))) intsetNew ops
         in intset_inv s \<and> (set (elems s), flags) = run_ops set_ref {} ops"
  using iset.run_refines_set [of intsetNew ops fill] assms intsetNew_inv
  by (simp add: split_beta intsetNew_def)

theorem intset_refines_set_witness:
  "let (s, flags) = run_ops (set_exec (intsetAdd 9) (intsetRemove 9) (\<lambda>s v. (s, intsetFind s v)))
      intsetNew [SetAdd 5, SetAdd (- 40000), SetHas 5, SetDel 5, SetHas 5]
   in intset_inv s \<and> (set (elems s), flags) = ({- 40000}, [True, True, True, True, False])"
  using intset_refines_set [of "[SetAdd 5, SetAdd (- 40000), SetHas 5, SetDel 5, SetHas 5]" 9]
  by (simp add: intset_cap_def fits_def insert_commute)

text \<open>
  Beyond that bound the byte count wraps: a resize asks for less than the elements take, so the
  insertion that follows writes outside the block.
\<close>

lemma intsetResize_overflow:
  assumes "2 ^ 32 \<le> n * enc s"
  shows "length (contents (intsetResize fill s n)) < n * enc s"
proof -
  have "(n * enc s) mod 2 ^ 32 < 2 ^ 32" by simp
  with assms show ?thesis by (simp add: intsetResize_def Let_def)
qed

end
