(* ===== verification/Crc.thy ===== *)
theory Crc
  imports Interfaces
begin

text \<open>
  The checksums: \<open>crc16.c\<close> (CRC-16/XMODEM, which assigns keys to cluster slots),
  \<open>crc64.c\<close> (CRC-64 with the Jones polynomial, which protects RDB files and DUMP payloads)
  and \<open>keyHashSlot\<close> of \<open>cluster.c\<close>.  The table-driven loops are proved equal to the
  bit-at-a-time polynomial division, and to accept their input in pieces.
\<close>

section \<open>Model\<close>

definition crc16tab :: "u16 list" where
  "crc16tab = [
    0x0000, 0x1021, 0x2042, 0x3063, 0x4084, 0x50a5, 0x60c6, 0x70e7,
    0x8108, 0x9129, 0xa14a, 0xb16b, 0xc18c, 0xd1ad, 0xe1ce, 0xf1ef,
    0x1231, 0x0210, 0x3273, 0x2252, 0x52b5, 0x4294, 0x72f7, 0x62d6,
    0x9339, 0x8318, 0xb37b, 0xa35a, 0xd3bd, 0xc39c, 0xf3ff, 0xe3de,
    0x2462, 0x3443, 0x0420, 0x1401, 0x64e6, 0x74c7, 0x44a4, 0x5485,
    0xa56a, 0xb54b, 0x8528, 0x9509, 0xe5ee, 0xf5cf, 0xc5ac, 0xd58d,
    0x3653, 0x2672, 0x1611, 0x0630, 0x76d7, 0x66f6, 0x5695, 0x46b4,
    0xb75b, 0xa77a, 0x9719, 0x8738, 0xf7df, 0xe7fe, 0xd79d, 0xc7bc,
    0x48c4, 0x58e5, 0x6886, 0x78a7, 0x0840, 0x1861, 0x2802, 0x3823,
    0xc9cc, 0xd9ed, 0xe98e, 0xf9af, 0x8948, 0x9969, 0xa90a, 0xb92b,
    0x5af5, 0x4ad4, 0x7ab7, 0x6a96, 0x1a71, 0x0a50, 0x3a33, 0x2a12,
    0xdbfd, 0xcbdc, 0xfbbf, 0xeb9e, 0x9b79, 0x8b58, 0xbb3b, 0xab1a,
    0x6ca6, 0x7c87, 0x4ce4, 0x5cc5, 0x2c22, 0x3c03, 0x0c60, 0x1c41,
    0xedae, 0xfd8f, 0xcdec, 0xddcd, 0xad2a, 0xbd0b, 0x8d68, 0x9d49,
    0x7e97, 0x6eb6, 0x5ed5, 0x4ef4, 0x3e13, 0x2e32, 0x1e51, 0x0e70,
    0xff9f, 0xefbe, 0xdfdd, 0xcffc, 0xbf1b, 0xaf3a, 0x9f59, 0x8f78,
    0x9188, 0x81a9, 0xb1ca, 0xa1eb, 0xd10c, 0xc12d, 0xf14e, 0xe16f,
    0x1080, 0x00a1, 0x30c2, 0x20e3, 0x5004, 0x4025, 0x7046, 0x6067,
    0x83b9, 0x9398, 0xa3fb, 0xb3da, 0xc33d, 0xd31c, 0xe37f, 0xf35e,
    0x02b1, 0x1290, 0x22f3, 0x32d2, 0x4235, 0x5214, 0x6277, 0x7256,
    0xb5ea, 0xa5cb, 0x95a8, 0x8589, 0xf56e, 0xe54f, 0xd52c, 0xc50d,
    0x34e2, 0x24c3, 0x14a0, 0x0481, 0x7466, 0x6447, 0x5424, 0x4405,
    0xa7db, 0xb7fa, 0x8799, 0x97b8, 0xe75f, 0xf77e, 0xc71d, 0xd73c,
    0x26d3, 0x36f2, 0x0691, 0x16b0, 0x6657, 0x7676, 0x4615, 0x5634,
    0xd94c, 0xc96d, 0xf90e, 0xe92f, 0x99c8, 0x89e9, 0xb98a, 0xa9ab,
    0x5844, 0x4865, 0x7806, 0x6827, 0x18c0, 0x08e1, 0x3882, 0x28a3,
    0xcb7d, 0xdb5c, 0xeb3f, 0xfb1e, 0x8bf9, 0x9bd8, 0xabbb, 0xbb9a,
    0x4a75, 0x5a54, 0x6a37, 0x7a16, 0x0af1, 0x1ad0, 0x2ab3, 0x3a92,
    0xfd2e, 0xed0f, 0xdd6c, 0xcd4d, 0xbdaa, 0xad8b, 0x9de8, 0x8dc9,
    0x7c26, 0x6c07, 0x5c64, 0x4c45, 0x3ca2, 0x2c83, 0x1ce0, 0x0cc1,
    0xef1f, 0xff3e, 0xcf5d, 0xdf7c, 0xaf9b, 0xbfba, 0x8fd9, 0x9ff8,
    0x6e17, 0x7e36, 0x4e55, 0x5e74, 0x2e93, 0x3eb2, 0x0ed1, 0x1ef0]"

text \<open>One turn of the loop: \<open>crc = (crc<<8) ^ crc16tab[((crc>>8) ^ *buf++)&0x00FF]\<close>.\<close>

definition crc16_step :: "u16 \<Rightarrow> byte \<Rightarrow> u16" where
  "crc16_step crc b =
    push_bit 8 crc XOR crc16tab ! unat ((drop_bit 8 crc XOR ucast b) AND 0x00FF)"

fun crc16_loop :: "u16 \<Rightarrow> bytes \<Rightarrow> u16" where
  "crc16_loop crc [] = crc"
| "crc16_loop crc (b # buf) = crc16_loop (crc16_step crc b) buf"

definition crc16 :: "bytes \<Rightarrow> u16" where
  "crc16 buf = crc16_loop 0 buf"

definition crc64_tab :: "u64 list" where
  "crc64_tab = [
    0x0000000000000000, 0x7ad870c830358979, 0xf5b0e190606b12f2,
    0x8f689158505e9b8b, 0xc038e5739841b68f, 0xbae095bba8743ff6,
    0x358804e3f82aa47d, 0x4f50742bc81f2d04, 0xab28ecb46814fe75,
    0xd1f09c7c5821770c, 0x5e980d24087fec87, 0x24407dec384a65fe,
    0x6b1009c7f05548fa, 0x11c8790fc060c183, 0x9ea0e857903e5a08,
    0xe478989fa00bd371, 0x7d08ff3b88be6f81, 0x07d08ff3b88be6f8,
    0x88b81eabe8d57d73, 0xf2606e63d8e0f40a, 0xbd301a4810ffd90e,
    0xc7e86a8020ca5077, 0x4880fbd87094cbfc, 0x32588b1040a14285,
    0xd620138fe0aa91f4, 0xacf86347d09f188d, 0x2390f21f80c18306,
    0x594882d7b0f40a7f, 0x1618f6fc78eb277b, 0x6cc0863448deae02,
    0xe3a8176c18803589, 0x997067a428b5bcf0, 0xfa11fe77117cdf02,
    0x80c98ebf2149567b, 0x0fa11fe77117cdf0, 0x75796f2f41224489,
    0x3a291b04893d698d, 0x40f16bccb908e0f4, 0xcf99fa94e9567b7f,
    0xb5418a5cd963f206, 0x513912c379682177, 0x2be1620b495da80e,
    0xa489f35319033385, 0xde51839b2936bafc, 0x9101f7b0e12997f8,
    0xebd98778d11c1e81, 0x64b116208142850a, 0x1e6966e8b1770c73,
    0x8719014c99c2b083, 0xfdc17184a9f739fa, 0x72a9e0dcf9a9a271,
    0x08719014c99c2b08, 0x4721e43f0183060c, 0x3df994f731b68f75,
    0xb29105af61e814fe, 0xc849756751dd9d87, 0x2c31edf8f1d64ef6,
    0x56e99d30c1e3c78f, 0xd9810c6891bd5c04, 0xa3597ca0a188d57d,
    0xec09088b6997f879, 0x96d1784359a27100, 0x19b9e91b09fcea8b,
    0x636199d339c963f2, 0xdf7adabd7a6e2d6f, 0xa5a2aa754a5ba416,
    0x2aca3b2d1a053f9d, 0x50124be52a30b6e4, 0x1f423fcee22f9be0,
    0x659a4f06d21a1299, 0xeaf2de5e82448912, 0x902aae96b271006b,
    0x74523609127ad31a, 0x0e8a46c1224f5a63, 0x81e2d7997211c1e8,
    0xfb3aa75142244891, 0xb46ad37a8a3b6595, 0xceb2a3b2ba0eecec,
    0x41da32eaea507767, 0x3b024222da65fe1e, 0xa2722586f2d042ee,
    0xd8aa554ec2e5cb97, 0x57c2c41692bb501c, 0x2d1ab4dea28ed965,
    0x624ac0f56a91f461, 0x1892b03d5aa47d18, 0x97fa21650afae693,
    0xed2251ad3acf6fea, 0x095ac9329ac4bc9b, 0x7382b9faaaf135e2,
    0xfcea28a2faafae69, 0x8632586aca9a2710, 0xc9622c4102850a14,
    0xb3ba5c8932b0836d, 0x3cd2cdd162ee18e6, 0x460abd1952db919f,
    0x256b24ca6b12f26d, 0x5fb354025b277b14, 0xd0dbc55a0b79e09f,
    0xaa03b5923b4c69e6, 0xe553c1b9f35344e2, 0x9f8bb171c366cd9b,
    0x10e3202993385610, 0x6a3b50e1a30ddf69, 0x8e43c87e03060c18,
    0xf49bb8b633338561, 0x7bf329ee636d1eea, 0x012b592653589793,
    0x4e7b2d0d9b47ba97, 0x34a35dc5ab7233ee, 0xbbcbcc9dfb2ca865,
    0xc113bc55cb19211c, 0x5863dbf1e3ac9dec, 0x22bbab39d3991495,
    0xadd33a6183c78f1e, 0xd70b4aa9b3f20667, 0x985b3e827bed2b63,
    0xe2834e4a4bd8a21a, 0x6debdf121b863991, 0x1733afda2bb3b0e8,
    0xf34b37458bb86399, 0x8993478dbb8deae0, 0x06fbd6d5ebd3716b,
    0x7c23a61ddbe6f812, 0x3373d23613f9d516, 0x49aba2fe23cc5c6f,
    0xc6c333a67392c7e4, 0xbc1b436e43a74e9d, 0x95ac9329ac4bc9b5,
    0xef74e3e19c7e40cc, 0x601c72b9cc20db47, 0x1ac40271fc15523e,
    0x5594765a340a7f3a, 0x2f4c0692043ff643, 0xa02497ca54616dc8,
    0xdafce7026454e4b1, 0x3e847f9dc45f37c0, 0x445c0f55f46abeb9,
    0xcb349e0da4342532, 0xb1eceec59401ac4b, 0xfebc9aee5c1e814f,
    0x8464ea266c2b0836, 0x0b0c7b7e3c7593bd, 0x71d40bb60c401ac4,
    0xe8a46c1224f5a634, 0x927c1cda14c02f4d, 0x1d148d82449eb4c6,
    0x67ccfd4a74ab3dbf, 0x289c8961bcb410bb, 0x5244f9a98c8199c2,
    0xdd2c68f1dcdf0249, 0xa7f41839ecea8b30, 0x438c80a64ce15841,
    0x3954f06e7cd4d138, 0xb63c61362c8a4ab3, 0xcce411fe1cbfc3ca,
    0x83b465d5d4a0eece, 0xf96c151de49567b7, 0x76048445b4cbfc3c,
    0x0cdcf48d84fe7545, 0x6fbd6d5ebd3716b7, 0x15651d968d029fce,
    0x9a0d8ccedd5c0445, 0xe0d5fc06ed698d3c, 0xaf85882d2576a038,
    0xd55df8e515432941, 0x5a3569bd451db2ca, 0x20ed197575283bb3,
    0xc49581ead523e8c2, 0xbe4df122e51661bb, 0x3125607ab548fa30,
    0x4bfd10b2857d7349, 0x04ad64994d625e4d, 0x7e7514517d57d734,
    0xf11d85092d094cbf, 0x8bc5f5c11d3cc5c6, 0x12b5926535897936,
    0x686de2ad05bcf04f, 0xe70573f555e26bc4, 0x9ddd033d65d7e2bd,
    0xd28d7716adc8cfb9, 0xa85507de9dfd46c0, 0x273d9686cda3dd4b,
    0x5de5e64efd965432, 0xb99d7ed15d9d8743, 0xc3450e196da80e3a,
    0x4c2d9f413df695b1, 0x36f5ef890dc31cc8, 0x79a59ba2c5dc31cc,
    0x037deb6af5e9b8b5, 0x8c157a32a5b7233e, 0xf6cd0afa9582aa47,
    0x4ad64994d625e4da, 0x300e395ce6106da3, 0xbf66a804b64ef628,
    0xc5bed8cc867b7f51, 0x8aeeace74e645255, 0xf036dc2f7e51db2c,
    0x7f5e4d772e0f40a7, 0x05863dbf1e3ac9de, 0xe1fea520be311aaf,
    0x9b26d5e88e0493d6, 0x144e44b0de5a085d, 0x6e963478ee6f8124,
    0x21c640532670ac20, 0x5b1e309b16452559, 0xd476a1c3461bbed2,
    0xaeaed10b762e37ab, 0x37deb6af5e9b8b5b, 0x4d06c6676eae0222,
    0xc26e573f3ef099a9, 0xb8b627f70ec510d0, 0xf7e653dcc6da3dd4,
    0x8d3e2314f6efb4ad, 0x0256b24ca6b12f26, 0x788ec2849684a65f,
    0x9cf65a1b368f752e, 0xe62e2ad306bafc57, 0x6946bb8b56e467dc,
    0x139ecb4366d1eea5, 0x5ccebf68aecec3a1, 0x2616cfa09efb4ad8,
    0xa97e5ef8cea5d153, 0xd3a62e30fe90582a, 0xb0c7b7e3c7593bd8,
    0xca1fc72bf76cb2a1, 0x45775673a732292a, 0x3faf26bb9707a053,
    0x70ff52905f188d57, 0x0a2722586f2d042e, 0x854fb3003f739fa5,
    0xff97c3c80f4616dc, 0x1bef5b57af4dc5ad, 0x61372b9f9f784cd4,
    0xee5fbac7cf26d75f, 0x9487ca0fff135e26, 0xdbd7be24370c7322,
    0xa10fceec0739fa5b, 0x2e675fb4576761d0, 0x54bf2f7c6752e8a9,
    0xcdcf48d84fe75459, 0xb71738107fd2dd20, 0x387fa9482f8c46ab,
    0x42a7d9801fb9cfd2, 0x0df7adabd7a6e2d6, 0x772fdd63e7936baf,
    0xf8474c3bb7cdf024, 0x829f3cf387f8795d, 0x66e7a46c27f3aa2c,
    0x1c3fd4a417c62355, 0x935745fc4798b8de, 0xe98f353477ad31a7,
    0xa6df411fbfb21ca3, 0xdc0731d78f8795da, 0x536fa08fdfd90e51,
    0x29b7d047efec8728]"

text \<open>\<open>crc = crc64_tab[(uint8_t)crc ^ byte] ^ (crc >> 8)\<close>.\<close>

definition crc64_step :: "u64 \<Rightarrow> byte \<Rightarrow> u64" where
  "crc64_step crc b = crc64_tab ! unat ((ucast crc :: byte) XOR b) XOR drop_bit 8 crc"

fun crc64 :: "u64 \<Rightarrow> bytes \<Rightarrow> u64" where
  "crc64 crc [] = crc"
| "crc64 crc (b # s) = crc64 (crc64_step crc b) s"

text \<open>
  \<open>keyHashSlot\<close>: the two scans for the braces stop at the first match or at \<open>keylen\<close>.
\<close>

fun scan :: "byte \<Rightarrow> bytes \<Rightarrow> nat \<Rightarrow> nat" where
  "scan c [] i = i"
| "scan c (b # bs) i = (if b = c then i else scan c bs (i + 1))"

definition keyHashSlot :: "bytes \<Rightarrow> u16" where
  "keyHashSlot key =
    (let keylen = length key;
         s = scan (ch CHR ''{'') key 0
     in if s = keylen then crc16 key AND 0x3FFF
        else
          let e = scan (ch CHR ''}'') (drop (s + 1) key) (s + 1)
          in if e = keylen \<or> e = s + 1 then crc16 key AND 0x3FFF
             else crc16 (take (e - s - 1) (drop (s + 1) key)) AND 0x3FFF)"

section \<open>The tables\<close>

text \<open>Division by the polynomial one bit at a time, most significant bit first.\<close>

definition crc16_bit :: "u16 \<Rightarrow> u16" where
  "crc16_bit c = (if bit c 15 then push_bit 1 c XOR 0x1021 else push_bit 1 c)"

text \<open>The reflected division of CRC-64: least significant bit first.\<close>

definition crc64_bit :: "u64 \<Rightarrow> u64" where
  "crc64_bit c = (if bit c 0 then drop_bit 1 c XOR 0x95ac9329ac4bc9b5 else drop_bit 1 c)"

definition crc16_spec :: "u16 \<Rightarrow> byte \<Rightarrow> u16" where
  "crc16_spec c b = (crc16_bit ^^ 8) (c XOR push_bit 8 (ucast b))"

definition crc64_spec :: "u64 \<Rightarrow> byte \<Rightarrow> u64" where
  "crc64_spec c b = (crc64_bit ^^ 8) (c XOR ucast b)"

text \<open>
  Both divisions are linear over XOR, so a table of 256 entries is determined by the eight
  entries at the powers of two.
\<close>

definition xor_table :: "'a::len word list \<Rightarrow> 'a word list" where
  "xor_table basis = foldl (\<lambda>t b. t @ map (\<lambda>x. x XOR b) t) [0] basis"

definition linear_xor :: "('a::len word \<Rightarrow> 'b::len word) \<Rightarrow> bool" where
  "linear_xor f \<longleftrightarrow> (\<forall>x y. f (x XOR y) = f x XOR f y)"

lemma linear_xor_zero: "linear_xor f \<Longrightarrow> f 0 = 0"
  unfolding linear_xor_def by (metis xor_self_eq)

lemma linear_xor_funpow: "linear_xor f \<Longrightarrow> linear_xor (f ^^ n)" for f :: "'a::len word \<Rightarrow> 'a word"
  by (induction n) (auto simp: linear_xor_def)

lemma linear_xor_table:
  assumes lin: "linear_xor (f :: 'a::len word \<Rightarrow> 'b::len word)"
  shows "xor_table (map (\<lambda>k. f (2 ^ k)) [0..<n]) = map (\<lambda>i. f (of_nat i)) [0..<2 ^ n]"
proof (induction n)
  case 0
  then show ?case using linear_xor_zero [OF lin] by (simp add: xor_table_def)
next
  case (Suc n)
  have split: "[0..<2 ^ Suc n] = [0..<2 ^ n] @ map (\<lambda>i. i + 2 ^ n) [0..<2 ^ n]"
    by (simp add: map_add_upt upt_add_eq_append [of 0 "2 ^ n" "2 ^ n"] mult_2)
  have "f (of_nat (i + 2 ^ n)) = f (of_nat i) XOR f (2 ^ n)" if "i < 2 ^ n" for i
  proof -
    have "i AND 2 ^ n = 0"
      using that by (simp add: and_exp_eq_0_iff_not_bit bit_iff_odd)
    then have "i + 2 ^ n = i XOR 2 ^ n" by (rule disjunctive_add_eq_xor)
    then have "(of_nat (i + 2 ^ n) :: 'a word) = of_nat i XOR 2 ^ n"
      by (simp add: of_nat_xor_eq)
    then show ?thesis using lin by (simp add: linear_xor_def)
  qed
  then have upper: "map (\<lambda>i. f (of_nat (i + 2 ^ n))) [0..<2 ^ n] = map (\<lambda>i. f (of_nat i) XOR f (2 ^ n)) [0..<2 ^ n]"
    by simp
  have "xor_table (map (\<lambda>k. f (2 ^ k)) [0..<Suc n])
      = map (\<lambda>i. f (of_nat i)) [0..<2 ^ n] @ map (\<lambda>i. f (of_nat i) XOR f (2 ^ n)) [0..<2 ^ n]"
    using Suc.IH by (simp add: xor_table_def comp_def)
  also have "\<dots> = map (\<lambda>i. f (of_nat i)) [0..<2 ^ Suc n]"
    unfolding split map_append map_map comp_def upper ..
  finally show ?case .
qed

lemma crc16_bit_linear: "linear_xor crc16_bit"
  unfolding linear_xor_def crc16_bit_def
  by (auto simp: bit_xor_iff push_bit_xor xor.assoc xor.commute xor.left_commute)

lemma crc64_bit_linear: "linear_xor crc64_bit"
  unfolding linear_xor_def crc64_bit_def
  by (auto simp: bit_xor_iff drop_bit_xor xor.assoc xor.commute xor.left_commute)

definition crc16_byte :: "u16 \<Rightarrow> u16" where "crc16_byte = crc16_bit ^^ 8"
definition crc64_byte :: "u64 \<Rightarrow> u64" where "crc64_byte = crc64_bit ^^ 8"

lemma byte_linear: "linear_xor crc16_byte" "linear_xor crc64_byte"
  unfolding crc16_byte_def crc64_byte_def
  by (intro linear_xor_funpow crc16_bit_linear crc64_bit_linear)+

lemma byte_unfold:
  "crc16_byte x = crc16_bit (crc16_bit (crc16_bit (crc16_bit (crc16_bit (crc16_bit (crc16_bit (crc16_bit x)))))))"
  "crc64_byte y = crc64_bit (crc64_bit (crc64_bit (crc64_bit (crc64_bit (crc64_bit (crc64_bit (crc64_bit y)))))))"
  by (simp_all add: crc16_byte_def crc64_byte_def numeral_eq_Suc)

lemma crc16_basis:
  "map (\<lambda>k. crc16_byte (push_bit 8 (2 ^ k))) [0..<8]
     = [0x1021, 0x2042, 0x4084, 0x8108, 0x1231, 0x2462, 0x48c4, 0x9188]"
  by (simp add: byte_unfold crc16_bit_def upt_rec)

lemma crc64_basis:
  "map (\<lambda>k. crc64_byte (2 ^ k)) [0..<8]
     = [0x7ad870c830358979, 0xf5b0e190606b12f2, 0xc038e5739841b68f, 0xab28ecb46814fe75, 0x7d08ff3b88be6f81, 0xfa11fe77117cdf02, 0xdf7adabd7a6e2d6f, 0x95ac9329ac4bc9b5]"
  by (simp add: byte_unfold crc64_bit_def upt_rec)

lemma crc16tab_xor: "crc16tab = xor_table (map (\<lambda>k. crc16_byte (push_bit 8 (2 ^ k))) [0..<8])"
  unfolding crc16_basis by (simp add: crc16tab_def xor_table_def)

lemma crc64_tab_xor: "crc64_tab = xor_table (map (\<lambda>k. crc64_byte (2 ^ k)) [0..<8])"
  unfolding crc64_basis by (simp add: crc64_tab_def xor_table_def)

lemma crc16tab_nth: "crc16tab ! unat b = crc16_byte (push_bit 8 (ucast b))" for b :: byte
proof -
  have lin: "linear_xor (\<lambda>x. crc16_byte (push_bit 8 x))"
    using byte_linear(1) by (simp add: linear_xor_def push_bit_xor)
  have "unat b < 2 ^ 8" using unsigned_less [of b, where 'a = nat] by simp
  then show ?thesis
    unfolding crc16tab_xor linear_xor_table [OF lin] by simp
qed

lemma crc64_tab_nth: "crc64_tab ! unat b = crc64_byte (ucast b)" for b :: byte
proof -
  have "unat b < 2 ^ 8" using unsigned_less [of b, where 'a = nat] by simp
  then show ?thesis
    unfolding crc64_tab_xor linear_xor_table [OF byte_linear(2)] by simp
qed

section \<open>The loops\<close>

lemma crc16_bit_shift: "\<forall>j. 16 - n \<le> j \<longrightarrow> \<not> bit x j \<Longrightarrow> n \<le> 16 \<Longrightarrow> (crc16_bit ^^ n) x = push_bit n x"
proof (induction n)
  case 0
  then show ?case by simp
next
  case (Suc n)
  have "(crc16_bit ^^ n) x = push_bit n x" using Suc by simp
  moreover have "\<not> bit (push_bit n x) 15" using Suc.prems by (simp add: bit_simps)
  ultimately have "crc16_bit ((crc16_bit ^^ n) x) = push_bit 1 (push_bit n x)"
    by (simp only: crc16_bit_def if_False)
  then show ?case by simp
qed

lemma crc64_bit_shift: "(crc64_bit ^^ n) (push_bit n x) = x" if "\<forall>j. 64 - n \<le> j \<longrightarrow> \<not> bit x j" "n \<le> 64"
  using that
proof (induction n arbitrary: x)
  case 0
  then show ?case by simp
next
  case (Suc n)
  have "\<not> bit (push_bit (Suc n) x) 0" by (simp only: bit_push_bit_iff) simp
  then have "crc64_bit (push_bit (Suc n) x) = drop_bit 1 (push_bit (Suc n) x)" by (simp add: crc64_bit_def)
  also have "\<dots> = push_bit n x"
  proof (rule bit_word_eqI)
    fix j
    assume "j < LENGTH(64)"
    have "\<not> bit x (63 - n)" "\<not> bit x (j - n)" if "j = 63" using Suc.prems that by auto
    then show "bit (drop_bit 1 (push_bit (Suc n) x)) j = bit (push_bit n x) j"
      using \<open>j < LENGTH(64)\<close> by (cases "j = 63") (auto simp: bit_drop_bit_eq bit_push_bit_iff simp del: push_bit_Suc)
  qed
  finally show ?case using Suc by (simp add: funpow_swap1)
qed

lemma crc16_step_spec: "crc16_step c b = crc16_spec c b"
proof -
  let ?x = "c XOR push_bit 8 (ucast b)" let ?i = "ucast (drop_bit 8 c) XOR b :: byte"
  have x: "?x = push_bit 8 (ucast ?i) XOR take_bit 8 c"
    by (rule bit_word_eqI) (auto simp: bit_simps)
  have idx: "unat ((drop_bit 8 c XOR ucast b) AND 0x00FF) = unat ?i"
  proof -
    have "(0x00FF :: u16) = mask 8" by (simp add: mask_eq_exp_minus_1)
    then have "(drop_bit 8 c XOR ucast b) AND 0x00FF = take_bit 8 (drop_bit 8 c XOR ucast b)"
      by (simp only: take_bit_eq_mask)
    also have "\<dots> = (ucast ?i :: u16)"
      by (rule bit_word_eqI) (auto simp: bit_simps dest: bit_imp_le_length)
    finally have "(drop_bit 8 c XOR ucast b) AND 0x00FF = (ucast ?i :: u16)" .
    then show ?thesis by (simp add: unat_ucast_up)
  qed
  have low: "crc16_byte (take_bit 8 c) = push_bit 8 (take_bit 8 c)"
    unfolding crc16_byte_def by (rule crc16_bit_shift) (auto simp: bit_simps)
  have "crc16_spec c b = crc16_byte ?x" by (simp add: crc16_spec_def crc16_byte_def)
  also have "\<dots> = crc16_byte (push_bit 8 (ucast ?i)) XOR push_bit 8 (take_bit 8 c)"
    unfolding x using byte_linear(1) low by (simp add: linear_xor_def)
  also have "push_bit 8 (take_bit 8 c) = push_bit 8 c"
    by (rule bit_word_eqI) (auto simp: bit_simps)
  finally show ?thesis
    unfolding crc16_step_def idx crc16tab_nth by (simp add: xor.commute)
qed

lemma crc64_step_spec: "crc64_step c b = crc64_spec c b"
proof -
  let ?i = "ucast c XOR b :: byte"
  have x: "c XOR ucast b = ucast ?i XOR push_bit 8 (drop_bit 8 c)"
    by (rule bit_word_eqI) (auto simp: bit_simps not_less dest: bit_imp_le_length)
  have high: "crc64_byte (push_bit 8 (drop_bit 8 c)) = drop_bit 8 c"
    unfolding crc64_byte_def
    by (rule crc64_bit_shift) (auto simp: bit_simps dest: bit_imp_le_length)
  have "crc64_spec c b = crc64_byte (c XOR ucast b)" by (simp add: crc64_spec_def crc64_byte_def)
  also have "\<dots> = crc64_byte (ucast ?i) XOR drop_bit 8 c"
    unfolding x using byte_linear(2) high by (simp add: linear_xor_def)
  finally show ?thesis by (simp add: crc64_step_def crc64_tab_nth)
qed

interpretation c16: checksum crc16_step crc16_loop
  by unfold_locales simp_all

interpretation c64: checksum crc64_step crc64
  by unfold_locales simp_all

text \<open>
  C25: the table-driven CRC-16 of a key is the remainder computed bit by bit with the
  polynomial \<open>x^16 + x^12 + x^5 + 1\<close>, so its 256 table entries are all right.
\<close>

theorem crc16_polynomial: "crc16 buf = foldl crc16_spec 0 buf"
proof -
  have "crc16_step = crc16_spec" by (intro ext) (rule crc16_step_spec)
  then show ?thesis by (simp add: crc16_def c16.crc_fold)
qed

text \<open>
  C26: the CRC-64 of any data, started from any state, is the bit-by-bit reflected division by
  the Jones polynomial, and may be computed piecewise as RDB writing does.
\<close>

theorem crc64_polynomial:
  "crc64 crc s = foldl crc64_spec crc s \<and> crc64 crc (concat pieces) = foldl crc64 crc pieces"
proof -
  have "crc64_step = crc64_spec" by (intro ext) (rule crc64_step_spec)
  then show ?thesis by (simp add: c64.crc_fold [of crc s] c64.crc_concat)
qed

section \<open>Slots\<close>

lemma scan_found: "c \<notin> set pre \<Longrightarrow> scan c (pre @ c # post) i = i + length pre"
  by (induction pre arbitrary: i) auto

lemma scan_absent: "c \<notin> set bs \<Longrightarrow> scan c bs i = i + length bs"
  by (induction bs arbitrary: i) auto

text \<open>
  C27: every key maps to one of the 16384 slots; a key whose first brace opens a non-empty
  hash tag maps to the slot of the tag alone, so all keys sharing the tag share a slot; a key
  without an opening brace maps to the slot of the whole key.
\<close>

theorem keyHashSlot_tag:
  "unat (keyHashSlot key) < 16384
   \<and> (ch CHR ''{'' \<notin> set pre \<longrightarrow> ch CHR ''}'' \<notin> set tag \<longrightarrow> tag \<noteq> [] \<longrightarrow>
       keyHashSlot (pre @ ch CHR ''{'' # tag @ ch CHR ''}'' # post) = crc16 tag AND 0x3FFF)
   \<and> (ch CHR ''{'' \<notin> set key \<longrightarrow> keyHashSlot key = crc16 key AND 0x3FFF)"
proof (intro conjI impI)
  have "unat (x AND 0x3FFF) < 16384" for x :: u16
  proof -
    have "x AND 0x3FFF \<le> 0x3FFF" by (rule word_and_le1)
    then show ?thesis by (simp add: word_le_nat_alt)
  qed
  then show "unat (keyHashSlot key) < 16384" by (simp add: keyHashSlot_def Let_def)
  assume "ch CHR ''{'' \<notin> set pre" "ch CHR ''}'' \<notin> set tag" "tag \<noteq> []"
  then show "keyHashSlot (pre @ ch CHR ''{'' # tag @ ch CHR ''}'' # post) = crc16 tag AND 0x3FFF"
    unfolding keyHashSlot_def Let_def by (simp add: scan_found del: of_char_Char)
next
  assume "ch CHR ''{'' \<notin> set key"
  then show "keyHashSlot key = crc16 key AND 0x3FFF"
    by (simp add: keyHashSlot_def Let_def scan_absent del: of_char_Char)
qed

theorem keyHashSlot_tag_witness:
  "keyHashSlot (str ''{u1}.followers'') = crc16 (str ''u1'') AND 0x3FFF"
  using keyHashSlot_tag [of "[]" "[]" "str ''u1''" "str ''.followers''"] by simp

text \<open>
  The check value of this CRC-64 for \<open>123456789\<close>, with initial state 0 as the code
  and its test print it, although the parameter block in the header of the file lists an
  all-ones \<open>Xor_In\<close>.
\<close>

lemma crc64_check_value: "crc64 0 (str ''123456789'') = 0xe9c6d914c4b8d9ca"
  by (simp add: crc64_step_def crc64_tab_def)

end
