(* ===== verification/Sds.thy ===== *)
theory Sds
  imports Util Interfaces
begin

text \<open>
  The dynamic strings of \<open>sds.c\<close>: a header with the used length and the free space, and a
  buffer that is always terminated by a zero byte after the used part.  \<open>len\<close> and \<open>free\<close> are
  \<open>unsigned int\<close>: the definitions store into them with \<open>u32_of\<close>, and \<open>int\<close> variables and
  parameters keep \<open>s32_of\<close> of what they are given.  The theorems have the bounds up to which
  nothing is lost; the server refuses strings over 512 MB, which is below all of them.
  Allocation never fails (\<open>zmalloc\<close> aborts the process instead); \<open>fill\<close> is the content of memory
  \<open>zrealloc\<close> leaves uninitialised.
\<close>

section \<open>Model\<close>

record sdshdr =
  slen :: nat
  sfree :: nat
  buf :: bytes

definition SDS_MAX_PREALLOC :: nat where
  "SDS_MAX_PREALLOC = 1024 * 1024"

definition sdsnewlen :: "bytes \<Rightarrow> sdshdr" where
  "sdsnewlen init = \<lparr>slen = u32_of (int (length init)), sfree = 0, buf = init @ [0]\<rparr>"

text \<open>With a null \<open>init\<close> the block comes from \<open>zcalloc\<close>.\<close>

definition sdsnewlen_null :: "nat \<Rightarrow> sdshdr" where
  "sdsnewlen_null initlen = \<lparr>slen = u32_of (int initlen), sfree = 0, buf = replicate (initlen + 1) 0\<rparr>"

definition sdsempty :: sdshdr where
  "sdsempty = sdsnewlen []"

definition sdslen :: "sdshdr \<Rightarrow> nat" where "sdslen s = slen s"
definition sdsavail :: "sdshdr \<Rightarrow> nat" where "sdsavail s = sfree s"

definition sdsdup :: "sdshdr \<Rightarrow> sdshdr" where
  "sdsdup s = sdsnewlen (take (sdslen s) (buf s))"

text \<open>\<open>strlen\<close> of the buffer: the position of its first zero byte.\<close>

definition sdsupdatelen :: "sdshdr \<Rightarrow> sdshdr" where
  "sdsupdatelen s =
    (let reallen = s32_of (int (length (c_str (buf s))))
     in s\<lparr>sfree := u32_of (int (sfree s) + (int (slen s) - reallen)), slen := u32_of reallen\<rparr>)"

definition sdsclear :: "sdshdr \<Rightarrow> sdshdr" where
  "sdsclear s = s\<lparr>sfree := u32_of (int (sfree s + slen s)), slen := 0, buf := (buf s)[0 := 0]\<rparr>"

definition sdsMakeRoomFor :: "byte \<Rightarrow> sdshdr \<Rightarrow> nat \<Rightarrow> sdshdr" where
  "sdsMakeRoomFor fill s addlen =
    (if sfree s \<ge> addlen then s
     else
       let newlen = u64_of (int (slen s + addlen));
           newlen = (if newlen < SDS_MAX_PREALLOC then newlen * 2 else u64_of (int (newlen + SDS_MAX_PREALLOC)))
       in s\<lparr>buf := mem_resize fill (newlen + 1) (buf s), sfree := u32_of (int newlen - int (slen s))\<rparr>)"

definition sdsRemoveFreeSpace :: "byte \<Rightarrow> sdshdr \<Rightarrow> sdshdr" where
  "sdsRemoveFreeSpace fill s = s\<lparr>buf := mem_resize fill (slen s + 1) (buf s), sfree := 0\<rparr>"

definition sdsAllocSize :: "sdshdr \<Rightarrow> nat" where
  "sdsAllocSize s = 8 + slen s + sfree s + 1"

text \<open>\<open>None\<close> is a failed assertion.\<close>

definition sdsIncrLen :: "sdshdr \<Rightarrow> int \<Rightarrow> sdshdr option" where
  "sdsIncrLen s incr =
    (let incr = s32_of incr
     in if (if incr \<ge> 0 then sfree s \<ge> u32_of incr else slen s \<ge> u32_of (- incr))
     then let l = u32_of (int (slen s) + incr)
          in Some (s\<lparr>slen := l, sfree := u32_of (int (sfree s) - incr), buf := (buf s)[l := 0]\<rparr>)
     else None)"

definition sdsgrowzero :: "byte \<Rightarrow> sdshdr \<Rightarrow> nat \<Rightarrow> sdshdr" where
  "sdsgrowzero fill s n =
    (let curlen = slen s
     in if n \<le> curlen then s
        else let s1 = sdsMakeRoomFor fill s (n - curlen);
                 buf1 = mem_put curlen (replicate (n - curlen + 1) 0) (buf s1);
                 totlen = u32_of (int (slen s1 + sfree s1));
                 len = u32_of (int n)
             in s1\<lparr>buf := buf1, slen := len, sfree := u32_of (int totlen - int len)\<rparr>)"

definition sdscatlen :: "byte \<Rightarrow> sdshdr \<Rightarrow> bytes \<Rightarrow> sdshdr" where
  "sdscatlen fill s t =
    (let curlen = sdslen s;
         s1 = sdsMakeRoomFor fill s (length t);
         buf1 = mem_put curlen t (buf s1)
     in s1\<lparr>slen := u32_of (int (curlen + length t)), sfree := u32_of (int (sfree s1) - int (length t)),
           buf := buf1[curlen + length t := 0]\<rparr>)"

definition sdscat :: "byte \<Rightarrow> sdshdr \<Rightarrow> bytes \<Rightarrow> sdshdr" where
  "sdscat fill s t = sdscatlen fill s (c_str t)"

definition sdscatsds :: "byte \<Rightarrow> sdshdr \<Rightarrow> sdshdr \<Rightarrow> sdshdr" where
  "sdscatsds fill s t = sdscatlen fill s (take (sdslen t) (buf t))"

definition sdscpylen :: "byte \<Rightarrow> sdshdr \<Rightarrow> bytes \<Rightarrow> sdshdr" where
  "sdscpylen fill s t =
    (let totlen = u32_of (int (sfree s + slen s));
         s1 = (if totlen < length t then sdsMakeRoomFor fill s (u64_of (int (length t) - int (slen s))) else s);
         totlen1 = (if totlen < length t then u32_of (int (sfree s1 + slen s1)) else totlen)
     in s1\<lparr>buf := (mem_put 0 t (buf s1))[length t := 0], slen := u32_of (int (length t)),
           sfree := u32_of (int totlen1 - int (length t))\<rparr>)"

definition sdscpy :: "byte \<Rightarrow> sdshdr \<Rightarrow> bytes \<Rightarrow> sdshdr" where
  "sdscpy fill s t = sdscpylen fill s (c_str t)"

text \<open>\<open>strchr(cset, c)\<close> also finds the terminator of \<open>cset\<close>, so it succeeds on a zero byte.\<close>

definition strchr :: "bytes \<Rightarrow> byte \<Rightarrow> bool" where
  "strchr cset c \<longleftrightarrow> c \<in> set cset \<or> c = 0"

function trim_sp :: "bytes \<Rightarrow> bytes \<Rightarrow> int \<Rightarrow> int \<Rightarrow> int" where
  "trim_sp b cset sp e =
    (if sp \<le> e \<and> strchr cset (b ! nat sp) then trim_sp b cset (sp + 1) e else sp)"
  by pat_completeness auto
termination
  by (relation "measure (\<lambda>(_, _, sp, e). nat (e - sp + 1))") auto

function trim_ep :: "bytes \<Rightarrow> bytes \<Rightarrow> int \<Rightarrow> int" where
  "trim_ep b cset ep = (if ep > 0 \<and> strchr cset (b ! nat ep) then trim_ep b cset (ep - 1) else ep)"
  by pat_completeness auto
termination
  by (relation "measure (\<lambda>(_, _, ep). nat ep)") auto

declare trim_sp.simps [simp del] trim_ep.simps [simp del]

definition sdstrim :: "sdshdr \<Rightarrow> bytes \<Rightarrow> sdshdr" where
  "sdstrim s cset =
    (let e = int (sdslen s) - 1;
         sp = trim_sp (buf s) cset 0 e;
         ep = trim_ep (buf s) cset e;
         n = (if sp > ep then 0 else nat (ep - sp + 1));
         buf1 = (if sp \<noteq> 0 then memmove 0 (nat sp) n (buf s) else buf s)
     in s\<lparr>buf := buf1[n := 0], sfree := u32_of (int (sfree s) + (int (slen s) - int n)), slen := u32_of (int n)\<rparr>)"

definition sdsrange :: "sdshdr \<Rightarrow> int \<Rightarrow> int \<Rightarrow> sdshdr" where
  "sdsrange s start endi =
    (let start = s32_of start;
         endi = s32_of endi;
         len = int (sdslen s)
     in if len = 0 then s
        else
          let start = (if start < 0 then (if s32_of (len + start) < 0 then 0 else s32_of (len + start)) else start);
              endi = (if endi < 0 then (if s32_of (len + endi) < 0 then 0 else s32_of (len + endi)) else endi);
              newlen = (if start > endi then 0 else s32_of (endi - start + 1));
              (newlen, start) =
                (if newlen \<noteq> 0 then
                   (if start \<ge> s32_of len then (0, start)
                    else if endi \<ge> s32_of len
                    then ((if start > s32_of (len - 1) then 0 else s32_of (s32_of (len - 1) - start + 1)), start)
                    else (newlen, start))
                 else (newlen, 0));
              n = u64_of newlen;
              buf1 = (if start \<noteq> 0 \<and> n \<noteq> 0 then memmove 0 (nat start) n (buf s) else buf s)
          in s\<lparr>buf := buf1[n := 0], sfree := u32_of (int (sfree s) + (int (slen s) - int n)), slen := u32_of (int n)\<rparr>)"

text \<open>\<open>tolower\<close> and \<open>toupper\<close> in the C locale.\<close>

definition tolower :: "byte \<Rightarrow> byte" where
  "tolower c = (if 65 \<le> c \<and> c \<le> 90 then c + 32 else c)"

definition toupper :: "byte \<Rightarrow> byte" where
  "toupper c = (if 97 \<le> c \<and> c \<le> 122 then c - 32 else c)"

fun map_prefix :: "(byte \<Rightarrow> byte) \<Rightarrow> nat \<Rightarrow> bytes \<Rightarrow> bytes" where
  "map_prefix f 0 b = b"
| "map_prefix f (Suc j) b = map_prefix f j (b[j := f (b ! j)])"

definition sdstolower :: "sdshdr \<Rightarrow> sdshdr" where
  "sdstolower s = s\<lparr>buf := map_prefix tolower (nat (s32_of (int (sdslen s)))) (buf s)\<rparr>"

definition sdstoupper :: "sdshdr \<Rightarrow> sdshdr" where
  "sdstoupper s = s\<lparr>buf := map_prefix toupper (nat (s32_of (int (sdslen s)))) (buf s)\<rparr>"

text \<open>The inner loop of \<open>sdsmapchars\<close>: the first match in \<open>from\<close> decides.\<close>

fun mapchar :: "bytes \<Rightarrow> bytes \<Rightarrow> byte \<Rightarrow> byte" where
  "mapchar (f # from) (t # to) c = (if c = f then t else mapchar from to c)"
| "mapchar _ _ c = c"

definition sdsmapchars :: "sdshdr \<Rightarrow> bytes \<Rightarrow> bytes \<Rightarrow> sdshdr" where
  "sdsmapchars s from to = s\<lparr>buf := map_prefix (mapchar from to) (sdslen s) (buf s)\<rparr>"

text \<open>\<open>memcmp\<close>: the sign of the first difference, bytes compared as \<open>unsigned char\<close>.\<close>

fun memcmp :: "bytes \<Rightarrow> bytes \<Rightarrow> nat \<Rightarrow> int" where
  "memcmp (a # as) (b # bs) (Suc n) =
     (if a < b then - 1 else if b < a then 1 else memcmp as bs n)"
| "memcmp _ _ _ = 0"

definition sdscmp :: "sdshdr \<Rightarrow> sdshdr \<Rightarrow> int" where
  "sdscmp s1 s2 =
    (let l1 = sdslen s1; l2 = sdslen s2; minlen = (if l1 < l2 then l1 else l2);
         cmp = memcmp (buf s1) (buf s2) minlen
     in if cmp = 0 then s32_of (int l1 - int l2) else cmp)"

section \<open>Representation\<close>

definition sds_inv :: "sdshdr \<Rightarrow> bool" where
  "sds_inv s \<longleftrightarrow> length (buf s) = slen s + sfree s + 1 \<and> buf s ! slen s = 0 \<and> slen s + sfree s < 2 ^ 32"

text \<open>Up to this length a string can grow and its preallocation still fits the header.\<close>

definition SDS_LIMIT :: nat where
  "SDS_LIMIT = 2 ^ 32 - SDS_MAX_PREALLOC"

lemmas sds_limits = SDS_LIMIT_def SDS_MAX_PREALLOC_def

definition content :: "sdshdr \<Rightarrow> bytes" where
  "content s = take (slen s) (buf s)"

lemma length_content: "sds_inv s \<Longrightarrow> length (content s) = slen s"
  by (simp add: sds_inv_def content_def)

text \<open>The shape of a valid buffer: the content, the terminator, then the free space.\<close>

lemma sds_shape:
  assumes "sds_inv s"
  obtains rest where "buf s = content s @ 0 # rest" "length rest = sfree s" "length (content s) = slen s"
proof
  show "buf s = content s @ 0 # drop (slen s + 1) (buf s)"
    using assms id_take_nth_drop [of "slen s" "buf s"] by (simp add: sds_inv_def content_def)
qed (use assms in \<open>auto simp: sds_inv_def content_def\<close>)

lemma sds_shapeI:
  assumes "buf s = c @ 0 # rest" "slen s = length c" "sfree s = length rest" "length c + length rest < 2 ^ 32"
  shows "sds_inv s \<and> content s = c"
  using assms by (simp add: sds_inv_def content_def)

lemma sdsnewlen_ok:
  assumes "length init < 2 ^ 32"
  shows "sds_inv (sdsnewlen init)" "content (sdsnewlen init) = init"
  using assms by (simp_all add: sds_inv_def content_def sdsnewlen_def u32_of_int)

lemma sdsnewlen_null_ok:
  assumes "n < 2 ^ 32"
  shows "sds_inv (sdsnewlen_null n)" "content (sdsnewlen_null n) = replicate n 0"
  using assms by (simp_all add: sds_inv_def content_def sdsnewlen_null_def u32_of_int del: replicate_Suc)

lemma sdsempty_ok: "sds_inv sdsempty" "content sdsempty = []"
  by (simp_all add: sdsempty_def sdsnewlen_ok)

lemma length_content_less: "sds_inv s \<Longrightarrow> length (content s) < 2 ^ 32"
  by (simp add: sds_inv_def content_def)

lemma sdsdup_ok:
  assumes "sds_inv s"
  shows "sds_inv (sdsdup s) \<and> content (sdsdup s) = content s"
  using sdsnewlen_ok [OF length_content_less [OF assms]] by (simp add: sdsdup_def sdslen_def content_def)

lemma sdsMakeRoomFor_ok:
  assumes "sds_inv s" "slen s + n < SDS_LIMIT"
  shows "sds_inv (sdsMakeRoomFor fill s n)" "content (sdsMakeRoomFor fill s n) = content s"
    "slen (sdsMakeRoomFor fill s n) = slen s" "n \<le> sfree (sdsMakeRoomFor fill s n)"
proof -
  have grow: "sdsMakeRoomFor fill s n =
      s\<lparr>buf := mem_resize fill (slen s + k + 1) (buf s), sfree := k\<rparr> \<and> n \<le> k \<and> slen s + k < 2 ^ 32"
    if "\<not> n \<le> sfree s" "k = (if slen s + n < SDS_MAX_PREALLOC then (slen s + n) * 2 else slen s + n + SDS_MAX_PREALLOC) - slen s"
    for k
    using that assms(2)
    by (auto simp: sdsMakeRoomFor_def Let_def sds_limits u64_of_small u32_of_small nat_add_distrib)
  then show "sds_inv (sdsMakeRoomFor fill s n)" "content (sdsMakeRoomFor fill s n) = content s"
    "slen (sdsMakeRoomFor fill s n) = slen s" "n \<le> sfree (sdsMakeRoomFor fill s n)"
    using assms(1)
    by (cases "n \<le> sfree s"; force simp: sdsMakeRoomFor_def sds_inv_def content_def mem_resize_def nth_append)+
qed

lemma sdsRemoveFreeSpace_ok:
  "sds_inv s \<Longrightarrow> sds_inv (sdsRemoveFreeSpace fill s) \<and> content (sdsRemoveFreeSpace fill s) = content s"
  by (auto simp: sdsRemoveFreeSpace_def sds_inv_def content_def mem_resize_def nth_append)

lemma sdsAllocSize_ok: "sds_inv s \<Longrightarrow> sdsAllocSize s = 8 + length (buf s)"
  by (simp add: sdsAllocSize_def sds_inv_def)

lemma sdsclear_ok: "sds_inv s \<Longrightarrow> sds_inv (sdsclear s) \<and> content (sdsclear s) = []"
  by (cases "buf s") (auto simp: sdsclear_def sds_inv_def content_def u32_of_small)

text \<open>Writing \<open>t\<close> and a terminator over the buffer, from the end of its first \<open>length c\<close> bytes.\<close>

lemma terminated_put:
  assumes "length t \<le> length rest"
  shows "(mem_put (length c) t (c @ 0 # rest))[length c + length t := 0]
    = (c @ t) @ 0 # drop (length t) rest"
proof -
  have "drop (length t) (0 # rest) \<noteq> []" using assms by simp
  then obtain y ys where "drop (length t) (0 # rest) = y # ys" by (cases "drop (length t) (0 # rest)") auto
  moreover from this have "ys = drop (length t) rest"
    by (metis drop_Suc_Cons drop_drop plus_1_eq_Suc drop0)
  ultimately show ?thesis by (simp add: mem_put_def list_update_append)
qed

lemma sdscatlen_ok:
  assumes "sds_inv s" "slen s + length t < SDS_LIMIT"
  shows "sds_inv (sdscatlen fill s t) \<and> content (sdscatlen fill s t) = content s @ t"
proof -
  let ?s = "sdsMakeRoomFor fill s (length t)"
  note room = sdsMakeRoomFor_ok [OF assms, where fill = fill]
  obtain rest where shape: "buf ?s = content s @ 0 # rest" "length rest = sfree ?s"
    "length (content s) = slen s"
    by (rule sds_shape [OF room(1)]) (use room in simp)
  have bound: "slen s + sfree ?s < 2 ^ 32" using room(1,3) by (simp add: sds_inv_def)
  show ?thesis
    by (rule sds_shapeI [where rest = "drop (length t) rest"])
      (use bound room shape terminated_put [of t rest "content s"]
        in \<open>simp_all add: sdscatlen_def sdslen_def Let_def u32_of_small nat_diff_distrib'\<close>)
qed

lemma sdscat_ok:
  assumes "sds_inv s" "slen s + length (c_str t) < SDS_LIMIT"
  shows "sds_inv (sdscat fill s t) \<and> content (sdscat fill s t) = content s @ c_str t"
  using sdscatlen_ok [OF assms] by (simp add: sdscat_def)

lemma sdscatsds_ok:
  assumes "sds_inv s" "sds_inv t" "slen s + slen t < SDS_LIMIT"
  shows "sds_inv (sdscatsds fill s t) \<and> content (sdscatsds fill s t) = content s @ content t"
  using sdscatlen_ok [OF assms(1), of "content t" fill] assms(2,3)
  by (simp add: sdscatsds_def sdslen_def content_def [symmetric] length_content)

lemma sdscpylen_ok:
  assumes "sds_inv s" "length t < SDS_LIMIT"
  shows "sds_inv (sdscpylen fill s t) \<and> content (sdscpylen fill s t) = t"
proof -
  let ?s = "if sfree s + slen s < length t then sdsMakeRoomFor fill s (length t - slen s) else s"
  have more: "slen s + (length t - slen s) < SDS_LIMIT" if "sfree s + slen s < length t"
    using that assms(2) by simp
  have inv: "sds_inv ?s" using assms sdsMakeRoomFor_ok(1) [OF assms(1) more] by simp
  have room: "length t \<le> sfree ?s + slen ?s"
    using sdsMakeRoomFor_ok(3,4) [OF assms(1) more, where fill = fill] by (auto split: if_splits)
  have bound: "slen ?s + sfree ?s < 2 ^ 32" using inv by (simp only: sds_inv_def)
  have tot: "u32_of (int (sfree s + slen s)) = sfree s + slen s"
    using assms(1) by (intro u32_of_int) (simp add: sds_inv_def add.commute)
  have sz: "u64_of (int (length t) - int (slen s)) = length t - slen s" if "sfree s + slen s < length t"
    using that assms(2) u64_of_int [of "length t - slen s"] by (simp add: sds_limits of_nat_diff)
  have fin: "u32_of (int (length t)) = length t" "u32_of (int (sfree ?s + slen ?s)) = sfree ?s + slen ?s"
    "u32_of (int (sfree ?s + slen ?s) - int (length t)) = sfree ?s + slen ?s - length t"
    using bound room by (simp_all only: of_nat_diff [symmetric] u32_of_int add.commute [of "sfree ?s"])
  have "sdscpylen fill s t = ?s\<lparr>buf := (mem_put 0 t (buf ?s))[length t := 0], slen := length t,
      sfree := sfree ?s + slen ?s - length t\<rparr>"
  proof (cases "sfree s + slen s < length t")
    case True
    with fin show ?thesis unfolding sdscpylen_def Let_def tot by (simp add: sz)
  next
    case False
    with fin show ?thesis unfolding sdscpylen_def Let_def tot by simp
  qed
  moreover have "length (buf ?s) = slen ?s + sfree ?s + 1" using inv by (simp only: sds_inv_def)
  ultimately show ?thesis
    using room bound by (simp add: sds_inv_def content_def mem_put_def del: split_paired_All)
qed

lemma sdsgrowzero_ok:
  assumes "sds_inv s" "n < SDS_LIMIT"
  shows "sds_inv (sdsgrowzero fill s n)
    \<and> content (sdsgrowzero fill s n) = content s @ replicate (n - slen s) 0"
proof (cases "n \<le> slen s")
  case True
  with assms show ?thesis by (simp add: sdsgrowzero_def)
next
  case False
  let ?s = "sdsMakeRoomFor fill s (n - slen s)"
  have "slen s + (n - slen s) < SDS_LIMIT" using False assms(2) by simp
  note room = sdsMakeRoomFor_ok [OF assms(1) this, where fill = fill]
  obtain rest where shape: "buf ?s = content s @ 0 # rest" "length rest = sfree ?s"
    "length (content s) = slen s"
    by (rule sds_shape [OF room(1)]) (use room in simp)
  have put: "mem_put (slen s) (replicate (n - slen s + 1) 0) (content s @ 0 # rest)
    = (content s @ replicate (n - slen s) 0) @ 0 # drop (n - slen s) rest"
    using shape(3) by (simp add: mem_put_def replicate_app_Cons_same)
  have bound: "slen s + sfree ?s < 2 ^ 32" using room(1,3) by (simp add: sds_inv_def)
  show ?thesis
    by (rule sds_shapeI [where rest = "drop (n - slen s) rest"])
      (use False room shape put bound in \<open>simp_all add: sdsgrowzero_def Let_def u32_of_small nat_diff_distrib' nat_add_distrib\<close>)
qed

lemma sdsIncrLen_ok:
  assumes "sds_inv s" "sdsIncrLen s incr = Some s'" "- (2 ^ 31) < incr" "incr < 2 ^ 31"
  shows "sds_inv s' \<and> slen s' + sfree s' = slen s + sfree s \<and> int (slen s') = int (slen s) + incr
    \<and> content s' = take (slen s') (buf s)"
proof -
  have n: "s32_of incr = incr" using assms(3,4) by (simp add: s32_of_small)
  have fits: "if 0 \<le> incr then nat incr \<le> sfree s else nat (- incr) \<le> slen s"
    using assms(2-4) by (auto simp: sdsIncrLen_def Let_def n u32_of_small split: if_splits)
  then have r: "0 \<le> int (slen s) + incr" "0 \<le> int (sfree s) - incr" by (auto split: if_splits)
  have lt: "int (slen s) + int (sfree s) < 2 ^ 32" using assms(1) by (simp add: sds_inv_def)
  have "s' = s\<lparr>slen := nat (int (slen s) + incr), sfree := nat (int (sfree s) - incr),
      buf := (buf s)[nat (int (slen s) + incr) := 0]\<rparr>"
  proof -
    have "u32_of (int (slen s) + incr) = nat (int (slen s) + incr)" "u32_of (int (sfree s) - incr) = nat (int (sfree s) - incr)"
      using r lt by (simp_all add: u32_of_small)
    then show ?thesis using assms(2) by (auto simp: sdsIncrLen_def Let_def n split: if_splits)
  qed
  then show ?thesis using assms(1) r lt by (auto simp: sds_inv_def content_def)
qed

section \<open>Trimming, ranges, character maps\<close>

lemma trim_sp_eq:
  "i \<le> n \<Longrightarrow> n \<le> length b \<Longrightarrow>
     trim_sp b cset (int i) (int n - 1) = int (i + length (takeWhile (strchr cset) (drop i (take n b))))"
proof (induction "n - i" arbitrary: i)
  case 0
  then show ?case by (simp add: trim_sp.simps [of b])
next
  case (Suc k)
  then have "drop i (take n b) = b ! i # drop (Suc i) (take n b)"
    by (subst Cons_nth_drop_Suc [symmetric]) auto
  with Suc.hyps(1) [of "Suc i"] Suc.hyps(2) Suc.prems show ?case
    by (subst trim_sp.simps) (auto simp: add.commute)
qed

lemma trim_ep_eq:
  "n < length b \<Longrightarrow>
     trim_ep b cset (int n) = int (n - length (takeWhile (strchr cset) (rev (take (Suc n) b))))"
proof (induction n)
  case 0
  then show ?case by (simp add: trim_ep.simps [of b])
next
  case (Suc n)
  then have "rev (take (Suc (Suc n)) b) = b ! Suc n # rev (take (Suc n) b)"
    by (simp add: take_Suc_conv_app_nth)
  with Suc show ?case by (subst trim_ep.simps) (auto simp: nat_add_distrib)
qed

definition trim_ref :: "bytes \<Rightarrow> bytes \<Rightarrow> bytes" where
  "trim_ref cset c = rev (dropWhile (strchr cset) (rev (dropWhile (strchr cset) c)))"

lemma takeWhile_rev_dropWhile:
  "\<exists>x\<in>set c. \<not> P x \<Longrightarrow> takeWhile P (rev c) = takeWhile P (rev (dropWhile P c))"
proof -
  assume "\<exists>x\<in>set c. \<not> P x"
  then have d: "dropWhile P c \<noteq> []" by (simp add: dropWhile_eq_Nil_conv)
  then have "hd (dropWhile P c) \<in> set (rev (dropWhile P c))" "\<not> P (hd (dropWhile P c))"
    using hd_dropWhile [OF d] by simp_all
  then have "takeWhile P (rev (dropWhile P c) @ rev (takeWhile P c)) = takeWhile P (rev (dropWhile P c))"
    by (rule takeWhile_append1)
  then show ?thesis by (metis rev_append takeWhile_dropWhile_id)
qed

lemma rev_dropWhile_rev: "rev (dropWhile P (rev d)) = take (length d - length (takeWhile P (rev d))) d"
  by (subst dropWhile_eq_drop) (simp add: rev_drop)

lemma sdstrim_ok:
  assumes inv: "sds_inv s"
  shows "sds_inv (sdstrim s cset) \<and> content (sdstrim s cset) = trim_ref cset (content s)
    \<and> slen (sdstrim s cset) + sfree (sdstrim s cset) = slen s + sfree s"
proof -
  let ?P = "strchr cset"
  let ?c = "content s"
  define k where "k = length (takeWhile ?P ?c)"
  define j where "j = length (takeWhile ?P (rev ?c))"
  from inv have len: "length (buf s) = slen s + sfree s + 1" "length ?c = slen s"
    by (simp_all add: sds_inv_def content_def)
  have k_le: "k \<le> slen s" unfolding k_def using length_takeWhile_le [of ?P ?c] len by simp
  have sp: "trim_sp (buf s) cset 0 (int (slen s) - 1) = int k"
    using trim_sp_eq [of 0 "slen s" "buf s" cset] len by (simp add: k_def content_def)
  define n where "n = slen s - j - k"
  have ep: "trim_ep (buf s) cset (int (slen s) - 1) = (if slen s = 0 then - 1 else int (slen s - 1 - j))"
    using trim_ep_eq [of "slen s - 1" "buf s" cset] len
    by (cases "slen s") (auto simp: j_def content_def trim_ep.simps [of "buf s"])
  have new: "trim_ref cset ?c = take n (drop k ?c) \<and> k + n \<le> slen s
    \<and> (if int k > trim_ep (buf s) cset (int (slen s) - 1) then 0
        else nat (trim_ep (buf s) cset (int (slen s) - 1) - int k + 1)) = n"
  proof (cases "\<exists>x\<in>set ?c. \<not> ?P x")
    case True
    then have "dropWhile ?P ?c \<noteq> []" by (simp add: dropWhile_eq_Nil_conv)
    then have k_lt: "k < slen s"
      using len takeWhile_dropWhile_id [of ?P ?c] by (metis k_def length_append length_greater_0_conv
          less_add_same_cancel1)
    have j: "j = length (takeWhile ?P (rev (dropWhile ?P ?c)))"
      using takeWhile_rev_dropWhile [OF True] by (simp add: j_def)
    have dw: "dropWhile ?P ?c = drop k ?c" by (simp add: k_def dropWhile_eq_drop)
    have "set (rev (dropWhile ?P ?c)) \<subseteq> set ?c" using set_dropWhileD by fastforce
    have "\<exists>x\<in>set (rev (dropWhile ?P ?c)). \<not> ?P x"
      using \<open>dropWhile ?P ?c \<noteq> []\<close> by (metis hd_dropWhile hd_in_set set_rev)
    then have "length (takeWhile ?P (rev (dropWhile ?P ?c))) < length (rev (dropWhile ?P ?c))"
      by (metis length_takeWhile_le nth_length_takeWhile order_le_less takeWhile_eq_all_conv takeWhile_eq_take
          take_all_iff)
    then have jk: "j + k < slen s" using j dw k_lt len by simp
    have "trim_ref cset ?c = take n (drop k ?c)"
      using j rev_dropWhile_rev [of ?P "drop k ?c"] by (simp only: trim_ref_def dw n_def) (simp add: len add.commute)
    then show ?thesis using jk ep by (auto simp: n_def)
  next
    case False
    then have tw: "takeWhile ?P ?c = ?c" and dw: "dropWhile ?P ?c = []"
      by (simp_all add: takeWhile_eq_all_conv)
    have "k = slen s" "trim_ref cset ?c = []"
      by (simp only: k_def len tw) (simp only: trim_ref_def dw rev.simps dropWhile.simps)
    then show ?thesis using ep by (simp add: n_def)
  qed
  define b1 where "b1 = (if k \<noteq> 0 then memmove 0 k n (buf s) else buf s)"
  have lt: "slen s + sfree s < 2 ^ 32" "n \<le> slen s" using inv new by (simp_all add: sds_inv_def)
  then have u: "u32_of (int (sfree s) + (int (slen s) - int n)) = sfree s + (slen s - n)" "u32_of (int n) = n"
    by (simp_all add: u32_of_small nat_add_distrib nat_diff_distrib)
  have "sdstrim s cset = s\<lparr>buf := b1[n := 0], sfree := sfree s + (slen s - n), slen := n\<rparr>"
    unfolding sdstrim_def Let_def sdslen_def sp new [THEN conjunct2, THEN conjunct2] u b1_def by simp
  moreover have "length b1 = length (buf s)" "take n b1 = take n (drop k ?c)"
    using new len by (auto simp: b1_def memmove_def mem_put_def mem_get_def content_def drop_take min_def)
  ultimately show ?thesis
    using new len lt by (simp add: sds_inv_def content_def [of "_\<lparr>slen := _\<rparr>"])
qed

text \<open>The range of \<open>sdsrange\<close>: negative indexes count from the end, both ends are included.\<close>

definition norm_index :: "nat \<Rightarrow> int \<Rightarrow> nat" where
  "norm_index n i = nat (if i < 0 then int n + i else i)"

definition range_ref :: "int \<Rightarrow> int \<Rightarrow> bytes \<Rightarrow> bytes" where
  "range_ref i j c = take (Suc (norm_index (length c) j) - norm_index (length c) i)
    (drop (norm_index (length c) i) c)"

text \<open>The selection of \<open>sdsrange\<close> between nonnegative ends, for a string below 2 GB.\<close>

lemma range_selection:
  assumes "0 \<le> A" "0 \<le> B" "B < 2 ^ 31" "0 < L" "L < 2 ^ 31"
  shows "(if (if A > B then 0 else s32_of (B - A + 1)) \<noteq> 0 then
        (if A \<ge> s32_of L then (0, A)
         else if B \<ge> s32_of L
         then ((if A > s32_of (L - 1) then 0 else s32_of (s32_of (L - 1) - A + 1)), A)
         else ((if A > B then 0 else s32_of (B - A + 1)), A))
      else (if A > B then 0 else s32_of (B - A + 1), 0))
    = (max 0 (min (B + 1) L - A), if A > B then 0 else A)"
proof -
  have L: "s32_of L = L" "s32_of (L - 1) = L - 1" using assms by (simp_all add: s32_of_small)
  show ?thesis
  proof (cases "A > B")
    case False
    then have nz: "s32_of (B - A + 1) \<noteq> 0"
      using assms(1,3) s32_of_small [of "B - A + 1"] by (cases "B - A + 1 = 2 ^ 31") (simp_all add: s32_of_def)
    have "s32_of (B - A + 1) = B - A + 1" if "B < L" using False that assms by (simp add: s32_of_small)
    moreover have "s32_of (L - 1 - A + 1) = L - A" if "A < L" using that assms by (simp add: s32_of_small)
    ultimately show ?thesis using nz False by (auto simp: L)
  qed simp
qed

lemma sdsrange_ok:
  assumes inv: "sds_inv s" and small: "slen s < 2 ^ 31" "- (2 ^ 31) \<le> i" "i < 2 ^ 31" "- (2 ^ 31) \<le> j" "j < 2 ^ 31"
  shows "sds_inv (sdsrange s i j) \<and> content (sdsrange s i j) = range_ref i j (content s)
    \<and> slen (sdsrange s i j) + sfree (sdsrange s i j) = slen s + sfree s"
proof (cases "slen s = 0")
  case True
  then show ?thesis using inv by (simp add: sdsrange_def sdslen_def content_def range_ref_def Let_def)
next
  case False
  from inv have len: "length (buf s) = slen s + sfree s + 1" "length (content s) = slen s" "slen s + sfree s < 2 ^ 32"
    by (simp_all add: sds_inv_def content_def)
  let ?a = "norm_index (slen s) i" and ?b = "norm_index (slen s) j"
  define n where "n = min (Suc ?b) (slen s) - ?a"
  define b1 where "b1 = (if ?a \<noteq> 0 \<and> n \<noteq> 0 then memmove 0 ?a n (buf s) else buf s)"
  have n_le: "n \<le> slen s" by (simp add: n_def)
  have u: "u32_of (int (sfree s) + (int (slen s) - int n)) = sfree s + (slen s - n)" "u32_of (int n) = n" "u64_of (int n) = n"
    using n_le len(3) by (simp_all add: u32_of_small u64_of_small nat_add_distrib nat_diff_distrib)
  have "sdsrange s i j = s\<lparr>buf := b1[n := 0], sfree := sfree s + (slen s - n), slen := n\<rparr>"
  proof -
    have ij: "s32_of i = i" "s32_of j = j" using small by (simp_all add: s32_of_small)
    have norm: "(if x < 0 then if s32_of (int (slen s) + x) < 0 then 0 else s32_of (int (slen s) + x) else x)
      = int (norm_index (slen s) x)" if "- (2 ^ 31) \<le> x" for x
      using that small(1) by (simp add: norm_index_def s32_of_small)
    have sel: "(max 0 (min (int ?b + 1) (int (slen s)) - int ?a), if int ?a > int ?b then 0 else int ?a)
      = (int n, if ?a > ?b then 0 else int ?a)"
      by (auto simp: n_def)
    have B: "int ?b < 2 ^ 31" using small by (simp add: norm_index_def)
    have L: "int (slen s) > 0" "int (slen s) < 2 ^ 31" "int (slen s) \<noteq> 0" using False small(1) by simp_all
    note sel' = range_selection [OF of_nat_0_le_iff [of ?a] of_nat_0_le_iff [of ?b] B L(1,2), unfolded sel]
    show ?thesis
      unfolding sdsrange_def Let_def sdslen_def ij norm [OF small(2)] norm [OF small(4)] sel' if_not_P [OF L(3)] prod.case u
      using n_le by (auto simp: b1_def n_def)
  qed
  moreover have "length b1 = length (buf s)" "take n b1 = range_ref i j (content s)" "n \<le> slen s"
    using len
    by (auto simp: b1_def n_def range_ref_def memmove_def mem_put_def mem_get_def content_def drop_take
        min_def)
  ultimately show ?thesis
    using len by (simp add: sds_inv_def content_def [of "_\<lparr>slen := _\<rparr>"])
qed

lemma map_prefix_eq: "j \<le> length b \<Longrightarrow> map_prefix f j b = map f (take j b) @ drop j b"
  by (induction j arbitrary: b)
    (auto simp: take_Suc_conv_app_nth Cons_nth_drop_Suc [symmetric] drop_update_cancel
      take_update_cancel)

lemma map_prefix_ok:
  assumes "sds_inv s"
  shows "sds_inv (s\<lparr>buf := map_prefix f (slen s) (buf s)\<rparr>)
    \<and> content (s\<lparr>buf := map_prefix f (slen s) (buf s)\<rparr>) = map f (content s)"
  using assms by (simp add: sds_inv_def content_def map_prefix_eq nth_append)

section \<open>Comparison\<close>

lemma memcmp_lexordp:
  "n = min (length as) (length bs) \<Longrightarrow>
     (memcmp as bs n < 0 \<longrightarrow> ord_class.lexordp as bs) \<and> (memcmp as bs n > 0 \<longrightarrow> ord_class.lexordp bs as)
     \<and> (memcmp as bs n = 0 \<longrightarrow> take n as = take n bs)"
  by (induction as bs n rule: memcmp.induct) auto

lemma memcmp_eq_0:
  "n \<le> length as \<Longrightarrow> n \<le> length bs \<Longrightarrow> memcmp as bs n = 0 \<longleftrightarrow> take n as = take n bs"
  by (induction as bs n rule: memcmp.induct) auto

lemma memcmp_take: "n \<le> m \<Longrightarrow> memcmp as bs n = memcmp (take m as) (take m' bs) n" if "n \<le> m'"
  using that by (induction as bs n arbitrary: m m' rule: memcmp.induct) (auto simp: take_Cons split: nat.splits)

lemma lexordp_append_prefix: "ord_class.lexordp as (as @ b # bs)"
  by (induction as) auto

lemma common_prefix_lexordp:
  assumes "take (min (length as) (length bs)) as = take (min (length as) (length bs)) bs"
    "length as < length bs"
  shows "ord_class.lexordp as bs"
proof -
  have "bs = as @ bs ! length as # drop (Suc (length as)) bs"
    using assms id_take_nth_drop [of "length as" bs] by simp
  then show ?thesis by (metis lexordp_append_prefix)
qed

text \<open>The first difference decides, and the length when there is none.\<close>

definition bytes_compare :: "bytes \<Rightarrow> bytes \<Rightarrow> int" where
  "bytes_compare a b =
    (let m = memcmp a b (min (length a) (length b)) in if m = 0 then int (length a) - int (length b) else m)"

lemma bytes_compare_order:
  "(bytes_compare a b < 0 \<longleftrightarrow> ord_class.lexordp a b)
    \<and> (bytes_compare a b > 0 \<longleftrightarrow> ord_class.lexordp b a)
    \<and> (bytes_compare a b = 0 \<longleftrightarrow> a = b)"
proof -
  note m = memcmp_lexordp [of "min (length a) (length b)" a b, OF refl]
  have neg: "bytes_compare a b < 0 \<Longrightarrow> ord_class.lexordp a b"
    and pos: "bytes_compare a b > 0 \<Longrightarrow> ord_class.lexordp b a"
    and eq: "bytes_compare a b = 0 \<Longrightarrow> a = b"
    using m common_prefix_lexordp [of a b] common_prefix_lexordp [of b a]
    by (auto simp: bytes_compare_def Let_def min.commute split: if_splits)
  have "\<not> (ord_class.lexordp a b \<and> ord_class.lexordp b a)"
    using lexordp_antisym by blast
  moreover have "\<not> ord_class.lexordp x x" for x :: bytes
    by (simp add: lexordp_irreflexive')
  ultimately show ?thesis using neg pos eq by (metis linorder_neqE)
qed

lemma sdscmp_compare:
  assumes "sds_inv s" "sds_inv t" "slen s < 2 ^ 31" "slen t < 2 ^ 31"
  shows "sdscmp s t = bytes_compare (content s) (content t)"
proof -
  have "memcmp (buf s) (buf t) (min (slen s) (slen t)) = memcmp (content s) (content t) (min (slen s) (slen t))"
    unfolding content_def by (rule memcmp_take) simp_all
  moreover have "(if slen s < slen t then slen s else slen t) = min (slen s) (slen t)"
    by simp
  moreover have "s32_of (int (slen s) - int (slen t)) = int (slen s) - int (slen t)"
    using assms(3,4) by (simp add: s32_of_small)
  ultimately show ?thesis
    unfolding sdscmp_def sdslen_def Let_def bytes_compare_def by (simp only: length_content assms)
qed

text \<open>
  C38: \<open>sdscmp\<close> is the lexicographic order on the contents, bytes compared unsigned: its sign
  says which string comes first, and 0 means equal contents, whatever the free space holds.  The
  strings are shorter than 2 GB: beyond that the difference of the lengths does not fit the \<open>int\<close>
  the code returns.
\<close>

theorem sdscmp_lexicographic:
  assumes "sds_inv s" "sds_inv t" "slen s < 2 ^ 31" "slen t < 2 ^ 31"
  shows "(sdscmp s t < 0 \<longleftrightarrow> ord_class.lexordp (content s) (content t))
    \<and> (sdscmp s t > 0 \<longleftrightarrow> ord_class.lexordp (content t) (content s))
    \<and> (sdscmp s t = 0 \<longleftrightarrow> content s = content t)"
  unfolding sdscmp_compare [OF assms] by (rule bytes_compare_order)

theorem sdscmp_lexicographic_witness:
  "sdscmp (sdsnewlen (str ''ab'')) (sdsnewlen (str ''abc'')) < 0"
  using sdscmp_lexicographic [of "sdsnewlen (str ''ab'')" "sdsnewlen (str ''abc'')"]
  by (simp add: sdsnewlen_ok) (simp add: sdsnewlen_def u32_of_def)

section \<open>Sequences of operations\<close>

datatype sds_op =
    SdsCat bytes | SdsCpy bytes | SdsGrowZero nat | SdsMakeRoom nat | SdsRemoveFree | SdsClear
  | SdsTrim bytes | SdsRange int int | SdsLower | SdsUpper | SdsMapChars bytes bytes | SdsDup

fun sds_exec :: "byte \<Rightarrow> sdshdr \<Rightarrow> sds_op \<Rightarrow> sdshdr" where
  "sds_exec fill s (SdsCat t) = sdscatlen fill s t"
| "sds_exec fill s (SdsCpy t) = sdscpylen fill s t"
| "sds_exec fill s (SdsGrowZero n) = sdsgrowzero fill s n"
| "sds_exec fill s (SdsMakeRoom n) = sdsMakeRoomFor fill s n"
| "sds_exec fill s SdsRemoveFree = sdsRemoveFreeSpace fill s"
| "sds_exec fill s SdsClear = sdsclear s"
| "sds_exec fill s (SdsTrim cset) = sdstrim s cset"
| "sds_exec fill s (SdsRange i j) = sdsrange s i j"
| "sds_exec fill s SdsLower = sdstolower s"
| "sds_exec fill s SdsUpper = sdstoupper s"
| "sds_exec fill s (SdsMapChars from to) = sdsmapchars s from to"
| "sds_exec fill s SdsDup = sdsdup s"

text \<open>What the same operation means for the sequence of bytes the string stands for.\<close>

fun sds_ref :: "bytes \<Rightarrow> sds_op \<Rightarrow> bytes" where
  "sds_ref c (SdsCat t) = c @ t"
| "sds_ref c (SdsCpy t) = t"
| "sds_ref c (SdsGrowZero n) = c @ replicate (n - length c) 0"
| "sds_ref c (SdsMakeRoom n) = c"
| "sds_ref c SdsRemoveFree = c"
| "sds_ref c SdsClear = []"
| "sds_ref c (SdsTrim cset) = trim_ref cset c"
| "sds_ref c (SdsRange i j) = range_ref i j c"
| "sds_ref c SdsLower = map tolower c"
| "sds_ref c SdsUpper = map toupper c"
| "sds_ref c (SdsMapChars from to) = map (mapchar from to) c"
| "sds_ref c SdsDup = c"

text \<open>The sizes for which nothing is lost in the 32 bits of the header and of the arguments.\<close>

fun op_fits :: "bytes \<Rightarrow> sds_op \<Rightarrow> bool" where
  "op_fits c (SdsCat t) \<longleftrightarrow> length c + length t < SDS_LIMIT"
| "op_fits c (SdsCpy t) \<longleftrightarrow> length t < SDS_LIMIT"
| "op_fits c (SdsGrowZero n) \<longleftrightarrow> n < SDS_LIMIT"
| "op_fits c (SdsMakeRoom n) \<longleftrightarrow> length c + n < SDS_LIMIT"
| "op_fits c (SdsRange i j) \<longleftrightarrow>
     length c < 2 ^ 31 \<and> - (2 ^ 31) \<le> i \<and> i < 2 ^ 31 \<and> - (2 ^ 31) \<le> j \<and> j < 2 ^ 31"
| "op_fits c SdsLower \<longleftrightarrow> length c < 2 ^ 31"
| "op_fits c SdsUpper \<longleftrightarrow> length c < 2 ^ 31"
| "op_fits c _ \<longleftrightarrow> True"

fun ops_fit :: "bytes \<Rightarrow> sds_op list \<Rightarrow> bool" where
  "ops_fit c [] \<longleftrightarrow> True"
| "ops_fit c (op # ops) \<longleftrightarrow> op_fits c op \<and> ops_fit (sds_ref c op) ops"

lemma sds_step:
  "sds_inv s \<Longrightarrow> op_fits (content s) op \<Longrightarrow>
     sds_inv (sds_exec fill s op) \<and> content (sds_exec fill s op) = sds_ref (content s) op"
  by (cases op)
    (simp_all add: sdscatlen_ok sdscpylen_ok sdsgrowzero_ok sdsMakeRoomFor_ok sdsRemoveFreeSpace_ok
      sdsclear_ok sdstrim_ok sdsrange_ok map_prefix_ok sdsdup_ok sdstolower_def sdstoupper_def
      sdsmapchars_def sdslen_def length_content s32_of_small)

text \<open>
  C11: refinement.  Whatever sequence of operations is applied to a string (concatenation, copy,
  growing with zeroes, preallocation, trimming, ranges with negative and out-of-range indexes,
  case and character maps, duplication), the header stays consistent with the buffer, the
  buffer stays terminated, and the content is the one the same operations give on plain byte
  sequences, whatever uninitialised memory the reallocations bring in.  The sizes along the run
  (\<open>ops_fit\<close>) stay below 4 GB less the largest preallocation for the operations that grow a string,
  and below 2 GB for ranges and case maps, which count with an \<open>int\<close>: beyond them the fields of the
  header wrap around.
\<close>

theorem sds_refines_bytes:
  assumes "sds_inv s" "ops_fit (content s) ops"
  shows "sds_inv (foldl (sds_exec fill) s ops)
    \<and> content (foldl (sds_exec fill) s ops) = foldl sds_ref (content s) ops"
  using assms
proof (induction ops arbitrary: s)
  case (Cons op ops)
  then show ?case using sds_step [of s op fill] by simp
qed simp

theorem sds_refines_bytes_witness:
  "content (foldl (sds_exec 7) sdsempty [SdsCat (str ''  hello''), SdsTrim (str '' ''), SdsRange (- 3) (- 1)])
    = str ''llo''"
  using sds_refines_bytes [of sdsempty "[SdsCat (str ''  hello''), SdsTrim (str '' ''), SdsRange (- 3) (- 1)]" 7]
  by (simp add: sdsempty_ok trim_ref_def range_ref_def norm_index_def strchr_def sds_limits)

text \<open>A size that does not fit the header: the string is 4 GB long and its length is recorded as 0.\<close>

lemma sdsgrowzero_wraps: "slen (sdsgrowzero fill sdsempty (2 ^ 32)) = 0"
  by (simp add: sdsgrowzero_def Let_def sdsempty_def sdsnewlen_def u32_of_def)

text \<open>
  C39: \<open>sdstrim\<close> removes from both ends the bytes of \<open>cset\<close>, and zero bytes besides, since
  \<open>strchr\<close> finds the terminator of \<open>cset\<close>; what is left neither begins nor ends with one, and
  nothing inside is touched.
\<close>

theorem sdstrim_strips_ends:
  assumes "sds_inv s"
  shows "\<exists>pre post. content s = pre @ content (sdstrim s cset) @ post
    \<and> set pre \<union> set post \<subseteq> set cset \<union> {0}
    \<and> (content (sdstrim s cset) \<noteq> [] \<longrightarrow>
        hd (content (sdstrim s cset)) \<notin> set cset \<union> {0} \<and> last (content (sdstrim s cset)) \<notin> set cset \<union> {0})"
proof -
  let ?P = "strchr cset"
  let ?d = "dropWhile ?P (content s)" and ?pre = "takeWhile ?P (content s)"
  let ?post = "rev (takeWhile ?P (rev ?d))"
  have res: "content (sdstrim s cset) = trim_ref cset (content s)" using sdstrim_ok [OF assms] by simp
  have split: "?d = trim_ref cset (content s) @ ?post"
    by (simp add: trim_ref_def) (metis rev_append rev_rev_ident takeWhile_dropWhile_id)
  have whole: "content s = ?pre @ trim_ref cset (content s) @ ?post"
    using split by (metis takeWhile_dropWhile_id)
  have P: "?P x \<longleftrightarrow> x \<in> set cset \<union> {0}" for x by (auto simp: strchr_def)
  have sets: "set ?pre \<union> set ?post \<subseteq> set cset \<union> {0}"
    using set_takeWhileD P by (metis (no_types, lifting) Un_least set_rev subsetI)
  have ends: "\<not> ?P (hd (trim_ref cset (content s))) \<and> \<not> ?P (last (trim_ref cset (content s)))"
    if ne: "trim_ref cset (content s) \<noteq> []"
  proof
    have "hd (trim_ref cset (content s)) = hd ?d" "?d \<noteq> []"
      using ne split by (metis hd_append2, metis append_is_Nil_conv)
    then show "\<not> ?P (hd (trim_ref cset (content s)))" by (metis hd_dropWhile)
    show "\<not> ?P (last (trim_ref cset (content s)))"
      using ne hd_dropWhile [of ?P "rev ?d"]
      by (simp only: trim_ref_def last_rev rev_is_Nil_conv) simp
  qed
  show ?thesis using whole sets ends by (simp only: res P) blast
qed

theorem sdstrim_strips_ends_witness:
  "\<exists>pre post. content (sdsnewlen [0, 97, 32]) = pre @ content (sdstrim (sdsnewlen [0, 97, 32]) [32]) @ post
    \<and> set pre \<union> set post \<subseteq> set [32] \<union> {0}"
  using sdstrim_strips_ends [of "sdsnewlen [0, 97, 32]" "[32]"] by (auto simp: sdsnewlen_ok)

end
