(* ===== verification/Sds_Text.thy ===== *)
theory Sds_Text
  imports Sds
begin

text \<open>
  The text routines of \<open>sds.c\<close>: number formatting, the two \<open>printf\<close>-like appenders, splitting
  and joining, the quoted representation of a binary string and the argument parser that reads
  it back.  A C string is the list of its bytes without the terminator; reading position
  \<open>length\<close> yields the terminator 0.
\<close>

section \<open>Numbers\<close>

text \<open>The digits of \<open>v\<close>, least significant first, as the \<open>do \<dots> while\<close> loop stores them.\<close>

function ull_digits :: "u64 \<Rightarrow> bytes" where
  "ull_digits v = (48 + ucast (v mod 10)) # (if v div 10 = 0 then [] else ull_digits (v div 10))"
  by pat_completeness auto
termination
  by (relation "measure unat") (auto simp: unat_div_distrib unat_gt_0 intro!: div_less_dividend)

declare ull_digits.simps [simp del]

text \<open>The in-place reversal between two positions that move towards each other.\<close>

function reverse_loop :: "bytes \<Rightarrow> nat \<Rightarrow> nat \<Rightarrow> bytes" where
  "reverse_loop b i p = (if i < p then reverse_loop (b[i := b ! p, p := b ! i]) (i + 1) (p - 1) else b)"
  by pat_completeness auto
termination
  by (relation "measure (\<lambda>(_, i, p). p - i)") auto

declare reverse_loop.simps [simp del]

definition sdsll2str :: "bytes \<Rightarrow> u64 \<Rightarrow> nat \<times> bytes" where
  "sdsll2str b value =
    (let v = (if value <s 0 then - value else value);
         ds = ull_digits v @ (if value <s 0 then [ch CHR ''-''] else []);
         l = length ds
     in (l, reverse_loop (mem_put 0 (ds @ [0]) b) 0 (l - 1)))"

definition sdsull2str :: "bytes \<Rightarrow> u64 \<Rightarrow> nat \<times> bytes" where
  "sdsull2str b v =
    (let ds = ull_digits v; l = length ds
     in (l, reverse_loop (mem_put 0 (ds @ [0]) b) 0 (l - 1)))"

definition SDS_LLSTR_SIZE :: nat where "SDS_LLSTR_SIZE = 21"

definition sdsfromlonglong :: "byte \<Rightarrow> u64 \<Rightarrow> sdshdr" where
  "sdsfromlonglong fill value =
    (let (len, b) = sdsll2str (replicate SDS_LLSTR_SIZE fill) value in sdsnewlen (take len b))"

section \<open>Formatted appending\<close>

text \<open>
  \<open>sdscatvprintf\<close> over \<open>out\<close>, what \<open>vsnprintf\<close> would print in a buffer without limit.  The
  buffer is doubled until its last byte but one stays zero; \<open>sdscat\<close> then appends it up to
  its first zero byte.  The buffer has at least 1024 bytes, so \<open>buflen - 2\<close> does not wrap.
\<close>

function vprintf_loop :: "bytes \<Rightarrow> nat \<Rightarrow> bytes" where
  "vprintf_loop out buflen =
    (let printed = take (buflen - 1) out
     in if 2 \<le> buflen \<and> buflen - 2 < length printed \<and> printed ! (buflen - 2) \<noteq> 0
        then vprintf_loop out (buflen * 2) else printed)"
  by pat_completeness auto
termination
  by (relation "measure (\<lambda>(out, buflen). length out + 2 - buflen)") auto

declare vprintf_loop.simps [simp del]

definition sdscatvprintf :: "byte \<Rightarrow> sdshdr \<Rightarrow> nat \<Rightarrow> bytes \<Rightarrow> sdshdr" where
  "sdscatvprintf fill s fmtlen out =
    (let buflen = fmtlen * 2; buflen = (if buflen > 1024 then buflen else 1024)
     in sdscat fill s (vprintf_loop out buflen))"

text \<open>
  The arguments of \<open>sdscatfmt\<close>.  Reading an argument of another type than the one passed, or
  one more than was passed, is undefined: \<open>None\<close>.  So is a format that ends in a lone
  \<open>%\<close>, where the code reads past the terminator of the format.  The position \<open>i\<close> is an \<open>int\<close> of
  the code; past 2 GB it overflows.
\<close>

datatype fmt_arg = FmtStr bytes | FmtSds sdshdr | FmtInt u32 | FmtLong u64 | FmtUInt u32 | FmtULong u64

definition fmt_put :: "byte \<Rightarrow> sdshdr \<Rightarrow> nat \<Rightarrow> bytes \<Rightarrow> sdshdr \<times> nat" where
  "fmt_put fill s i t =
    (let l = u32_of (int (length t));
         s1 = (if sfree s < l then sdsMakeRoomFor fill s l else s)
     in (s1\<lparr>buf := mem_put i (take l t) (buf s1), slen := u32_of (int (slen s1 + l)),
             sfree := u32_of (int (sfree s1) - int l)\<rparr>, i + l))"

definition fmt_char :: "sdshdr \<Rightarrow> nat \<Rightarrow> byte \<Rightarrow> sdshdr \<times> nat" where
  "fmt_char s i c =
    (s\<lparr>buf := (buf s)[i := c], slen := u32_of (int (slen s + 1)), sfree := u32_of (int (sfree s) - 1)\<rparr>, i + 1)"

text \<open>The text of one conversion and the arguments left after it.\<close>

fun fmt_arg_text :: "byte \<Rightarrow> byte \<Rightarrow> fmt_arg list \<Rightarrow> (bytes \<times> fmt_arg list) option" where
  "fmt_arg_text fill next (FmtStr t # args) =
     (if next = ch CHR ''s'' then Some (c_str t, args) else None)"
| "fmt_arg_text fill next (FmtSds t # args) =
     (if next = ch CHR ''S'' then Some (take (sdslen t) (buf t), args) else None)"
| "fmt_arg_text fill next (FmtInt n # args) =
     (if next = ch CHR ''i''
      then (let (l, b) = sdsll2str (replicate SDS_LLSTR_SIZE fill) (scast n) in Some (take l b, args))
      else None)"
| "fmt_arg_text fill next (FmtLong n # args) =
     (if next = ch CHR ''I''
      then (let (l, b) = sdsll2str (replicate SDS_LLSTR_SIZE fill) n in Some (take l b, args))
      else None)"
| "fmt_arg_text fill next (FmtUInt n # args) =
     (if next = ch CHR ''u''
      then (let (l, b) = sdsull2str (replicate SDS_LLSTR_SIZE fill) (ucast n) in Some (take l b, args))
      else None)"
| "fmt_arg_text fill next (FmtULong n # args) =
     (if next = ch CHR ''U''
      then (let (l, b) = sdsull2str (replicate SDS_LLSTR_SIZE fill) n in Some (take l b, args))
      else None)"
| "fmt_arg_text fill next [] = None"

fun sdscatfmt_loop :: "byte \<Rightarrow> sdshdr \<Rightarrow> nat \<Rightarrow> bytes \<Rightarrow> fmt_arg list \<Rightarrow> (sdshdr \<times> nat) option" where
  "sdscatfmt_loop fill s i [] args = Some (s, i)"
| "sdscatfmt_loop fill s i [c] args =
     (let s = (if sfree s = 0 then sdsMakeRoomFor fill s 1 else s)
      in if c = ch CHR ''%'' then None else Some (fmt_char s i c))"
| "sdscatfmt_loop fill s i (c # d # f) args =
     (let s = (if sfree s = 0 then sdsMakeRoomFor fill s 1 else s)
      in if c = ch CHR ''%'' then
           if d \<in> set (str ''sSiIuU'') then
             (case fmt_arg_text fill d args of None \<Rightarrow> None
              | Some (t, args') \<Rightarrow>
                  (let (s, i) = fmt_put fill s i t in sdscatfmt_loop fill s i f args'))
           else (let (s, i) = fmt_char s i d in sdscatfmt_loop fill s i f args)
         else (let (s, i) = fmt_char s i c in sdscatfmt_loop fill s i (d # f) args))"

definition sdscatfmt :: "byte \<Rightarrow> sdshdr \<Rightarrow> bytes \<Rightarrow> fmt_arg list \<Rightarrow> sdshdr option" where
  "sdscatfmt fill s fmt args =
    (case sdscatfmt_loop fill s (sdslen s) fmt args of None \<Rightarrow> None
     | Some (s, i) \<Rightarrow> Some (s\<lparr>buf := (buf s)[i := 0]\<rparr>))"

section \<open>Splitting and joining\<close>

text \<open>
  The result of \<open>sdssplitlen\<close>: a null pointer, or the token array; \<open>SplitOverflow\<close> is a store
  past the \<open>slots\<close> allocated for the array.  The code gets the two lengths as \<open>int\<close>s.
\<close>

datatype split_result = SplitNull | SplitTokens "sdshdr list" | SplitOverflow

function sdssplitlen_loop :: "bytes \<Rightarrow> bytes \<Rightarrow> sdshdr list \<Rightarrow> nat \<Rightarrow> nat \<Rightarrow> nat
    \<Rightarrow> (sdshdr list \<times> nat \<times> nat) option" where
  "sdssplitlen_loop s sep tokens slots start j =
    (if int j < int (length s) - (int (length sep) - 1) \<and> sep \<noteq> [] then
       let slots = (if slots < length tokens + 2 then slots * 2 else slots)
       in if (length sep = 1 \<and> s ! j = sep ! 0) \<or> memcmp (drop j s) sep (length sep) = 0 then
            if length tokens < slots then
              sdssplitlen_loop s sep (tokens @ [sdsnewlen (mem_get start (j - start) s)]) slots
                (j + length sep) (j + length sep)
            else None
          else sdssplitlen_loop s sep tokens slots start (j + 1)
     else Some (tokens, slots, start))"
  by pat_completeness auto
termination
  by (relation "measure (\<lambda>(s, sep, tokens, slots, start, j). length s - j)") (auto simp flip: length_greater_0_conv)

declare sdssplitlen_loop.simps [simp del]

definition sdssplitlen :: "bytes \<Rightarrow> bytes \<Rightarrow> split_result" where
  "sdssplitlen s sep =
    (if s32_of (int (length sep)) < 1 \<or> s32_of (int (length s)) < 0 then SplitNull
     else if length s = 0 then SplitTokens []
     else case sdssplitlen_loop s sep [] 5 0 0 of
       None \<Rightarrow> SplitOverflow
     | Some (tokens, slots, start) \<Rightarrow>
         if length tokens < slots
         then SplitTokens (tokens @ [sdsnewlen (mem_get start (length s - start) s)])
         else SplitOverflow)"

text \<open>The arguments and the separator of \<open>sdsjoin\<close> are C strings.\<close>

fun sdsjoin_loop :: "byte \<Rightarrow> bytes \<Rightarrow> sdshdr \<Rightarrow> bytes list \<Rightarrow> sdshdr" where
  "sdsjoin_loop fill sep join [] = join"
| "sdsjoin_loop fill sep join (arg # argv) =
     (let join = sdscat fill join arg;
          join = (if argv \<noteq> [] then sdscat fill join sep else join)
      in sdsjoin_loop fill sep join argv)"

definition sdsjoin :: "byte \<Rightarrow> bytes list \<Rightarrow> bytes \<Rightarrow> sdshdr" where
  "sdsjoin fill argv sep = sdsjoin_loop fill sep sdsempty argv"

section \<open>Quoted representation\<close>

text \<open>\<open>isprint\<close> and \<open>isspace\<close> in the C locale.\<close>

definition isprint :: "byte \<Rightarrow> bool" where
  "isprint c \<longleftrightarrow> 32 \<le> c \<and> c \<le> 126"

definition isspace :: "byte \<Rightarrow> bool" where
  "isspace c \<longleftrightarrow> c = 32 \<or> (9 \<le> c \<and> c \<le> 13)"

definition hex_digit :: "byte \<Rightarrow> byte" where
  "hex_digit d = (if d < 10 then 48 + d else 87 + d)"

definition repr_char :: "byte \<Rightarrow> bytes" where
  "repr_char c =
    (if c = ch (CHR 0x5C) \<or> c = ch CHR 0x22 then [ch (CHR 0x5C), c]
     else if c = 10 then [ch (CHR 0x5C), ch CHR ''n'']
     else if c = 13 then [ch (CHR 0x5C), ch CHR ''r'']
     else if c = 9 then [ch (CHR 0x5C), ch CHR ''t'']
     else if c = 7 then [ch (CHR 0x5C), ch CHR ''a'']
     else if c = 8 then [ch (CHR 0x5C), ch CHR ''b'']
     else if isprint c then [c]
     else [ch (CHR 0x5C), ch CHR ''x'', hex_digit (c div 16), hex_digit (c mod 16)])"

fun sdscatrepr_loop :: "byte \<Rightarrow> sdshdr \<Rightarrow> bytes \<Rightarrow> sdshdr" where
  "sdscatrepr_loop fill s [] = s"
| "sdscatrepr_loop fill s (c # p) = sdscatrepr_loop fill (sdscatlen fill s (repr_char c)) p"

definition sdscatrepr :: "byte \<Rightarrow> sdshdr \<Rightarrow> bytes \<Rightarrow> sdshdr" where
  "sdscatrepr fill s p =
    (let s = sdscatlen fill s [34]; s = sdscatrepr_loop fill s p in sdscatlen fill s [34])"

definition is_hex_digit :: "byte \<Rightarrow> bool" where
  "is_hex_digit c \<longleftrightarrow> (c \<ge> ch CHR ''0'' \<and> c \<le> ch CHR ''9'') \<or> (c \<ge> ch CHR ''a'' \<and> c \<le> ch CHR ''f'')
    \<or> (c \<ge> ch CHR ''A'' \<and> c \<le> ch CHR ''F'')"

definition hex_digit_to_int :: "byte \<Rightarrow> nat" where
  "hex_digit_to_int c =
    (if ch CHR ''0'' \<le> c \<and> c \<le> ch CHR ''9'' then unat c - 48
     else if ch CHR ''a'' \<le> c \<and> c \<le> ch CHR ''f'' then unat c - 87
     else if ch CHR ''A'' \<le> c \<and> c \<le> ch CHR ''F'' then unat c - 55
     else 0)"

text \<open>Reading \<open>*(p+k)\<close>, the terminator included.\<close>

definition peek :: "nat \<Rightarrow> bytes \<Rightarrow> byte" where
  "peek k p = (if k < length p then p ! k else 0)"

definition unescape :: "byte \<Rightarrow> byte" where
  "unescape c =
    (if c = ch CHR ''n'' then 10 else if c = ch CHR ''r'' then 13 else if c = ch CHR ''t'' then 9
     else if c = ch CHR ''b'' then 8 else if c = ch CHR ''a'' then 7 else c)"

text \<open>
  The inner loop of \<open>sdssplitargs\<close>: one token, with the quoting state and the token built so
  far.  \<open>None\<close> is the jump to \<open>err\<close>.
\<close>

function get_token :: "byte \<Rightarrow> bool \<Rightarrow> bool \<Rightarrow> bytes \<Rightarrow> sdshdr \<Rightarrow> (sdshdr \<times> bytes) option" where
  "get_token fill inq insq p current =
    (if inq then
       if peek 0 p = ch (CHR 0x5C) \<and> peek 1 p = ch CHR ''x'' \<and> is_hex_digit (peek 2 p)
          \<and> is_hex_digit (peek 3 p) then
         get_token fill inq insq (drop 4 p)
           (sdscatlen fill current [of_nat (hex_digit_to_int (peek 2 p) * 16 + hex_digit_to_int (peek 3 p))])
       else if peek 0 p = ch (CHR 0x5C) \<and> peek 1 p \<noteq> 0 then
         get_token fill inq insq (drop 2 p) (sdscatlen fill current [unescape (peek 1 p)])
       else if peek 0 p = ch CHR 0x22 then
         (if peek 1 p \<noteq> 0 \<and> \<not> isspace (peek 1 p) then None else Some (current, drop 1 p))
       else if peek 0 p = 0 then None
       else get_token fill inq insq (drop 1 p) (sdscatlen fill current [peek 0 p])
     else if insq then
       if peek 0 p = ch (CHR 0x5C) \<and> peek 1 p = ch CHR 0x27 then
         get_token fill inq insq (drop 2 p) (sdscatlen fill current [39])
       else if peek 0 p = ch CHR 0x27 then
         (if peek 1 p \<noteq> 0 \<and> \<not> isspace (peek 1 p) then None else Some (current, drop 1 p))
       else if peek 0 p = 0 then None
       else get_token fill inq insq (drop 1 p) (sdscatlen fill current [peek 0 p])
     else
       if peek 0 p \<in> {32, 10, 13, 9, 0} then Some (current, drop 1 p)
       else if peek 0 p = ch CHR 0x22 then get_token fill True insq (drop 1 p) current
       else if peek 0 p = ch CHR 0x27 then get_token fill inq True (drop 1 p) current
       else get_token fill inq insq (drop 1 p) (sdscatlen fill current [peek 0 p]))"
  by pat_completeness auto
termination
  by (relation "measure (\<lambda>(_, _, _, p, _). length p)") (auto simp: peek_def split: if_splits)

declare get_token.simps [simp del]

lemma get_token_rest: "get_token fill inq insq p cur = Some (t, r) \<Longrightarrow> length r \<le> length p - 1"
proof (induction "length p" arbitrary: inq insq p cur rule: less_induct)
  case less
  show ?case
  proof (cases "p = []")
    case True
    with less.prems show ?thesis
      by (subst (asm) get_token.simps) (auto simp: peek_def split: if_splits)
  next
    case False
    have IH: "length r \<le> length p - 1" if "get_token fill i q (drop k p) c = Some (t, r)" "0 < k" for i q k c
      using less.hyps [OF _ that(1)] that(2) False by (simp add: less_le_trans)
    show ?thesis
      using less.prems by (subst (asm) get_token.simps) (auto split: if_splits dest: IH)
  qed
qed

lemma get_token_shorter: "get_token fill inq insq p cur = Some (t, r) \<Longrightarrow> p \<noteq> [] \<Longrightarrow> length r < length p"
  using get_token_rest [of fill inq insq p cur t r] by (cases p) auto

function sdssplitargs_loop :: "byte \<Rightarrow> bytes \<Rightarrow> sdshdr list \<Rightarrow> sdshdr list option" where
  "sdssplitargs_loop fill line vector =
    (let p = dropWhile isspace line
     in if p \<noteq> [] then
          (case get_token fill False False p sdsempty of
             None \<Rightarrow> None
           | Some (current, rest) \<Rightarrow> sdssplitargs_loop fill rest (vector @ [current]))
        else Some vector)"
  by pat_completeness auto
termination
proof (relation "measure (\<lambda>(_, line, _). length line)", goal_cases)
  case (2 fill line vector p y current rest)
  then have "length rest < length (dropWhile isspace line)" by (auto dest: get_token_shorter)
  also have "\<dots> \<le> length line" by (rule length_dropWhile_le)
  finally show ?case by simp
qed simp

declare sdssplitargs_loop.simps [simp del]

definition sdssplitargs :: "byte \<Rightarrow> bytes \<Rightarrow> sdshdr list option" where
  "sdssplitargs fill line = sdssplitargs_loop fill line []"

section \<open>Numbers are written in decimal\<close>

lemma rev_ull_digits: "rev (ull_digits v) = dec_nat (unat v)"
proof (induction v rule: ull_digits.induct)
  case (1 v)
  have d: "(48 :: byte) + ucast (v mod 10) = digit (unat v mod 10)"
    proof -
    have "(of_nat (unat (v mod 10)) :: byte) = ucast (v mod 10)" by (rule of_nat_unat)
    then show ?thesis by (simp add: digit_def unat_mod_distrib)
  qed
  have z: "v div 10 = 0 \<longleftrightarrow> unat v < 10"
    by (simp add: unat_eq_zero [symmetric] unat_div_distrib div_eq_0_iff del: unat_eq_zero)
  show ?case
    using 1 by (subst ull_digits.simps) (auto simp: d z dec_nat_small dec_nat_step unat_div_distrib)
qed

lemma reverse_loop_stop: "p \<le> i \<Longrightarrow> reverse_loop b i p = b"
  by (subst reverse_loop.simps) simp

lemma reverse_loop_rev:
  "xs \<noteq> [] \<Longrightarrow> reverse_loop (pre @ xs @ post) (length pre) (length pre + length xs - 1) = pre @ rev xs @ post"
proof (induction "length xs" arbitrary: xs pre post rule: less_induct)
  case less
  show ?case
  proof (cases "length xs = 1")
    case True
    then show ?thesis by (auto simp: length_Suc_conv reverse_loop_stop)
  next
    case False
    with less.prems obtain a xs' where "xs = a # xs'" "xs' \<noteq> []" by (cases xs) auto
    then obtain ys z where xs: "xs = a # ys @ [z]" by (cases xs' rule: rev_cases) auto
    have "(pre @ xs @ post)[length pre := z, length pre + length xs - 1 := a] = (pre @ [z]) @ ys @ a # post"
      by (simp add: xs list_update_append)
    moreover have "(pre @ xs @ post) ! length pre = a" "(pre @ xs @ post) ! (length pre + length xs - 1) = z"
      by (simp_all add: xs nth_append)
    ultimately have step: "reverse_loop (pre @ xs @ post) (length pre) (length pre + length xs - 1)
      = reverse_loop ((pre @ [z]) @ ys @ a # post) (length pre + 1) (length pre + length ys)"
      by (subst reverse_loop.simps) (simp add: xs)
    show ?thesis
    proof (cases "ys = []")
      case True
      then show ?thesis using step by (simp add: xs reverse_loop_stop)
    next
      case False
      then show ?thesis using step less.hyps [of ys "pre @ [z]" "a # post"] by (simp add: xs)
    qed
  qed
qed

lemma reverse_buffer:
  assumes "ds \<noteq> []"
  shows "reverse_loop (mem_put 0 (ds @ [0]) b) 0 (length ds - 1) = mem_put 0 (rev ds @ [0]) b"
  using reverse_loop_rev [of ds "[]" "0 # drop (Suc (length ds)) b"] assms by (simp add: mem_put_def)

lemma ull_digits_nonempty [simp]: "ull_digits v \<noteq> []"
  by (subst ull_digits.simps) simp

lemma sdsull2str_decimal:
  "sdsull2str b v = (length (dec_nat (unat v)), mem_put 0 (dec_nat (unat v) @ [0]) b)"
  using reverse_buffer [of "ull_digits v" b] length_rev [of "ull_digits v"]
  by (simp add: sdsull2str_def Let_def rev_ull_digits del: length_rev)

lemma sdsll2str_decimal:
  "sdsll2str b v = (length (decimal (sint v)), mem_put 0 (decimal (sint v) @ [0]) b)"
proof -
  define w where "w = (if v <s 0 then - v else v)"
  define ds where "ds = ull_digits w @ (if v <s 0 then [ch CHR ''-''] else [])"
  have w: "unat w = nat \<bar>sint v\<bar>"
    using unat_magnitude [of v] by (simp add: magnitude_def w_def)
  have "rev ds = decimal (sint v)"
    by (auto simp: ds_def rev_ull_digits w decimal_def word_sless_alt simp del: of_char_Char)
  moreover have "ds \<noteq> []" by (simp add: ds_def)
  ultimately show ?thesis
    using reverse_buffer [of ds b] length_rev [of ds]
    by (simp only: sdsll2str_def Let_def w_def [symmetric] ds_def [symmetric]) (simp del: length_rev)
qed

lemma sdsfromlonglong_decimal: "content (sdsfromlonglong fill v) = decimal (sint v)"
  using length_decimal_le [of v]
  by (simp add: sdsfromlonglong_def sdsll2str_decimal SDS_LLSTR_SIZE_def mem_put_def sdsnewlen_ok)

section \<open>Appending formatted text\<close>

lemma vprintf_loop_whole:
  assumes "1024 \<le> buflen"
  shows "c_str (vprintf_loop out buflen) = c_str out"
  using assms unfolding c_str_def
proof (induction out buflen rule: vprintf_loop.induct)
  case (1 out buflen)
  let ?p = "take (buflen - 1) out"
  show ?case
  proof (cases "buflen - 2 < length ?p \<and> ?p ! (buflen - 2) \<noteq> 0")
    case True
    then show ?thesis using 1 by (subst vprintf_loop.simps) simp
  next
    case False
    have "takeWhile (\<lambda>c. c \<noteq> 0) ?p = takeWhile (\<lambda>c. c \<noteq> 0) out"
    proof (cases "length out \<le> buflen - 1")
      case True
      then show ?thesis by simp
    next
      case long: False
      then have "?p ! (buflen - 2) = 0" "buflen - 2 < length ?p" using False "1.prems" by auto
      then have "\<exists>x\<in>set ?p. \<not> x \<noteq> 0" using nth_mem by blast
      then show ?thesis
        by (metis (mono_tags, lifting) append_take_drop_id takeWhile_append1)
    qed
    then show ?thesis using False by (subst vprintf_loop.simps) (auto simp: Let_def)
  qed
qed

lemma sdscatvprintf_ok:
  assumes "sds_inv s" "slen s + length (c_str out) < SDS_LIMIT"
  shows "sds_inv (sdscatvprintf fill s n out)
    \<and> content (sdscatvprintf fill s n out) = content s @ c_str out"
proof -
  define buflen where "buflen = (if n * 2 > 1024 then n * 2 else 1024)"
  have w: "c_str (vprintf_loop out buflen) = c_str out" by (rule vprintf_loop_whole) (simp add: buflen_def)
  with sdscat_ok [OF assms(1), of "vprintf_loop out buflen" fill] assms(2) show ?thesis
    by (simp add: sdscatvprintf_def Let_def buflen_def)
qed

text \<open>What a format prints, when the arguments have the types it names.\<close>

fun fmt_ref_arg :: "byte \<Rightarrow> fmt_arg list \<Rightarrow> (bytes \<times> fmt_arg list) option" where
  "fmt_ref_arg d (FmtStr t # args) = (if d = ch CHR ''s'' then Some (c_str t, args) else None)"
| "fmt_ref_arg d (FmtSds t # args) = (if d = ch CHR ''S'' then Some (content t, args) else None)"
| "fmt_ref_arg d (FmtInt n # args) = (if d = ch CHR ''i'' then Some (decimal (sint n), args) else None)"
| "fmt_ref_arg d (FmtLong n # args) = (if d = ch CHR ''I'' then Some (decimal (sint n), args) else None)"
| "fmt_ref_arg d (FmtUInt n # args) = (if d = ch CHR ''u'' then Some (decimal (int (unat n)), args) else None)"
| "fmt_ref_arg d (FmtULong n # args) = (if d = ch CHR ''U'' then Some (decimal (int (unat n)), args) else None)"
| "fmt_ref_arg d [] = None"

fun fmt_ref :: "bytes \<Rightarrow> fmt_arg list \<Rightarrow> bytes option" where
  "fmt_ref [] args = Some []"
| "fmt_ref [c] args = (if c = ch CHR ''%'' then None else Some [c])"
| "fmt_ref (c # d # f) args =
     (if c = ch CHR ''%'' then
        if d \<in> set (str ''sSiIuU'') then
          (case fmt_ref_arg d args of None \<Rightarrow> None
           | Some (t, args') \<Rightarrow> map_option ((@) t) (fmt_ref f args'))
        else map_option ((#) d) (fmt_ref f args)
      else map_option ((#) c) (fmt_ref (d # f) args))"

lemma decimal_nonneg: "decimal (int n) = dec_nat n" "decimal (uint w) = dec_nat (unat w)"
proof -
  have "nat (uint w) = unat w" "\<not> uint w < 0" by (simp_all only: nat_uint_eq not_less uint_ge_0)
  then show "decimal (uint w) = dec_nat (unat w)" by (simp only: decimal_def if_False)
qed (simp add: decimal_def)

lemma dec_nat_u64_le: "length (dec_nat (unat (v :: u64))) \<le> 20"
proof -
  have "unat v < 10 ^ Suc 19" using unat64_less [of v] by simp
  then show ?thesis using length_dec_nat_le [of "unat v" 19] by simp
qed

lemma fmt_arg_text_ref: "fmt_arg_text fill d args = fmt_ref_arg d args"
proof -
  have s: "take (length (decimal v)) (mem_put 0 (decimal v @ [0]) b) = decimal v" for v b
    by (simp add: mem_put_def)
  have u: "take (length (dec_nat n)) (mem_put 0 (dec_nat n @ [0]) b) = dec_nat n" for n b
    by (simp add: mem_put_def)
  have "sint (scast n :: u64) = sint n" for n :: u32
    by (rule sint_up_scast) (simp add: is_up)
  moreover have "unat (ucast n :: u64) = unat n" for n :: u32
    by (rule unat_ucast_up) simp
  ultimately show ?thesis
    by (cases "(fill, d, args)" rule: fmt_arg_text.cases)
      (simp_all add: sdsll2str_decimal sdsull2str_decimal s u decimal_nonneg content_def sdslen_def
        del: of_char_Char)
qed

text \<open>The state of the loop: everything written so far is counted, the terminator is not there yet.\<close>

definition fmt_inv :: "sdshdr \<Rightarrow> nat \<Rightarrow> bool" where
  "fmt_inv s i \<longleftrightarrow> i = slen s \<and> length (buf s) = slen s + sfree s + 1 \<and> slen s + sfree s < 2 ^ 32"

lemma fmt_room:
  assumes "fmt_inv s i" "slen s + n < SDS_LIMIT"
  shows "fmt_inv (sdsMakeRoomFor fill s n) i" "content (sdsMakeRoomFor fill s n) = content s"
    "n \<le> sfree (sdsMakeRoomFor fill s n)" "slen (sdsMakeRoomFor fill s n) = slen s"
  using assms
  by (auto simp: sdsMakeRoomFor_def fmt_inv_def content_def Let_def mem_resize_def sds_limits u64_of_small u32_of_small
      nat_add_distrib)

lemma fmt_char_ok:
  assumes "fmt_inv s i" "0 < sfree s" "fmt_char s i c = (s', i')"
  shows "fmt_inv s' i' \<and> content s' = content s @ [c] \<and> slen s' = slen s + 1"
  using assms
  by (auto simp: fmt_char_def fmt_inv_def content_def take_Suc_conv_app_nth u32_of_small nat_add_distrib nat_diff_distrib)

lemma fmt_put_ok:
  assumes "fmt_inv s i" "fmt_put fill s i t = (s', i')" "slen s + length t < SDS_LIMIT"
  shows "fmt_inv s' i' \<and> content s' = content s @ t \<and> slen s' = slen s + length t"
proof -
  define u where "u = (if sfree s < length t then sdsMakeRoomFor fill s (length t) else s)"
  have l: "u32_of (int (length t)) = length t" using assms(3) by (simp add: u32_of_int sds_limits)
  have u: "fmt_inv u i" "content u = content s" "length t \<le> sfree u" "slen u = slen s"
    using assms(1) fmt_room [OF assms(1,3), where fill = fill] by (auto simp: u_def)
  then have "u32_of (int (slen u + length t)) = slen u + length t" "u32_of (int (sfree u) - int (length t)) = sfree u - length t"
    by (simp_all add: fmt_inv_def u32_of_small nat_add_distrib nat_diff_distrib)
  then have s': "s' = u\<lparr>buf := mem_put i t (buf u), slen := slen u + length t, sfree := sfree u - length t\<rparr>"
    "i' = i + length t"
    using assms(2) by (simp_all add: fmt_put_def Let_def u_def l)
  have "take (slen u + length t) (mem_put (slen u) t (buf u)) = take (slen u) (buf u) @ t"
    using u(1) by (simp add: mem_put_def fmt_inv_def)
  then have "content s' = content u @ t" using u(1) by (simp add: s' content_def fmt_inv_def)
  then show ?thesis using u by (simp add: s' fmt_inv_def mem_put_def)
qed

text \<open>Whether there is a result does not depend on the string.\<close>

lemma sdscatfmt_loop_none: "sdscatfmt_loop fill s i fmt args = None \<longleftrightarrow> fmt_ref fmt args = None"
proof (induction fmt args arbitrary: s i rule: fmt_ref.induct)
  case (3 c d f args)
  show ?case
    using 3 by (auto simp: Let_def fmt_arg_text_ref split: option.splits prod.splits simp del: str_simps of_char_Char)
qed (auto simp: Let_def)

lemma sdscatfmt_loop_ok:
  assumes "fmt_ref fmt args = Some t" "fmt_inv s i" "slen s + length t < 2 ^ 31"
  shows "\<exists>s' i'. sdscatfmt_loop fill s i fmt args = Some (s', i') \<and> fmt_inv s' i' \<and> content s' = content s @ t"
  using assms
proof (induction fmt args arbitrary: s i t rule: fmt_ref.induct)
  case (1 args)
  then show ?case by simp
next
  case (2 c args)
  let ?s = "if sfree s = 0 then sdsMakeRoomFor fill s 1 else s"
  have t: "t = [c]" "c \<noteq> ch CHR ''%''" using 2(1) by (auto split: if_splits)
  have "slen s + 1 < SDS_LIMIT" using 2(3) by (simp add: sds_limits)
  then have room: "fmt_inv ?s i" "content ?s = content s" "0 < sfree ?s"
    using fmt_room [OF 2(2), where fill = fill and n = 1] 2(2) by auto
  obtain s' i' where "fmt_char ?s i c = (s', i')" by fastforce
  with fmt_char_ok [OF room(1,3) this] room(2) t show ?case by (auto simp: Let_def)
next
  case (3 c d f args)
  let ?s = "if sfree s = 0 then sdsMakeRoomFor fill s 1 else s"
  have "slen s + 1 < SDS_LIMIT" using "3.prems"(3) by (simp add: sds_limits)
  then have room: "fmt_inv ?s i" "content ?s = content s" "0 < sfree ?s" "slen ?s = slen s"
    using fmt_room [OF "3.prems"(2), where fill = fill and n = 1] "3.prems"(2) by auto
  consider (arg) "c = ch CHR ''%''" "d \<in> set (str ''sSiIuU'')"
    | (percent) "c = ch CHR ''%''" "d \<notin> set (str ''sSiIuU'')" | (plain) "c \<noteq> ch CHR ''%''" by blast
  then show ?case
  proof cases
    case arg
    then obtain v args' w where v: "fmt_ref_arg d args = Some (v, args')" "fmt_ref f args' = Some w" "t = v @ w"
      using "3.prems"(1) by (auto split: option.splits simp del: str_simps of_char_Char)
    obtain s' i' where put: "fmt_put fill ?s i v = (s', i')" by fastforce
    have "slen ?s + length v < SDS_LIMIT" using "3.prems"(3) v(3) room(4) by (simp add: sds_limits)
    note ok = fmt_put_ok [OF room(1) put this]
    have "slen s' + length w < 2 ^ 31" using ok "3.prems"(3) v(3) room(4) by simp
    from "3.IH"(1) [OF arg v(1) refl v(2) conjunct1 [OF ok] this] show ?thesis
      using ok arg v put room(2)
      by (auto simp: Let_def fmt_arg_text_ref simp del: str_simps of_char_Char)
  next
    case percent
    then obtain w where w: "fmt_ref f args = Some w" "t = d # w"
      using "3.prems"(1) by (auto simp del: str_simps of_char_Char)
    obtain s' i' where put: "fmt_char ?s i d = (s', i')" by fastforce
    note ok = fmt_char_ok [OF room(1,3) put]
    have "slen s' + length w < 2 ^ 31" using ok "3.prems"(3) w(2) room(4) by simp
    from "3.IH"(2) [OF percent w(1) conjunct1 [OF ok] this] show ?thesis
      using ok percent put room(2) w
      by (auto simp: Let_def simp del: str_simps of_char_Char)
  next
    case plain
    then obtain w where w: "fmt_ref (d # f) args = Some w" "t = c # w"
      using "3.prems"(1) by (auto simp del: str_simps of_char_Char)
    obtain s' i' where put: "fmt_char ?s i c = (s', i')" by fastforce
    note ok = fmt_char_ok [OF room(1,3) put]
    have "slen s' + length w < 2 ^ 31" using ok "3.prems"(3) w(2) room(4) by simp
    from "3.IH"(3) [OF plain w(1) conjunct1 [OF ok] this] show ?thesis
      using ok plain put room(2) w
      by (auto simp: Let_def simp del: str_simps of_char_Char)
  qed
qed

text \<open>
  C28: \<open>sdscatfmt\<close> appends exactly the text the format describes: C strings up to their
  terminator, sds strings whole, the four integer types in decimal, everything else verbatim.
  The result is a valid string, as long as it stays below 2 GB, where the \<open>int\<close> position of the
  code ends.  When a conversion has no argument of its type, or the format ends in a lone percent
  sign, it has no defined result; the latter makes the code write a zero byte and read the format
  beyond its terminator.
\<close>

theorem sdscatfmt_text:
  assumes "sds_inv s"
  shows "case fmt_ref fmt args of
      None \<Rightarrow> sdscatfmt fill s fmt args = None
    | Some t \<Rightarrow> slen s + length t < 2 ^ 31 \<longrightarrow>
        (\<exists>s'. sdscatfmt fill s fmt args = Some s' \<and> sds_inv s' \<and> content s' = content s @ t)"
proof (cases "fmt_ref fmt args")
  case None
  then show ?thesis using sdscatfmt_loop_none [of fill s "sdslen s" fmt args] by (simp add: sdscatfmt_def)
next
  case (Some t)
  have "fmt_inv s (sdslen s)" using assms by (simp add: fmt_inv_def sds_inv_def sdslen_def)
  from sdscatfmt_loop_ok [OF Some this, where fill = fill] Some show ?thesis
    by (fastforce simp: sdscatfmt_def fmt_inv_def sds_inv_def content_def)
qed

theorem sdscatfmt_text_witness:
  "\<exists>s'. sdscatfmt 7 sdsempty (str ''%i-%s%%'') [FmtInt (- 3), FmtStr (str ''ab'')] = Some s'
     \<and> sds_inv s' \<and> content s' = str ''-3-ab%''"
  using sdscatfmt_text [where s = sdsempty and fmt = "str ''%i-%s%%''"
      and args = "[FmtInt (- 3), FmtStr (str ''ab'')]" and fill = 7]
  by (simp add: sdsempty_ok decimal_def dec_nat_small digit_def c_str_def) (simp add: sdsempty_def sdsnewlen_def u32_of_def)

section \<open>Splitting and joining are inverse\<close>

fun intercalate :: "bytes \<Rightarrow> bytes list \<Rightarrow> bytes" where
  "intercalate sep [] = []"
| "intercalate sep [t] = t"
| "intercalate sep (t # u # ts) = t @ sep @ intercalate sep (u # ts)"

lemma intercalate_snoc: "intercalate sep (ts @ [l]) = concat (map (\<lambda>t. t @ sep) ts) @ l"
  by (induction sep ts rule: intercalate.induct) simp_all

text \<open>\<open>sep\<close> occurs in \<open>s\<close> at \<open>k\<close>.\<close>

definition occurs :: "bytes \<Rightarrow> bytes \<Rightarrow> nat \<Rightarrow> bool" where
  "occurs sep s k \<longleftrightarrow> take (length sep) (drop k s) = sep"

lemma split_match:
  assumes "j + length sep \<le> length s" "sep \<noteq> []"
  shows "(length sep = 1 \<and> s ! j = sep ! 0) \<or> memcmp (drop j s) sep (length sep) = 0 \<longleftrightarrow> occurs sep s j"
proof -
  have "length sep = 1 \<and> s ! j = sep ! 0 \<Longrightarrow> occurs sep s j"
    using assms by (cases sep) (auto simp: occurs_def take_Suc hd_drop_conv_nth)
  then show ?thesis using assms by (auto simp: memcmp_eq_0 occurs_def)
qed

lemma occurs_bound: "occurs sep s k \<Longrightarrow> sep \<noteq> [] \<Longrightarrow> k + length sep \<le> length s"
  by (cases sep) (auto simp: occurs_def dest!: arg_cong [where f = length])

lemma sdssplitlen_loop_ok:
  assumes "sep \<noteq> []" "length s < 2 ^ 31" "start \<le> j" "j \<le> length s" "length tokens < slots"
    "\<forall>k. start \<le> k \<and> k < j \<longrightarrow> \<not> occurs sep s k"
  shows "\<exists>new slots' start'. sdssplitlen_loop s sep tokens slots start j = Some (tokens @ new, slots', start')
    \<and> length tokens + length new < slots' \<and> start' \<le> length s \<and> (\<forall>k\<ge>start'. \<not> occurs sep s k)
    \<and> concat (map (\<lambda>t. content t @ sep) new) @ drop start' s = drop start s
    \<and> (\<forall>t\<in>set new. sds_inv t \<and> (\<forall>k<length (content t). \<not> occurs sep (content t @ sep) k))"
  using assms
proof (induction "length s - j" arbitrary: tokens slots start j rule: less_induct)
  case less
  show ?case
  proof (cases "j + length sep \<le> length s")
    case False
    then have "sdssplitlen_loop s sep tokens slots start j = Some (tokens, slots, start)"
      by (subst sdssplitlen_loop.simps) simp
    moreover have "\<not> occurs sep s k" if "start \<le> k" for k
      using that less.prems(1,6) occurs_bound [of sep s k] False by (cases "k < j") auto
    ultimately show ?thesis using less.prems by auto
  next
    case True
    then have cond: "int j < int (length s) - (int (length sep) - 1) \<and> sep \<noteq> []"
      using less.prems(1) by simp
    let ?slots = "if slots < length tokens + 2 then slots * 2 else slots"
    have room: "length tokens + 1 < ?slots" using less.prems(5) by auto
    show ?thesis
    proof (cases "occurs sep s j")
      case occ: True
      define t where "t = mem_get start (j - start) s"
      have t_sep: "t @ sep = take (j + length sep - start) (drop start s)"
      proof -
        have "j + length sep - start = (j - start) + length sep" "j - start + start = j"
          using less.prems(3) by simp_all
        then show ?thesis
          using occ unfolding occurs_def t_def mem_get_def
          by (simp only: take_add drop_drop)
      qed
      have len_t: "length t = j - start" using less.prems by (simp add: t_def)
      have tok: "sds_inv (sdsnewlen t)" "content (sdsnewlen t) = t"
        using len_t less.prems(2) less.prems(4) by (simp_all add: sdsnewlen_ok)
      have step: "sdssplitlen_loop s sep tokens slots start j =
          sdssplitlen_loop s sep (tokens @ [sdsnewlen t]) ?slots (j + length sep) (j + length sep)"
        using cond room occ split_match [OF True less.prems(1)]
        by (subst sdssplitlen_loop.simps) (simp add: Let_def t_def)
      have clean: "\<not> occurs sep (t @ sep) k" if "k < length t" for k
      proof -
        have "take (length sep) (drop k (t @ sep)) = take (length sep) (drop (start + k) s)"
          using that len_t by (simp add: t_sep drop_take min_def add.commute)
        then show ?thesis using less.prems(6) that len_t by (auto simp: occurs_def)
      qed
      have "length s - (j + length sep) < length s - j" using less.prems(1) True by (cases sep) auto
      moreover have "\<forall>k. j + length sep \<le> k \<and> k < j + length sep \<longrightarrow> \<not> occurs sep s k" by auto
      moreover have "length (tokens @ [sdsnewlen t]) < ?slots" using room by simp
      ultimately obtain new slots' start' where IH:
        "sdssplitlen_loop s sep (tokens @ [sdsnewlen t]) ?slots (j + length sep) (j + length sep)
          = Some ((tokens @ [sdsnewlen t]) @ new, slots', start')"
        "length tokens + 1 + length new < slots'" "start' \<le> length s" "\<forall>k\<ge>start'. \<not> occurs sep s k"
        "concat (map (\<lambda>t. content t @ sep) new) @ drop start' s = drop (j + length sep) s"
        "\<forall>t\<in>set new. sds_inv t \<and> (\<forall>k<length (content t). \<not> occurs sep (content t @ sep) k)"
        using less.hyps [OF _ less.prems(1,2) order.refl True, of "tokens @ [sdsnewlen t]" ?slots] by auto
      have "drop start s = (t @ sep) @ drop (j + length sep) s"
      proof -
        have "j + length sep - start + start = j + length sep" using less.prems(3) by simp
        then show ?thesis
          unfolding t_sep by (metis append_take_drop_id drop_drop)
      qed
      then show ?thesis
        using IH clean step
        by (intro exI [of _ "sdsnewlen t # new"] exI [of _ slots'] exI [of _ start'])
          (simp add: tok)
    next
      case occ: False
      have step: "sdssplitlen_loop s sep tokens slots start j = sdssplitlen_loop s sep tokens ?slots start (j + 1)"
        using occ unfolding split_match [OF True less.prems(1), symmetric]
        by (subst sdssplitlen_loop.simps) (simp only: Let_def cond if_True if_False simp_thms)
      have "length s - (j + 1) < length s - j" "j + 1 \<le> length s"
        using less.prems(1) True by (cases sep; simp)+
      moreover have "\<forall>k. start \<le> k \<and> k < j + 1 \<longrightarrow> \<not> occurs sep s k"
        using less.prems(6) occ by (auto simp: less_Suc_eq)
      ultimately show ?thesis
        using less.hyps [of "j + 1" start tokens ?slots] less.prems(1-3) room step by simp
    qed
  qed
qed

lemma sdsjoin_loop_ok:
  "sds_inv join \<Longrightarrow> slen join + length (intercalate (c_str sep) (map c_str argv)) < SDS_LIMIT \<Longrightarrow>
     sds_inv (sdsjoin_loop fill sep join argv)
     \<and> content (sdsjoin_loop fill sep join argv) = content join @ intercalate (c_str sep) (map c_str argv)"
proof (induction argv arbitrary: join)
  case Nil
  then show ?case by simp
next
  case (Cons a argv)
  have len: "slen j = length (content j)" if "sds_inv j" for j using length_content [OF that] by simp
  show ?case
  proof (cases argv)
    case Nil
    with Cons.prems sdscat_ok [of join a fill] show ?thesis by simp
  next
    case (Cons b bs)
    define j where "j = sdscat fill join a"
    have j: "sds_inv j" "content j = content join @ c_str a"
      using Cons.prems sdscat_ok [of join a fill] Cons by (simp_all add: j_def)
    define k where "k = sdscat fill j sep"
    have k: "sds_inv k" "content k = content join @ c_str a @ c_str sep"
      using Cons.prems sdscat_ok [of j sep fill] Cons j len [of j] len [of join] by (simp_all add: k_def)
    have "slen k + length (intercalate (c_str sep) (map c_str argv)) < SDS_LIMIT"
      using Cons.prems Cons k len [of k] len [of join] by simp
    from Cons.IH [OF k(1) this] k show ?thesis by (simp add: Cons Let_def j_def k_def)
  qed
qed

lemma sdsjoin_ok:
  assumes "length (intercalate (c_str sep) (map c_str argv)) < SDS_LIMIT"
  shows "sds_inv (sdsjoin fill argv sep)" "content (sdsjoin fill argv sep) = intercalate (c_str sep) (map c_str argv)"
  using sdsjoin_loop_ok [of sdsempty sep argv fill] assms
  by (simp_all add: sdsjoin_def sdsempty_ok) (simp_all add: sdsempty_def sdsnewlen_def u32_of_def)

lemma sdsjoin_clean:
  assumes "length (intercalate sep argv) < SDS_LIMIT" "0 \<notin> set (intercalate sep argv)"
  shows "content (sdsjoin fill argv sep) = intercalate sep argv"
proof -
  have "intercalate (c_str sep) (map c_str argv) = intercalate sep argv"
    using assms(2)
  proof (induction sep argv rule: intercalate.induct)
    case (3 sep t u ts)
    then have "0 \<notin> set t" "0 \<notin> set sep" by simp_all
    with 3 show ?case by (simp add: c_str_clean)
  qed (simp_all add: c_str_clean)
  with sdsjoin_ok(2) [of sep argv fill] assms(1) show ?thesis by simp
qed

text \<open>
  C29: splitting and joining.  For a nonempty separator and a string below 2 GB, the lengths being
  \<open>int\<close>s, \<open>sdssplitlen\<close> never stores a token outside the array it grows; it cuts at the leftmost
  occurrences of the separator, so that no token contains it or creates an earlier one together with
  the separator that follows; and if the string has no zero byte, \<open>sdsjoin\<close>, which takes C strings,
  rebuilds it from the tokens.  The empty string gives an empty array.
\<close>

theorem sdssplitlen_join:
  assumes "sep \<noteq> []" "length sep < 2 ^ 31" "length s < 2 ^ 31"
  shows "\<exists>toks. sdssplitlen s sep = SplitTokens toks \<and> (\<forall>t\<in>set toks. sds_inv t)
    \<and> (toks = [] \<longleftrightarrow> s = [])
    \<and> intercalate sep (map content toks) = s
    \<and> (0 \<notin> set s \<longrightarrow> content (sdsjoin fill (map content toks) sep) = s)
    \<and> (\<forall>t\<in>set (butlast toks). \<forall>k<length (content t). \<not> occurs sep (content t @ sep) k)
    \<and> (toks \<noteq> [] \<longrightarrow> (\<forall>k. \<not> occurs sep (content (last toks)) k))"
proof -
  have sz: "\<not> (s32_of (int (length sep)) < 1 \<or> s32_of (int (length s)) < 0)"
    using assms by (cases sep) (simp_all add: s32_of_small)
  have join: "content (sdsjoin fill argv sep) = s" if "intercalate sep argv = s" "0 \<notin> set s" for argv
    using sdsjoin_clean [of sep argv fill] that assms(3) by (simp add: sds_limits)
  show ?thesis
  proof (cases "s = []")
    case True
    then show ?thesis using sz join [of "[]"] by (simp add: sdssplitlen_def)
  next
    case False
    from sdssplitlen_loop_ok [OF assms(1,3), of 0 0 "[]" 5] obtain new slots' start' where new:
      "sdssplitlen_loop s sep [] 5 0 0 = Some (new, slots', start')"
      "length new < slots'" "start' \<le> length s" "\<forall>k\<ge>start'. \<not> occurs sep s k"
      "concat (map (\<lambda>t. content t @ sep) new) @ drop start' s = s"
      "\<forall>t\<in>set new. sds_inv t \<and> (\<forall>k<length (content t). \<not> occurs sep (content t @ sep) k)"
      by auto
    let ?last = "sdsnewlen (drop start' s)"
    have last: "sds_inv ?last" "content ?last = drop start' s" using assms(3) by (simp_all add: sdsnewlen_ok)
    have "sdssplitlen s sep = SplitTokens (new @ [?last])"
      using new(1,2) sz False by (simp add: sdssplitlen_def mem_get_def)
    moreover have whole: "intercalate sep (map content (new @ [?last])) = s"
      using new(5) by (simp add: intercalate_snoc last comp_def)
    moreover have "\<not> occurs sep (drop start' s) k" for k
      using new(4) by (auto simp: occurs_def add.commute)
    ultimately show ?thesis
      using new(6) False last join [OF whole] by (intro exI [of _ "new @ [?last]"]) simp
  qed
qed

theorem sdssplitlen_join_witness:
  "\<exists>toks. sdssplitlen (str ''a--b---c'') (str ''--'') = SplitTokens toks
    \<and> content (sdsjoin 7 (map content toks) (str ''--'')) = str ''a--b---c''"
  using sdssplitlen_join [of "str ''--''" "str ''a--b---c''" 7] by auto

section \<open>The argument parser reads the quoted representation back\<close>

lemma sdscatrepr_loop_ok:
  "sds_inv s \<Longrightarrow> slen s + length (concat (map repr_char p)) < SDS_LIMIT \<Longrightarrow>
     sds_inv (sdscatrepr_loop fill s p)
     \<and> content (sdscatrepr_loop fill s p) = content s @ concat (map repr_char p)"
proof (induction p arbitrary: s)
  case (Cons c p)
  let ?t = "sdscatlen fill s (repr_char c)"
  have t: "sds_inv ?t" "content ?t = content s @ repr_char c"
    using sdscatlen_ok [OF Cons.prems(1), of "repr_char c" fill] Cons.prems(2) by simp_all
  moreover have "slen ?t = slen s + length (repr_char c)"
    using length_content [OF t(1)] length_content [OF Cons.prems(1)] t(2) by simp
  ultimately show ?case using Cons.IH [of ?t] Cons.prems(2) by simp
qed simp

lemma sdscatrepr_ok:
  assumes "sds_inv s" "slen s + length (concat (map repr_char p)) + 2 < SDS_LIMIT"
  shows "sds_inv (sdscatrepr fill s p)
    \<and> content (sdscatrepr fill s p) = content s @ [34] @ concat (map repr_char p) @ [34]"
proof -
  define t where "t = sdscatlen fill s [34]"
  have t: "sds_inv t" "content t = content s @ [34]"
    using sdscatlen_ok [OF assms(1), of "[34]" fill] assms(2) by (simp_all add: t_def)
  define u where "u = sdscatrepr_loop fill t p"
  have tl: "slen t = slen s + 1" using length_content [OF t(1)] length_content [OF assms(1)] t(2) by simp
  have u: "sds_inv u" "content u = content t @ concat (map repr_char p)"
    using sdscatrepr_loop_ok [OF t(1), of p fill] assms(2) tl by (simp_all add: u_def)
  have "slen u + length [34 :: byte] < SDS_LIMIT"
    using length_content [OF u(1)] length_content [OF t(1)] u(2) tl assms(2) by simp
  from sdscatlen_ok [OF u(1) this, of fill] t u show ?thesis
    by (simp add: sdscatrepr_def Let_def t_def u_def)
qed

lemma hex_digit_ok:
  assumes "d < (16 :: byte)"
  shows "is_hex_digit (hex_digit d) \<and> hex_digit_to_int (hex_digit d) = unat d"
proof -
  obtain n where d: "d = of_nat n" "n < 16"
  proof
    show "d = of_nat (unat d)" "unat d < 16" using assms by (simp_all add: word_less_nat_alt)
  qed
  then have "n \<in> {0,1,2,3,4,5,6,7,8,9,10,11,12,13,14,15}" by simp presburger
  then show ?thesis
    unfolding d(1)
    by (elim insertE emptyE) (simp_all add: is_hex_digit_def hex_digit_to_int_def hex_digit_def)
qed

lemma hex_pair:
  "(of_nat (hex_digit_to_int (hex_digit (c div 16)) * 16 + hex_digit_to_int (hex_digit (c mod 16))) :: byte) = c"
proof -
  have lt: "c div 16 < 16" "c mod 16 < 16"
    using unsigned_less [of c, where 'a = nat]
    by (simp_all add: word_less_nat_alt unat_div_distrib unat_mod_distrib less_mult_imp_div_less)
  have "unat (c div 16) * 16 + unat (c mod 16) = unat c"
    by (simp add: unat_div_distrib unat_mod_distrib)
  then show ?thesis using hex_digit_ok [OF lt(1)] hex_digit_ok [OF lt(2)] by simp
qed

lemma hex_pair_ok: "is_hex_digit (hex_digit (c div 16))" "is_hex_digit (hex_digit (c mod 16))"
proof -
  have "c div 16 < 16" "c mod 16 < 16"
    using unsigned_less [of c, where 'a = nat]
    by (simp_all add: word_less_nat_alt unat_div_distrib unat_mod_distrib less_mult_imp_div_less)
  then show "is_hex_digit (hex_digit (c div 16))" "is_hex_digit (hex_digit (c mod 16))"
    using hex_digit_ok by blast+
qed

lemma peek_simps [simp]:
  "peek 0 (c # p) = c" "peek (Suc k) (c # p) = peek k p" "peek k [] = 0"
  "peek (numeral n) (c # p) = peek (pred_numeral n) p"
  by (simp_all add: peek_def numeral_eq_Suc)

text \<open>One escaped byte is read as one byte.\<close>

lemma get_token_repr_char:
  "get_token fill True insq (repr_char c @ p) cur = get_token fill True insq p (sdscatlen fill cur [c])"
proof -
  consider "c = 92 \<or> c = 34" | "c = 10" | "c = 13" | "c = 9" | "c = 7" | "c = 8"
    | (print) "isprint c" "c \<noteq> 92" "c \<noteq> 34" "c \<noteq> 10" "c \<noteq> 13" "c \<noteq> 9" "c \<noteq> 7" "c \<noteq> 8"
    | (hex) "\<not> isprint c" "c \<noteq> 92" "c \<noteq> 34" "c \<noteq> 10" "c \<noteq> 13" "c \<noteq> 9" "c \<noteq> 7" "c \<noteq> 8" by blast
  then show ?thesis
  proof cases
    case print
    then have "c \<noteq> 0" by (auto simp: isprint_def)
    with print show ?thesis by (subst get_token.simps) (simp add: repr_char_def)
  next
    case hex
    then show ?thesis
      by (subst get_token.simps) (simp add: repr_char_def hex_pair hex_pair_ok del: of_nat_add of_nat_mult)
  qed (subst get_token.simps, force simp: repr_char_def unescape_def)+
qed

lemma get_token_repr:
  assumes "sds_inv cur" "slen cur + length bs < SDS_LIMIT" "p = [] \<or> isspace (hd p)"
  shows "\<exists>t. get_token fill True insq (concat (map repr_char bs) @ 34 # p) cur = Some (t, p)
    \<and> sds_inv t \<and> content t = content cur @ bs"
  using assms(1,2)
proof (induction bs arbitrary: cur)
  case Nil
  then show ?case
    using assms(3) by (subst get_token.simps) (cases p; simp)
next
  case (Cons b bs)
  let ?t = "sdscatlen fill cur [b]"
  have t: "sds_inv ?t" "content ?t = content cur @ [b]"
    using sdscatlen_ok [OF Cons.prems(1), of "[b]" fill] Cons.prems(2) by simp_all
  moreover have "slen ?t = slen cur + 1"
    using length_content [OF t(1)] length_content [OF Cons.prems(1)] t(2) by simp
  ultimately show ?case
    using Cons.IH [of ?t] Cons.prems(2) by (simp add: get_token_repr_char)
qed

definition quoted :: "bytes \<Rightarrow> bytes" where
  "quoted bs = content (sdscatrepr 0 sdsempty bs)"

text \<open>A byte is quoted in at most four bytes, none of them zero.\<close>

lemma repr_char_clean: "length (repr_char c) \<le> 4 \<and> 0 \<notin> set (repr_char c)"
proof -
  have "hex_digit (c div 16) \<noteq> 0 \<and> hex_digit (c mod 16) \<noteq> 0"
    using hex_pair_ok [of c] by (auto simp: is_hex_digit_def)
  then show ?thesis by (auto simp: repr_char_def isprint_def)
qed

lemma repr_clean: "length (concat (map repr_char bs)) \<le> 4 * length bs \<and> 0 \<notin> set (concat (map repr_char bs))"
proof (induction bs)
  case (Cons b bs)
  then show ?case using repr_char_clean [of b] by auto
qed simp

lemma slen_empty [simp]: "slen sdsempty = 0"
  by (simp add: sdsempty_def sdsnewlen_def u32_of_def)

text \<open>The sizes for which the quoted arguments and the line they are joined to fit a string.\<close>

definition line_bound :: "bytes list \<Rightarrow> nat" where
  "line_bound args = sum_list (map (\<lambda>a. 4 * length a + 3) args)"

lemma quoted_eq: "4 * length bs + 2 < SDS_LIMIT \<Longrightarrow> quoted bs = 34 # concat (map repr_char bs) @ [34]"
  using sdscatrepr_ok [of sdsempty bs 0] repr_clean [of bs] by (simp add: quoted_def sdsempty_ok)

lemma sdssplitargs_loop_repr:
  "line_bound ts < SDS_LIMIT \<Longrightarrow> \<exists>toks. sdssplitargs_loop fill (intercalate [32] (map quoted ts)) vec = Some (vec @ toks)
     \<and> (\<forall>t\<in>set toks. sds_inv t) \<and> map content toks = ts"
proof (induction "[32 :: byte]" "map quoted ts" arbitrary: ts vec rule: intercalate.induct)
  case 1
  then show ?case by (subst sdssplitargs_loop.simps) simp
next
  case (2 t)
  then obtain b where ts: "ts = [b]" by auto
  obtain t where "get_token fill True False (concat (map repr_char b) @ [34]) sdsempty = Some (t, [])"
    "sds_inv t" "content t = b"
    using get_token_repr [of sdsempty b "[]" fill False] 2 ts by (auto simp: sdsempty_ok line_bound_def)
  moreover have "sdssplitargs_loop fill [] v = Some v" for v by (subst sdssplitargs_loop.simps) simp
  moreover have "get_token fill False False (34 # p) cur = get_token fill True False p cur" for p cur
    by (subst get_token.simps) simp
  ultimately show ?case
    using 2 by (subst sdssplitargs_loop.simps) (simp add: ts quoted_eq isspace_def line_bound_def)
next
  case (3 q r qs)
  then obtain b c bs where ts: "ts = b # c # bs" by (metis map_eq_Cons_D)
  let ?rest = "intercalate [32] (map quoted (c # bs))"
  have len: "4 * length b + 3 + line_bound (c # bs) < SDS_LIMIT" using "3.prems" by (simp add: ts line_bound_def)
  obtain t where t: "get_token fill True False (concat (map repr_char b) @ 34 # 32 # ?rest) sdsempty
      = Some (t, 32 # ?rest)" "sds_inv t" "content t = b"
    using get_token_repr [of sdsempty b "32 # ?rest" fill False] len by (auto simp: sdsempty_ok isspace_def)
  have skip: "sdssplitargs_loop fill (32 # p) v = sdssplitargs_loop fill p v" for p v
    by (subst (1 2) sdssplitargs_loop.simps) (simp add: isspace_def)
  have first: "get_token fill False False (34 # p) cur = get_token fill True False p cur" for p cur
    by (subst get_token.simps) simp
  have "sdssplitargs_loop fill (intercalate [32] (map quoted ts)) vec
    = sdssplitargs_loop fill ?rest (vec @ [t])"
    by (subst sdssplitargs_loop.simps) (use t len in \<open>simp add: ts quoted_eq [of b] isspace_def first skip\<close>)
  moreover obtain toks where "sdssplitargs_loop fill ?rest (vec @ [t]) = Some ((vec @ [t]) @ toks)"
    "\<forall>t\<in>set toks. sds_inv t" "map content toks = c # bs"
    using "3.hyps"(1) [of "c # bs" "vec @ [t]"] "3.hyps"(2) ts len by auto
  ultimately show ?case using t by (intro exI [of _ "t # toks"]) (simp add: ts)
qed

lemma quoted_line:
  assumes "line_bound args < SDS_LIMIT"
  shows "length (intercalate [32] (map quoted args)) \<le> line_bound args \<and> 0 \<notin> set (intercalate [32] (map quoted args))"
proof -
  have q: "length (quoted a) \<le> 4 * length a + 2 \<and> 0 \<notin> set (quoted a)" if "a \<in> set args" for a
  proof -
    have "4 * length a + 3 \<le> line_bound args"
      using that unfolding line_bound_def by (intro member_le_sum_list) auto
    then show ?thesis using assms quoted_eq [of a] repr_clean [of a] by simp
  qed
  show ?thesis
    using q
  proof (induction args)
    case (Cons a args)
    then show ?case by (cases args) (force simp: line_bound_def)+
  qed simp
qed

text \<open>
  C22: round trip of the argument syntax.  The arguments quoted by \<open>sdscatrepr\<close> and separated
  by blanks are read back by \<open>sdssplitargs\<close>, every byte value included, as long as the line fits a
  string: a byte takes up to four, and an argument three more, of the 4 GB less the largest
  preallocation.
\<close>

theorem sdssplitargs_sdscatrepr:
  assumes "line_bound args < SDS_LIMIT"
  shows "\<exists>toks. sdssplitargs fill (content (sdsjoin fill (map quoted args) [32])) = Some toks
     \<and> (\<forall>t\<in>set toks. sds_inv t) \<and> map content toks = args"
proof -
  have "content (sdsjoin fill (map quoted args) [32]) = intercalate [32] (map quoted args)"
    by (rule sdsjoin_clean) (use quoted_line [OF assms] assms in auto)
  then show ?thesis
    using sdssplitargs_loop_repr [OF assms, of fill "[]"] by (auto simp: sdssplitargs_def)
qed

theorem sdssplitargs_sdscatrepr_witness:
  "\<exists>toks. sdssplitargs 7 (content (sdsjoin 7 (map quoted [str ''set'', [0, 34, 255, 10]]) [32])) = Some toks
     \<and> map content toks = [str ''set'', [0, 34, 255, 10]]"
  using sdssplitargs_sdscatrepr [where fill = 7 and args = "[str ''set'', [0, 34, 255, 10]]"]
  by (auto simp: line_bound_def sds_limits)

end
