(* ===== verification/Dict.thy ===== *)
theory Dict
  imports Sds Interfaces "HOL-Library.Multiset"
begin

text \<open>
  The hash tables of \<open>dict.c\<close>: chained buckets in power-of-two tables, two tables while an
  incremental rehash is under way.  A bucket is the list of its entries in chain order; an
  entry pointer is the triple of table, bucket and position in the chain.  A null table is the
  empty list of buckets.  \<open>dict_can_resize\<close>, a static variable of the file, is a parameter of
  the operations that read it.  The hash function and the key comparison are the function
  pointers of \<open>dictType\<close>; the duplication hooks are null in every table of the server and the
  destructors only release the memory of what an operation returns as freed.
\<close>

section \<open>Model\<close>

record 'k dictType =
  hashFunction :: "'k \<Rightarrow> u32"
  keyCompare :: "'k \<Rightarrow> 'k \<Rightarrow> bool"

record ('k, 'v) dictht =
  table :: "('k \<times> 'v) list list"
  htsize :: nat
  sizemask :: u64
  used :: nat

record ('k, 'v) dict =
  dtype :: "'k dictType"
  ht0 :: "('k, 'v) dictht"
  ht1 :: "('k, 'v) dictht"
  rehashidx :: int
  iterators :: int

type_synonym entry_ref = "nat \<times> nat \<times> nat"

definition DICT_HT_INITIAL_SIZE :: nat where "DICT_HT_INITIAL_SIZE = 4"
definition dict_force_resize_ratio :: nat where "dict_force_resize_ratio = 5"
definition LONG_MAX :: nat where "LONG_MAX = 2 ^ 63 - 1"

definition dictReset :: "('k, 'v) dictht" where
  "dictReset = \<lparr>table = [], htsize = 0, sizemask = 0, used = 0\<rparr>"

definition dictCreate :: "'k dictType \<Rightarrow> ('k, 'v) dict" where
  "dictCreate t = \<lparr>dtype = t, ht0 = dictReset, ht1 = dictReset, rehashidx = - 1, iterators = 0\<rparr>"

definition dictIsRehashing :: "('k, 'v) dict \<Rightarrow> bool" where
  "dictIsRehashing d \<longleftrightarrow> rehashidx d \<noteq> - 1"

definition dictSize :: "('k, 'v) dict \<Rightarrow> nat" where
  "dictSize d = used (ht0 d) + used (ht1 d)"

definition dictHashKey :: "('k, 'v) dict \<Rightarrow> 'k \<Rightarrow> u32" where
  "dictHashKey d k = hashFunction (dtype d) k"

definition dictCompareKeys :: "('k, 'v) dict \<Rightarrow> 'k \<Rightarrow> 'k \<Rightarrow> bool" where
  "dictCompareKeys d k k' = keyCompare (dtype d) k k'"

text \<open>\<open>h & sizemask\<close> assigned to an \<open>unsigned int\<close>.\<close>

definition hash_index :: "u32 \<Rightarrow> ('k, 'v) dictht \<Rightarrow> nat" where
  "hash_index h t = unat (ucast (ucast h AND sizemask t) :: u32)"

function dictNextPower_loop :: "nat \<Rightarrow> nat \<Rightarrow> nat" where
  "dictNextPower_loop n i = (if i \<ge> n \<or> i = 0 then i else dictNextPower_loop n (i * 2))"
  by pat_completeness auto
termination by (relation "measure (\<lambda>(n, i). n - i)") auto

declare dictNextPower_loop.simps [simp del]

definition dictNextPower :: "nat \<Rightarrow> nat" where
  "dictNextPower n = (if n \<ge> LONG_MAX then LONG_MAX else dictNextPower_loop n DICT_HT_INITIAL_SIZE)"

definition dictExpand :: "('k, 'v) dict \<Rightarrow> nat \<Rightarrow> ('k, 'v) dict \<times> bool" where
  "dictExpand d n =
    (let realsize = dictNextPower n
     in if dictIsRehashing d \<or> used (ht0 d) > n then (d, False)
        else if realsize = htsize (ht0 d) then (d, False)
        else
          let t = \<lparr>table = replicate realsize [], htsize = realsize,
                   sizemask = of_nat realsize - 1, used = 0\<rparr>
          in if table (ht0 d) = [] then (d\<lparr>ht0 := t\<rparr>, True)
             else (d\<lparr>ht1 := t, rehashidx := 0\<rparr>, True))"

text \<open>\<open>minimal\<close> is an \<open>int\<close>, converted to \<open>unsigned long\<close> in the call.\<close>

definition dictResize :: "bool \<Rightarrow> ('k, 'v) dict \<Rightarrow> ('k, 'v) dict \<times> bool" where
  "dictResize can_resize d =
    (if \<not> can_resize \<or> dictIsRehashing d then (d, False)
     else
       let minimal = sint (of_nat (used (ht0 d)) :: u32);
           minimal = (if minimal < int DICT_HT_INITIAL_SIZE then int DICT_HT_INITIAL_SIZE else minimal)
       in dictExpand d (nat minimal))"

text \<open>
  The inner loop of \<open>dictRehash\<close> that skips empty buckets: the index it stops at, the visits
  left, and whether it gave up.
\<close>

function skip_empty :: "('k \<times> 'v) list list \<Rightarrow> nat \<Rightarrow> nat \<Rightarrow> nat \<times> nat \<times> bool" where
  "skip_empty tab idx visits =
    (if idx < length tab \<and> tab ! idx = [] then
       if visits - 1 = 0 then (idx + 1, 0, True) else skip_empty tab (idx + 1) (visits - 1)
     else (idx, visits, False))"
  by pat_completeness auto
termination by (relation "measure (\<lambda>(tab, idx, visits). length tab - idx)") auto

declare skip_empty.simps [simp del]

fun move_bucket :: "('k \<Rightarrow> u32) \<Rightarrow> ('k \<times> 'v) list \<Rightarrow> ('k, 'v) dictht \<Rightarrow> ('k, 'v) dictht" where
  "move_bucket hash [] t = t"
| "move_bucket hash (de # nextde) t =
     (let h = hash_index (hash (fst de)) t
      in move_bucket hash nextde
           (t\<lparr>table := (table t)[h := de # table t ! h], used := used t + 1\<rparr>))"

fun dictRehash_loop :: "nat \<Rightarrow> nat \<Rightarrow> ('k, 'v) dict \<Rightarrow> ('k, 'v) dict \<times> bool" where
  "dictRehash_loop 0 visits d = (d, False)"
| "dictRehash_loop (Suc n) visits d =
     (if used (ht0 d) = 0 then (d, False)
      else
        let (idx, visits, stopped) = skip_empty (table (ht0 d)) (nat (rehashidx d)) visits
        in if stopped then (d\<lparr>rehashidx := int idx\<rparr>, True)
           else
             let de = table (ht0 d) ! idx;
                 t0 = (ht0 d)\<lparr>table := (table (ht0 d))[idx := []], used := used (ht0 d) - length de\<rparr>;
                 t1 = move_bucket (dictHashKey d) de (ht1 d)
             in dictRehash_loop n visits (d\<lparr>ht0 := t0, ht1 := t1, rehashidx := int idx + 1\<rparr>))"

text \<open>
  The loop opens with \<open>assert(d->ht[0].size > d->rehashidx)\<close>.  \<open>dictRehash_asserts\<close> collects what
  this assertion sees in every turn of the loop; lemma \<open>dictRehash_asserts_hold\<close> below shows that it
  holds in all of them, so the loop above has no branch for its failure.
\<close>

fun dictRehash_asserts :: "nat \<Rightarrow> nat \<Rightarrow> ('k, 'v) dict \<Rightarrow> bool" where
  "dictRehash_asserts 0 visits d = True"
| "dictRehash_asserts (Suc n) visits d =
     (used (ht0 d) = 0 \<or>
      (nat (rehashidx d) < htsize (ht0 d) \<and>
       (let (idx, visits', stopped) = skip_empty (table (ht0 d)) (nat (rehashidx d)) visits
        in stopped \<or>
           dictRehash_asserts n visits'
             (d\<lparr>ht0 := (ht0 d)\<lparr>table := (table (ht0 d))[idx := []],
                               used := used (ht0 d) - length (table (ht0 d) ! idx)\<rparr>,
                ht1 := move_bucket (dictHashKey d) (table (ht0 d) ! idx) (ht1 d),
                rehashidx := int idx + 1\<rparr>))))"

definition dictRehash :: "('k, 'v) dict \<Rightarrow> nat \<Rightarrow> ('k, 'v) dict \<times> bool" where
  "dictRehash d n =
    (if \<not> dictIsRehashing d then (d, False)
     else
       let (d, stopped) = dictRehash_loop n (n * 10) d
       in if stopped then (d, True)
          else if used (ht0 d) = 0 then (d\<lparr>ht0 := ht1 d, ht1 := dictReset, rehashidx := - 1\<rparr>, False)
          else (d, True))"

text \<open>\<open>elapsed\<close> lists what the clock shows after each batch of 100 steps, as time since the start.\<close>

fun dictRehashMilliseconds_loop :: "('k, 'v) dict \<Rightarrow> int \<Rightarrow> int list \<Rightarrow> nat \<Rightarrow> ('k, 'v) dict \<times> nat" where
  "dictRehashMilliseconds_loop d ms [] rehashes = (d, rehashes)"
| "dictRehashMilliseconds_loop d ms (t # elapsed) rehashes =
     (let (d, more) = dictRehash d 100
      in if \<not> more then (d, rehashes)
         else if t > ms then (d, rehashes + 100)
         else dictRehashMilliseconds_loop d ms elapsed (rehashes + 100))"

definition dictRehashStep :: "('k, 'v) dict \<Rightarrow> ('k, 'v) dict" where
  "dictRehashStep d = (if iterators d = 0 then fst (dictRehash d 1) else d)"

definition dictExpandIfNeeded :: "bool \<Rightarrow> ('k, 'v) dict \<Rightarrow> ('k, 'v) dict \<times> bool" where
  "dictExpandIfNeeded can_resize d =
    (if dictIsRehashing d then (d, True)
     else if htsize (ht0 d) = 0 then dictExpand d DICT_HT_INITIAL_SIZE
     else if used (ht0 d) \<ge> htsize (ht0 d)
             \<and> (can_resize \<or> used (ht0 d) div htsize (ht0 d) > dict_force_resize_ratio)
       then dictExpand d (used (ht0 d) * 2)
     else (d, True))"

text \<open>The walk along a chain: the position of the first entry with the key.\<close>

fun chain_find :: "('k \<Rightarrow> bool) \<Rightarrow> ('k \<times> 'v) list \<Rightarrow> nat option" where
  "chain_find match [] = None"
| "chain_find match (he # rest) =
     (if match (fst he) then Some 0 else map_option Suc (chain_find match rest))"

definition dictKeyIndex :: "bool \<Rightarrow> ('k, 'v) dict \<Rightarrow> 'k \<Rightarrow> ('k, 'v) dict \<times> int" where
  "dictKeyIndex can_resize d key =
    (let (d, ok) = dictExpandIfNeeded can_resize d
     in if \<not> ok then (d, - 1)
        else
          let h = dictHashKey d key; idx = hash_index h (ht0 d)
          in if chain_find (dictCompareKeys d key) (table (ht0 d) ! idx) \<noteq> None then (d, - 1)
             else if \<not> dictIsRehashing d then (d, sint (of_nat idx :: u32))
             else
               let idx = hash_index h (ht1 d)
               in if chain_find (dictCompareKeys d key) (table (ht1 d) ! idx) \<noteq> None then (d, - 1)
                  else (d, sint (of_nat idx :: u32)))"

definition push_entry :: "('k, 'v) dictht \<Rightarrow> nat \<Rightarrow> 'k \<times> 'v \<Rightarrow> ('k, 'v) dictht" where
  "push_entry t idx e = t\<lparr>table := (table t)[idx := e # table t ! idx], used := used t + 1\<rparr>"

text \<open>\<open>undef\<close> is the value field of the fresh entry, which the caller sets.\<close>

definition dictAddRaw :: "bool \<Rightarrow> 'v \<Rightarrow> ('k, 'v) dict \<Rightarrow> 'k \<Rightarrow> ('k, 'v) dict \<times> entry_ref option" where
  "dictAddRaw can_resize undef d key =
    (let d = (if dictIsRehashing d then dictRehashStep d else d);
         (d, index) = dictKeyIndex can_resize d key
     in if index = - 1 then (d, None)
        else if dictIsRehashing d
        then (d\<lparr>ht1 := push_entry (ht1 d) (nat index) (key, undef)\<rparr>, Some (1, nat index, 0))
        else (d\<lparr>ht0 := push_entry (ht0 d) (nat index) (key, undef)\<rparr>, Some (0, nat index, 0)))"

definition ht_set_val :: "('k, 'v) dictht \<Rightarrow> nat \<Rightarrow> nat \<Rightarrow> 'v \<Rightarrow> ('k, 'v) dictht" where
  "ht_set_val t idx pos v =
    t\<lparr>table := (table t)[idx := (table t ! idx)[pos := (fst (table t ! idx ! pos), v)]]\<rparr>"

fun dictSetVal :: "('k, 'v) dict \<Rightarrow> entry_ref \<Rightarrow> 'v \<Rightarrow> ('k, 'v) dict" where
  "dictSetVal d (tab, idx, pos) v =
    (if tab = 0 then d\<lparr>ht0 := ht_set_val (ht0 d) idx pos v\<rparr>
     else d\<lparr>ht1 := ht_set_val (ht1 d) idx pos v\<rparr>)"

fun dictGetEntry :: "('k, 'v) dict \<Rightarrow> entry_ref \<Rightarrow> 'k \<times> 'v" where
  "dictGetEntry d (tab, idx, pos) = table (if tab = 0 then ht0 d else ht1 d) ! idx ! pos"

definition dictAdd :: "bool \<Rightarrow> 'v \<Rightarrow> ('k, 'v) dict \<Rightarrow> 'k \<Rightarrow> 'v \<Rightarrow> ('k, 'v) dict \<times> bool" where
  "dictAdd can_resize undef d key val =
    (case dictAddRaw can_resize undef d key of
       (d, None) \<Rightarrow> (d, False)
     | (d, Some entry) \<Rightarrow> (dictSetVal d entry val, True))"

definition dictFind :: "('k, 'v) dict \<Rightarrow> 'k \<Rightarrow> ('k, 'v) dict \<times> entry_ref option" where
  "dictFind d key =
    (if htsize (ht0 d) = 0 then (d, None)
     else
       let d = (if dictIsRehashing d then dictRehashStep d else d);
           h = dictHashKey d key; idx = hash_index h (ht0 d)
       in case chain_find (dictCompareKeys d key) (table (ht0 d) ! idx) of
            Some pos \<Rightarrow> (d, Some (0, idx, pos))
          | None \<Rightarrow>
              if \<not> dictIsRehashing d then (d, None)
              else
                let idx = hash_index h (ht1 d)
                in (case chain_find (dictCompareKeys d key) (table (ht1 d) ! idx) of
                      Some pos \<Rightarrow> (d, Some (1, idx, pos))
                    | None \<Rightarrow> (d, None)))"

definition dictFetchValue :: "('k, 'v) dict \<Rightarrow> 'k \<Rightarrow> ('k, 'v) dict \<times> 'v option" where
  "dictFetchValue d key =
    (case dictFind d key of
       (d, None) \<Rightarrow> (d, None)
     | (d, Some he) \<Rightarrow> (d, Some (snd (dictGetEntry d he))))"

text \<open>The flag is the returned 1 or 0; the last component is the old value, which is freed.\<close>

definition dictReplace :: "bool \<Rightarrow> 'v \<Rightarrow> ('k, 'v) dict \<Rightarrow> 'k \<Rightarrow> 'v \<Rightarrow> ('k, 'v) dict \<times> bool \<times> 'v option" where
  "dictReplace can_resize undef d key val =
    (case dictAdd can_resize undef d key val of
       (d, True) \<Rightarrow> (d, True, None)
     | (d, False) \<Rightarrow>
         (case dictFind d key of
            (d, Some entry) \<Rightarrow> (dictSetVal d entry val, False, Some (snd (dictGetEntry d entry)))
          | (d, None) \<Rightarrow> (d, False, None)))"

definition dictReplaceRaw :: "bool \<Rightarrow> 'v \<Rightarrow> ('k, 'v) dict \<Rightarrow> 'k \<Rightarrow> ('k, 'v) dict \<times> entry_ref option" where
  "dictReplaceRaw can_resize undef d key =
    (case dictFind d key of
       (d, Some entry) \<Rightarrow> (d, Some entry)
     | (d, None) \<Rightarrow> dictAddRaw can_resize undef d key)"

definition unlink :: "('k, 'v) dictht \<Rightarrow> nat \<Rightarrow> nat \<Rightarrow> ('k, 'v) dictht" where
  "unlink t idx pos =
    t\<lparr>table := (table t)[idx := take pos (table t ! idx) @ drop (Suc pos) (table t ! idx)],
      used := used t - 1\<rparr>"

text \<open>The last component is the entry whose key and value are freed.\<close>

definition dictGenericDelete :: "('k, 'v) dict \<Rightarrow> 'k \<Rightarrow> bool \<Rightarrow> ('k, 'v) dict \<times> bool \<times> ('k \<times> 'v) option" where
  "dictGenericDelete d key nofree =
    (if htsize (ht0 d) = 0 then (d, False, None)
     else
       let d = (if dictIsRehashing d then dictRehashStep d else d);
           h = dictHashKey d key; idx = hash_index h (ht0 d)
       in case chain_find (dictCompareKeys d key) (table (ht0 d) ! idx) of
            Some pos \<Rightarrow> (d\<lparr>ht0 := unlink (ht0 d) idx pos\<rparr>, True,
              if nofree then None else Some (table (ht0 d) ! idx ! pos))
          | None \<Rightarrow>
              if \<not> dictIsRehashing d then (d, False, None)
              else
                let idx = hash_index h (ht1 d)
                in (case chain_find (dictCompareKeys d key) (table (ht1 d) ! idx) of
                      Some pos \<Rightarrow> (d\<lparr>ht1 := unlink (ht1 d) idx pos\<rparr>, True,
                        if nofree then None else Some (table (ht1 d) ! idx ! pos))
                    | None \<Rightarrow> (d, False, None)))"

definition dictDelete :: "('k, 'v) dict \<Rightarrow> 'k \<Rightarrow> ('k, 'v) dict \<times> bool \<times> ('k \<times> 'v) option" where
  "dictDelete d key = dictGenericDelete d key False"

definition dictDeleteNoFree :: "('k, 'v) dict \<Rightarrow> 'k \<Rightarrow> ('k, 'v) dict \<times> bool \<times> ('k \<times> 'v) option" where
  "dictDeleteNoFree d key = dictGenericDelete d key True"

text \<open>
  \<open>_dictClear\<close>: the entries it frees, in order, and the reset table.  The callback, which is
  called every 65536 buckets, cannot see the table.
\<close>

fun dictClear_loop :: "('k \<times> 'v) list list \<Rightarrow> nat \<Rightarrow> ('k \<times> 'v) list" where
  "dictClear_loop [] n = []"
| "dictClear_loop (he # tab) n = (if n > 0 then he @ dictClear_loop tab (n - length he) else [])"

definition dictClear :: "('k, 'v) dictht \<Rightarrow> ('k, 'v) dictht \<times> ('k \<times> 'v) list" where
  "dictClear t = (dictReset, dictClear_loop (take (htsize t) (table t)) (used t))"

definition dictEmpty :: "('k, 'v) dict \<Rightarrow> ('k, 'v) dict \<times> ('k \<times> 'v) list" where
  "dictEmpty d =
    (let (t0, f0) = dictClear (ht0 d); (t1, f1) = dictClear (ht1 d)
     in (d\<lparr>ht0 := t0, ht1 := t1, rehashidx := - 1, iterators := 0\<rparr>, f0 @ f1))"

section \<open>Invariant\<close>

definition hash_bits_ok :: "nat \<Rightarrow> bool" where
  "hash_bits_ok n \<longleftrightarrow> (\<exists>k. 2 \<le> k \<and> k \<le> 31 \<and> n = 2 ^ k)"

definition ht_inv :: "('k \<Rightarrow> u32) \<Rightarrow> ('k, 'v) dictht \<Rightarrow> bool" where
  "ht_inv hash t \<longleftrightarrow>
    hash_bits_ok (htsize t) \<and> sizemask t = of_nat (htsize t) - 1 \<and> length (table t) = htsize t
    \<and> used t = length (concat (table t))
    \<and> (\<forall>i<htsize t. \<forall>e\<in>set (table t ! i). hash_index (hash (fst e)) t = i)"

text \<open>The key comparison of the tables of the server is equality of the key contents.\<close>

definition type_ok :: "'k dictType \<Rightarrow> bool" where
  "type_ok t \<longleftrightarrow> keyCompare t = (=)"

definition entries :: "('k, 'v) dict \<Rightarrow> ('k \<times> 'v) list" where
  "entries d = concat (table (ht0 d)) @ concat (table (ht1 d))"

definition dict_inv :: "('k, 'v) dict \<Rightarrow> bool" where
  "dict_inv d \<longleftrightarrow> type_ok (dtype d) \<and> distinct (map fst (entries d))
    \<and> (if dictIsRehashing d
       then ht_inv (dictHashKey d) (ht0 d) \<and> ht_inv (dictHashKey d) (ht1 d)
         \<and> 0 \<le> rehashidx d \<and> nat (rehashidx d) \<le> htsize (ht0 d)
         \<and> (\<forall>i<nat (rehashidx d). table (ht0 d) ! i = [])
       else ht1 d = dictReset \<and> (ht0 d = dictReset \<or> ht_inv (dictHashKey d) (ht0 d)))"

text \<open>The map a dictionary stands for.\<close>

definition dmap :: "('k, 'v) dict \<Rightarrow> 'k \<rightharpoonup> 'v" where
  "dmap d = map_of (entries d)"

lemma dictHashKey_eq: "dictHashKey d = hashFunction (dtype d)"
  by (rule ext) (simp add: dictHashKey_def)

section \<open>Buckets\<close>

lemma ht_inv_size:
  assumes "ht_inv hash t"
  shows "4 \<le> htsize t" "htsize t \<le> 2 ^ 31" "0 < htsize t" "length (table t) = htsize t" "table t \<noteq> []"
proof -
  obtain k where k: "2 \<le> k" "k \<le> 31" "htsize t = 2 ^ k"
    using assms by (auto simp: ht_inv_def hash_bits_ok_def)
  show "4 \<le> htsize t" using power_increasing [OF k(1), of "2 :: nat"] k(3) by simp
  then show "0 < htsize t" by simp
  show "htsize t \<le> 2 ^ 31" using power_increasing [OF k(2), of "2 :: nat"] k(3) by simp
  show "length (table t) = htsize t" using assms by (simp add: ht_inv_def)
  with \<open>0 < htsize t\<close> show "table t \<noteq> []" by auto
qed

lemma hash_index_mod:
  assumes "ht_inv hash t"
  shows "hash_index h t = unat h mod htsize t"
proof -
  obtain k where k: "2 \<le> k" "k \<le> 31" "htsize t = 2 ^ k" "sizemask t = of_nat (htsize t) - 1"
    using assms by (auto simp: ht_inv_def hash_bits_ok_def)
  then have "sizemask t = mask k" by (simp add: mask_eq_decr_exp)
  then have "ucast (ucast h AND sizemask t) = (take_bit k h :: u32)"
    by (auto simp: bit_eq_iff bit_simps)
  then have "hash_index h t = unat (take_bit k h)" by (simp only: hash_index_def)
  also have "\<dots> = take_bit k (unat h)" by (rule unsigned_take_bit_eq)
  finally show ?thesis by (simp add: k(3) take_bit_eq_mod)
qed

lemma hash_index_less: "ht_inv hash t \<Longrightarrow> hash_index h t < htsize t"
  using ht_inv_size [of hash t] by (simp add: hash_index_mod)

lemma sint_small_index: "i < 2 ^ 31 \<Longrightarrow> sint (of_nat i :: u32) = int i"
  by (simp add: signed_of_nat signed_take_bit_int_eq_self)

lemma hash_index_update [simp]:
  "hash_index h (t\<lparr>table := T\<rparr>) = hash_index h t" "hash_index h (t\<lparr>used := u\<rparr>) = hash_index h t"
  by (simp_all add: hash_index_def)

lemma mset_concat_update:
  "i < length T \<Longrightarrow> mset (concat (T[i := b])) + mset (T ! i) = mset (concat T) + mset b"
proof (induction T arbitrary: i)
  case Nil
  then show ?case by simp
next
  case (Cons x T)
  then show ?case by (cases i) (auto simp: ac_simps)
qed

lemma length_concat_update:
  "i < length T \<Longrightarrow> length (concat (T[i := b])) + length (T ! i) = length (concat T) + length b"
  using arg_cong [OF mset_concat_update [of i T b], where f = size] by simp

lemma map_of_concat_bucket:
  "j < length T \<Longrightarrow> \<forall>i<length T. i \<noteq> j \<longrightarrow> k \<notin> fst ` set (T ! i) \<Longrightarrow>
     map_of (concat T) k = map_of (T ! j) k"
proof (induction T arbitrary: j)
  case Nil
  then show ?case by simp
next
  case (Cons x T)
  show ?case
  proof (cases j)
    case 0
    have "k \<notin> fst ` set (T ! i)" if "i < length T" for i
      using Cons.prems(2) [rule_format, of "Suc i"] that 0 by simp
    then have "\<forall>x\<in>set T. k \<notin> fst ` set x" by (metis in_set_conv_nth)
    then have "k \<notin> fst ` set (concat T)" by force
    then have "map_of (concat T) k = None" by (simp add: map_of_eq_None_iff)
    then show ?thesis by (simp add: 0 map_add_def split: option.splits)
  next
    case (Suc j')
    have "k \<notin> fst ` set x" using Cons.prems(2) [rule_format, of 0] Suc by simp
    then have "map_of x k = None" by (simp add: map_of_eq_None_iff)
    moreover have "\<forall>i<length T. i \<noteq> j' \<longrightarrow> k \<notin> fst ` set (T ! i)"
      using Cons.prems(2) Suc by fastforce
    ultimately show ?thesis using Cons.IH [of j'] Cons.prems(1) Suc
      by (simp add: map_add_def split: option.splits)
  qed
qed

lemma ht_lookup:
  assumes "ht_inv hash t"
  shows "map_of (concat (table t)) k = map_of (table t ! hash_index (hash k) t) k"
proof (rule map_of_concat_bucket)
  show "hash_index (hash k) t < length (table t)"
    using hash_index_less [OF assms] ht_inv_size [OF assms] by simp
  show "\<forall>i<length (table t). i \<noteq> hash_index (hash k) t \<longrightarrow> k \<notin> fst ` set (table t ! i)"
    using assms unfolding ht_inv_def by (metis (no_types, lifting) image_iff)
qed

lemma chain_find_None: "chain_find m es = None \<longleftrightarrow> (\<forall>e\<in>set es. \<not> m (fst e))"
  by (induction es) auto

lemma chain_find_Some:
  "chain_find m es = Some pos \<Longrightarrow> pos < length es \<and> m (fst (es ! pos)) \<and> (\<forall>i<pos. \<not> m (fst (es ! i)))"
proof (induction es arbitrary: pos)
  case Nil
  then show ?case by simp
next
  case (Cons e es)
  show ?case
  proof (cases "m (fst e)")
    case True
    with Cons.prems show ?thesis by auto
  next
    case False
    with Cons.prems obtain p where "chain_find m es = Some p" "pos = Suc p" by auto
    with Cons.IH [of p] False show ?thesis by (auto simp: less_Suc_eq_0_disj)
  qed
qed

lemma map_of_first:
  "pos < length es \<Longrightarrow> fst (es ! pos) = k \<Longrightarrow> \<forall>i<pos. k \<noteq> fst (es ! i) \<Longrightarrow> map_of es k = Some (snd (es ! pos))"
proof (induction es arbitrary: pos)
  case Nil
  then show ?case by simp
next
  case (Cons e es)
  show ?case
  proof (cases pos)
    case 0
    with Cons.prems show ?thesis by (cases e) auto
  next
    case (Suc p)
    then have "fst e \<noteq> k" using Cons.prems(3) by (metis nth_Cons_0 zero_less_Suc)
    moreover have "\<forall>i<p. k \<noteq> fst (es ! i)" using Cons.prems(3) Suc by fastforce
    ultimately show ?thesis using Cons Suc by (cases e) auto
  qed
qed

lemma chain_find_map_of:
  "chain_find (\<lambda>k'. k = k') es = Some pos \<Longrightarrow> map_of es k = Some (snd (es ! pos)) \<and> fst (es ! pos) = k"
  using chain_find_Some [of "\<lambda>k'. k = k'" es pos] map_of_first [of pos es k] by auto

lemma chain_find_None_map_of: "chain_find (\<lambda>k'. k = k') es = None \<longleftrightarrow> map_of es k = None"
  by (auto simp: chain_find_None map_of_eq_None_iff)

section \<open>Preservation by table operations\<close>

lemma ht_inv_update:
  assumes "ht_inv hash t" "idx < htsize t" "\<forall>e\<in>set b. hash_index (hash (fst e)) t = idx"
    "u + length (table t ! idx) = used t + length b"
  shows "ht_inv hash (t\<lparr>table := (table t)[idx := b], used := u\<rparr>)"
proof -
  have "length (concat ((table t)[idx := b])) + length (table t ! idx) = used t + length b"
    using length_concat_update [of idx "table t" b] assms(1,2) by (simp add: ht_inv_def)
  then have "u = length (concat ((table t)[idx := b]))" using assms(4) by simp
  then show ?thesis
    using assms by (simp add: ht_inv_def nth_list_update del: length_concat)
qed

lemma ht_inv_push:
  assumes "ht_inv hash t" "idx = hash_index (hash (fst e)) t"
  shows "ht_inv hash (push_entry t idx e)"
    "mset (concat (table (push_entry t idx e))) = add_mset e (mset (concat (table t)))"
proof -
  have lt: "idx < htsize t" "idx < length (table t)"
    using hash_index_less [OF assms(1)] ht_inv_size [OF assms(1)] assms(2) by simp_all
  have "\<forall>e'\<in>set (table t ! idx). hash_index (hash (fst e')) t = idx"
    using assms(1) lt by (simp add: ht_inv_def)
  then show "ht_inv hash (push_entry t idx e)"
    unfolding push_entry_def using assms lt by (intro ht_inv_update) auto
  show "mset (concat (table (push_entry t idx e))) = add_mset e (mset (concat (table t)))"
    using mset_concat_update [OF lt(2), of "e # table t ! idx"] by (simp add: push_entry_def del: mset_concat)
qed

lemma push_entry_simps [simp]:
  "htsize (push_entry t idx e) = htsize t" "sizemask (push_entry t idx e) = sizemask t"
  "used (push_entry t idx e) = used t + 1"
  by (simp_all add: push_entry_def)

lemma move_bucket_push:
  "move_bucket hash (de # nextde) t = move_bucket hash nextde (push_entry t (hash_index (hash (fst de)) t) de)"
  by (simp add: push_entry_def Let_def)

declare move_bucket.simps(2) [simp del]

lemma move_bucket_ok:
  "ht_inv hash t \<Longrightarrow> ht_inv hash (move_bucket hash es t)
     \<and> mset (concat (table (move_bucket hash es t))) = mset es + mset (concat (table t))
     \<and> htsize (move_bucket hash es t) = htsize t"
proof (induction es arbitrary: t)
  case Nil
  then show ?case by simp
next
  case (Cons e es)
  note push = ht_inv_push [OF Cons.prems refl, of e]
  show ?case using Cons.IH [OF push(1)] push(2) by (simp add: move_bucket_push del: mset_concat)
qed

lemma skip_empty_ok:
  assumes "skip_empty tab idx visits = (idx', visits', stopped)" "\<forall>i<idx. tab ! i = []" "idx \<le> length tab"
  shows "idx \<le> idx' \<and> idx' \<le> length tab \<and> (\<forall>i<idx'. tab ! i = [])
    \<and> (\<not> stopped \<longrightarrow> idx' = length tab \<or> tab ! idx' \<noteq> [])"
  using assms
proof (induction tab idx visits rule: skip_empty.induct)
  case (1 tab idx visits)
  show ?case
  proof (cases "idx < length tab \<and> tab ! idx = []")
    case True
    then have pre: "\<forall>i<idx + 1. tab ! i = []" using "1.prems" by (auto simp: less_Suc_eq)
    show ?thesis
    proof (cases "visits - 1 = 0")
      case True
      with \<open>idx < length tab \<and> tab ! idx = []\<close> "1.prems"(1) pre show ?thesis
        by (subst (asm) skip_empty.simps) auto
    next
      case False
      with True "1.prems"(1) have "skip_empty tab (idx + 1) (visits - 1) = (idx', visits', stopped)"
        by (subst (asm) skip_empty.simps) simp
      from "1.IH" [OF True False this pre] True show ?thesis by auto
    qed
  next
    case False
    with "1.prems" show ?thesis by (subst (asm) skip_empty.simps) auto
  qed
qed

section \<open>Entries as a map\<close>

lemma distinct_keys_mset:
  "mset xs = mset ys \<Longrightarrow> distinct (map fst xs) \<longleftrightarrow> distinct (map fst ys)"
  by (metis mset_eq_imp_distinct_iff mset_map)

lemma map_of_mset_eq: "mset xs = mset ys \<Longrightarrow> distinct (map fst xs) \<Longrightarrow> map_of xs = map_of ys"
  using map_of_inject_set [of xs ys] distinct_keys_mset [of xs ys] mset_eq_setD by blast

lemma map_of_insert_mset:
  assumes "mset ys = add_mset (k, v) (mset xs)" "distinct (map fst xs)" "map_of xs k = None"
  shows "distinct (map fst ys)" "map_of ys = (map_of xs)(k \<mapsto> v)"
proof -
  have "k \<notin> fst ` set xs" using assms(3) by (simp add: map_of_eq_None_iff)
  then have "distinct (map fst ((k, v) # xs))" using assms(2) by simp
  moreover have "mset ((k, v) # xs) = mset ys" using assms(1) by simp
  ultimately show "distinct (map fst ys)" "map_of ys = (map_of xs)(k \<mapsto> v)"
    using distinct_keys_mset map_of_mset_eq by (metis, metis map_of.simps(2) fst_conv snd_conv)
qed

lemma map_of_update_mset:
  assumes "add_mset (k, w) (mset ys) = add_mset (k, v) (mset xs)" "distinct (map fst xs)" "(k, w) \<in> set xs"
  shows "distinct (map fst ys)" "map_of ys = (map_of xs)(k \<mapsto> v)"
proof -
  obtain zs where zs: "mset xs = mset ((k, w) # zs)"
    using assms(3) by (metis ex_mset mset.simps(2) multi_member_split set_mset_mset)
  then have "mset ys = mset ((k, v) # zs)"
    using assms(1) by (metis add_mset_add_mset_same_iff add_mset_commute mset.simps(2))
  moreover have d: "distinct (map fst ((k, w) # zs))" using zs assms(2) distinct_keys_mset by blast
  moreover have "map_of xs = map_of ((k, w) # zs)" using zs assms(2) by (rule map_of_mset_eq)
  ultimately show "distinct (map fst ys)" "map_of ys = (map_of xs)(k \<mapsto> v)"
    using distinct_keys_mset [of ys "(k, v) # zs"] map_of_mset_eq [of ys "(k, v) # zs"] by simp_all
qed

lemma map_of_remove_mset:
  assumes "mset xs = add_mset (k, v) (mset ys)" "distinct (map fst xs)"
  shows "distinct (map fst ys)" "map_of ys = (map_of xs)(k := None)" "map_of xs k = Some v"
proof -
  have eq: "mset xs = mset ((k, v) # ys)" using assms(1) by simp
  have d: "distinct (map fst ((k, v) # ys))" using eq assms(2) distinct_keys_mset by blast
  then show "distinct (map fst ys)" by simp
  have "map_of xs = map_of ((k, v) # ys)" using eq assms(2) by (rule map_of_mset_eq)
  moreover have "map_of ys k = None" using d by (simp add: map_of_eq_None_iff)
  ultimately show "map_of ys = (map_of xs)(k := None)" "map_of xs k = Some v" by auto
qed

lemma mset_entries: "mset (entries d) = mset (concat (table (ht0 d))) + mset (concat (table (ht1 d)))"
  by (simp add: entries_def)

section \<open>Rehashing\<close>

definition rehash_inv :: "('k, 'v) dict \<Rightarrow> bool" where
  "rehash_inv d \<longleftrightarrow> type_ok (dtype d) \<and> distinct (map fst (entries d))
    \<and> ht_inv (dictHashKey d) (ht0 d) \<and> ht_inv (dictHashKey d) (ht1 d)
    \<and> 0 \<le> rehashidx d \<and> nat (rehashidx d) \<le> htsize (ht0 d)
    \<and> (\<forall>i<nat (rehashidx d). table (ht0 d) ! i = [])"

text \<open>What every operation that only reorganises the tables leaves alone.\<close>

definition same_dict :: "('k, 'v) dict \<Rightarrow> ('k, 'v) dict \<Rightarrow> bool" where
  "same_dict d d' \<longleftrightarrow> mset (entries d') = mset (entries d) \<and> dtype d' = dtype d \<and> iterators d' = iterators d"

lemma same_dict_refl [simp]: "same_dict d d"
  by (simp add: same_dict_def)

lemma same_dict_trans: "same_dict d d' \<Longrightarrow> same_dict d' d'' \<Longrightarrow> same_dict d d''"
  by (simp add: same_dict_def)

lemma dict_inv_rehashing: "dictIsRehashing d \<Longrightarrow> dict_inv d \<longleftrightarrow> rehash_inv d"
  by (simp add: dict_inv_def rehash_inv_def)

lemma rehash_inv_rehashing: "rehash_inv d \<Longrightarrow> dictIsRehashing d"
  by (auto simp: rehash_inv_def dictIsRehashing_def)

text \<open>The assertion in the loop: while entries are left, the scan stops inside the table.\<close>

lemma skip_empty_in_bounds:
  assumes "rehash_inv d" "used (ht0 d) \<noteq> 0"
    "skip_empty (table (ht0 d)) (nat (rehashidx d)) visits = (idx, visits', stopped)"
  shows "nat (rehashidx d) \<le> idx \<and> idx \<le> htsize (ht0 d) \<and> (\<forall>i<idx. table (ht0 d) ! i = [])
    \<and> (\<not> stopped \<longrightarrow> idx < htsize (ht0 d) \<and> table (ht0 d) ! idx \<noteq> [])"
proof -
  let ?T = "table (ht0 d)"
  have len: "length ?T = htsize (ht0 d)" "used (ht0 d) = length (concat ?T)"
    using assms(1) by (simp_all add: rehash_inv_def ht_inv_def del: length_concat)
  have ok: "nat (rehashidx d) \<le> idx" "idx \<le> length ?T" "\<forall>i<idx. ?T ! i = []"
    "\<not> stopped \<longrightarrow> idx = length ?T \<or> ?T ! idx \<noteq> []"
    using skip_empty_ok [OF assms(3)] assms(1) len by (simp_all add: rehash_inv_def)
  have "idx \<noteq> length ?T"
  proof
    assume "idx = length ?T"
    then have "\<forall>b\<in>set ?T. b = []" using ok(3) by (metis in_set_conv_nth)
    then have "concat ?T = []" by simp
    then show False using assms(2) len(2) by simp
  qed
  then show ?thesis using ok len by auto
qed

lemma rehashidx_in_table:
  assumes "rehash_inv d" "used (ht0 d) \<noteq> 0"
  shows "nat (rehashidx d) < htsize (ht0 d)"
proof (rule ccontr)
  assume "\<not> ?thesis"
  then have "\<forall>b\<in>set (table (ht0 d)). b = []"
    using assms(1) by (auto simp: rehash_inv_def ht_inv_def in_set_conv_nth)
  then have "concat (table (ht0 d)) = []" by simp
  then show False using assms by (simp add: rehash_inv_def ht_inv_def del: length_concat)
qed

text \<open>One turn of the loop that moves a bucket.\<close>

lemma rehash_turn:
  assumes "rehash_inv d" "used (ht0 d) \<noteq> 0"
    "skip_empty (table (ht0 d)) (nat (rehashidx d)) visits = (idx, visits', False)"
    "d' = d\<lparr>ht0 := (ht0 d)\<lparr>table := (table (ht0 d))[idx := []], used := used (ht0 d) - length (table (ht0 d) ! idx)\<rparr>,
            ht1 := move_bucket (dictHashKey d) (table (ht0 d) ! idx) (ht1 d), rehashidx := int idx + 1\<rparr>"
  shows "rehash_inv d' \<and> same_dict d d' \<and> htsize (ht0 d') = htsize (ht0 d) \<and> htsize (ht1 d') = htsize (ht1 d)"
proof -
  note bounds = skip_empty_in_bounds [OF assms(1-3)]
  let ?b = "table (ht0 d) ! idx"
  let ?t0 = "(ht0 d)\<lparr>table := (table (ht0 d))[idx := []], used := used (ht0 d) - length ?b\<rparr>"
  have inv: "ht_inv (dictHashKey d) (ht0 d)" "ht_inv (dictHashKey d) (ht1 d)"
    using assms(1) by (simp_all add: rehash_inv_def)
  have idx: "idx < htsize (ht0 d)" "idx < length (table (ht0 d))"
    using bounds ht_inv_size [OF inv(1)] by simp_all
  have "length ?b \<le> used (ht0 d)"
    using length_concat_update [OF idx(2), of "[]"] inv(1) by (simp add: ht_inv_def del: length_concat)
  then have t0: "ht_inv (dictHashKey d) ?t0" using inv(1) idx by (intro ht_inv_update) simp_all
  note t1 = move_bucket_ok [OF inv(2), of ?b]
  have ms: "mset (entries d') = mset (entries d)"
    using t1 mset_concat_update [OF idx(2), of "[]"] by (simp add: mset_entries assms(4) ac_simps del: mset_concat)
  have "rehash_inv d'"
    using assms(1) t0 t1 ms idx bounds distinct_keys_mset [OF ms]
    by (auto simp: rehash_inv_def dictHashKey_eq nth_list_update less_Suc_eq nat_add_distrib assms(4))
  then show ?thesis using ms t1 by (simp add: same_dict_def assms(4))
qed

lemma dictRehash_asserts_hold: "rehash_inv d \<Longrightarrow> dictRehash_asserts n visits d"
proof (induction n visits d rule: dictRehash_asserts.induct)
  case (2 n visits d)
  show ?case
  proof (cases "used (ht0 d) = 0")
    case False
    obtain idx visits' st where skip:
      "skip_empty (table (ht0 d)) (nat (rehashidx d)) visits = (idx, visits', st)" by (metis prod_cases3)
    note in_table = rehashidx_in_table [OF "2.prems" False]
    show ?thesis
    proof (cases st)
      case True
      then show ?thesis using False skip in_table by simp
    next
      case running: False
      then have moves: "skip_empty (table (ht0 d)) (nat (rehashidx d)) visits = (idx, visits', False)"
        using skip by simp
      from rehash_turn [OF "2.prems" False moves refl]
      have "rehash_inv (d\<lparr>ht0 := (ht0 d)\<lparr>table := (table (ht0 d))[idx := []],
            used := used (ht0 d) - length (table (ht0 d) ! idx)\<rparr>,
          ht1 := move_bucket (dictHashKey d) (table (ht0 d) ! idx) (ht1 d), rehashidx := int idx + 1\<rparr>)"
        by simp
      with "2.IH" [OF skip [symmetric] refl refl] running skip in_table show ?thesis by simp
    qed
  qed simp
qed simp

lemma dictRehash_loop_ok:
  "rehash_inv d \<Longrightarrow> dictRehash_loop n visits d = (d', stopped) \<Longrightarrow>
     rehash_inv d' \<and> same_dict d d' \<and> htsize (ht0 d') = htsize (ht0 d) \<and> htsize (ht1 d') = htsize (ht1 d)"
proof (induction n visits d rule: dictRehash_loop.induct)
  case (1 visits d)
  then show ?case by simp
next
  case (2 n visits d)
  show ?case
  proof (cases "used (ht0 d) = 0")
    case True
    with "2.prems" show ?thesis by simp
  next
    case False
    obtain idx visits' st where skip:
      "skip_empty (table (ht0 d)) (nat (rehashidx d)) visits = (idx, visits', st)" by (metis prod_cases3)
    note bounds = skip_empty_in_bounds [OF "2.prems"(1) False skip]
    show ?thesis
    proof (cases st)
      case True
      with "2.prems" False skip have d': "d' = d\<lparr>rehashidx := int idx\<rparr>" by simp
      show ?thesis
        using "2.prems"(1) bounds
        by (simp add: d' rehash_inv_def same_dict_def entries_def dictHashKey_eq)
    next
      case running: False
      let ?d = "d\<lparr>ht0 := (ht0 d)\<lparr>table := (table (ht0 d))[idx := []], used := used (ht0 d) - length (table (ht0 d) ! idx)\<rparr>,
          ht1 := move_bucket (dictHashKey d) (table (ht0 d) ! idx) (ht1 d), rehashidx := int idx + 1\<rparr>"
      have turn: "rehash_inv ?d \<and> same_dict d ?d \<and> htsize (ht0 ?d) = htsize (ht0 d) \<and> htsize (ht1 ?d) = htsize (ht1 d)"
        using rehash_turn [OF "2.prems"(1) False _ refl] skip running by simp
      moreover have "dictRehash_loop n visits' ?d = (d', stopped)"
        using "2.prems"(2) False skip running by (simp add: Let_def)
      ultimately have "rehash_inv d' \<and> same_dict ?d d' \<and> htsize (ht0 d') = htsize (ht0 ?d)
          \<and> htsize (ht1 d') = htsize (ht1 ?d)"
        using "2.IH" [OF False skip [symmetric] refl refl running refl refl refl] by simp
      then show ?thesis using turn same_dict_trans by auto
    qed
  qed
qed

lemma dictRehash_ok:
  assumes "dict_inv d"
  shows "dict_inv (fst (dictRehash d n)) \<and> same_dict d (fst (dictRehash d n))"
proof (cases "dictIsRehashing d")
  case False
  with assms show ?thesis by (simp add: dictRehash_def)
next
  case True
  obtain d' st where loop: "dictRehash_loop n (n * 10) d = (d', st)" by fastforce
  have inv: "rehash_inv d'" "same_dict d d'"
    using dictRehash_loop_ok [OF _ loop] assms True by (simp_all add: dict_inv_rehashing)
  note reh = rehash_inv_rehashing [OF inv(1)]
  show ?thesis
  proof (cases "\<not> st \<and> used (ht0 d') = 0")
    case False
    then have "fst (dictRehash d n) = d'" using True loop by (auto simp: dictRehash_def)
    then show ?thesis using inv reh by (simp add: dict_inv_rehashing)
  next
    case finished: True
    let ?d = "d'\<lparr>ht0 := ht1 d', ht1 := dictReset, rehashidx := - 1\<rparr>"
    have "concat (table (ht0 d')) = []"
      using finished inv(1) by (auto simp: rehash_inv_def ht_inv_def simp del: length_concat)
    then have "entries ?d = entries d'" by (simp add: entries_def dictReset_def)
    then have "dict_inv ?d \<and> same_dict d ?d"
      using inv by (simp add: dict_inv_def rehash_inv_def same_dict_def dictIsRehashing_def dictHashKey_eq)
    moreover have "fst (dictRehash d n) = ?d" using finished True loop by (simp add: dictRehash_def)
    ultimately show ?thesis by simp
  qed
qed

lemma dictRehashStep_ok: "dict_inv d \<Longrightarrow> dict_inv (dictRehashStep d) \<and> same_dict d (dictRehashStep d)"
  by (simp add: dictRehashStep_def dictRehash_ok)

section \<open>Resizing\<close>

lemma dictNextPower_loop_ok:
  "i = 2 ^ j \<Longrightarrow> j \<le> k \<Longrightarrow> n \<le> 2 ^ k \<Longrightarrow>
     n \<le> dictNextPower_loop n i \<and> (\<exists>m. j \<le> m \<and> m \<le> k \<and> dictNextPower_loop n i = 2 ^ m)"
proof (induction n i arbitrary: j rule: dictNextPower_loop.induct)
  case (1 n i)
  show ?case
  proof (cases "i \<ge> n")
    case True
    then show ?thesis using "1.prems" by (subst (1 2) dictNextPower_loop.simps) auto
  next
    case False
    then have "2 ^ j < n" using "1.prems"(1) by simp
    then have "(2 :: nat) ^ j < 2 ^ k" using "1.prems"(3) by (rule less_le_trans)
    then have "Suc j \<le> k" by simp
    moreover have "i * 2 = 2 ^ Suc j" "i \<noteq> 0" using "1.prems"(1) by simp_all
    ultimately have "n \<le> dictNextPower_loop n (i * 2)
        \<and> (\<exists>m. Suc j \<le> m \<and> m \<le> k \<and> dictNextPower_loop n (i * 2) = 2 ^ m)"
      using "1.IH" [of "Suc j"] False "1.prems"(3) by simp
    then show ?thesis
      using False \<open>i \<noteq> 0\<close> by (subst (1 2) dictNextPower_loop.simps) (auto intro: Suc_leD)
  qed
qed

lemma dictNextPower_ok:
  assumes "n \<le> 2 ^ 31"
  shows "n \<le> dictNextPower n" "hash_bits_ok (dictNextPower n)"
proof -
  have "dictNextPower n = dictNextPower_loop n 4"
    using assms by (simp add: dictNextPower_def LONG_MAX_def DICT_HT_INITIAL_SIZE_def)
  then show "n \<le> dictNextPower n" "hash_bits_ok (dictNextPower n)"
    using dictNextPower_loop_ok [of 4 2 31 n] assms by (auto simp: hash_bits_ok_def)
qed

lemma empty_ht_inv:
  assumes "hash_bits_ok n"
  shows "ht_inv hash \<lparr>table = replicate n [], htsize = n, sizemask = of_nat n - 1, used = 0\<rparr>"
proof -
  have "concat (replicate n []) = []" by simp
  then show ?thesis using assms by (simp add: ht_inv_def del: concat_replicate_trivial length_concat)
qed

lemma ht0_null_iff: "dict_inv d \<Longrightarrow> \<not> dictIsRehashing d \<Longrightarrow> table (ht0 d) = [] \<longleftrightarrow> htsize (ht0 d) = 0"
  using ht_inv_size [of "dictHashKey d" "ht0 d"] by (auto simp: dict_inv_def dictReset_def)

lemma dictExpand_ok:
  assumes "dict_inv d" "n \<le> 2 ^ 31" "dictExpand d n = (d', ok)"
  shows "dict_inv d' \<and> same_dict d d' \<and> entries d' = entries d
    \<and> (ok \<longrightarrow> 0 < htsize (ht0 d')) \<and> (\<not> ok \<longrightarrow> d' = d)"
proof (cases ok)
  case False
  then show ?thesis using assms by (auto simp: dictExpand_def Let_def split: if_splits)
next
  case True
  let ?t = "\<lparr>table = replicate (dictNextPower n) [], htsize = dictNextPower n,
    sizemask = of_nat (dictNextPower n) - 1, used = 0\<rparr> :: ('a, 'b) dictht"
  have t: "ht_inv (dictHashKey d) ?t" by (rule empty_ht_inv [OF dictNextPower_ok(2) [OF assms(2)]])
  have conc: "concat (table ?t) = []" by simp
  from True assms(3) have nreh: "\<not> dictIsRehashing d"
    by (auto simp: dictExpand_def Let_def split: if_splits)
  then have d1: "ht1 d = dictReset" "ht0 d = dictReset \<or> ht_inv (dictHashKey d) (ht0 d)"
    using assms(1) by (simp_all add: dict_inv_def)
  have d': "d' = (if table (ht0 d) = [] then d\<lparr>ht0 := ?t\<rparr> else d\<lparr>ht1 := ?t, rehashidx := 0\<rparr>)"
    using True assms(3) by (auto simp: dictExpand_def Let_def split: if_splits)
  have ent: "entries d' = entries d"
    using conc d1 by (auto simp: d' entries_def dictReset_def)
  show ?thesis
  proof (cases "table (ht0 d) = []")
    case null: True
    then have d'_eq: "d' = d\<lparr>ht0 := ?t\<rparr>" using d' by simp
    have "\<not> dictIsRehashing d'" using nreh by (simp add: d'_eq dictIsRehashing_def)
    then show ?thesis
      using ent t d1 assms(1) ht_inv_size(3) [OF t] True
      by (simp add: dict_inv_def d'_eq same_dict_def dictHashKey_eq)
  next
    case False
    then have d'_eq: "d' = d\<lparr>ht1 := ?t, rehashidx := 0\<rparr>" using d' by simp
    have inv0: "ht_inv (dictHashKey d) (ht0 d)" using d1 False by (auto simp: dictReset_def)
    have "dictIsRehashing d'" by (simp add: d'_eq dictIsRehashing_def)
    then show ?thesis
      using ent t inv0 assms(1) ht_inv_size(3) [OF inv0] True
      by (simp add: dict_inv_def d'_eq same_dict_def dictHashKey_eq)
  qed
qed

lemma dictResize_ok:
  assumes "dict_inv d" "dictSize d \<le> 2 ^ 30"
  shows "dict_inv (fst (dictResize can d)) \<and> same_dict d (fst (dictResize can d))"
proof -
  define m where "m = (if sint (of_nat (used (ht0 d)) :: u32) < int DICT_HT_INITIAL_SIZE
    then int DICT_HT_INITIAL_SIZE else sint (of_nat (used (ht0 d)) :: u32))"
  have "used (ht0 d) < 2 ^ 31" using assms(2) by (simp add: dictSize_def)
  then have "nat m \<le> 2 ^ 31"
    by (auto simp: m_def sint_small_index DICT_HT_INITIAL_SIZE_def)
  then show ?thesis
    using dictExpand_ok [OF assms(1), of "nat m"] assms(1)
    by (cases "dictExpand d (nat m)") (auto simp: dictResize_def Let_def m_def)
qed

section \<open>The operations on entries\<close>

lemma dict_inv_ht0:
  assumes "dict_inv d" "htsize (ht0 d) \<noteq> 0"
  shows "ht_inv (dictHashKey d) (ht0 d)"
  using assms by (auto simp: dict_inv_def dictReset_def split: if_splits)

lemma dict_inv_ht1: "dict_inv d \<Longrightarrow> dictIsRehashing d \<Longrightarrow> ht_inv (dictHashKey d) (ht1 d)"
  by (simp add: dict_inv_def)

lemma same_dict_dmap: "dict_inv d \<Longrightarrow> same_dict d d' \<Longrightarrow> dmap d' = dmap d"
  unfolding same_dict_def dmap_def dict_inv_def by (metis map_of_mset_eq)

lemma same_dict_hash: "same_dict d d' \<Longrightarrow> dictHashKey d' = dictHashKey d"
  by (simp add: same_dict_def dictHashKey_eq)

lemma used_entries:
  assumes "dict_inv d"
  shows "dictSize d = length (entries d)"
  using assms by (auto simp: dict_inv_def dictSize_def entries_def ht_inv_def dictReset_def
      simp del: length_concat split: if_splits)

lemma same_dict_size: "dict_inv d \<Longrightarrow> dict_inv d' \<Longrightarrow> same_dict d d' \<Longrightarrow> dictSize d' = dictSize d"
  by (simp add: used_entries same_dict_def) (metis size_mset)

text \<open>Where a key can be: one bucket of the first table, one of the second while rehashing.\<close>

lemma dmap_buckets:
  assumes "dict_inv d" "htsize (ht0 d) \<noteq> 0"
  shows "dmap d k =
    (case map_of (table (ht0 d) ! hash_index (dictHashKey d k) (ht0 d)) k of
       Some v \<Rightarrow> Some v
     | None \<Rightarrow> if dictIsRehashing d
               then map_of (table (ht1 d) ! hash_index (dictHashKey d k) (ht1 d)) k else None)"
proof -
  have 0: "map_of (concat (table (ht0 d))) k = map_of (table (ht0 d) ! hash_index (dictHashKey d k) (ht0 d)) k"
    by (rule ht_lookup [OF dict_inv_ht0 [OF assms]])
  show ?thesis
  proof (cases "dictIsRehashing d")
    case True
    have "map_of (concat (table (ht1 d))) k = map_of (table (ht1 d) ! hash_index (dictHashKey d k) (ht1 d)) k"
      by (rule ht_lookup [OF dict_inv_ht1 [OF assms(1) True]])
    then show ?thesis using 0 True by (simp add: dmap_def entries_def map_add_def split: option.splits)
  next
    case False
    then have "table (ht1 d) = []" using assms(1) by (simp add: dict_inv_def dictReset_def)
    then show ?thesis using 0 False by (simp add: dmap_def entries_def split: option.splits)
  qed
qed

lemma compare_eq: "dict_inv d \<Longrightarrow> dictCompareKeys d k = (\<lambda>k'. k = k')"
  by (rule ext) (simp add: dictCompareKeys_def dict_inv_def type_ok_def)

text \<open>A valid entry pointer.\<close>

fun ref_ok :: "('k, 'v) dict \<Rightarrow> entry_ref \<Rightarrow> bool" where
  "ref_ok d (tab, idx, pos) \<longleftrightarrow>
    (tab = 0 \<and> 0 < htsize (ht0 d) \<or> tab = 1 \<and> dictIsRehashing d)
    \<and> idx < length (table (if tab = 0 then ht0 d else ht1 d))
    \<and> pos < length (table (if tab = 0 then ht0 d else ht1 d) ! idx)"

definition probe :: "('k, 'v) dict \<Rightarrow> 'k \<Rightarrow> ('k, 'v) dict" where
  "probe d k = (if dictIsRehashing d then dictRehashStep d else d)"

lemma probe_ok: "dict_inv d \<Longrightarrow> dict_inv (probe d k) \<and> same_dict d (probe d k)"
  by (simp add: probe_def dictRehashStep_ok)

lemma probe_size:
  assumes "dict_inv d" "htsize (ht0 d) \<noteq> 0"
  shows "htsize (ht0 (probe d k)) \<noteq> 0"
proof (cases "dictIsRehashing d")
  case False
  then show ?thesis using assms by (simp add: probe_def)
next
  case True
  have "htsize (ht0 (fst (dictRehash d n))) \<noteq> 0" for n
  proof -
    obtain d' st where loop: "dictRehash_loop n (n * 10) d = (d', st)" by fastforce
    have "rehash_inv d'"
      using dictRehash_loop_ok [OF _ loop] assms True by (simp add: dict_inv_rehashing)
    then have "htsize (ht0 d') \<noteq> 0" "htsize (ht1 d') \<noteq> 0"
      using ht_inv_size(3) by (auto simp: rehash_inv_def)
    then show ?thesis using loop True by (simp add: dictRehash_def)
  qed
  then show ?thesis using True assms by (simp add: probe_def dictRehashStep_def)
qed

lemma dictFind_unfold:
  "dictFind d key =
    (if htsize (ht0 d) = 0 then (d, None)
     else
       let d = probe d key; idx = hash_index (dictHashKey d key) (ht0 d)
       in case chain_find (dictCompareKeys d key) (table (ht0 d) ! idx) of
            Some pos \<Rightarrow> (d, Some (0, idx, pos))
          | None \<Rightarrow>
              if \<not> dictIsRehashing d then (d, None)
              else
                let idx = hash_index (dictHashKey d key) (ht1 d)
                in (case chain_find (dictCompareKeys d key) (table (ht1 d) ! idx) of
                      Some pos \<Rightarrow> (d, Some (1, idx, pos))
                    | None \<Rightarrow> (d, None)))"
  by (simp add: dictFind_def probe_def Let_def)

lemma dictFind_ok:
  assumes "dict_inv d" "dictFind d k = (d', r)"
  shows "dict_inv d' \<and> same_dict d d' \<and> (htsize (ht0 d) \<noteq> 0 \<longrightarrow> htsize (ht0 d') \<noteq> 0)
    \<and> (case r of None \<Rightarrow> dmap d k = None
       | Some e \<Rightarrow> ref_ok d' e \<and> fst (dictGetEntry d' e) = k \<and> dmap d k = Some (snd (dictGetEntry d' e)))"
proof (cases "htsize (ht0 d) = 0")
  case True
  then have "dmap d k = None"
    using assms(1) ht_inv_size(3) [of "dictHashKey d" "ht0 d"]
    by (auto simp: dict_inv_def dmap_def entries_def dictReset_def split: if_splits)
  then show ?thesis using True assms by (auto simp: dictFind_def)
next
  case False
  let ?d = "probe d k"
  have inv: "dict_inv ?d" "same_dict d ?d" using probe_ok [OF assms(1)] by simp_all
  have size: "htsize (ht0 ?d) \<noteq> 0" by (rule probe_size [OF assms(1) False])
  note inv0 = dict_inv_ht0 [OF inv(1) size]
  let ?i0 = "hash_index (dictHashKey ?d k) (ht0 ?d)" and ?i1 = "hash_index (dictHashKey ?d k) (ht1 ?d)"
  have i0: "?i0 < length (table (ht0 ?d))" using hash_index_less [OF inv0] ht_inv_size [OF inv0] by simp
  have i1: "?i1 < length (table (ht1 ?d))" if "dictIsRehashing ?d"
    using hash_index_less [OF dict_inv_ht1 [OF inv(1) that]] ht_inv_size [OF dict_inv_ht1 [OF inv(1) that]]
    by simp
  have map_eq: "dmap d k = dmap ?d k" using same_dict_dmap [OF assms(1) inv(2)] by simp
  note buckets = dmap_buckets [OF inv(1) size, of k]
  note find = assms(2) [unfolded dictFind_unfold Let_def compare_eq [OF inv(1)]]
  show ?thesis
  proof (cases "chain_find (\<lambda>k'. k = k') (table (ht0 ?d) ! ?i0)")
    case (Some pos)
    then have "d' = ?d" "r = Some (0, ?i0, pos)" using find False by auto
    then show ?thesis
      using chain_find_map_of [OF Some] chain_find_Some [OF Some] inv size i0 map_eq buckets by simp
  next
    case None
    then have none0: "map_of (table (ht0 ?d) ! ?i0) k = None" using chain_find_None_map_of by metis
    show ?thesis
    proof (cases "dictIsRehashing ?d")
      case no: False
      then have "d' = ?d" "r = None" using find False None by auto
      then show ?thesis using inv size map_eq buckets none0 no by simp
    next
      case reh: True
      show ?thesis
      proof (cases "chain_find (\<lambda>k'. k = k') (table (ht1 ?d) ! ?i1)")
        case (Some pos)
        then have "d' = ?d" "r = Some (1, ?i1, pos)" using find False None reh by auto
        then show ?thesis
          using chain_find_map_of [OF Some] chain_find_Some [OF Some] inv size i1 [OF reh] map_eq buckets none0 reh
          by simp
      next
        case n1: None
        then have "map_of (table (ht1 ?d) ! ?i1) k = None" using chain_find_None_map_of by metis
        moreover have "d' = ?d" "r = None" using find False None reh n1 by auto
        ultimately show ?thesis using inv size map_eq buckets none0 reh by simp
      qed
    qed
  qed
qed

lemma dictFetchValue_ok:
  assumes "dict_inv d"
  shows "dict_inv (fst (dictFetchValue d k)) \<and> same_dict d (fst (dictFetchValue d k))
    \<and> snd (dictFetchValue d k) = dmap d k"
proof -
  obtain d' r where find: "dictFind d k = (d', r)" by fastforce
  then show ?thesis
    using dictFind_ok [OF assms find] by (cases r) (auto simp: dictFetchValue_def)
qed

lemma dictExpandIfNeeded_ok:
  assumes "dict_inv d" "dictSize d \<le> 2 ^ 30" "dictExpandIfNeeded can d = (d', ok)"
  shows "dict_inv d' \<and> same_dict d d' \<and> ok \<and> htsize (ht0 d') \<noteq> 0"
proof -
  consider (reh) "dictIsRehashing d" | (null) "\<not> dictIsRehashing d" "htsize (ht0 d) = 0"
    | (grow) "\<not> dictIsRehashing d" "htsize (ht0 d) \<noteq> 0" "used (ht0 d) \<ge> htsize (ht0 d)"
      "can \<or> used (ht0 d) div htsize (ht0 d) > dict_force_resize_ratio"
    | (stay) "\<not> dictIsRehashing d" "htsize (ht0 d) \<noteq> 0"
      "\<not> (used (ht0 d) \<ge> htsize (ht0 d) \<and> (can \<or> used (ht0 d) div htsize (ht0 d) > dict_force_resize_ratio))"
    by blast
  then show ?thesis
  proof cases
    case reh
    then have "htsize (ht0 d) \<noteq> 0" using assms(1) ht_inv_size(3) by (auto simp: dict_inv_def)
    then show ?thesis using reh assms by (auto simp: dictExpandIfNeeded_def)
  next
    case null
    then have ex: "dictExpand d DICT_HT_INITIAL_SIZE = (d', ok)"
      using assms(3) by (simp add: dictExpandIfNeeded_def)
    have "dictNextPower 4 \<noteq> 0" using dictNextPower_ok(1) [of 4] by simp
    then have ok
      using ex null assms(1) ht_inv_size(3) [of "dictHashKey d" "ht0 d"]
      by (auto simp: dictExpand_def Let_def DICT_HT_INITIAL_SIZE_def dict_inv_def dictReset_def split: if_splits)
    then show ?thesis using dictExpand_ok [OF assms(1) _ ex] by (simp add: DICT_HT_INITIAL_SIZE_def)
  next
    case grow
    then have ex: "dictExpand d (used (ht0 d) * 2) = (d', ok)"
      using assms(3) by (simp add: dictExpandIfNeeded_def)
    have le: "used (ht0 d) * 2 \<le> 2 ^ 31" using assms(2) by (simp add: dictSize_def)
    have "used (ht0 d) * 2 \<noteq> htsize (ht0 d)" using grow by simp
    moreover have "htsize (ht0 d) < used (ht0 d) * 2" using grow by simp
    ultimately have ok
      using ex grow(1) dictNextPower_ok(1) [OF le] by (auto simp: dictExpand_def Let_def split: if_splits)
    then show ?thesis using dictExpand_ok [OF assms(1) le ex] by simp
  next
    case stay
    then show ?thesis using assms by (auto simp: dictExpandIfNeeded_def)
  qed
qed

lemma dictKeyIndex_ok:
  assumes "dict_inv d" "dictSize d \<le> 2 ^ 30" "dictKeyIndex can d k = (d', i)"
  shows "dict_inv d' \<and> same_dict d d' \<and> htsize (ht0 d') \<noteq> 0 \<and> (i = - 1 \<longleftrightarrow> dmap d k \<noteq> None)
    \<and> (i \<noteq> - 1 \<longrightarrow> i = int (hash_index (dictHashKey d' k) (if dictIsRehashing d' then ht1 d' else ht0 d')))"
proof -
  obtain e ok where ex: "dictExpandIfNeeded can d = (e, ok)" by fastforce
  note e = dictExpandIfNeeded_ok [OF assms(1,2) ex]
  then have inv: "dict_inv e" and size: "htsize (ht0 e) \<noteq> 0" and same: "same_dict d e" and ok by simp_all
  note inv0 = dict_inv_ht0 [OF inv size]
  let ?i0 = "hash_index (dictHashKey e k) (ht0 e)" and ?i1 = "hash_index (dictHashKey e k) (ht1 e)"
  have i0: "?i0 < 2 ^ 31" by (rule less_le_trans [OF hash_index_less [OF inv0] ht_inv_size(2) [OF inv0]])
  have i1: "?i1 < 2 ^ 31" if "dictIsRehashing e"
    by (rule less_le_trans [OF hash_index_less ht_inv_size(2)]) (rule dict_inv_ht1 [OF inv that])+
  have map_eq: "dmap d k = dmap e k" using same_dict_dmap [OF assms(1) same] by simp
  note buckets = dmap_buckets [OF inv size, of k]
  have res: "(d', i) =
      (if chain_find (\<lambda>k'. k = k') (table (ht0 e) ! ?i0) \<noteq> None then (e, - 1)
       else if \<not> dictIsRehashing e then (e, sint (of_nat ?i0 :: u32))
       else if chain_find (\<lambda>k'. k = k') (table (ht1 e) ! ?i1) \<noteq> None then (e, - 1)
       else (e, sint (of_nat ?i1 :: u32)))"
    unfolding assms(3) [symmetric] dictKeyIndex_def ex Let_def prod.case compare_eq [OF inv]
    using \<open>ok\<close> by simp
  then show ?thesis
    using inv same size map_eq buckets i0 i1 sint_small_index [OF i0] sint_small_index [OF i1]
      chain_find_None_map_of [of k "table (ht0 e) ! ?i0"] chain_find_None_map_of [of k "table (ht1 e) ! ?i1"]
    by (cases "map_of (table (ht0 e) ! ?i0) k"; cases "dictIsRehashing e") (auto split: if_splits)
qed

text \<open>Adding the first entry for a key, to the table new entries go to.\<close>

lemma dict_push:
  assumes "dict_inv d" "htsize (ht0 d) \<noteq> 0" "dmap d k = None"
    "tgt = (if dictIsRehashing d then ht1 d else ht0 d)" "idx = hash_index (dictHashKey d k) tgt"
    "d' = (if dictIsRehashing d then d\<lparr>ht1 := push_entry (ht1 d) idx (k, v)\<rparr>
           else d\<lparr>ht0 := push_entry (ht0 d) idx (k, v)\<rparr>)"
    "r = (if dictIsRehashing d then 1 else 0, idx, 0)"
  shows "dict_inv d' \<and> dmap d' = (dmap d)(k \<mapsto> v) \<and> dictSize d' = Suc (dictSize d)
    \<and> dtype d' = dtype d \<and> iterators d' = iterators d \<and> ref_ok d' r \<and> dictGetEntry d' r = (k, v)"
proof -
  have inv: "ht_inv (dictHashKey d) tgt"
    using assms(1,2,4) by (auto intro: dict_inv_ht0 dict_inv_ht1)
  note push = ht_inv_push [OF inv, where idx = idx and e = "(k, v)"]
  have idx: "idx < length (table tgt)"
    using hash_index_less [OF inv] ht_inv_size [OF inv] assms(5) by simp
  have ms: "mset (entries d') = add_mset (k, v) (mset (entries d))"
    using push(2) assms(4,5,6) by (auto simp: mset_entries simp del: mset_concat)
  have dist: "distinct (map fst (entries d))" using assms(1) by (simp add: dict_inv_def)
  have new: "distinct (map fst (entries d'))" "dmap d' = (dmap d)(k \<mapsto> v)"
    using map_of_insert_mset [OF ms dist] assms(3) by (simp_all add: dmap_def)
  have inv': "dict_inv d'"
    using assms(1,2) push(1) new(1) assms(4,5,6) inv
    by (auto simp: dict_inv_def dictIsRehashing_def dictHashKey_eq split: if_splits)
  have "dictSize d' = Suc (dictSize d)"
    using assms(6) by (simp add: dictSize_def)
  moreover have "ref_ok d' r" "dictGetEntry d' r = (k, v)"
    using idx assms(2,4,5,6,7) by (auto simp: push_entry_def dictIsRehashing_def split: if_splits)
  ultimately show ?thesis using inv' new assms(6) by auto
qed

lemma dictAddRaw_ok:
  assumes "dict_inv d" "dictSize d \<le> 2 ^ 30" "dictAddRaw can u d k = (d', r)"
  shows "dict_inv d' \<and> dtype d' = dtype d \<and> iterators d' = iterators d
    \<and> (case r of None \<Rightarrow> dmap d k \<noteq> None \<and> same_dict d d'
       | Some e \<Rightarrow> dmap d k = None \<and> dmap d' = (dmap d)(k \<mapsto> u) \<and> dictSize d' = Suc (dictSize d)
           \<and> ref_ok d' e \<and> dictGetEntry d' e = (k, u))"
proof -
  let ?p = "probe d k"
  have p: "dict_inv ?p" "same_dict d ?p" using probe_ok [OF assms(1)] by simp_all
  have psize: "dictSize ?p = dictSize d" using same_dict_size [OF assms(1) p] by simp
  obtain e i where ki: "dictKeyIndex can ?p k = (e, i)" by fastforce
  note e = dictKeyIndex_ok [OF p(1) _ ki]
  then have inv: "dict_inv e" "same_dict ?p e" "htsize (ht0 e) \<noteq> 0" and
    i: "i = - 1 \<longleftrightarrow> dmap ?p k \<noteq> None"
    "i \<noteq> - 1 \<longrightarrow> i = int (hash_index (dictHashKey e k) (if dictIsRehashing e then ht1 e else ht0 e))"
    using psize assms(2) by simp_all
  have same: "same_dict d e" using same_dict_trans [OF p(2) inv(2)] .
  have maps: "dmap ?p k = dmap d k" "dmap e = dmap d"
    using same_dict_dmap [OF assms(1) p(2)] same_dict_dmap [OF assms(1) same] by simp_all
  have res: "(d', r) = (if i = - 1 then (e, None)
     else if dictIsRehashing e then (e\<lparr>ht1 := push_entry (ht1 e) (nat i) (k, u)\<rparr>, Some (1, nat i, 0))
     else (e\<lparr>ht0 := push_entry (ht0 e) (nat i) (k, u)\<rparr>, Some (0, nat i, 0)))"
    using assms(3) ki by (simp add: dictAddRaw_def probe_def Let_def)
  show ?thesis
  proof (cases "i = - 1")
    case True
    then show ?thesis using res inv i maps same by (auto simp: same_dict_def)
  next
    case False
    have nidx: "nat i = hash_index (dictHashKey e k) (if dictIsRehashing e then ht1 e else ht0 e)"
      using i(2) False by simp
    have none: "dmap e k = None" using i(1) False maps by auto
    from dict_push [OF inv(1,3) none refl nidx refl refl, of u] False res maps same none
    show ?thesis
      using same_dict_size [OF assms(1) inv(1) same]
      by (auto simp: same_dict_def split: if_splits)
  qed
qed

lemma ht_set_val_ok:
  assumes "ht_inv hash t" "idx < length (table t)" "pos < length (table t ! idx)" "fst (table t ! idx ! pos) = k"
  shows "ht_inv hash (ht_set_val t idx pos v)"
    "add_mset (table t ! idx ! pos) (mset (concat (table (ht_set_val t idx pos v))))
      = add_mset (k, v) (mset (concat (table t)))"
proof -
  let ?b = "table t ! idx" and ?b' = "(table t ! idx)[pos := (k, v)]"
  have ms: "add_mset (?b ! pos) (mset ?b') = add_mset (k, v) (mset ?b)"
    using assms(3) by (simp add: mset_update)
  have eq: "ht_set_val t idx pos v = t\<lparr>table := (table t)[idx := ?b'], used := used t\<rparr>"
    using assms(4) by (simp add: ht_set_val_def)
  have "hash_index (hash (fst e)) t = idx" if "e \<in> set ?b'" for e
  proof -
    have "fst e \<in> fst ` set ?b" using that assms(3,4) set_update_subset_insert [of ?b pos "(k, v)"]
      by (metis fst_conv image_eqI insert_iff nth_mem subsetD)
    moreover have "\<forall>e\<in>set ?b. hash_index (hash (fst e)) t = idx"
      using assms(1,2) by (simp add: ht_inv_def)
    ultimately show ?thesis by auto
  qed
  then show "ht_inv hash (ht_set_val t idx pos v)"
    unfolding eq using assms by (intro ht_inv_update) (auto simp: ht_inv_def)
  have "mset (concat (table (ht_set_val t idx pos v))) + mset ?b = mset (concat (table t)) + mset ?b'"
    using mset_concat_update [OF assms(2), of ?b'] by (simp add: eq del: mset_concat)
  then have "add_mset (?b ! pos) (mset (concat (table (ht_set_val t idx pos v)))) + mset ?b
      = mset (concat (table t)) + add_mset (?b ! pos) (mset ?b')"
    by (simp del: mset_concat)
  also have "\<dots> = add_mset (k, v) (mset (concat (table t))) + mset ?b"
    by (simp add: ms del: mset_concat)
  finally show "add_mset (?b ! pos) (mset (concat (table (ht_set_val t idx pos v))))
      = add_mset (k, v) (mset (concat (table t)))"
    by (rule add_right_imp_eq)
qed

lemma dictSetVal_ok:
  assumes "dict_inv d" "ref_ok d e" "fst (dictGetEntry d e) = k"
  shows "dict_inv (dictSetVal d e v) \<and> dmap (dictSetVal d e v) = (dmap d)(k \<mapsto> v)
    \<and> dictSize (dictSetVal d e v) = dictSize d \<and> dtype (dictSetVal d e v) = dtype d
    \<and> iterators (dictSetVal d e v) = iterators d"
proof -
  obtain tab idx pos where e: "e = (tab, idx, pos)" by (metis prod_cases3)
  let ?t = "if tab = 0 then ht0 d else ht1 d" and ?d = "dictSetVal d e v"
  have ref: "tab = 0 \<and> 0 < htsize (ht0 d) \<or> tab = 1 \<and> dictIsRehashing d"
    "idx < length (table ?t)" "pos < length (table ?t ! idx)" "fst (table ?t ! idx ! pos) = k"
    using assms(2,3) by (auto simp: e)
  obtain w where w: "table ?t ! idx ! pos = (k, w)" using ref(4) by (cases "table ?t ! idx ! pos") auto
  have inv: "ht_inv (dictHashKey d) ?t"
    using assms(1) ref(1) by (auto intro: dict_inv_ht0 dict_inv_ht1)
  note set_ok = ht_set_val_ok [OF inv ref(2,3,4), of v, unfolded w]
  have d: "?d = (if tab = 0 then d\<lparr>ht0 := ht_set_val ?t idx pos v\<rparr> else d\<lparr>ht1 := ht_set_val ?t idx pos v\<rparr>)"
    by (simp add: e)
  have ms: "add_mset (k, w) (mset (entries ?d)) = add_mset (k, v) (mset (entries d))"
  proof -
    let ?o = "mset (concat (table (if tab = 0 then ht1 d else ht0 d)))"
    have "mset (entries ?d) = mset (concat (table (ht_set_val ?t idx pos v))) + ?o"
      "mset (entries d) = mset (concat (table ?t)) + ?o"
      by (simp_all add: d mset_entries ac_simps del: mset_concat)
    then show ?thesis using set_ok(2) by (metis union_mset_add_mset_left)
  qed
  have mem: "(k, w) \<in> set (entries d)"
  proof -
    have "(k, w) \<in> set (concat (table ?t))" using w ref(2,3) nth_mem by (force simp: w [symmetric])
    then show ?thesis by (auto simp: entries_def split: if_splits)
  qed
  have dist: "distinct (map fst (entries d))" using assms(1) by (simp add: dict_inv_def)
  note new = map_of_update_mset [OF ms dist mem]
  have sizes: "htsize (ht_set_val t idx pos v) = htsize t" "used (ht_set_val t idx pos v) = used t" for t :: "('a, 'b) dictht"
    by (simp_all add: ht_set_val_def)
  have nil: "table (ht_set_val (ht0 d) idx pos v) ! i = []" if "table (ht0 d) ! i = []" for i
    using that by (cases "i = idx"; cases "idx < length (table (ht0 d))")
      (simp_all add: ht_set_val_def list_update_beyond not_less)
  have "dict_inv ?d"
    using assms(1) set_ok(1) new(1) ref(1) nil
    by (auto simp: dict_inv_def d dictIsRehashing_def dictHashKey_eq sizes dictReset_def split: if_splits)
  then show ?thesis using new(2) by (simp add: dmap_def d dictSize_def sizes)
qed

lemma dictAdd_ok:
  assumes "dict_inv d" "dictSize d \<le> 2 ^ 30" "dictAdd can u d k v = (d', ok)"
  shows "dict_inv d' \<and> dtype d' = dtype d \<and> iterators d' = iterators d \<and> ok = (dmap d k = None)
    \<and> (ok \<longrightarrow> dmap d' = (dmap d)(k \<mapsto> v) \<and> dictSize d' = Suc (dictSize d))
    \<and> (\<not> ok \<longrightarrow> same_dict d d')"
proof -
  obtain e r where raw: "dictAddRaw can u d k = (e, r)" by fastforce
  note ok = dictAddRaw_ok [OF assms(1,2) raw]
  show ?thesis
  proof (cases r)
    case None
    then show ?thesis using ok assms(3) raw by (auto simp: dictAdd_def)
  next
    case (Some ref)
    then have "dict_inv e" "ref_ok e ref" "fst (dictGetEntry e ref) = k" using ok by auto
    from dictSetVal_ok [OF this, of v] ok Some assms(3) raw show ?thesis
      by (auto simp: dictAdd_def)
  qed
qed

lemma dictReplace_ok:
  assumes "dict_inv d" "dictSize d \<le> 2 ^ 30" "dictReplace can u d k v = (d', new, old)"
  shows "dict_inv d' \<and> dtype d' = dtype d \<and> iterators d' = iterators d
    \<and> dmap d' = (dmap d)(k \<mapsto> v) \<and> new = (dmap d k = None) \<and> old = dmap d k
    \<and> dictSize d' = dictSize d + of_bool new"
proof -
  obtain e ok where add: "dictAdd can u d k v = (e, ok)" by fastforce
  note a = dictAdd_ok [OF assms(1,2) add]
  show ?thesis
  proof (cases ok)
    case True
    then show ?thesis using a assms(3) add by (auto simp: dictReplace_def)
  next
    case False
    then have e: "dict_inv e" "same_dict d e" "dmap d k \<noteq> None" using a by simp_all
    obtain f r where find: "dictFind e k = (f, r)" by fastforce
    note f = dictFind_ok [OF e(1) find]
    have me: "dmap e = dmap d" by (rule same_dict_dmap [OF assms(1) e(2)])
    then obtain ref where r: "r = Some ref" using f e(3) by (cases r) auto
    have "dict_inv f" "ref_ok f ref" "fst (dictGetEntry f ref) = k" using f r by auto
    note s = dictSetVal_ok [OF this, of v]
    have mf: "dmap f = dmap d" using f same_dict_dmap [OF e(1)] me by auto
    have size: "dictSize f = dictSize d"
      using f same_dict_size [OF e(1)] same_dict_size [OF assms(1) e(1,2)] by auto
    have same: "same_dict d f" using f e(2) same_dict_trans by blast
    show ?thesis using s f r me mf size same e(3) False assms(3) add find
      by (auto simp: dictReplace_def same_dict_def)
  qed
qed

lemma dictReplaceRaw_ok:
  assumes "dict_inv d" "dictSize d \<le> 2 ^ 30" "dictReplaceRaw can u d k = (d', r)"
  shows "dict_inv d' \<and> dmap d' = (if dmap d k = None then (dmap d)(k \<mapsto> u) else dmap d)
    \<and> (\<exists>e. r = Some e \<and> ref_ok d' e \<and> fst (dictGetEntry d' e) = k)"
proof -
  obtain e f where find: "dictFind d k = (e, f)" by fastforce
  note ok = dictFind_ok [OF assms(1) find]
  show ?thesis
  proof (cases f)
    case (Some ref)
    then have "d' = e" "r = Some ref" using assms(3) find by (simp_all add: dictReplaceRaw_def)
    moreover have "dmap e = dmap d" using ok same_dict_dmap [OF assms(1), of e] by simp
    ultimately show ?thesis using ok Some by simp
  next
    case None
    then have raw: "dictAddRaw can u e k = (d', r)" using assms(3) find by (simp add: dictReplaceRaw_def)
    have e: "dict_inv e" "dmap e = dmap d" "dictSize e = dictSize d" "dmap d k = None"
      using ok None same_dict_dmap [OF assms(1), of e] same_dict_size [OF assms(1), of e] by simp_all
    show ?thesis using dictAddRaw_ok [OF e(1) _ raw] e assms(2) by (cases r) auto
  qed
qed

lemma unlink_ok:
  assumes "ht_inv hash t" "idx < length (table t)" "pos < length (table t ! idx)"
  shows "ht_inv hash (unlink t idx pos)"
    "mset (concat (table t)) = add_mset (table t ! idx ! pos) (mset (concat (table (unlink t idx pos))))"
proof -
  let ?b = "table t ! idx" and ?b' = "take pos (table t ! idx) @ drop (Suc pos) (table t ! idx)"
  have b: "?b = take pos ?b @ ?b ! pos # drop (Suc pos) ?b" by (rule id_take_nth_drop [OF assms(3)])
  have ms: "mset ?b = add_mset (?b ! pos) (mset ?b')" by (subst b) simp
  have "used t = length (concat (table t))" using assms(1) by (simp add: ht_inv_def)
  moreover have "length ?b \<le> length (concat (table t))"
    using length_concat_update [OF assms(2), of "[]"] by (simp del: length_concat)
  ultimately have "used t - 1 + length ?b = used t + length ?b'" using assms(3) by (simp del: length_concat)
  moreover have "set ?b' \<subseteq> set ?b" using set_take_subset set_drop_subset by fastforce
  then have "\<forall>e\<in>set ?b'. hash_index (hash (fst e)) t = idx" using assms(1,2) by (auto simp: ht_inv_def)
  ultimately show "ht_inv hash (unlink t idx pos)"
    unfolding unlink_def using assms by (intro ht_inv_update) (auto simp: ht_inv_def)
  have "mset (concat (table (unlink t idx pos))) + mset ?b = mset (concat (table t)) + mset ?b'"
    using mset_concat_update [OF assms(2), of ?b'] by (simp add: unlink_def del: mset_concat)
  then have "add_mset (?b ! pos) (mset (concat (table (unlink t idx pos)))) + mset ?b'
      = mset (concat (table t)) + mset ?b'"
    by (simp add: ms del: mset_concat)
  then show "mset (concat (table t)) = add_mset (?b ! pos) (mset (concat (table (unlink t idx pos))))"
    by (metis add_right_imp_eq)
qed

lemma dict_unlink:
  assumes "dict_inv d" "ref_ok d (tab, idx, pos)" "dictGetEntry d (tab, idx, pos) = (k, v)"
    "d' = (if tab = 0 then d\<lparr>ht0 := unlink (ht0 d) idx pos\<rparr> else d\<lparr>ht1 := unlink (ht1 d) idx pos\<rparr>)"
  shows "dict_inv d' \<and> dmap d' = (dmap d)(k := None) \<and> dmap d k = Some v \<and> dictSize d = Suc (dictSize d')
    \<and> dtype d' = dtype d \<and> iterators d' = iterators d"
proof -
  let ?t = "if tab = 0 then ht0 d else ht1 d"
  have ref: "tab = 0 \<and> 0 < htsize (ht0 d) \<or> tab = 1 \<and> dictIsRehashing d"
    "idx < length (table ?t)" "pos < length (table ?t ! idx)" "table ?t ! idx ! pos = (k, v)"
    using assms(2,3) by auto
  have inv: "ht_inv (dictHashKey d) ?t"
    using assms(1) ref(1) by (auto intro: dict_inv_ht0 dict_inv_ht1)
  note un = unlink_ok [OF inv ref(2,3)]
  have ms: "mset (entries d) = add_mset (k, v) (mset (entries d'))"
    using un(2) ref(4) assms(4) by (auto simp: mset_entries simp del: mset_concat)
  have dist: "distinct (map fst (entries d))" using assms(1) by (simp add: dict_inv_def)
  note new = map_of_remove_mset [OF ms dist]
  have sizes: "htsize (unlink t idx pos) = htsize t" for t :: "('a, 'b) dictht"
    by (simp add: unlink_def)
  have nil: "table (unlink (ht0 d) idx pos) ! i = []" if "table (ht0 d) ! i = []" for i
    using that by (cases "i = idx"; cases "idx < length (table (ht0 d))")
      (simp_all add: unlink_def list_update_beyond not_less)
  have inv': "dict_inv d'"
    using assms(1,4) un(1) new(1) ref(1) nil
    by (auto simp: dict_inv_def dictIsRehashing_def dictHashKey_eq sizes dictReset_def split: if_splits)
  have "dictSize d = Suc (dictSize d')"
    using used_entries [OF assms(1)] used_entries [OF inv'] arg_cong [OF ms, where f = size] by simp
  then show ?thesis using inv' new(2,3) assms(4) by (simp add: dmap_def)
qed

lemma dictGenericDelete_find:
  "dictGenericDelete d key nofree =
    (case dictFind d key of
       (d, None) \<Rightarrow> (d, False, None)
     | (d, Some (tab, idx, pos)) \<Rightarrow>
         (if tab = 0 then d\<lparr>ht0 := unlink (ht0 d) idx pos\<rparr> else d\<lparr>ht1 := unlink (ht1 d) idx pos\<rparr>, True,
          if nofree then None else Some (dictGetEntry d (tab, idx, pos))))"
  by (simp add: dictGenericDelete_def dictFind_def Let_def split: option.split)

lemma dictGenericDelete_ok:
  assumes "dict_inv d" "dictGenericDelete d k nofree = (d', ok, freed)"
  shows "dict_inv d' \<and> dmap d' = (dmap d)(k := None) \<and> ok = (dmap d k \<noteq> None)
    \<and> dictSize d = dictSize d' + of_bool ok \<and> dtype d' = dtype d \<and> iterators d' = iterators d
    \<and> freed = (if nofree then None else map_option (Pair k) (dmap d k))"
proof -
  obtain e r where find: "dictFind d k = (e, r)" by fastforce
  note f = dictFind_ok [OF assms(1) find]
  then have inv: "dict_inv e" and same: "same_dict d e" by simp_all
  have me: "dmap e = dmap d" "dictSize e = dictSize d"
    using same_dict_dmap [OF assms(1) same] same_dict_size [OF assms(1) inv same] by simp_all
  show ?thesis
  proof (cases r)
    case None
    then have "d' = e" "\<not> ok" "freed = None"
      using assms(2) find by (auto simp: dictGenericDelete_find)
    then show ?thesis using f None me same by (auto simp: same_dict_def)
  next
    case (Some ref)
    obtain tab idx pos where ref: "ref = (tab, idx, pos)" by (metis prod_cases3)
    obtain v where v: "dictGetEntry e (tab, idx, pos) = (k, v)" "dmap d k = Some v" "ref_ok e (tab, idx, pos)"
      using f Some ref by (cases "dictGetEntry e ref") auto
    have "d' = (if tab = 0 then e\<lparr>ht0 := unlink (ht0 e) idx pos\<rparr> else e\<lparr>ht1 := unlink (ht1 e) idx pos\<rparr>)"
      and res: "ok" "freed = (if nofree then None else Some (k, v))"
      using assms(2) find Some ref v(1) by (auto simp: dictGenericDelete_find simp del: dictGetEntry.simps)
    from dict_unlink [OF inv v(3,1) this(1)] res v(2) me same show ?thesis
      by (auto simp: same_dict_def)
  qed
qed

lemma dictClear_loop_all: "n = length (concat tab) \<Longrightarrow> dictClear_loop tab n = concat tab"
proof (induction tab arbitrary: n)
  case Nil
  then show ?case by simp
next
  case (Cons b tab)
  show ?case
  proof (cases "n = 0")
    case True
    then show ?thesis using Cons.prems by (auto simp: concat_eq_Nil_conv)
  next
    case False
    then show ?thesis using Cons.IH [of "n - length b"] Cons.prems by simp
  qed
qed

lemma dictEmpty_ok:
  assumes "dict_inv d"
  shows "dict_inv (fst (dictEmpty d)) \<and> dmap (fst (dictEmpty d)) = Map.empty \<and> snd (dictEmpty d) = entries d"
proof -
  have "snd (dictClear t) = concat (table t)" if "t = dictReset \<or> ht_inv hash t"
    for t :: "('a, 'b) dictht" and hash
    using that dictClear_loop_all [of "used t" "table t"]
    by (auto simp: dictClear_def dictReset_def ht_inv_def simp del: length_concat)
  then have "snd (dictClear (ht0 d)) = concat (table (ht0 d))" "snd (dictClear (ht1 d)) = concat (table (ht1 d))"
    using assms by (auto simp: dict_inv_def split: if_splits)
  moreover have "fst (dictClear t) = dictReset" for t :: "('a, 'b) dictht" by (simp add: dictClear_def)
  ultimately show ?thesis
    using assms
    by (simp add: dictEmpty_def split_beta entries_def dict_inv_def dmap_def dictIsRehashing_def)
      (simp add: dictReset_def)
qed

lemma dictCreate_ok: "type_ok t \<Longrightarrow> dict_inv (dictCreate t) \<and> dmap (dictCreate t) = Map.empty"
  by (simp add: dictCreate_def dict_inv_def entries_def dmap_def dictReset_def dictIsRehashing_def)

end
