(* ===== verification/Dict_Map.thy ===== *)
theory Dict_Map
  imports Dict
begin

text \<open>
  The hash functions of \<open>dict.c\<close>, the table type of the keyspace (\<open>dbDictType\<close> of \<open>redis.c\<close>),
  and the hash table as a map: the interpretation of the map interface and the refinement of
  arbitrary runs of operations, resizes and rehash steps by a mathematical map.
\<close>

section \<open>Hash functions\<close>

text \<open>Thomas Wang's mix function; every statement is one assignment of the code.\<close>

definition dictIntHashFunction :: "u32 \<Rightarrow> u32" where
  "dictIntHashFunction key =
    (let key = key + NOT (push_bit 15 key);
         key = key XOR drop_bit 10 key;
         key = key + push_bit 3 key;
         key = key XOR drop_bit 6 key;
         key = key + NOT (push_bit 11 key);
         key = key XOR drop_bit 16 key
     in key)"

text \<open>MurmurHash2 on a little-endian machine.\<close>

definition murmur_m :: u32 where "murmur_m = 0x5bd1e995"

fun murmur_loop :: "u32 \<Rightarrow> bytes \<Rightarrow> u32 \<times> bytes" where
  "murmur_loop h (a # b # c # d # data) =
     (let k = le_word [a, b, c, d];
          k = k * murmur_m; k = k XOR drop_bit 24 k; k = k * murmur_m;
          h = h * murmur_m; h = h XOR k
      in murmur_loop h data)"
| "murmur_loop h data = (h, data)"

definition dictGenHashFunction :: "u32 \<Rightarrow> bytes \<Rightarrow> u32" where
  "dictGenHashFunction seed key =
    (let h = seed XOR of_nat (length key);
         (h, data) = murmur_loop h key;
         h = (if length data = 3 then h XOR push_bit 16 (ucast (data ! 2)) else h);
         h = (if length data \<ge> 2 then h XOR push_bit 8 (ucast (data ! 1)) else h);
         h = (if length data \<ge> 1 then (h XOR ucast (data ! 0)) * murmur_m else h);
         h = h XOR drop_bit 13 h;
         h = h * murmur_m;
         h = h XOR drop_bit 15 h
     in h)"

fun case_hash_loop :: "u32 \<Rightarrow> bytes \<Rightarrow> u32" where
  "case_hash_loop hash [] = hash"
| "case_hash_loop hash (c # data) = case_hash_loop (push_bit 5 hash + hash + ucast (tolower c)) data"

definition dictGenCaseHashFunction :: "u32 \<Rightarrow> bytes \<Rightarrow> u32" where
  "dictGenCaseHashFunction seed data = case_hash_loop seed data"

text \<open>An sds key is its content, which is all the callbacks of \<open>redis.c\<close> look at.\<close>

definition dictSdsKeyCompare :: "bytes \<Rightarrow> bytes \<Rightarrow> bool" where
  "dictSdsKeyCompare key1 key2 =
    (let l1 = length key1; l2 = length key2
     in if l1 \<noteq> l2 then False else memcmp key1 key2 l1 = 0)"

definition dbDictType :: "u32 \<Rightarrow> bytes dictType" where
  "dbDictType seed = \<lparr>hashFunction = dictGenHashFunction seed, keyCompare = dictSdsKeyCompare\<rparr>"

lemma memcmp_zero_iff: "length a = length b \<Longrightarrow> memcmp a b (length a) = 0 \<longleftrightarrow> a = b"
proof -
  assume len: "length a = length b"
  then have "memcmp a b (length a) = 0 \<longleftrightarrow> take (length a) a = take (length a) b"
    by (intro memcmp_eq_0) simp_all
  with len show ?thesis by simp
qed

lemma dictSdsKeyCompare_eq: "dictSdsKeyCompare a b \<longleftrightarrow> a = b"
  using memcmp_zero_iff [of a b] by (auto simp: dictSdsKeyCompare_def Let_def)

lemma dbDictType_ok: "type_ok (dbDictType seed)"
  by (simp add: type_ok_def dbDictType_def fun_eq_iff dictSdsKeyCompare_eq)

text \<open>Case does not matter to the hash of command and script names.\<close>

lemma case_hash_tolower: "dictGenCaseHashFunction seed (map tolower data) = dictGenCaseHashFunction seed data"
proof -
  have *: "tolower (tolower c) = tolower c" for c
    by (auto simp: tolower_def word_le_nat_alt unat_word_ariths)
  have "case_hash_loop h (map tolower data) = case_hash_loop h data" for h
    by (induction data arbitrary: h) (simp_all add: *)
  then show ?thesis by (simp add: dictGenCaseHashFunction_def)
qed

section \<open>The map interface\<close>

definition dict_put :: "bool \<Rightarrow> 'v \<Rightarrow> ('k, 'v) dict \<Rightarrow> 'k \<Rightarrow> 'v \<Rightarrow> ('k, 'v) dict \<times> bool" where
  "dict_put can u d k v = (let (d', new, old) = dictReplace can u d k v in (d', \<not> new))"

definition dict_del :: "('k, 'v) dict \<Rightarrow> 'k \<Rightarrow> ('k, 'v) dict \<times> bool" where
  "dict_del d k = (let (d', ok, freed) = dictDelete d k in (d', ok))"

definition dict_cap :: nat where "dict_cap = 2 ^ 30"

lemma dict_put_ok:
  assumes "dict_inv d" "Suc (dictSize d) \<le> dict_cap"
  shows "dict_inv (fst (dict_put can u d k v)) \<and> dictSize (fst (dict_put can u d k v)) \<le> Suc (dictSize d)
    \<and> dmap (fst (dict_put can u d k v)) = (dmap d)(k \<mapsto> v)
    \<and> snd (dict_put can u d k v) = (dmap d k \<noteq> None)"
proof -
  obtain d' new old where rep: "dictReplace can u d k v = (d', new, old)" by (metis prod_cases3)
  have "dictSize d \<le> 2 ^ 30" using assms(2) by (simp add: dict_cap_def)
  from dictReplace_ok [OF assms(1) this rep] show ?thesis
    by (simp add: dict_put_def rep)
qed

lemma dict_del_ok:
  assumes "dict_inv d"
  shows "dict_inv (fst (dict_del d k)) \<and> dictSize (fst (dict_del d k)) \<le> Suc (dictSize d)
    \<and> dmap (fst (dict_del d k)) = (dmap d)(k := None) \<and> snd (dict_del d k) = (dmap d k \<noteq> None)"
proof -
  obtain d' ok freed where del: "dictGenericDelete d k False = (d', ok, freed)" by (metis prod_cases3)
  from dictGenericDelete_ok [OF assms del] show ?thesis
    by (simp add: dict_del_def dictDelete_def del)
qed

lemma same_dict_step:
  "dict_inv d \<Longrightarrow> dict_inv d' \<and> same_dict d d' \<Longrightarrow> dict_inv d' \<and> dictSize d' = dictSize d \<and> dmap d' = dmap d"
  using same_dict_dmap same_dict_size by blast

lemma dict_get_ok:
  assumes "dict_inv d"
  shows "dict_inv (fst (dictFetchValue d k)) \<and> dictSize (fst (dictFetchValue d k)) \<le> Suc (dictSize d)
    \<and> dmap (fst (dictFetchValue d k)) = dmap d \<and> snd (dictFetchValue d k) = dmap d k"
  using dictFetchValue_ok [OF assms, of k] same_dict_step [OF assms, of "fst (dictFetchValue d k)"] by simp

interpretation dict_kv: kv_store dict_inv "\<lambda>_. True" "\<lambda>_. True" dictSize dict_cap dmap
  "dict_put can u" dictFetchValue dict_del for can u
  by unfold_locales (erule (1) dict_put_ok, erule dict_get_ok, erule dict_del_ok)

section \<open>Runs of operations\<close>

text \<open>
  Everything a client does to a table: the map operations, and the ones that only reorganise
  it (\<open>dictRehash\<close> from the cron job, resizing, the global switch, safe iterators that suspend
  the rehash).  The state is the table and the switch.
\<close>

datatype ('k, 'v) dict_op =
    DAdd 'k 'v | DReplace 'k 'v | DFetch 'k | DDelete 'k | DEmpty
  | DRehash nat | DResize | DExpand nat | DCanResize bool | DIterators int

datatype 'v dict_res = DFlag bool | DValue "'v option" | DUnit

fun dict_exec :: "'v \<Rightarrow> ('k, 'v) dict \<times> bool \<Rightarrow> ('k, 'v) dict_op \<Rightarrow> (('k, 'v) dict \<times> bool) \<times> 'v dict_res" where
  "dict_exec u (d, can) (DAdd k v) = (let (d, ok) = dictAdd can u d k v in ((d, can), DFlag ok))"
| "dict_exec u (d, can) (DReplace k v) = (let (d, new, old) = dictReplace can u d k v in ((d, can), DFlag new))"
| "dict_exec u (d, can) (DFetch k) = (let (d, r) = dictFetchValue d k in ((d, can), DValue r))"
| "dict_exec u (d, can) (DDelete k) = (let (d, ok, freed) = dictDelete d k in ((d, can), DFlag ok))"
| "dict_exec u (d, can) DEmpty = ((fst (dictEmpty d), can), DUnit)"
| "dict_exec u (d, can) (DRehash n) = ((fst (dictRehash d n), can), DUnit)"
| "dict_exec u (d, can) DResize = ((fst (dictResize can d), can), DUnit)"
| "dict_exec u (d, can) (DExpand n) = ((fst (dictExpand d n), can), DUnit)"
| "dict_exec u (d, can) (DCanResize b) = ((d, b), DUnit)"
| "dict_exec u (d, can) (DIterators i) = ((d\<lparr>iterators := i\<rparr>, can), DUnit)"

fun dict_op_ref :: "('k \<rightharpoonup> 'v) \<Rightarrow> ('k, 'v) dict_op \<Rightarrow> ('k \<rightharpoonup> 'v) \<times> 'v dict_res" where
  "dict_op_ref m (DAdd k v) = (if m k = None then m(k \<mapsto> v) else m, DFlag (m k = None))"
| "dict_op_ref m (DReplace k v) = (m(k \<mapsto> v), DFlag (m k = None))"
| "dict_op_ref m (DFetch k) = (m, DValue (m k))"
| "dict_op_ref m (DDelete k) = (m(k := None), DFlag (m k \<noteq> None))"
| "dict_op_ref m DEmpty = (Map.empty, DUnit)"
| "dict_op_ref m (DRehash n) = (m, DUnit)"
| "dict_op_ref m DResize = (m, DUnit)"
| "dict_op_ref m (DExpand n) = (m, DUnit)"
| "dict_op_ref m (DCanResize b) = (m, DUnit)"
| "dict_op_ref m (DIterators i) = (m, DUnit)"

fun dict_op_ok :: "('k, 'v) dict_op \<Rightarrow> bool" where
  "dict_op_ok (DExpand n) = (n \<le> 2 ^ 31)"
| "dict_op_ok _ = True"

definition dict_state_inv :: "('k, 'v) dict \<times> bool \<Rightarrow> bool" where
  "dict_state_inv s = dict_inv (fst s)"

lemma iterators_irrelevant:
  "dict_inv (d\<lparr>iterators := i\<rparr>) = dict_inv d" "dmap (d\<lparr>iterators := i\<rparr>) = dmap d"
  "dictSize (d\<lparr>iterators := i\<rparr>) = dictSize d"
proof -
  have "entries (d\<lparr>iterators := i\<rparr>) = entries d" by (simp add: entries_def)
  moreover have "dictIsRehashing (d\<lparr>iterators := i\<rparr>) = dictIsRehashing d" by (simp add: dictIsRehashing_def)
  moreover have "dictHashKey (d\<lparr>iterators := i\<rparr>) = dictHashKey d" by (simp add: dictHashKey_eq)
  ultimately show "dict_inv (d\<lparr>iterators := i\<rparr>) = dict_inv d" "dmap (d\<lparr>iterators := i\<rparr>) = dmap d"
    by (simp_all add: dict_inv_def dmap_def)
qed (simp add: dictSize_def)

lemma dict_exec_step:
  assumes "dict_inv d" "Suc (dictSize d) \<le> dict_cap" "dict_op_ok op" "dict_exec u (d, can) op = ((d', can'), r)"
  shows "dict_inv d' \<and> dictSize d' \<le> Suc (dictSize d) \<and> (dmap d', r) = dict_op_ref (dmap d) op"
proof -
  have size: "dictSize d \<le> 2 ^ 30" using assms(2) by (simp add: dict_cap_def)
  show ?thesis
  proof (cases op)
    case (DAdd k v)
    obtain e ok where "dictAdd can u d k v = (e, ok)" by fastforce
    with dictAdd_ok [OF assms(1) size this] same_dict_step [OF assms(1), of e] DAdd assms(4)
    show ?thesis by auto
  next
    case (DReplace k v)
    obtain e new old where "dictReplace can u d k v = (e, new, old)" by (metis prod_cases3)
    with dictReplace_ok [OF assms(1) size this] DReplace assms(4) show ?thesis by auto
  next
    case (DFetch k)
    then show ?thesis using dict_get_ok [OF assms(1), of k] assms(4) by (auto simp: split_beta)
  next
    case (DDelete k)
    obtain e ok freed where "dictGenericDelete d k False = (e, ok, freed)" by (metis prod_cases3)
    with dictGenericDelete_ok [OF assms(1) this] DDelete assms(4) show ?thesis by (auto simp: dictDelete_def)
  next
    case DEmpty
    have "dict_inv (fst (dictEmpty d))" "dmap (fst (dictEmpty d)) = Map.empty"
      using dictEmpty_ok [OF assms(1)] by simp_all
    moreover have "dictSize (fst (dictEmpty d)) = 0"
      by (simp add: dictEmpty_def dictClear_def dictSize_def dictReset_def)
    ultimately show ?thesis using DEmpty assms(4) by auto
  next
    case (DRehash n)
    then show ?thesis using same_dict_step [OF assms(1) dictRehash_ok [OF assms(1), of n]] assms(4) by auto
  next
    case DResize
    then show ?thesis using same_dict_step [OF assms(1) dictResize_ok [OF assms(1) size, of can]] assms(4) by auto
  next
    case (DExpand n)
    obtain e ok where ex: "dictExpand d n = (e, ok)" by fastforce
    have "n \<le> 2 ^ 31" using assms(3) DExpand by simp
    then have "dict_inv e \<and> same_dict d e" using dictExpand_ok [OF assms(1) _ ex] by simp
    from same_dict_step [OF assms(1) this] show ?thesis using DExpand assms(4) ex by auto
  next
    case (DCanResize b)
    then show ?thesis using assms by auto
  next
    case (DIterators i)
    then have "d' = d\<lparr>iterators := i\<rparr>" "r = DUnit" using assms(4) by auto
    then show ?thesis using assms(1) DIterators by (simp add: iterators_irrelevant)
  qed
qed

text \<open>
  C7: the hash table is a map.  Start from an empty table of any type whose comparison is key
  equality, and perform any operations in any order, with rehash steps, resizes in both
  directions, suspended rehashing and the resize switch interleaved at will: every answer is
  the one a mathematical map gives, the table ends in the map the operations describe, and
  the structural invariant holds (each entry in the bucket of its hash, no key twice in the
  two tables, counters exact, nothing left behind the rehash index).  The bound of \<open>2 ^ 30\<close>
  operations keeps bucket indexes inside the \<open>int\<close> the code returns them in.
\<close>

theorem dict_refines_map:
  assumes "type_ok t" "length ops \<le> dict_cap" "\<forall>op\<in>set ops. dict_op_ok op"
    "run_ops (dict_exec u) (dictCreate t, can) ops = ((d, can'), rs)"
  shows "dict_inv d \<and> (dmap d, rs) = run_ops dict_op_ref Map.empty ops"
proof -
  have "dict_state_inv (fst (run_ops (dict_exec u) (dictCreate t, can) ops))
    \<and> (dmap (fst (fst (run_ops (dict_exec u) (dictCreate t, can) ops))),
       snd (run_ops (dict_exec u) (dictCreate t, can) ops))
      = run_ops dict_op_ref (dmap (fst (dictCreate t :: ('a, 'b) dict, can))) ops"
  proof (rule run_ops_simulation [where count = "\<lambda>s. dictSize (fst s)" and cap = dict_cap
        and ok = dict_op_ok and absf = "\<lambda>s. dmap (fst s)"])
    fix s :: "('a, 'b) dict \<times> bool" and op :: "('a, 'b) dict_op"
    assume "dict_state_inv s" "Suc (dictSize (fst s)) \<le> dict_cap" "dict_op_ok op"
    then show "dict_state_inv (fst (dict_exec u s op))
      \<and> dictSize (fst (fst (dict_exec u s op))) \<le> Suc (dictSize (fst s))
      \<and> (dmap (fst (fst (dict_exec u s op))), snd (dict_exec u s op)) = dict_op_ref (dmap (fst s)) op"
      using dict_exec_step [of "fst s" op u "snd s" "fst (fst (dict_exec u s op))"
          "snd (fst (dict_exec u s op))" "snd (dict_exec u s op)"]
      by (simp add: dict_state_inv_def)
  next
    show "dict_state_inv (dictCreate t, can)"
      by (simp add: dict_state_inv_def dictCreate_ok [OF assms(1)])
    show "dictSize (fst (dictCreate t, can)) + length ops \<le> dict_cap"
      using assms(2) by (simp add: dictCreate_def dictSize_def dictReset_def)
  qed (rule assms(3))
  moreover have "dmap (dictCreate t :: ('a, 'b) dict) = Map.empty"
    by (simp add: dictCreate_ok [OF assms(1)])
  ultimately show ?thesis using assms(4) by (simp add: dict_state_inv_def)
qed

definition sample_ops :: "(bytes, nat) dict_op list" where
  "sample_ops = [DAdd [1] 10, DAdd [2] 20, DReplace [1] 11, DExpand 8, DFetch [1], DRehash 1, DDelete [2], DFetch [2]]"

theorem dict_refines_map_witness:
  "snd (run_ops (dict_exec 0) (dictCreate (dbDictType 5381), True) sample_ops)
     = [DFlag True, DFlag True, DFlag False, DUnit, DValue (Some 11), DUnit, DFlag True, DValue None]"
proof -
  obtain d can' rs where run:
    "run_ops (dict_exec 0) (dictCreate (dbDictType 5381), True) sample_ops = ((d, can'), rs)"
    by (metis prod_cases3 surj_pair)
  have "(dmap d, rs) = run_ops dict_op_ref Map.empty sample_ops"
    using dict_refines_map [OF dbDictType_ok _ _ run] by (simp add: sample_ops_def dict_cap_def)
  then have "rs = [DFlag True, DFlag True, DFlag False, DUnit, DValue (Some 11), DUnit, DFlag True, DValue None]"
    by (simp add: sample_ops_def)
  then show ?thesis by (simp only: run snd_conv)
qed

end
