(* ===== verification/Dict_Scan.thy ===== *)
theory Dict_Scan
  imports Dict_Map
begin

text \<open>
  \<open>dictScan\<close>: the stateless iteration with a reverse-binary cursor, over a table that may be
  resized and rehashed between the calls.  The emitted entries are the calls of the callback.
\<close>

section \<open>Model\<close>

text \<open>\<open>rev\<close>: the bits of a word in opposite order.\<close>

function rev_loop :: "nat \<Rightarrow> u64 \<Rightarrow> u64 \<Rightarrow> u64" where
  "rev_loop s msk v =
    (let s = s div 2
     in if s > 0 then
          let msk = msk XOR push_bit s msk;
              v = (drop_bit s v AND msk) OR (push_bit s v AND NOT msk)
          in rev_loop s msk v
        else v)"
  by pat_completeness auto
termination by (relation "measure fst") auto

declare rev_loop.simps [simp del]

definition dict_rev :: "u64 \<Rightarrow> u64" where
  "dict_rev v = rev_loop 64 (NOT 0) v"

text \<open>
  The loop over the expansions of the cursor in the larger table.  \<open>None\<close> would be a loop that
  never ends.
\<close>

partial_function (option) scan_expansions ::
  "('k \<times> 'v) list list \<Rightarrow> u64 \<Rightarrow> u64 \<Rightarrow> u64 \<Rightarrow> (u64 \<times> ('k \<times> 'v) list) option" where
  "scan_expansions t1 m0 m1 v =
    (let de = t1 ! unat (v AND m1);
         v' = (((v OR m0) + 1) AND NOT m0) OR (v AND m0)
     in if v' AND (m0 XOR m1) \<noteq> 0
        then Option.bind (scan_expansions t1 m0 m1 v') (\<lambda>(w, es). Some (w, de @ es))
        else Some (v', de))"

definition dictScan :: "('k, 'v) dict \<Rightarrow> u64 \<Rightarrow> (u64 \<times> ('k \<times> 'v) list) option" where
  "dictScan d v =
    (if dictSize d = 0 then Some (0, [])
     else
       let finish = (\<lambda>m0 v. dict_rev (dict_rev (v OR NOT m0) + 1))
       in if \<not> dictIsRehashing d then
            let m0 = sizemask (ht0 d)
            in Some (finish m0 v, table (ht0 d) ! unat (v AND m0))
          else
            let (t0, t1) = (if htsize (ht0 d) > htsize (ht1 d) then (ht1 d, ht0 d) else (ht0 d, ht1 d));
                m0 = sizemask t0; m1 = sizemask t1
            in Option.bind (scan_expansions (table t1) m0 m1 v)
                 (\<lambda>(v', es). Some (finish m0 v', table t0 ! unat (v AND m0) @ es)))"

section \<open>Bit reversal\<close>

definition swap_bits :: "nat \<Rightarrow> u64 \<Rightarrow> u64 \<Rightarrow> u64" where
  "swap_bits s m v = (drop_bit s v AND m) OR (push_bit s v AND NOT m)"

definition flip_pos :: "nat \<Rightarrow> nat \<Rightarrow> nat" where
  "flip_pos s n = (if n mod (2 * s) < s then n + s else n - s)"

definition mask_ok :: "nat \<Rightarrow> u64 \<Rightarrow> bool" where
  "mask_ok s m \<longleftrightarrow> (\<forall>n<64. bit m n \<longleftrightarrow> n mod (2 * s) < s)"

lemma mask_ok_step:
  assumes "mask_ok (2 * s) m" "0 < s" "m' = m XOR push_bit s m"
  shows "mask_ok s m'"
  unfolding mask_ok_def assms(3)
proof (intro allI impI)
  fix n :: nat
  assume n: "n < 64"
  let ?q = "n div s"
  have d: "n mod (k * s) < j * s \<longleftrightarrow> n div s mod k < j" for n k j
  proof -
    have "n mod (k * s) = s * (n div s mod k) + n mod s"
      using mod_mult2_eq [of n s k] by (simp add: mult.commute)
    moreover have "n mod s < s" using assms(2) by simp
    moreover have "s * (Q + 1) \<le> j * s" if "Q < j" for Q
      using mult_le_mono2 [of "Q + 1" j s] that by (simp add: mult.commute)
    moreover have "j * s \<le> s * Q" if "\<not> Q < j" for Q
      using mult_le_mono2 [of j Q s] that by (simp add: mult.commute)
    ultimately show ?thesis
      by (cases "n div s mod k < j") (fastforce simp: distrib_left)+
  qed
  have "bit (m XOR push_bit s m) n \<longleftrightarrow> (n mod (4 * s) < 2 * s) \<noteq> (s \<le> n \<and> (n - s) mod (4 * s) < 2 * s)"
    using assms(1) n by (simp add: mask_ok_def bit_simps)
  also have "\<dots> \<longleftrightarrow> (?q mod 4 < 2) \<noteq> (1 \<le> ?q \<and> (?q - 1) mod 4 < 2)"
  proof -
    have "s \<le> n \<longleftrightarrow> 1 \<le> ?q" using assms(2) by (simp add: Suc_le_eq div_greater_zero_iff)
    moreover have "(n - s) div s = ?q - 1" using assms(2) le_div_geq [of s n]
      by (cases "s \<le> n") simp_all
    ultimately show ?thesis by (simp only: d)
  qed
  also have "\<dots> \<longleftrightarrow> ?q mod 2 < 1"
  proof -
    have "(q mod 4 < 2) \<noteq> (1 \<le> q \<and> (q - 1) mod 4 < 2) \<longleftrightarrow> q mod 2 < 1" for q :: nat
    proof (cases q)
      case (Suc p)
      have "p mod 2 = p mod 4 mod 2" by (simp add: mod_mod_cancel)
      moreover have "p mod 4 \<in> {0, 1, 2, 3}" using mod_less_divisor [of 4 p] by auto
      ultimately show ?thesis by (auto simp: Suc mod_Suc)
    qed simp
    then show ?thesis .
  qed
  also have "\<dots> \<longleftrightarrow> n mod (2 * s) < 1 * s" by (simp only: d)
  finally show "bit (m XOR push_bit s m) n \<longleftrightarrow> n mod (2 * s) < s" by simp
qed

lemma bit_swap:
  assumes "mask_ok s m" "n < 64" "0 < s"
  shows "bit (swap_bits s m v) n \<longleftrightarrow> bit v (flip_pos s n)"
proof -
  have "bit m n \<longleftrightarrow> n mod (2 * s) < s" using assms by (simp add: mask_ok_def)
  moreover have "s \<le> n" if "\<not> n mod (2 * s) < s"
    using that mod_less_eq_dividend [of n "2 * s"] by linarith
  ultimately show ?thesis using assms(2) by (auto simp: swap_bits_def flip_pos_def bit_simps add.commute)
qed

lemma rev_loop_step:
  "t = 2 * s \<Longrightarrow> 0 < s \<Longrightarrow> m' = m XOR push_bit s m \<Longrightarrow> rev_loop t m v = rev_loop s m' (swap_bits s m' v)"
  by (subst rev_loop.simps) (simp add: Let_def swap_bits_def)

lemma rev_loop_end: "rev_loop 1 m v = v"
  by (subst rev_loop.simps) simp

definition mirrored :: "nat \<Rightarrow> bool" where
  "mirrored n \<longleftrightarrow>
    flip_pos 32 (flip_pos 16 (flip_pos 8 (flip_pos 4 (flip_pos 2 (flip_pos 1 n))))) = 63 - n
    \<and> flip_pos 1 n < 64 \<and> flip_pos 2 n < 64 \<and> flip_pos 4 n < 64 \<and> flip_pos 8 n < 64 \<and> flip_pos 16 n < 64"

lemma all_mirrored: "list_all mirrored [0..<64]"
  by (simp add: upt_conv_Cons) (simp add: mirrored_def flip_pos_def)

lemma mirroredD: "n < 64 \<Longrightarrow> mirrored n"
  using all_mirrored by (simp add: list_all_iff)

lemma dict_rev_reverse: "dict_rev v = word_reverse v"
proof (rule bit_word_eqI)
  fix n assume "n < LENGTH(64)"
  then have n: "n < 64" by simp
  define m32 :: u64 where "m32 = NOT 0 XOR push_bit 32 (NOT 0)"
  define m16 where "m16 = m32 XOR push_bit 16 m32"
  define m8 where "m8 = m16 XOR push_bit 8 m16"
  define m4 where "m4 = m8 XOR push_bit 4 m8"
  define m2 where "m2 = m4 XOR push_bit 2 m4"
  define m1 where "m1 = m2 XOR push_bit 1 m2"
  have 64: "mask_ok 64 (NOT 0)" by (simp add: mask_ok_def)
  have 32: "mask_ok 32 m32" by (rule mask_ok_step [OF _ _ m32_def]) (use 64 in simp_all)
  have 16: "mask_ok 16 m16" by (rule mask_ok_step [OF _ _ m16_def]) (use 32 in simp_all)
  have 8: "mask_ok 8 m8" by (rule mask_ok_step [OF _ _ m8_def]) (use 16 in simp_all)
  have 4: "mask_ok 4 m4" by (rule mask_ok_step [OF _ _ m4_def]) (use 8 in simp_all)
  have 2: "mask_ok 2 m2" by (rule mask_ok_step [OF _ _ m2_def]) (use 4 in simp_all)
  have 1: "mask_ok 1 m1" by (rule mask_ok_step [OF _ _ m1_def]) (use 2 in simp_all)
  have "rev_loop 64 (NOT 0) v = rev_loop 32 m32 (swap_bits 32 m32 v)"
    "rev_loop 32 m32 w = rev_loop 16 m16 (swap_bits 16 m16 w)"
    "rev_loop 16 m16 w = rev_loop 8 m8 (swap_bits 8 m8 w)"
    "rev_loop 8 m8 w = rev_loop 4 m4 (swap_bits 4 m4 w)"
    "rev_loop 4 m4 w = rev_loop 2 m2 (swap_bits 2 m2 w)"
    "rev_loop 2 m2 w = rev_loop 1 m1 (swap_bits 1 m1 w)" for w
    by (rule rev_loop_step [OF _ _ m32_def] rev_loop_step [OF _ _ m16_def] rev_loop_step [OF _ _ m8_def]
        rev_loop_step [OF _ _ m4_def] rev_loop_step [OF _ _ m2_def] rev_loop_step [OF _ _ m1_def]; simp)+
  then have "dict_rev v = swap_bits 1 m1 (swap_bits 2 m2 (swap_bits 4 m4 (swap_bits 8 m8
      (swap_bits 16 m16 (swap_bits 32 m32 v)))))"
    by (simp only: dict_rev_def rev_loop_end)
  moreover have "flip_pos 1 k < 64" "flip_pos 2 k < 64" "flip_pos 4 k < 64" "flip_pos 8 k < 64"
    "flip_pos 16 k < 64" if "k < 64" for k
    using mirroredD [OF that] by (simp_all add: mirrored_def)
  ultimately have "bit (dict_rev v) n \<longleftrightarrow>
      bit v (flip_pos 32 (flip_pos 16 (flip_pos 8 (flip_pos 4 (flip_pos 2 (flip_pos 1 n))))))"
    by (simp only: bit_swap [OF 1 _ zero_less_one] n bit_swap [OF 2] bit_swap [OF 4] bit_swap [OF 8]
        bit_swap [OF 16] bit_swap [OF 32] zero_less_numeral)
  also have "\<dots> \<longleftrightarrow> bit v (63 - n)" using mirroredD [OF n] by (simp only: mirrored_def)
  finally show "bit (dict_rev v) n \<longleftrightarrow> bit (word_reverse v) n" using n by (simp add: bit_simps)
qed

section \<open>One call\<close>

lemma ht_inv_mask:
  assumes "ht_inv hash t"
  obtains a where "2 \<le> a" "a \<le> 31" "htsize t = 2 ^ a" "sizemask t = mask a"
proof -
  obtain k where "2 \<le> k" "k \<le> 31" "htsize t = 2 ^ k" "sizemask t = of_nat (htsize t) - 1"
    using assms by (auto simp: ht_inv_def hash_bits_ok_def)
  then show ?thesis using that by (simp add: mask_eq_decr_exp)
qed

lemma unat_and_mask: "unat (v AND mask a) = unat v mod 2 ^ a"
proof -
  have "unat (take_bit a v) = take_bit a (unat v)" by (rule unsigned_take_bit_eq)
  then show ?thesis by (simp only: take_bit_eq_mask [symmetric] take_bit_eq_mod)
qed

lemma congruent_step:
  assumes "i mod m = c mod m" "c \<le> (i :: nat)"
  shows "i = c \<or> c + m \<le> i"
proof -
  have "m dvd i - c" using assms by (simp add: mod_eq_dvd_iff_nat)
  then show ?thesis using assms(2) by (metis dvd_imp_le le_add_diff_inverse nat_add_left_cancel_le
        not_gr_zero diff_is_0_eq le_antisym)
qed

lemma expansion_step:
  fixes v :: u64
  shows "(((v OR mask a) + 1) AND NOT (mask a)) OR (v AND mask a) = v + 2 ^ a"
proof -
  let ?y = "drop_bit a v"
  have "v OR mask a = push_bit a ?y OR mask a" by (auto simp: bit_eq_iff bit_simps)
  also have "\<dots> = push_bit a ?y + mask a"
    by (rule disjunctive_add_eq_or [symmetric]) (auto simp: bit_eq_iff bit_simps)
  finally have plus: "(v OR mask a) + 1 = push_bit a (?y + 1)"
    by (simp add: mask_eq_decr_exp push_bit_add)
  have "(push_bit a (?y + 1) AND NOT (mask a)) OR (v AND mask a) = push_bit a (?y + 1) OR take_bit a v"
    by (auto simp: bit_eq_iff bit_simps)
  also have "\<dots> = push_bit a (?y + 1) + take_bit a v"
    by (rule disjunctive_add_eq_or [symmetric]) (auto simp: bit_eq_iff bit_simps)
  also have "\<dots> = (push_bit a ?y + take_bit a v) + 2 ^ a" by (simp add: push_bit_add)
  also have "\<dots> = v + 2 ^ a" by (simp only: bits_ident)
  finally show ?thesis by (simp only: plus)
qed

lemma expansion_exit:
  fixes w :: u64
  assumes "a \<le> b"
  shows "w AND (mask a XOR mask b) \<noteq> 0 \<longleftrightarrow> 2 ^ a \<le> unat w mod 2 ^ b"
proof -
  have "w AND (mask a XOR mask b) = 0 \<longleftrightarrow> take_bit b w = take_bit a w"
    using assms by (auto simp: bit_eq_iff bit_simps)
  also have "\<dots> \<longleftrightarrow> unat w mod 2 ^ b = unat w mod 2 ^ a"
    by (metis take_bit_eq_mask unat_and_mask word_unat_eq_iff)
  also have "\<dots> \<longleftrightarrow> unat w mod 2 ^ b < 2 ^ a"
  proof
    assume "unat w mod 2 ^ b = unat w mod 2 ^ a"
    then show "unat w mod 2 ^ b < 2 ^ a" by simp
  next
    assume "unat w mod 2 ^ b < 2 ^ a"
    then have "unat w mod 2 ^ b = unat w mod 2 ^ b mod 2 ^ a" by simp
    also have "\<dots> = unat w mod 2 ^ a" using assms by (simp add: mod_mod_cancel le_imp_power_dvd)
    finally show "unat w mod 2 ^ b = unat w mod 2 ^ a" .
  qed
  finally show ?thesis by auto
qed

lemma unat_step_mod:
  fixes v :: u64
  assumes "a \<le> b" "b \<le> 31"
  shows "unat (v + 2 ^ a) mod 2 ^ b =
    (if unat v mod 2 ^ b + 2 ^ a < 2 ^ b then unat v mod 2 ^ b + 2 ^ a else unat v mod 2 ^ b + 2 ^ a - 2 ^ b)"
proof -
  have "(2 :: nat) ^ a < 2 ^ 64" using assms by (intro power_strict_increasing) simp_all
  then have "unat (2 ^ a :: u64) = 2 ^ a"
    using unat_of_nat_small [of "2 ^ a", where 'a = 64] by simp
  then have "unat (v + 2 ^ a) mod 2 ^ b = (unat v + 2 ^ a) mod 2 ^ 64 mod 2 ^ b"
    by (simp add: unat_word_ariths)
  also have "\<dots> = (unat v + 2 ^ a) mod 2 ^ b"
    using assms le_imp_power_dvd [of b 64 "2 :: nat"] by (intro mod_mod_cancel) simp
  also have "\<dots> = (unat v mod 2 ^ b + 2 ^ a) mod 2 ^ b" by (simp add: mod_add_left_eq)
  also have "\<dots> = (if unat v mod 2 ^ b + 2 ^ a < 2 ^ b then unat v mod 2 ^ b + 2 ^ a
      else unat v mod 2 ^ b + 2 ^ a - 2 ^ b)"
  proof -
    have "unat v mod 2 ^ b < 2 ^ b" "(2 :: nat) ^ a \<le> 2 ^ b" using assms by simp_all
    then have "unat v mod 2 ^ b + 2 ^ a < 2 * 2 ^ b" by linarith
    then show ?thesis by (auto simp: mod_if [of "_ + _"] not_less)
  qed
  finally show ?thesis .
qed

lemma scan_expansions_unfold:
  fixes v :: u64
  assumes "a \<le> b"
  shows "scan_expansions t1 (mask a) (mask b) v =
    (if 2 ^ a \<le> unat (v + 2 ^ a) mod 2 ^ b
     then Option.bind (scan_expansions t1 (mask a) (mask b) (v + 2 ^ a))
            (\<lambda>(w, es). Some (w, t1 ! (unat v mod 2 ^ b) @ es))
     else Some (v + 2 ^ a, t1 ! (unat v mod 2 ^ b)))"
  by (subst scan_expansions.simps)
    (simp only: Let_def expansion_step expansion_exit [OF assms] unat_and_mask)

lemma scan_expansions_ok:
  fixes v :: u64
  assumes "a \<le> b" "b \<le> 31"
  shows "\<exists>w es. scan_expansions t1 (mask a) (mask b) v = Some (w, es) \<and> take_bit a w = take_bit a v
    \<and> (\<forall>i<2 ^ b. i mod 2 ^ a = unat v mod 2 ^ a \<and> unat v mod 2 ^ b \<le> i \<longrightarrow> set (t1 ! i) \<subseteq> set es)
    \<and> (length t1 = 2 ^ b \<longrightarrow> set es \<subseteq> set (concat t1))"
proof (induction "2 ^ b - unat v mod 2 ^ b" arbitrary: v rule: less_induct)
  case less
  let ?c = "unat v mod 2 ^ b" and ?v = "v + 2 ^ a"
  have c_lt: "?c < 2 ^ b" by simp
  have sub: "set (t1 ! ?c) \<subseteq> set (concat t1)" if "length t1 = 2 ^ b"
    using that c_lt by (auto intro!: bexI nth_mem)
  have c_mod: "?c mod 2 ^ a = unat v mod 2 ^ a" using assms by (simp add: mod_mod_cancel le_imp_power_dvd)
  note unfold = scan_expansions_unfold [OF assms(1), of t1 v]
  have low: "take_bit a ?v = take_bit a v"
    by (subst expansion_step [symmetric]) (auto simp: bit_eq_iff bit_simps)
  show ?case
  proof (cases "?c + 2 ^ a < 2 ^ b")
    case True
    then have next_c: "unat ?v mod 2 ^ b = ?c + 2 ^ a" using unat_step_mod [OF assms, of v] by simp
    moreover have "(0 :: nat) < 2 ^ a" by simp
    ultimately have "2 ^ b - unat ?v mod 2 ^ b < 2 ^ b - ?c" using True by linarith
    from less.hyps [OF this] obtain w es where IH:
      "scan_expansions t1 (mask a) (mask b) ?v = Some (w, es)" "take_bit a w = take_bit a ?v"
      "\<forall>i<2 ^ b. i mod 2 ^ a = unat ?v mod 2 ^ a \<and> unat ?v mod 2 ^ b \<le> i \<longrightarrow> set (t1 ! i) \<subseteq> set es"
      "length t1 = 2 ^ b \<longrightarrow> set es \<subseteq> set (concat t1)" by blast
    have vmod: "unat ?v mod 2 ^ a = unat v mod 2 ^ a"
      using low by (metis take_bit_eq_mask unat_and_mask)
    have "scan_expansions t1 (mask a) (mask b) v = Some (w, t1 ! ?c @ es)"
      using unfold IH(1) next_c by simp
    moreover have "set (t1 ! i) \<subseteq> set (t1 ! ?c @ es)"
      if "i < 2 ^ b" "i mod 2 ^ a = unat v mod 2 ^ a" "?c \<le> i" for i
      using congruent_step [of i "2 ^ a" ?c] that c_mod IH(3) next_c vmod by fastforce
    moreover have "set (t1 ! ?c @ es) \<subseteq> set (concat t1)" if "length t1 = 2 ^ b"
      using sub [OF that] IH(4) that by simp
    ultimately show ?thesis
      using IH(2) low by (intro exI [of _ w] exI [of _ "t1 ! ?c @ es"]) (simp del: set_append)
  next
    case False
    then have "unat ?v mod 2 ^ b = ?c + 2 ^ a - 2 ^ b" using unat_step_mod [OF assms, of v] by simp
    then have "\<not> 2 ^ a \<le> unat ?v mod 2 ^ b" using c_lt False by linarith
    then have "scan_expansions t1 (mask a) (mask b) v = Some (?v, t1 ! ?c)" using unfold by simp
    moreover have "i = ?c" if "i < 2 ^ b" "i mod 2 ^ a = unat v mod 2 ^ a" "?c \<le> i" for i
      using congruent_step [of i "2 ^ a" ?c] that c_mod False by auto
    ultimately show ?thesis using low sub by (intro exI [of _ ?v] exI [of _ "t1 ! ?c"]) auto
  qed
qed

text \<open>
  The position of a cursor or of a hash in the order of the iteration: its bits read backwards.
\<close>

definition scan_pos :: "u64 \<Rightarrow> nat" where
  "scan_pos x = unat (word_reverse x)"

definition key_pos :: "('k, 'v) dict \<Rightarrow> 'k \<Rightarrow> nat" where
  "key_pos d k = scan_pos (ucast (dictHashKey d k))"

lemma word_reverse_0 [simp]: "word_reverse (0 :: u64) = 0"
  by (rule bit_word_eqI) (simp add: bit_simps)

lemma scan_pos_0 [simp]: "scan_pos 0 = 0"
  by (simp add: scan_pos_def)

lemma unat_drop_bit: "unat (drop_bit n w) = unat w div 2 ^ n"
proof -
  have "unat (drop_bit n w) = drop_bit n (unat w)"
    by (rule bit_eqI) (auto simp: bit_simps dest: bit_imp_le_length)
  then show ?thesis by (simp only: drop_bit_eq_div)
qed

lemma unat_mask: "n \<le> 64 \<Longrightarrow> unat (mask n :: u64) = 2 ^ n - 1"
proof -
  assume "n \<le> 64"
  then have "(2 :: nat) ^ n \<le> 2 ^ 64" by (rule power_increasing) simp
  then have "mask n < (2 :: nat) ^ 64" by (rule less_le_trans [OF mask_nat_less_exp])
  then have "unat (of_nat (mask n) :: u64) = mask n" using unat_of_nat_small [of "mask n", where 'a = 64] by simp
  then have "unat (mask n :: u64) = mask n" by (simp only: of_nat_mask_eq)
  also have "\<dots> = 2 ^ n - 1" by (rule mask_eq_exp_minus_1)
  finally show ?thesis .
qed

lemma scan_pos_less: "scan_pos x < 2 ^ 64"
  using unsigned_less [of "word_reverse x", where 'a = nat] by (simp add: scan_pos_def)

lemma unat_or_mask:
  fixes w :: u64
  shows "unat (w OR mask n) = unat w div 2 ^ n * 2 ^ n + unat (mask n :: u64)"
proof -
  have "w OR mask n = push_bit n (drop_bit n w) OR mask n" by (auto simp: bit_eq_iff bit_simps)
  then have "unat (w OR mask n) = unat (push_bit n (drop_bit n w)) OR unat (mask n :: u64)"
    by (simp add: unsigned_or_eq)
  also have "\<dots> = unat (push_bit n (drop_bit n w)) + unat (mask n :: u64)"
    by (rule disjunctive_add_eq_or [symmetric]) (auto simp: bit_eq_iff bit_simps)
  also have "unat (push_bit n (drop_bit n w)) = push_bit n (drop_bit n (unat w))"
  proof (rule bit_eqI)
    fix m
    show "bit (unat (push_bit n (drop_bit n w))) m \<longleftrightarrow> bit (push_bit n (drop_bit n (unat w))) m"
      by (auto simp: bit_simps dest: bit_imp_le_length)
  qed
  finally show ?thesis by (simp add: push_bit_eq_mult drop_bit_eq_div)
qed

lemma rev_or_mask:
  "0 < a \<Longrightarrow> a \<le> 31 \<Longrightarrow> word_reverse (v OR NOT (mask a)) = (word_reverse v OR mask (64 - a) :: u64)"
  by (intro bit_word_eqI) (auto simp: bit_simps)

text \<open>The increment of the reversed cursor moves to the next multiple of the block size.\<close>

lemma finish_pos:
  assumes "0 < a" "a \<le> 31" "v' = dict_rev (dict_rev (v OR NOT (mask a)) + 1)" "B = 2 ^ (64 - a)"
  shows "(if v' = 0 then (scan_pos v div B + 1) * B = 2 ^ 64 else scan_pos v' = (scan_pos v div B + 1) * B)"
    "unat v' < 2 ^ a"
proof -
  let ?r = "word_reverse v OR mask (64 - a) :: u64"
  have v': "v' = word_reverse (?r + 1)"
    by (simp add: assms(3) dict_rev_reverse rev_or_mask [OF assms(1,2)])
  have "unat (mask (64 - a) :: u64) = 2 ^ (64 - a) - 1" by (rule unat_mask) simp
  then have ur: "unat ?r + 1 = (scan_pos v div B + 1) * B"
    using unat_or_mask [of "word_reverse v" "64 - a"] by (simp add: scan_pos_def assms(4))
  show "(if v' = 0 then (scan_pos v div B + 1) * B = 2 ^ 64 else scan_pos v' = (scan_pos v div B + 1) * B)"
  proof (cases "unat ?r + 1 = 2 ^ 64")
    case True
    then have "?r + 1 = 0" by (simp add: unat_eq_zero [symmetric] unat_word_ariths del: unat_eq_zero)
    then have "v' = 0" using v' by simp
    then show ?thesis using True ur by simp
  next
    case False
    then have lt: "unat ?r + 1 < 2 ^ 64" using unat64_less [of ?r] by linarith
    then have "unat (?r + 1) = unat ?r + 1" by (simp add: unat_word_ariths)
    then have pos: "scan_pos v' = (scan_pos v div B + 1) * B" using ur by (simp add: scan_pos_def v')
    moreover have "0 < (scan_pos v div B + 1) * B" using assms(4) by simp
    ultimately have "v' \<noteq> 0" using scan_pos_0 by (metis less_not_refl)
    then show ?thesis using pos by simp
  qed
  have "take_bit (64 - a) (?r + 1) = 0"
  proof -
    have "unat (?r + 1) = (unat ?r + 1) mod 2 ^ 64" by (simp add: unat_word_ariths)
    then have "unat (?r + 1) mod 2 ^ (64 - a) = (unat ?r + 1) mod 2 ^ (64 - a)"
      using le_imp_power_dvd [of "64 - a" 64 "2 :: nat"] by (simp add: mod_mod_cancel)
    also have "\<dots> = 0" using ur assms(4) by simp
    finally show ?thesis
      by (metis take_bit_eq_mask unat_and_mask unat_eq_zero)
  qed
  then have zero: "\<not> bit (?r + 1) n" if "n < 64 - a" for n
    using that by (metis bit_take_bit_iff bit_0_eq bot_apply bot_bool_def)
  have "v' = take_bit a v'"
  proof (rule bit_word_eqI)
    fix n assume "n < LENGTH(64)"
    then show "bit v' n \<longleftrightarrow> bit (take_bit a v') n"
      using zero [of "63 - n"] by (cases "n < a") (auto simp: v' bit_simps)
  qed
  then have "unat v' = unat v' mod 2 ^ a" by (metis take_bit_eq_mask unat_and_mask)
  moreover have "unat v' mod 2 ^ a < 2 ^ a" by simp
  ultimately show "unat v' < 2 ^ a" by linarith
qed

text \<open>Hashes in the block of the cursor agree with it on the bits the small table uses.\<close>

lemma block_bits:
  assumes "0 < a" "a \<le> 31" "scan_pos h div 2 ^ (64 - a) = scan_pos v div 2 ^ (64 - a)"
  shows "unat h mod 2 ^ a = unat v mod 2 ^ a"
proof -
  have "drop_bit (64 - a) (word_reverse h) = drop_bit (64 - a) (word_reverse v)"
    using assms(3) by (simp only: scan_pos_def word_unat_eq_iff unat_drop_bit)
  then have "bit (drop_bit (64 - a) (word_reverse h)) n = bit (drop_bit (64 - a) (word_reverse v)) n" for n
    by (simp only:)
  then have eq: "bit (word_reverse h) (64 - a + n) \<longleftrightarrow> bit (word_reverse v) (64 - a + n)" for n
    by (simp only: bit_drop_bit_eq comp_apply)
  have "take_bit a h = take_bit a v"
  proof (rule bit_word_eqI)
    fix n assume "n < LENGTH(64)"
    then show "bit (take_bit a h) n \<longleftrightarrow> bit (take_bit a v) n"
      using eq [of "a - 1 - n"] assms(1,2) by (auto simp: bit_simps)
  qed
  then show ?thesis by (metis take_bit_eq_mask unat_and_mask)
qed

definition min_size :: "('k, 'v) dict \<Rightarrow> nat" where
  "min_size d = (if dictIsRehashing d then min (htsize (ht0 d)) (htsize (ht1 d)) else htsize (ht0 d))"

lemma entry_bucket:
  assumes "ht_inv hash t" "(k, x) \<in> set (concat (table t))"
  shows "(k, x) \<in> set (table t ! (unat (hash k) mod htsize t))"
proof -
  obtain i where i: "i < length (table t)" "(k, x) \<in> set (table t ! i)"
    using assms(2) by (auto simp: in_set_conv_nth [of _ "table t"])
  then have "hash_index (hash (fst (k, x))) t = i"
  proof -
    have "\<forall>i<htsize t. \<forall>e\<in>set (table t ! i). hash_index (hash (fst e)) t = i"
      using assms(1) by (simp add: ht_inv_def)
    moreover have "i < htsize t" using i(1) ht_inv_size(4) [OF assms(1)] by simp
    ultimately show ?thesis using i(2) by blast
  qed
  then show ?thesis using i(2) by (simp add: hash_index_mod [OF assms(1)])
qed

lemma bucket_subset: "ht_inv hash t \<Longrightarrow> set (table t ! (n mod htsize t)) \<subseteq> set (concat (table t))"
  using ht_inv_size(3,4) [of hash t] by (auto intro!: bexI nth_mem)

text \<open>A call, with the smaller table of \<open>2 ^ a\<close> buckets.\<close>

lemma dictScan_emits:
  assumes "dict_inv d" "dictSize d \<noteq> 0"
  obtains a v1 es where "0 < a" "a \<le> 31" "min_size d = 2 ^ a"
    "dictScan d v = Some (dict_rev (dict_rev (v1 OR NOT (mask a)) + 1), es)" "take_bit a v1 = take_bit a v"
    "set es \<subseteq> set (entries d)"
    "\<And>k x. (k, x) \<in> set (entries d) \<Longrightarrow> unat (dictHashKey d k) mod 2 ^ a = unat v mod 2 ^ a
       \<Longrightarrow> (dictIsRehashing d \<longrightarrow> unat v < 2 ^ a) \<Longrightarrow> (k, x) \<in> set es"
proof (cases "dictIsRehashing d")
  case False
  have "htsize (ht0 d) \<noteq> 0"
    using assms ht_inv_size(3) False by (auto simp: dict_inv_def dictSize_def dictReset_def)
  then have inv: "ht_inv (dictHashKey d) (ht0 d)" by (rule dict_inv_ht0 [OF assms(1)])
  then obtain a where a: "2 \<le> a" "a \<le> 31" "htsize (ht0 d) = 2 ^ a" "sizemask (ht0 d) = mask a"
    by (rule ht_inv_mask)
  have ent: "entries d = concat (table (ht0 d))"
    using assms(1) False by (simp add: entries_def dict_inv_def dictReset_def)
  let ?es = "table (ht0 d) ! (unat v mod 2 ^ a)"
  have "dictScan d v = Some (dict_rev (dict_rev (v OR NOT (mask a)) + 1), ?es)"
    using assms(2) False a(4) unat_and_mask [of v a] by (simp add: dictScan_def Let_def)
  moreover have "set ?es \<subseteq> set (entries d)" using bucket_subset [OF inv, of "unat v"] by (simp only: a(3) ent)
  moreover have "(k, x) \<in> set ?es"
    if "(k, x) \<in> set (entries d)" "unat (dictHashKey d k) mod 2 ^ a = unat v mod 2 ^ a" for k x
    using entry_bucket [OF inv, of k x] that by (simp add: ent a(3))
  ultimately show ?thesis using that [of a v ?es] a False by (simp add: min_size_def)
next
  case True
  define t0 where "t0 = (if htsize (ht0 d) > htsize (ht1 d) then ht1 d else ht0 d)"
  define t1 where "t1 = (if htsize (ht0 d) > htsize (ht1 d) then ht0 d else ht1 d)"
  have inv: "ht_inv (dictHashKey d) t0" "ht_inv (dictHashKey d) t1"
    using assms(1) True by (simp_all add: dict_inv_def t0_def t1_def)
  obtain a where a: "2 \<le> a" "a \<le> 31" "htsize t0 = 2 ^ a" "sizemask t0 = mask a"
    using inv(1) by (rule ht_inv_mask)
  obtain b where b: "2 \<le> b" "b \<le> 31" "htsize t1 = 2 ^ b" "sizemask t1 = mask b"
    using inv(2) by (rule ht_inv_mask)
  have "htsize t0 \<le> htsize t1" by (simp add: t0_def t1_def)
  then have ab: "a \<le> b" by (simp add: a(3) b(3))
  have ent: "set (entries d) = set (concat (table t0)) \<union> set (concat (table t1))"
    by (auto simp: entries_def t0_def t1_def)
  have len: "length (table t1) = 2 ^ b" using ht_inv_size(4) [OF inv(2)] by (simp add: b(3))
  obtain w es where exp: "scan_expansions (table t1) (mask a) (mask b) v = Some (w, es)"
    "take_bit a w = take_bit a v"
    "\<forall>i<2 ^ b. i mod 2 ^ a = unat v mod 2 ^ a \<and> unat v mod 2 ^ b \<le> i \<longrightarrow> set (table t1 ! i) \<subseteq> set es"
    "set es \<subseteq> set (concat (table t1))"
    using scan_expansions_ok [OF ab b(2), of "table t1" v] len by blast
  let ?es = "table t0 ! (unat v mod 2 ^ a) @ es"
  have "dictScan d v = Some (dict_rev (dict_rev (w OR NOT (mask a)) + 1), ?es)"
  proof -
    have "(if htsize (ht0 d) > htsize (ht1 d) then (ht1 d, ht0 d) else (ht0 d, ht1 d)) = (t0, t1)"
      by (simp add: t0_def t1_def)
    then show ?thesis
      using assms(2) True exp(1) by (simp add: dictScan_def Let_def a(4) b(4) unat_and_mask del: if_split)
  qed
  moreover have "set ?es \<subseteq> set (entries d)"
    using bucket_subset [OF inv(1), of "unat v"] exp(4) unfolding ent a(3) by auto
  moreover have "(k, x) \<in> set ?es"
    if "(k, x) \<in> set (entries d)" "unat (dictHashKey d k) mod 2 ^ a = unat v mod 2 ^ a" "unat v < 2 ^ a" for k x
  proof (cases "(k, x) \<in> set (concat (table t0))")
    case True
    then show ?thesis using entry_bucket [OF inv(1) True] that(2) by (simp add: a(3))
  next
    case False
    then have "(k, x) \<in> set (concat (table t1))" using that(1) ent by blast
    from entry_bucket [OF inv(2) this] have in1: "(k, x) \<in> set (table t1 ! (unat (dictHashKey d k) mod 2 ^ b))"
      by (simp add: b(3))
    have h: "unat (dictHashKey d k) mod 2 ^ b mod 2 ^ a = unat v mod 2 ^ a"
      using that(2) ab by (simp add: mod_mod_cancel le_imp_power_dvd)
    have "(2 :: nat) ^ a \<le> 2 ^ b" using ab by simp
    with that(3) have "unat v < 2 ^ b" by (rule less_le_trans)
    then have v: "unat v mod 2 ^ b = unat v" by simp
    have "unat v = unat (dictHashKey d k) mod 2 ^ b mod 2 ^ a" using that(3) h by simp
    then have "unat v \<le> unat (dictHashKey d k) mod 2 ^ b" by (metis mod_less_eq_dividend)
    then have "set (table t1 ! (unat (dictHashKey d k) mod 2 ^ b)) \<subseteq> set es" using exp(3) h v by simp
    then show ?thesis using in1 by auto
  qed
  moreover have "min_size d = 2 ^ a" using True a(3) by (auto simp: min_size_def t0_def min_def split: if_splits)
  ultimately show ?thesis using that [of a w ?es] a(1,2) exp(2) True by simp
qed

lemma scan_pos_cong:
  assumes "0 < a" "a \<le> 31" "take_bit a v1 = take_bit a v"
  shows "dict_rev (dict_rev (v1 OR NOT (mask a)) + 1) = dict_rev (dict_rev (v OR NOT (mask a)) + 1)"
proof -
  have "v1 OR NOT (mask a) = take_bit a v1 OR NOT (mask a)" by (auto simp: bit_eq_iff bit_simps)
  also have "\<dots> = v OR NOT (mask a)" unfolding assms(3) by (auto simp: bit_eq_iff bit_simps)
  finally show ?thesis by simp
qed

lemma dictScan_step:
  assumes "dict_inv d" "dictSize d \<noteq> 0"
  obtains v' es where "dictScan d v = Some (v', es)" "unat v' < min_size d" "set es \<subseteq> set (entries d)"
    "if v' = 0 then (scan_pos v div (2 ^ 64 div min_size d) + 1) * (2 ^ 64 div min_size d) = 2 ^ 64
     else scan_pos v' = (scan_pos v div (2 ^ 64 div min_size d) + 1) * (2 ^ 64 div min_size d)"
    "\<And>k x. (k, x) \<in> set (entries d) \<Longrightarrow> scan_pos v \<le> key_pos d k \<Longrightarrow> v' = 0 \<or> key_pos d k < scan_pos v'
       \<Longrightarrow> (dictIsRehashing d \<longrightarrow> unat v < min_size d) \<Longrightarrow> (k, x) \<in> set es"
proof -
  obtain a v1 es where scan: "0 < a" "a \<le> 31" "min_size d = 2 ^ a"
    "dictScan d v = Some (dict_rev (dict_rev (v1 OR NOT (mask a)) + 1), es)" "take_bit a v1 = take_bit a v"
    "set es \<subseteq> set (entries d)"
    "\<And>k x. (k, x) \<in> set (entries d) \<Longrightarrow> unat (dictHashKey d k) mod 2 ^ a = unat v mod 2 ^ a
       \<Longrightarrow> (dictIsRehashing d \<longrightarrow> unat v < 2 ^ a) \<Longrightarrow> (k, x) \<in> set es"
    by (rule dictScan_emits [OF assms, of v]) blast
  define v' where "v' = dict_rev (dict_rev (v OR NOT (mask a)) + 1)"
  have B: "2 ^ 64 div min_size d = 2 ^ (64 - a)"
    using scan(2,3) by (simp add: power_diff)
  note fin = finish_pos [OF scan(1,2) v'_def refl]
  have res: "dictScan d v = Some (v', es)" using scan(4) scan_pos_cong [OF scan(1,2,5)] by (simp add: v'_def)
  have cover: "(k, x) \<in> set es"
    if k: "(k, x) \<in> set (entries d)" "scan_pos v \<le> key_pos d k" "v' = 0 \<or> key_pos d k < scan_pos v'"
      "dictIsRehashing d \<longrightarrow> unat v < min_size d" for k x
  proof -
    let ?B = "(2 :: nat) ^ (64 - a)"
    have "key_pos d k < (scan_pos v div ?B + 1) * ?B"
      using fin(1) k(3) scan_pos_less [of "ucast (dictHashKey d k)"] by (auto simp: key_pos_def split: if_splits)
    then have "key_pos d k div ?B < scan_pos v div ?B + 1" by (simp add: div_less_iff_less_mult)
    moreover have "scan_pos v div ?B \<le> key_pos d k div ?B" using k(2) by (rule div_le_mono)
    ultimately have "key_pos d k div ?B = scan_pos v div ?B" by simp
    then have "unat (ucast (dictHashKey d k) :: u64) mod 2 ^ a = unat v mod 2 ^ a"
      unfolding key_pos_def by (rule block_bits [OF scan(1,2)])
    moreover have "unat (ucast (dictHashKey d k) :: u64) = unat (dictHashKey d k)" by (rule unat_ucast_up) simp
    ultimately show ?thesis using scan(3,7) k(1,4) by simp
  qed
  show ?thesis
    by (rule that [OF res fin(2) [folded scan(3)] scan(6) fin(1) [folded B] cover])
qed

section \<open>Complete iterations\<close>

text \<open>Successive calls, each on the table as it is by then.\<close>

fun scan_run :: "('k, 'v) dict list \<Rightarrow> u64 \<Rightarrow> (u64 \<times> ('k \<times> 'v) list) option" where
  "scan_run [] v = Some (v, [])"
| "scan_run (d # ds) v =
     Option.bind (dictScan d v) (\<lambda>(v', es).
       Option.bind (scan_run ds v') (\<lambda>(w, fs). Some (w, es @ fs)))"

definition growing :: "('k, 'v) dict \<Rightarrow> ('k, 'v) dict \<Rightarrow> bool" where
  "growing d d' \<longleftrightarrow> (dictIsRehashing d' \<longrightarrow> min_size d \<le> min_size d')"

lemma dict_present_size: "dict_inv d \<Longrightarrow> dmap d k \<noteq> None \<Longrightarrow> dictSize d \<noteq> 0"
  by (auto simp: used_entries dmap_def)

lemma scan_run_covers:
  assumes "\<forall>d\<in>set ds. dict_inv d \<and> dtype d = t \<and> dmap d k \<noteq> None" "successively growing ds"
    "ds \<noteq> [] \<and> dictIsRehashing (hd ds) \<longrightarrow> unat v < min_size (hd ds)"
  shows "\<exists>w es. scan_run ds v = Some (w, es)
    \<and> (ds \<noteq> [] \<and> scan_pos v \<le> scan_pos (ucast (hashFunction t k))
        \<and> (w = 0 \<or> scan_pos (ucast (hashFunction t k)) < scan_pos w) \<longrightarrow> k \<in> fst ` set es)"
  using assms
proof (induction ds arbitrary: v)
  case Nil
  then show ?case by simp
next
  case (Cons d ds)
  have d: "dict_inv d" "dtype d = t" "dmap d k \<noteq> None" using Cons.prems(1) by simp_all
  have kp: "key_pos d k = scan_pos (ucast (hashFunction t k))" by (simp add: key_pos_def dictHashKey_def d(2))
  obtain x where x: "(k, x) \<in> set (entries d)" using d(3) by (auto simp: dmap_def dest: map_of_SomeD)
  obtain v' es where step: "dictScan d v = Some (v', es)" "unat v' < min_size d"
    "scan_pos v \<le> key_pos d k \<Longrightarrow> v' = 0 \<or> key_pos d k < scan_pos v' \<Longrightarrow> (k, x) \<in> set es"
    using dictScan_step [OF d(1) dict_present_size [OF d(1,3)], of v] Cons.prems(3) x by (metis list.sel(1) list.discI)
  have next_ok: "ds \<noteq> [] \<and> dictIsRehashing (hd ds) \<longrightarrow> unat v' < min_size (hd ds)"
    using Cons.prems(2) step(2) by (cases ds) (auto simp: growing_def)
  have "successively growing ds" using Cons.prems(2) by (cases ds) auto
  from Cons.IH [OF _ this next_ok] Cons.prems(1) obtain w fs where run: "scan_run ds v' = Some (w, fs)"
    "ds \<noteq> [] \<and> scan_pos v' \<le> key_pos d k \<and> (w = 0 \<or> key_pos d k < scan_pos w) \<longrightarrow> k \<in> fst ` set fs"
    by (auto simp: kp)
  have "k \<in> fst ` set (es @ fs)" if "scan_pos v \<le> key_pos d k" "w = 0 \<or> key_pos d k < scan_pos w"
  proof (cases "v' = 0 \<or> key_pos d k < scan_pos v'")
    case True
    then show ?thesis using step(3) [OF that(1)] by force
  next
    case False
    then show ?thesis using run that(2) by (cases ds) auto
  qed
  then show ?case using step(1) run(1) by (auto simp: kp)
qed

lemma scan_run_complete:
  assumes "ds \<noteq> []" "\<forall>d\<in>set ds. dict_inv d \<and> dtype d = t \<and> dmap d k \<noteq> None" "successively growing ds"
  shows "\<exists>w es. scan_run ds 0 = Some (w, es) \<and> (w = 0 \<longrightarrow> k \<in> fst ` set es)"
proof -
  have hd: "dict_inv (hd ds)" "dmap (hd ds) k \<noteq> None" using assms(1,2) by simp_all
  obtain v' es where "unat (v' :: u64) < min_size (hd ds)"
    using dictScan_step [OF hd(1) dict_present_size [OF hd], of 0] by metis
  then have "unat (0 :: u64) < min_size (hd ds)" by simp
  then show ?thesis using scan_run_covers [OF assms(2,3), of 0] assms(1) by auto
qed

text \<open>
  C8: the promise of \<open>dictScan\<close>.  Call it repeatedly, starting from cursor 0 and until it
  returns 0, while the table is modified in any way between the calls, rehashed and resized
  included, except that a rehash under way never has a smaller table than the call before saw.
  Then no call loops, and every key that was in the table during the whole iteration has been
  emitted.
\<close>

theorem dictScan_complete:
  assumes "ds \<noteq> []" "\<forall>d\<in>set ds. dict_inv d \<and> dtype d = t \<and> dmap d k \<noteq> None" "successively growing ds"
  shows "\<exists>w es. scan_run ds 0 = Some (w, es) \<and> (w = 0 \<longrightarrow> k \<in> fst ` set es)"
  by (rule scan_run_complete [OF assms])

text \<open>Integers as keys that are their own hash, for concrete tables.\<close>

definition u32_type :: "u32 dictType" where
  "u32_type = \<lparr>hashFunction = (\<lambda>k. k), keyCompare = (=)\<rparr>"

definition scan_dict1 :: "(u32, nat) dict" where
  "scan_dict1 = fst (dictAdd True 0 (fst (dictAdd True 0 (fst (dictExpand (dictCreate u32_type) 16)) 0 10)) 4 40)"

definition scan_dict2 :: "(u32, nat) dict" where
  "scan_dict2 = fst (dictResize True scan_dict1)"

lemma dictNextPower_values: "dictNextPower 16 = 16" "dictNextPower 4 = 4"
  by (simp_all add: dictNextPower_def LONG_MAX_def DICT_HT_INITIAL_SIZE_def dictNextPower_loop.simps)

lemma scan_dict1_value: "scan_dict1 = \<lparr>dtype = u32_type,
    ht0 = \<lparr>table = (replicate 16 [])[0 := [(0, 10)], 4 := [(4, 40)]],
           htsize = 16, sizemask = 15, used = 2\<rparr>,
    ht1 = dictReset, rehashidx = - 1, iterators = 0\<rparr>"
  by (simp add: scan_dict1_def dictNextPower_values dictExpand_def dictCreate_def dictReset_def
      dictIsRehashing_def dictAdd_def dictAddRaw_def dictKeyIndex_def dictExpandIfNeeded_def
      dictHashKey_def u32_type_def hash_index_def dictCompareKeys_def push_entry_def ht_set_val_def
      nth_list_update)

lemma scan_dict2_value: "scan_dict2 = \<lparr>dtype = u32_type,
    ht0 = \<lparr>table = (replicate 16 [])[0 := [(0, 10)], 4 := [(4, 40)]],
           htsize = 16, sizemask = 15, used = 2\<rparr>,
    ht1 = \<lparr>table = replicate 4 [], htsize = 4, sizemask = 3, used = 0\<rparr>, rehashidx = 0, iterators = 0\<rparr>"
  by (simp add: scan_dict2_def scan_dict1_value dictNextPower_values dictResize_def dictIsRehashing_def
      dictExpand_def DICT_HT_INITIAL_SIZE_def)

lemma scan_dict1_inv: "dict_inv scan_dict1" "dtype scan_dict1 = u32_type" "dmap scan_dict1 = [0 \<mapsto> 10, 4 \<mapsto> 40]"
proof -
  have type: "type_ok u32_type" by (simp add: type_ok_def u32_type_def)
  define d0 :: "(u32, nat) dict" where "d0 = dictCreate u32_type"
  obtain e ok where ex: "dictExpand d0 16 = (e, ok)" by fastforce
  have d0: "dict_inv d0" "dmap d0 = Map.empty" "dictSize d0 = 0" "dtype d0 = u32_type"
    by (simp_all add: d0_def dictCreate_ok [OF type]) (simp_all add: dictCreate_def dictSize_def dictReset_def)
  have e0: "dict_inv e" "same_dict d0 e" using dictExpand_ok [OF d0(1) _ ex] by simp_all
  have e: "dict_inv e" "dmap e = Map.empty" "dictSize e = 0" "dtype e = u32_type"
    using same_dict_step [OF d0(1)] e0 d0 by (simp_all add: same_dict_def)
  obtain f ok1 where add1: "dictAdd True 0 e 0 10 = (f, ok1)" by fastforce
  have f: "dict_inv f" "dmap f = [0 \<mapsto> 10]" "dictSize f = 1" "dtype f = u32_type"
    using dictAdd_ok [OF e(1) _ add1] e by simp_all
  obtain g ok2 where add2: "dictAdd True 0 f 4 40 = (g, ok2)" by fastforce
  have "scan_dict1 = g" using ex add1 add2 by (simp add: scan_dict1_def d0_def)
  then show "dict_inv scan_dict1" "dtype scan_dict1 = u32_type" "dmap scan_dict1 = [0 \<mapsto> 10, 4 \<mapsto> 40]"
    using dictAdd_ok [OF f(1) _ add2] f by simp_all
qed

lemma scan_dict2_inv: "dict_inv scan_dict2" "dtype scan_dict2 = u32_type" "dmap scan_dict2 = [0 \<mapsto> 10, 4 \<mapsto> 40]"
proof -
  have "dictSize scan_dict1 \<le> 2 ^ 30" by (simp add: scan_dict1_value dictSize_def dictReset_def)
  from dictResize_ok [OF scan_dict1_inv(1) this]
  have inv: "dict_inv scan_dict2" "same_dict scan_dict1 scan_dict2" by (simp_all add: scan_dict2_def)
  show "dict_inv scan_dict2" by (rule inv)
  show "dmap scan_dict2 = [0 \<mapsto> 10, 4 \<mapsto> 40]"
    using same_dict_dmap [OF scan_dict1_inv(1) inv(2)] scan_dict1_inv(3) by simp
  show "dtype scan_dict2 = u32_type" using inv(2) scan_dict1_inv(2) by (simp add: same_dict_def)
qed

theorem dictScan_complete_witness:
  "\<exists>w es. scan_run [scan_dict1, scan_dict1] 0 = Some (w, es) \<and> (w = 0 \<longrightarrow> 4 \<in> fst ` set es)"
  using dictScan_complete [of "[scan_dict1, scan_dict1]" u32_type 4] scan_dict1_inv
  by (simp add: growing_def)

lemma scan_run_static:
  assumes "dict_inv d" "dictSize d \<noteq> 0" "scan_pos v = j * (2 ^ 64 div min_size d)" "j + i \<le> min_size d" "0 < i"
  shows "\<exists>w es. scan_run (replicate i d) v = Some (w, es) \<and> set es \<subseteq> set (entries d)
    \<and> (if j + i = min_size d then w = 0 else scan_pos w = (j + i) * (2 ^ 64 div min_size d))"
  using assms(3-)
proof (induction i arbitrary: v j)
  case 0
  then show ?case by simp
next
  case (Suc i)
  let ?B = "(2 :: nat) ^ 64 div min_size d"
  obtain a where a: "0 < a" "a \<le> 31" "min_size d = 2 ^ a" using dictScan_emits [OF assms(1,2), of v] by metis
  have dvd: "(2 :: nat) ^ a dvd 2 ^ 64" using a(2) by (intro le_imp_power_dvd) simp
  have B: "?B = 2 ^ (64 - a)" unfolding a(3) using a(2) by (intro power_diff [symmetric]) simp_all
  have BB: "min_size d * ?B = 2 ^ 64" unfolding a(3) by (rule dvd_mult_div_cancel [OF dvd])
  obtain v' es where step: "dictScan d v = Some (v', es)" "set es \<subseteq> set (entries d)"
    "if v' = 0 then (scan_pos v div ?B + 1) * ?B = 2 ^ 64 else scan_pos v' = (scan_pos v div ?B + 1) * ?B"
    by (rule dictScan_step [OF assms(1,2), of v])
  have B0: "0 < ?B" unfolding B by simp
  then have j: "scan_pos v div ?B = j" unfolding Suc.prems(1) by (rule nonzero_mult_div_cancel_right [OF gr_implies_not0])
  have v': "if v' = 0 then (j + 1) * ?B = min_size d * ?B else scan_pos v' = (j + 1) * ?B"
    using step(3) by (cases "v' = 0") (simp_all only: j BB if_True if_False simp_thms)
  have end_iff: "v' = 0 \<longleftrightarrow> j + 1 = min_size d"
  proof
    assume "v' = 0"
    then have "(j + 1) * ?B = min_size d * ?B" using v' by simp
    then show "j + 1 = min_size d" by (simp only: mult_right_cancel [OF gr_implies_not0 [OF B0]])
  next
    assume last: "j + 1 = min_size d"
    have "scan_pos v' = 2 ^ 64" if "v' \<noteq> 0" using v' that by (simp only: last BB if_False)
    then show "v' = 0" using scan_pos_less [of v'] by (metis less_irrefl)
  qed
  show ?case
  proof (cases "i = 0")
    case True
    then show ?thesis using step v' end_iff by auto
  next
    case False
    then have "v' \<noteq> 0" using end_iff Suc.prems(2) by simp
    then have "scan_pos v' = (j + 1) * ?B" using v' by simp
    from Suc.IH [OF this] False Suc.prems(2) obtain w fs where
      "scan_run (replicate i d) v' = Some (w, fs)" "set fs \<subseteq> set (entries d)"
      "if j + 1 + i = min_size d then w = 0 else scan_pos w = (j + 1 + i) * ?B" by auto
    then show ?thesis using step(1,2) by auto
  qed
qed

text \<open>
  C13: on a table that does not change, the iteration takes exactly as many calls as the
  smaller table has buckets, no cursor before the last is 0, and the entries emitted are the
  entries of the table, none missing and none invented.
\<close>

theorem dictScan_static:
  assumes "dict_inv d" "dictSize d \<noteq> 0"
  shows "(\<exists>es. scan_run (replicate (min_size d) d) 0 = Some (0, es) \<and> set es = set (entries d))
    \<and> (\<forall>i. 0 < i \<and> i < min_size d \<longrightarrow> (\<exists>w es. scan_run (replicate i d) 0 = Some (w, es) \<and> w \<noteq> 0))"
proof -
  obtain a where a: "0 < a" "a \<le> 31" "min_size d = 2 ^ a" using dictScan_emits [OF assms, of 0] by metis
  have B: "2 ^ 64 div min_size d = 2 ^ (64 - a)" using a(2) by (simp add: a(3) power_diff)
  obtain es where es: "scan_run (replicate (min_size d) d) 0 = Some (0, es)" "set es \<subseteq> set (entries d)"
    using scan_run_static [OF assms, of 0 0 "min_size d"] a(3) by auto
  have "(k, x) \<in> set es" if kx: "(k, x) \<in> set (entries d)" for k x
  proof -
    have dist: "distinct (map fst (entries d))" using assms(1) by (simp add: dict_inv_def)
    then have present: "dmap d k \<noteq> None" using kx by (simp add: dmap_def)
    have "successively growing (replicate n d)" for n
    proof (induction n)
      case (Suc n)
      then show ?case by (cases n) (simp_all add: growing_def)
    qed simp
    moreover have "replicate (min_size d) d \<noteq> []" using a(3) by simp
    ultimately have "k \<in> fst ` set es"
      using scan_run_complete [of "replicate (min_size d) d" "dtype d" k] assms(1) present es(1) by auto
    then obtain y where "(k, y) \<in> set es" by auto
    then show ?thesis using es(2) kx dist by (metis eq_key_imp_eq_value subsetD)
  qed
  then have "set es = set (entries d)" using es(2) by auto
  moreover have "\<exists>w es. scan_run (replicate i d) 0 = Some (w, es) \<and> w \<noteq> 0" if i: "0 < i" "i < min_size d" for i
  proof -
    obtain w es where "scan_run (replicate i d) 0 = Some (w, es)" "scan_pos w = i * (2 ^ 64 div min_size d)"
      using scan_run_static [OF assms, of 0 0 i] less_imp_le [OF i(2)] i by auto
    moreover have "0 < i * (2 ^ 64 div min_size d)" unfolding B using i(1) by simp
    ultimately show ?thesis using scan_pos_0 by (metis less_not_refl)
  qed
  ultimately show ?thesis using es(1) by blast
qed

theorem dictScan_static_witness:
  "\<exists>es. scan_run (replicate 16 scan_dict1) 0 = Some (0, es) \<and> set es = set (entries scan_dict1)"
proof -
  have "min_size scan_dict1 = 16" "dictSize scan_dict1 \<noteq> 0"
    by (simp_all add: min_size_def scan_dict1_value dictIsRehashing_def dictSize_def)
  then show ?thesis using dictScan_static [OF scan_dict1_inv(1)] by simp
qed

section \<open>A shrinking table\<close>

lemma next_cursor:
  assumes "0 < a" "a \<le> 31" "(word_reverse v OR mask (64 - a)) + 1 = word_reverse v'"
  shows "dict_rev (dict_rev (v OR NOT (mask a)) + 1) = v'"
  by (simp add: dict_rev_reverse rev_or_mask [OF assms(1,2)] assms(3))

lemma word_reverse_exp: "n < 64 \<Longrightarrow> word_reverse (2 ^ n :: u64) = 2 ^ (63 - n)"
  by (rule bit_word_eqI) (auto simp: bit_simps)

lemma word_reverse_or: "word_reverse (x OR y :: u64) = word_reverse x OR word_reverse y"
  by (rule bit_word_eqI) (auto simp: bit_simps)

lemma word_reverse_values: "word_reverse (8 :: u64) = 2 ^ 60" "word_reverse (2 :: u64) = 2 ^ 62"
  "word_reverse (1 :: u64) = 2 ^ 63" "word_reverse (3 :: u64) = 2 ^ 62 OR 2 ^ 63"
  using word_reverse_exp [of 3] word_reverse_exp [of 1] word_reverse_exp [of 0] word_reverse_or [of 2 1]
  by simp_all

lemma next_cursor_values:
  "dict_rev (dict_rev (0 OR NOT (mask 4)) + 1) = 8" "dict_rev (dict_rev (0 OR NOT (mask 2)) + 1) = 2"
  "dict_rev (dict_rev (2 OR NOT (mask 2)) + 1) = 1" "dict_rev (dict_rev (1 OR NOT (mask 2)) + 1) = 3"
  "dict_rev (dict_rev (3 OR NOT (mask 2)) + 1) = 0"
  by (rule next_cursor; simp add: word_reverse_values mask_eq_exp_minus_1)+

lemma scan_dict1_first: "dictScan scan_dict1 0 = Some (8, [(0, 10)])"
proof -
  have "sizemask (ht0 scan_dict1) = mask 4" by (simp add: scan_dict1_value mask_eq_exp_minus_1)
  moreover have "table (ht0 scan_dict1) ! 0 = [(0, 10)]" "dictSize scan_dict1 \<noteq> 0" "\<not> dictIsRehashing scan_dict1"
    by (simp_all add: scan_dict1_value dictSize_def dictIsRehashing_def)
  ultimately show ?thesis
    unfolding dictScan_def Let_def by (simp only: next_cursor_values unat_and_mask if_False if_True simp_thms) simp
qed

lemma scan_dict2_call:
  assumes "scan_expansions (table (ht0 scan_dict2)) (mask 2) (mask 4) v = Some (w, es)"
    "dict_rev (dict_rev (w OR NOT (mask 2)) + 1) = v'"
  shows "dictScan scan_dict2 v = Some (v', es)"
proof -
  have "sizemask (ht0 scan_dict2) = mask 4" "sizemask (ht1 scan_dict2) = mask 2"
    by (simp_all add: scan_dict2_value mask_eq_exp_minus_1)
  moreover have "table (ht1 scan_dict2) ! (unat v mod 2 ^ 2) = []" by (simp add: scan_dict2_value)
  moreover have "dictSize scan_dict2 \<noteq> 0" "dictIsRehashing scan_dict2"
    "htsize (ht0 scan_dict2) > htsize (ht1 scan_dict2)"
    by (simp_all add: scan_dict2_value dictSize_def dictIsRehashing_def)
  ultimately show ?thesis using assms by (simp add: dictScan_def unat_and_mask)
qed

lemma shrinking_empty: "i \<noteq> 0 \<Longrightarrow> i \<noteq> 4 \<Longrightarrow> i < 16 \<Longrightarrow> table (ht0 scan_dict2) ! i = []"
  by (simp add: scan_dict2_value)

lemma scan_dict2_calls:
  "dictScan scan_dict2 8 = Some (2, [])" "dictScan scan_dict2 2 = Some (1, [])"
  "dictScan scan_dict2 1 = Some (3, [])" "dictScan scan_dict2 3 = Some (0, [])"
proof -
  have cong: "dict_rev (dict_rev (v OR NOT (mask 2)) + 1) = c"
    if "dict_rev (dict_rev (u OR NOT (mask 2)) + 1) = c" "take_bit 2 v = take_bit 2 u" for u v c :: u64
    using scan_pos_cong [of 2 v u] that by simp
  note unroll = scan_expansions_unfold [of 2 4] and cursors = next_cursor_values(2-)
  show "dictScan scan_dict2 8 = Some (2, [])"
    by (rule scan_dict2_call [of 8 16], simp_all add: unroll shrinking_empty)
      (rule cong [OF cursors(1)], simp)
  show "dictScan scan_dict2 2 = Some (1, [])"
    by (rule scan_dict2_call [of 2 18], simp_all add: unroll shrinking_empty)
      (rule cong [OF cursors(2)], simp)
  show "dictScan scan_dict2 1 = Some (3, [])"
    by (rule scan_dict2_call [of 1 17], simp_all add: unroll shrinking_empty)
      (rule cong [OF cursors(3)], simp)
  show "dictScan scan_dict2 3 = Some (0, [])"
    by (rule scan_dict2_call [of 3 19], simp_all add: unroll shrinking_empty)
      (rule cong [OF cursors(4)], simp)
qed

text \<open>
  C14: while a table shrinks the promise does not hold.  In a table of 16 buckets with the keys
  0 and 4, the first call emits bucket 0 and returns cursor 8.  The table is then resized to
  its 2 elements, which starts a rehash to 4 buckets.  The remaining calls, all on this
  table, expand the cursor only upwards and pass over bucket 4: the iteration ends without
  having emitted key 4, which is in the table all the time.
\<close>

theorem dictScan_misses_when_shrinking:
  "scan_run [scan_dict1, scan_dict2, scan_dict2, scan_dict2, scan_dict2] 0 = Some (0, [(0, 10)])
   \<and> dict_inv scan_dict1 \<and> dict_inv scan_dict2 \<and> scan_dict2 = fst (dictResize True scan_dict1)
   \<and> dmap scan_dict1 4 = Some 40 \<and> dmap scan_dict2 4 = Some 40"
  using scan_dict1_inv scan_dict2_inv
  by (simp add: scan_dict1_first scan_dict2_calls flip: scan_dict2_def)

end
