(* ===== verification/Adlist.thy ===== *)
theory Adlist
  imports Interfaces "HOL-Library.Monad_Syntax"
begin

text \<open>
  The doubly linked lists of \<open>adlist.c\<close> on an explicit heap.  A pointer is an optional
  address (\<open>None\<close> is \<open>NULL\<close>), the store maps the allocated addresses to nodes and logs the
  values handed to the list's \<open>free\<close> method.  Every operation is partial: its result \<open>None\<close>
  is a dereference of \<open>NULL\<close> or of memory that is not allocated, or a walk that never ends.
  The address a \<open>zmalloc\<close> returns is an argument, \<open>None\<close> when it fails.
\<close>

section \<open>Model\<close>

type_synonym addr = nat

record 'a listNode =
  nprev :: "addr option"
  nnext :: "addr option"
  nvalue :: 'a

record 'a store =
  nodes :: "addr \<rightharpoonup> 'a listNode"
  freed :: "'a list"

record 'a adlist =
  lhead :: "addr option"
  ltail :: "addr option"
  ldup :: "('a \<Rightarrow> 'a option) option"
  lfree :: bool
  lmatch :: "('a \<Rightarrow> 'a \<Rightarrow> bool) option"
  llen :: nat

record listIter =
  inext :: "addr option"
  from_head :: bool

definition deref :: "'a store \<Rightarrow> addr option \<Rightarrow> 'a listNode option" where
  "deref s p = Option.bind p (nodes s)"

definition put_node :: "addr \<Rightarrow> 'a listNode \<Rightarrow> 'a store \<Rightarrow> 'a store" where
  "put_node a n s = s\<lparr>nodes := (nodes s)(a \<mapsto> n)\<rparr>"

definition set_prev :: "addr option \<Rightarrow> addr option \<Rightarrow> 'a store \<Rightarrow> 'a store option" where
  "set_prev p q s = do { a \<leftarrow> p; n \<leftarrow> nodes s a; Some (put_node a (n\<lparr>nprev := q\<rparr>) s) }"

definition set_next :: "addr option \<Rightarrow> addr option \<Rightarrow> 'a store \<Rightarrow> 'a store option" where
  "set_next p q s = do { a \<leftarrow> p; n \<leftarrow> nodes s a; Some (put_node a (n\<lparr>nnext := q\<rparr>) s) }"

definition zfree :: "addr option \<Rightarrow> 'a store \<Rightarrow> 'a store option" where
  "zfree p s = do { a \<leftarrow> p; n \<leftarrow> nodes s a; Some (s\<lparr>nodes := (nodes s)(a := None)\<rparr>) }"

definition call_free :: "'a adlist \<Rightarrow> 'a \<Rightarrow> 'a store \<Rightarrow> 'a store" where
  "call_free l v s = (if lfree l then s\<lparr>freed := freed s @ [v]\<rparr> else s)"

definition listCreate :: "'a adlist" where
  "listCreate = \<lparr>lhead = None, ltail = None, ldup = None, lfree = False, lmatch = None, llen = 0\<rparr>"

fun listRelease_loop :: "nat \<Rightarrow> 'a adlist \<Rightarrow> addr option \<Rightarrow> 'a store \<Rightarrow> 'a store option" where
  "listRelease_loop 0 l current s = Some s"
| "listRelease_loop (Suc len) l current s =
    do { n \<leftarrow> deref s current;
         s \<leftarrow> zfree current (call_free l (nvalue n) s);
         listRelease_loop len l (nnext n) s }"

definition listRelease :: "'a adlist \<Rightarrow> 'a store \<Rightarrow> 'a store option" where
  "listRelease l s = listRelease_loop (llen l) l (lhead l) s"

text \<open>The flag of the result is false where the code returns \<open>NULL\<close>.\<close>

definition listAddNodeHead :: "addr option \<Rightarrow> 'a adlist \<Rightarrow> 'a \<Rightarrow> 'a store \<Rightarrow> ('a adlist \<times> 'a store \<times> bool) option" where
  "listAddNodeHead fresh l v s =
    (case fresh of
       None \<Rightarrow> Some (l, s, False)
     | Some node \<Rightarrow>
         if llen l = 0 then
           Some (l\<lparr>lhead := Some node, ltail := Some node, llen := llen l + 1\<rparr>,
                 put_node node \<lparr>nprev = None, nnext = None, nvalue = v\<rparr> s, True)
         else do {
           let s = put_node node \<lparr>nprev = None, nnext = lhead l, nvalue = v\<rparr> s;
           s \<leftarrow> set_prev (lhead l) (Some node) s;
           Some (l\<lparr>lhead := Some node, llen := llen l + 1\<rparr>, s, True) })"

definition listAddNodeTail :: "addr option \<Rightarrow> 'a adlist \<Rightarrow> 'a \<Rightarrow> 'a store \<Rightarrow> ('a adlist \<times> 'a store \<times> bool) option" where
  "listAddNodeTail fresh l v s =
    (case fresh of
       None \<Rightarrow> Some (l, s, False)
     | Some node \<Rightarrow>
         if llen l = 0 then
           Some (l\<lparr>lhead := Some node, ltail := Some node, llen := llen l + 1\<rparr>,
                 put_node node \<lparr>nprev = None, nnext = None, nvalue = v\<rparr> s, True)
         else do {
           let s = put_node node \<lparr>nprev = ltail l, nnext = None, nvalue = v\<rparr> s;
           s \<leftarrow> set_next (ltail l) (Some node) s;
           Some (l\<lparr>ltail := Some node, llen := llen l + 1\<rparr>, s, True) })"

definition listInsertNode :: "addr option \<Rightarrow> 'a adlist \<Rightarrow> addr option \<Rightarrow> 'a \<Rightarrow> bool \<Rightarrow> 'a store
    \<Rightarrow> ('a adlist \<times> 'a store \<times> bool) option" where
  "listInsertNode fresh l old_node v after s =
    (case fresh of
       None \<Rightarrow> Some (l, s, False)
     | Some node \<Rightarrow> do {
         old \<leftarrow> deref s old_node;
         let n = (if after then \<lparr>nprev = old_node, nnext = nnext old, nvalue = v\<rparr>
                  else \<lparr>nprev = nprev old, nnext = old_node, nvalue = v\<rparr>);
         let s = put_node node n s;
         let l = (if after then (if ltail l = old_node then l\<lparr>ltail := Some node\<rparr> else l)
                  else (if lhead l = old_node then l\<lparr>lhead := Some node\<rparr> else l));
         s \<leftarrow> (if nprev n \<noteq> None then set_next (nprev n) (Some node) s else Some s);
         s \<leftarrow> (if nnext n \<noteq> None then set_prev (nnext n) (Some node) s else Some s);
         Some (l\<lparr>llen := llen l + 1\<rparr>, s, True) })"

definition unlink_prev :: "'a listNode \<Rightarrow> 'a adlist \<Rightarrow> 'a store \<Rightarrow> ('a adlist \<times> 'a store) option" where
  "unlink_prev n l s =
    (if nprev n \<noteq> None then do { s \<leftarrow> set_next (nprev n) (nnext n) s; Some (l, s) }
     else Some (l\<lparr>lhead := nnext n\<rparr>, s))"

definition unlink_next :: "'a listNode \<Rightarrow> 'a adlist \<Rightarrow> 'a store \<Rightarrow> ('a adlist \<times> 'a store) option" where
  "unlink_next n l s =
    (if nnext n \<noteq> None then do { s \<leftarrow> set_prev (nnext n) (nprev n) s; Some (l, s) }
     else Some (l\<lparr>ltail := nprev n\<rparr>, s))"

definition listDelNode :: "'a adlist \<Rightarrow> addr option \<Rightarrow> 'a store \<Rightarrow> ('a adlist \<times> 'a store) option" where
  "listDelNode l node s = do {
     n \<leftarrow> deref s node;
     (l, s) \<leftarrow> unlink_prev n l s;
     n \<leftarrow> deref s node;
     (l, s) \<leftarrow> unlink_next n l s;
     n \<leftarrow> deref s node;
     s \<leftarrow> zfree node (call_free l (nvalue n) s);
     Some (l\<lparr>llen := llen l - 1\<rparr>, s) }"

definition listGetIterator :: "'a adlist \<Rightarrow> bool \<Rightarrow> listIter" where
  "listGetIterator l start_head =
    \<lparr>inext = (if start_head then lhead l else ltail l), from_head = start_head\<rparr>"

definition listRewind :: "'a adlist \<Rightarrow> listIter" where
  "listRewind l = \<lparr>inext = lhead l, from_head = True\<rparr>"

definition listRewindTail :: "'a adlist \<Rightarrow> listIter" where
  "listRewindTail l = \<lparr>inext = ltail l, from_head = False\<rparr>"

definition listNext :: "listIter \<Rightarrow> 'a store \<Rightarrow> (addr option \<times> listIter) option" where
  "listNext it s =
    (case inext it of
       None \<Rightarrow> Some (None, it)
     | Some a \<Rightarrow> do { n \<leftarrow> nodes s a;
         Some (Some a, it\<lparr>inext := (if from_head it then nnext n else nprev n)\<rparr>) })"

text \<open>\<open>listDup\<close> takes a list of addresses from the allocator; when it is used up, \<open>zmalloc\<close> fails.\<close>

definition dup_value :: "'a adlist \<Rightarrow> 'a \<Rightarrow> 'a option" where
  "dup_value l v = (case ldup l of None \<Rightarrow> Some v | Some dup \<Rightarrow> dup v)"

partial_function (option) listDup_loop ::
  "'a adlist \<Rightarrow> listIter \<Rightarrow> addr list \<Rightarrow> 'a store \<Rightarrow> ('a adlist option \<times> 'a store) option" where
  "listDup_loop copy it fresh s = do {
     (node, it) \<leftarrow> listNext it s;
     if node = None then Some (Some copy, s)
     else do {
       n \<leftarrow> deref s node;
       case dup_value copy (nvalue n) of
         None \<Rightarrow> do { s \<leftarrow> listRelease copy s; Some (None, s) }
       | Some v \<Rightarrow> do {
           (copy, s, ok) \<leftarrow> listAddNodeTail (case fresh of [] \<Rightarrow> None | a # _ \<Rightarrow> Some a) copy v s;
           if ok then listDup_loop copy it (tl fresh) s
           else do { s \<leftarrow> listRelease copy s; Some (None, s) } } } }"

definition listDup :: "'a adlist \<Rightarrow> addr list \<Rightarrow> 'a store \<Rightarrow> ('a adlist option \<times> 'a store) option" where
  "listDup orig fresh s =
    listDup_loop (listCreate\<lparr>ldup := ldup orig, lfree := lfree orig, lmatch := lmatch orig\<rparr>)
      (listGetIterator orig True) fresh s"

definition matches :: "'a adlist \<Rightarrow> 'a \<Rightarrow> 'a \<Rightarrow> bool" where
  "matches l key v = (case lmatch l of Some m \<Rightarrow> m v key | None \<Rightarrow> key = v)"

partial_function (option) listSearchKey_loop ::
  "'a adlist \<Rightarrow> 'a \<Rightarrow> listIter \<Rightarrow> 'a store \<Rightarrow> addr option option" where
  "listSearchKey_loop l key it s = do {
     (node, it) \<leftarrow> listNext it s;
     if node = None then Some None
     else do {
       n \<leftarrow> deref s node;
       if matches l key (nvalue n) then Some node
       else listSearchKey_loop l key it s } }"

definition listSearchKey :: "'a adlist \<Rightarrow> 'a \<Rightarrow> 'a store \<Rightarrow> addr option option" where
  "listSearchKey l key s = listSearchKey_loop l key (listGetIterator l True) s"

fun walk :: "('a listNode \<Rightarrow> addr option) \<Rightarrow> nat \<Rightarrow> addr option \<Rightarrow> 'a store \<Rightarrow> addr option option" where
  "walk link 0 p s = Some p"
| "walk link (Suc i) p s =
    (case p of None \<Rightarrow> Some None
     | Some a \<Rightarrow> do { n \<leftarrow> nodes s a; walk link i (link n) s })"

text \<open>The negation of the least \<open>long\<close> overflows, which is undefined.\<close>

definition listIndex :: "'a adlist \<Rightarrow> int \<Rightarrow> 'a store \<Rightarrow> addr option option" where
  "listIndex l index s =
    (if index < 0 then
       if index = - (2 ^ 63) then None
       else walk nprev (nat (- index - 1)) (ltail l) s
     else walk nnext (nat index) (lhead l) s)"

definition listRotate :: "'a adlist \<Rightarrow> 'a store \<Rightarrow> ('a adlist \<times> 'a store) option" where
  "listRotate l s =
    (if llen l \<le> 1 then Some (l, s)
     else do {
       let tail = ltail l;
       t \<leftarrow> deref s tail;
       let l = l\<lparr>ltail := nprev t\<rparr>;
       s \<leftarrow> set_next (ltail l) None s;
       s \<leftarrow> set_prev (lhead l) tail s;
       s \<leftarrow> set_prev tail None s;
       s \<leftarrow> set_next tail (lhead l) s;
       Some (l\<lparr>lhead := tail\<rparr>, s) })"

section \<open>The shape of a list\<close>

fun first_or :: "addr list \<Rightarrow> addr option \<Rightarrow> addr option" where
  "first_or [] q = q"
| "first_or (a # _) q = Some a"

definition last_or :: "addr list \<Rightarrow> addr option \<Rightarrow> addr option" where
  "last_or ps q = (if ps = [] then q else Some (last ps))"

text \<open>\<open>seg s p ps vs q\<close>: the nodes \<open>ps\<close> hold \<open>vs\<close>, are linked both ways, and lie between \<open>p\<close> and \<open>q\<close>.\<close>

fun seg :: "'a store \<Rightarrow> addr option \<Rightarrow> addr list \<Rightarrow> 'a list \<Rightarrow> addr option \<Rightarrow> bool" where
  "seg s p [] [] q = True"
| "seg s p (a # ps) (v # vs) q =
    (nodes s a = Some \<lparr>nprev = p, nnext = first_or ps q, nvalue = v\<rparr> \<and> seg s (Some a) ps vs q)"
| "seg s p _ _ q = False"

definition dll :: "'a adlist \<Rightarrow> 'a store \<Rightarrow> addr list \<Rightarrow> 'a list \<Rightarrow> bool" where
  "dll l s ps vs \<longleftrightarrow> distinct ps \<and> seg s None ps vs None
     \<and> lhead l = first_or ps None \<and> ltail l = last_or ps None \<and> llen l = length ps"

text \<open>Nothing outside \<open>A\<close> has changed, and nothing was freed through the method.\<close>

definition unchanged :: "addr set \<Rightarrow> 'a store \<Rightarrow> 'a store \<Rightarrow> bool" where
  "unchanged A s s' \<longleftrightarrow> (\<forall>x. x \<notin> A \<longrightarrow> nodes s' x = nodes s x)"

definition same_methods :: "'a adlist \<Rightarrow> 'a adlist \<Rightarrow> bool" where
  "same_methods l l' \<longleftrightarrow> ldup l' = ldup l \<and> lfree l' = lfree l \<and> lmatch l' = lmatch l"

lemma last_or_simps [simp]: "last_or [] q = q" "last_or (as @ [a]) q = Some a" "last_or [a] q = Some a"
  by (simp_all add: last_or_def)

lemma last_or_Cons: "last_or (a # as) q = last_or as (Some a)"
  by (simp add: last_or_def)

lemma first_or_append [simp]: "first_or (as @ bs) q = first_or as (first_or bs q)"
  by (cases as) simp_all

lemma last_or_append [simp]: "last_or (as @ bs) q = last_or bs (last_or as q)"
  by (simp add: last_or_def)

lemma first_or_None_iff: "first_or as None = None \<longleftrightarrow> as = []"
  by (cases as) simp_all

lemma last_or_None_iff: "last_or as None = None \<longleftrightarrow> as = []"
  by (simp add: last_or_def)

lemma seg_length: "seg s p ps vs q \<Longrightarrow> length vs = length ps"
  by (induction s p ps vs q rule: seg.induct) simp_all

lemma seg_append:
  "length us = length as \<Longrightarrow>
     seg s p (as @ bs) (us @ vs) q \<longleftrightarrow> seg s p as us (first_or bs q) \<and> seg s (last_or as p) bs vs q"
  by (induction as us arbitrary: p rule: list_induct2') (simp_all add: last_or_Cons)

lemma seg_frame: "(\<And>x. x \<in> set ps \<Longrightarrow> nodes s' x = nodes s x) \<Longrightarrow> seg s' p ps vs q = seg s p ps vs q"
  by (induction s p ps vs q rule: seg.induct) simp_all

lemma seg_unchanged: "seg s p ps vs q \<Longrightarrow> unchanged A s s' \<Longrightarrow> set ps \<inter> A = {} \<Longrightarrow> seg s' p ps vs q"
  using seg_frame [of ps s' s p vs q] by (auto simp: unchanged_def)

lemma seg_alloc: "seg s p ps vs q \<Longrightarrow> set ps \<subseteq> dom (nodes s)"
  by (induction s p ps vs q rule: seg.induct) auto

lemma seg_nth:
  assumes "seg s p ps vs q" "i < length ps"
  shows "nodes s (ps ! i) = Some \<lparr>nprev = last_or (take i ps) p, nnext = first_or (drop (Suc i) ps) q, nvalue = vs ! i\<rparr>"
proof -
  have "ps = take i ps @ ps ! i # drop (Suc i) ps" "vs = take i vs @ vs ! i # drop (Suc i) vs"
    using assms seg_length [OF assms(1)] by (simp_all only: id_take_nth_drop)
  then have "seg s p (take i ps @ ps ! i # drop (Suc i) ps) (take i vs @ vs ! i # drop (Suc i) vs) q"
    using assms(1) by simp
  then show ?thesis using assms(2) seg_length [OF assms(1)] by (simp add: seg_append)
qed

lemma unchanged_trans: "unchanged A s1 s2 \<Longrightarrow> unchanged B s2 s3 \<Longrightarrow> unchanged (A \<union> B) s1 s3"
  by (auto simp: unchanged_def)

lemma unchanged_mono: "unchanged A s s' \<Longrightarrow> A \<subseteq> B \<Longrightarrow> unchanged B s s'"
  by (auto simp: unchanged_def)

lemma unchanged_put [simp]: "unchanged {a} s (put_node a n s)"
  by (simp add: unchanged_def put_node_def)

lemma put_node_simps [simp]: "nodes (put_node a n s) = (nodes s)(a \<mapsto> n)" "freed (put_node a n s) = freed s"
  by (simp_all add: put_node_def)

lemma seg_put [simp]: "a \<notin> set ps \<Longrightarrow> seg (put_node a n s) p ps vs q = seg s p ps vs q"
  by (rule seg_frame) auto

lemma unchanged_refl [simp]: "unchanged A s s"
  by (simp add: unchanged_def)

text \<open>Redirecting the outgoing pointer at either end of a segment.\<close>

lemma relink_last:
  assumes "seg s p as us q" "distinct as" "as \<noteq> []"
  obtains s' where "set_next (last_or as r0) r s = Some s'" "seg s' p as us r" "unchanged {last as} s s'"
    "freed s' = freed s"
proof -
  obtain as' a where as: "as = as' @ [a]" using assms(3) by (metis rev_exhaust)
  obtain us' u where us: "us = us' @ [u]" using seg_length [OF assms(1)] as by (cases us rule: rev_cases) auto
  have len: "length us' = length as'" using seg_length [OF assms(1)] as us by simp
  let ?s = "put_node a \<lparr>nprev = last_or as' p, nnext = r, nvalue = u\<rparr> s"
  have seg: "seg s p as' us' (Some a)" and a: "nodes s a = Some \<lparr>nprev = last_or as' p, nnext = q, nvalue = u\<rparr>"
    using assms(1) len by (simp_all add: as us seg_append)
  have "seg ?s p as' us' (Some a)"
    using seg assms(2) by (simp add: as)
  then have "seg ?s p as us r" using len by (simp add: as us seg_append)
  moreover have "set_next (last_or as r0) r s = Some ?s" by (simp add: set_next_def as a)
  moreover have "unchanged {last as} s ?s" using unchanged_put [of a s] by (simp add: as)
  ultimately show thesis using that by simp
qed

lemma relink_first:
  assumes "seg s p as us q" "distinct as" "as \<noteq> []"
  obtains s' where "set_prev (first_or as r0) r s = Some s'" "seg s' r as us q" "unchanged {hd as} s s'"
    "freed s' = freed s"
proof -
  obtain a as' where as: "as = a # as'" using assms(3) by (cases as) auto
  obtain u us' where us: "us = u # us'" using seg_length [OF assms(1)] as by (cases us) auto
  let ?s = "put_node a \<lparr>nprev = r, nnext = first_or as' q, nvalue = u\<rparr> s"
  have seg: "seg s (Some a) as' us' q" and a: "nodes s a = Some \<lparr>nprev = p, nnext = first_or as' q, nvalue = u\<rparr>"
    using assms(1) by (simp_all add: as us)
  have "seg ?s (Some a) as' us' q"
    using seg assms(2) by (simp add: as)
  then have "seg ?s r as us q" by (simp add: as us)
  moreover have "set_prev (first_or as r0) r s = Some ?s" by (simp add: set_prev_def as a)
  moreover have "unchanged {hd as} s ?s" using unchanged_put [of a s] by (simp add: as)
  ultimately show thesis using that by simp
qed

section \<open>Every operation is the list operation\<close>

lemma dll_D:
  assumes "dll l s ps vs"
  shows "distinct ps" "seg s None ps vs None" "lhead l = first_or ps None" "ltail l = last_or ps None"
    "llen l = length ps" "length vs = length ps" "set ps \<subseteq> dom (nodes s)"
  using assms seg_length [of s None ps vs None] seg_alloc [of s None ps vs None] by (auto simp: dll_def)

lemma dll_create: "dll listCreate s [] []"
  by (simp add: dll_def listCreate_def)

lemma dll_unchanged: "dll l s ps vs \<Longrightarrow> unchanged A s s' \<Longrightarrow> set ps \<inter> A = {} \<Longrightarrow> dll l s' ps vs"
  using seg_unchanged by (auto simp: dll_def)

lemma fresh_notin: "dll l s ps vs \<Longrightarrow> nodes s a = None \<Longrightarrow> a \<notin> set ps"
  using dll_D(7) by fastforce

lemma listAddNodeHead_ok:
  assumes l: "dll l s ps vs" and fresh: "nodes s a = None"
  obtains l' s' where "listAddNodeHead (Some a) l v s = Some (l', s', True)" "dll l' s' (a # ps) (v # vs)"
    "unchanged (insert a (set ps)) s s'" "freed s' = freed s" "same_methods l l'"
proof (cases "ps = []")
  case True
  then have "vs = []" using dll_D(6) [OF l] by simp
  then show thesis
    using that [of "l\<lparr>lhead := Some a, ltail := Some a, llen := llen l + 1\<rparr>"] l True
    by (simp add: listAddNodeHead_def dll_def same_methods_def)
next
  case False
  note D = dll_D [OF l]
  let ?s = "put_node a \<lparr>nprev = None, nnext = lhead l, nvalue = v\<rparr> s"
  have a: "a \<notin> set ps" using fresh_notin [OF l fresh] .
  have "seg ?s None ps vs None" using seg_unchanged [OF D(2) unchanged_put] a by simp
  then obtain s' where s': "set_prev (first_or ps None) (Some a) ?s = Some s'" "seg s' (Some a) ps vs None"
    "unchanged {hd ps} ?s s'" "freed s' = freed ?s"
    using relink_first D(1) False by blast
  have "a \<noteq> hd ps" using a False by auto
  then have "nodes s' a = Some \<lparr>nprev = None, nnext = first_or ps None, nvalue = v\<rparr>"
    using s'(3) D(3) by (simp add: unchanged_def)
  moreover have "unchanged (insert a (set ps)) s s'"
    using unchanged_trans [OF unchanged_put s'(3)] by (rule unchanged_mono) (use False in auto)
  ultimately show thesis
    using that [of "l\<lparr>lhead := Some a, llen := llen l + 1\<rparr>" s'] s' D a False
    by (simp add: listAddNodeHead_def dll_def same_methods_def last_or_Cons)
      (simp add: last_or_def)
qed

lemma listAddNodeTail_ok:
  assumes l: "dll l s ps vs" and fresh: "nodes s a = None"
  obtains l' s' where "listAddNodeTail (Some a) l v s = Some (l', s', True)" "dll l' s' (ps @ [a]) (vs @ [v])"
    "unchanged (insert a (set ps)) s s'" "freed s' = freed s" "same_methods l l'"
proof (cases "ps = []")
  case True
  then have "vs = []" using dll_D(6) [OF l] by simp
  then show thesis
    using that [of "l\<lparr>lhead := Some a, ltail := Some a, llen := llen l + 1\<rparr>"] l True
    by (simp add: listAddNodeTail_def dll_def same_methods_def)
next
  case False
  note D = dll_D [OF l]
  let ?s = "put_node a \<lparr>nprev = ltail l, nnext = None, nvalue = v\<rparr> s"
  have a: "a \<notin> set ps" using fresh_notin [OF l fresh] .
  have "seg ?s None ps vs None" using seg_unchanged [OF D(2) unchanged_put] a by simp
  then obtain s' where s': "set_next (last_or ps None) (Some a) ?s = Some s'" "seg s' None ps vs (Some a)"
    "unchanged {last ps} ?s s'" "freed s' = freed ?s"
    using relink_last D(1) False by blast
  have "a \<noteq> last ps" using a False by auto
  then have "nodes s' a = Some \<lparr>nprev = last_or ps None, nnext = None, nvalue = v\<rparr>"
    using s'(3) D(4) by (simp add: unchanged_def)
  then have "seg s' None (ps @ [a]) (vs @ [v]) None" using s'(2) D(6) by (simp add: seg_append)
  moreover have "unchanged (insert a (set ps)) s s'"
    using unchanged_trans [OF unchanged_put s'(3)] by (rule unchanged_mono) (use False in auto)
  moreover have "first_or ps (Some a) = first_or ps None" using False by (cases ps) simp_all
  ultimately show thesis
    using that [of "l\<lparr>ltail := Some a, llen := llen l + 1\<rparr>" s'] s' D a False
    by (simp add: listAddNodeTail_def dll_def same_methods_def)
qed

text \<open>Linking a node in between two parts of a list.\<close>

lemma relink_last':
  assumes "seg s None as us q" "distinct as"
  obtains s' where "(if last_or as None \<noteq> None then set_next (last_or as None) r s else Some s) = Some s'"
    "seg s' None as us r" "unchanged (set as) s s'" "freed s' = freed s"
proof (cases "as = []")
  case True
  then have "us = []" using seg_length [OF assms(1)] by simp
  then show thesis using that [of s] True by (simp add: unchanged_def)
next
  case False
  obtain s' where "set_next (last_or as None) r s = Some s'" "seg s' None as us r" "unchanged {last as} s s'"
    "freed s' = freed s" by (rule relink_last [OF assms False])
  then show thesis using that [of s'] False last_or_None_iff [of as] unchanged_mono [of "{last as}" s s' "set as"] by auto
qed

lemma relink_first':
  assumes "seg s p as us None" "distinct as"
  obtains s' where "(if first_or as None \<noteq> None then set_prev (first_or as None) r s else Some s) = Some s'"
    "seg s' r as us None" "unchanged (set as) s s'" "freed s' = freed s"
proof (cases "as = []")
  case True
  then have "us = []" using seg_length [OF assms(1)] by simp
  then show thesis using that [of s] True by (simp add: unchanged_def)
next
  case False
  obtain s' where "set_prev (first_or as None) r s = Some s'" "seg s' r as us None" "unchanged {hd as} s s'"
    "freed s' = freed s" by (rule relink_first [OF assms False])
  then show thesis using that [of s'] False first_or_None_iff [of as] unchanged_mono [of "{hd as}" s s' "set as"] by auto
qed

lemma relink_both:
  assumes "seg s None as us q" "seg s p bs vs None" "distinct (as @ bs)"
  obtains s1 s2 where
    "(if last_or as None \<noteq> None then set_next (last_or as None) r s else Some s) = Some s1"
    "(if first_or bs None \<noteq> None then set_prev (first_or bs None) r' s1 else Some s1) = Some s2"
    "seg s2 None as us r" "seg s2 r' bs vs None" "unchanged (set as) s s1" "unchanged (set as \<union> set bs) s s2"
    "freed s1 = freed s" "freed s2 = freed s"
proof -
  have "distinct as" "distinct bs" "set as \<inter> set bs = {}" using assms(3) by auto
  obtain s1 where s1: "(if last_or as None \<noteq> None then set_next (last_or as None) r s else Some s) = Some s1"
    "seg s1 None as us r" "unchanged (set as) s s1" "freed s1 = freed s"
    by (rule relink_last' [OF assms(1) \<open>distinct as\<close>])
  have "seg s1 p bs vs None" by (rule seg_unchanged [OF assms(2) s1(3)]) (use \<open>set as \<inter> set bs = {}\<close> in auto)
  then obtain s2 where s2: "(if first_or bs None \<noteq> None then set_prev (first_or bs None) r' s1 else Some s1) = Some s2"
    "seg s2 r' bs vs None" "unchanged (set bs) s1 s2" "freed s2 = freed s1"
    using relink_first' [OF _ \<open>distinct bs\<close>] by blast
  have "seg s2 None as us r" by (rule seg_unchanged [OF s1(2) s2(3)]) (rule \<open>set as \<inter> set bs = {}\<close>)
  then show thesis using that s1 s2 unchanged_trans [OF s1(3) s2(3)] by simp
qed

lemma listInsertNode_ok:
  assumes l: "dll l s (as @ x # bs) (us @ u # vs)" "length us = length as" and fresh: "nodes s a = None"
  obtains l' s' where "listInsertNode (Some a) l (Some x) v after s = Some (l', s', True)"
    "dll l' s' (if after then as @ x # a # bs else as @ a # x # bs)
      (if after then us @ u # v # vs else us @ v # u # vs)"
    "unchanged (insert a (set (as @ x # bs))) s s'" "freed s' = freed s" "same_methods l l'"
proof -
  note D = dll_D [OF l(1)]
  define xs where "xs = (if after then as @ [x] else as)"
  define ys where "ys = (if after then bs else x # bs)"
  define us1 where "us1 = (if after then us @ [u] else us)"
  define vs1 where "vs1 = (if after then vs else u # vs)"
  have split: "as @ x # bs = xs @ ys" "us @ u # vs = us1 @ vs1" "length us1 = length xs"
    using l(2) by (simp_all add: xs_def ys_def us1_def vs1_def)
  have a: "a \<notin> set (xs @ ys)" using fresh_notin [OF l(1) fresh] split(1) by simp
  have dist: "distinct (xs @ ys)" using D(1) split(1) by simp
  let ?n = "\<lparr>nprev = last_or xs None, nnext = first_or ys None, nvalue = v\<rparr>"
  let ?s = "put_node a ?n s"
  have old: "nodes s x = Some \<lparr>nprev = last_or as None, nnext = first_or bs None, nvalue = u\<rparr>"
    using D(2) l(2) by (simp add: seg_append)
  have segs: "seg ?s None xs us1 (first_or ys None)" "seg ?s (last_or xs None) ys vs1 None"
    using D(2) a split by (simp_all add: seg_append)
  obtain s1 s2 where s: "(if last_or xs None \<noteq> None then set_next (last_or xs None) (Some a) ?s else Some ?s) = Some s1"
    "(if first_or ys None \<noteq> None then set_prev (first_or ys None) (Some a) s1 else Some s1) = Some s2"
    "seg s2 None xs us1 (Some a)" "seg s2 (Some a) ys vs1 None" "unchanged (set xs \<union> set ys) ?s s2" "freed s2 = freed s"
    by (rule relink_both [OF segs dist, of "Some a" "Some a"]) simp
  have "nodes s2 a = Some ?n" using s(5) a by (simp add: unchanged_def)
  then have seg: "seg s2 None (xs @ a # ys) (us1 @ v # vs1) None" using s(3,4) split(3) by (simp add: seg_append)
  have un: "unchanged (insert a (set (as @ x # bs))) s s2"
    using unchanged_trans [OF unchanged_put s(5)] by (rule unchanged_mono) (simp add: split(1))
  define l1 where "l1 = (if after then (if ltail l = Some x then l\<lparr>ltail := Some a\<rparr> else l)
                  else (if lhead l = Some x then l\<lparr>lhead := Some a\<rparr> else l))"
  have "lhead l1 = first_or (xs @ a # ys) None"
    using D(1,3) by (cases as) (auto simp: l1_def xs_def ys_def)
  moreover have "ltail l1 = last_or (xs @ a # ys) None"
    using D(1,4) by (cases bs rule: rev_cases) (auto simp: l1_def xs_def ys_def last_or_Cons)
  moreover have "llen l1 + 1 = length (xs @ a # ys)" using D(5) split(1) by (simp add: l1_def)
  ultimately have "dll (l1\<lparr>llen := llen l1 + 1\<rparr>) s2 (xs @ a # ys) (us1 @ v # vs1)"
    using seg a dist by (auto simp: dll_def)
  moreover have "listInsertNode (Some a) l (Some x) v after s = Some (l1\<lparr>llen := llen l1 + 1\<rparr>, s2, True)"
    using s(1,2) old by (cases after) (simp_all add: listInsertNode_def deref_def l1_def xs_def ys_def split: if_splits)
  moreover have "same_methods l l1" by (simp add: l1_def same_methods_def)
  ultimately show thesis
    using that [of "l1\<lparr>llen := llen l1 + 1\<rparr>" s2] un s(6)
    by (cases after) (simp_all add: xs_def ys_def us1_def vs1_def same_methods_def)
qed

lemma listDelNode_ok:
  assumes l: "dll l s (as @ x # bs) (us @ u # vs)" "length us = length as"
  obtains l' s' where "listDelNode l (Some x) s = Some (l', s')" "dll l' s' (as @ bs) (us @ vs)"
    "nodes s' x = None" "unchanged (set (as @ x # bs)) s s'"
    "freed s' = freed s @ (if lfree l then [u] else [])" "same_methods l l'"
proof -
  note D = dll_D [OF l(1)]
  let ?n = "\<lparr>nprev = last_or as None, nnext = first_or bs None, nvalue = u\<rparr>"
  have segs: "seg s None as us (Some x)" "seg s (Some x) bs vs None" "nodes s x = Some ?n"
    using D(2) l(2) by (simp_all add: seg_append)
  have dist: "distinct (as @ bs)" and x: "x \<notin> set as" "x \<notin> set bs" using D(1) by auto
  obtain s1 s2 where s:
    "(if last_or as None \<noteq> None then set_next (last_or as None) (first_or bs None) s else Some s) = Some s1"
    "(if first_or bs None \<noteq> None then set_prev (first_or bs None) (last_or as None) s1 else Some s1) = Some s2"
    "seg s2 None as us (first_or bs None)" "seg s2 (last_or as None) bs vs None"
    "unchanged (set as) s s1" "unchanged (set as \<union> set bs) s s2" "freed s1 = freed s" "freed s2 = freed s"
    by (rule relink_both [OF segs(1,2) dist, of "first_or bs None" "last_or as None"]) simp
  have n: "nodes s1 x = Some ?n" "nodes s2 x = Some ?n" using s(5,6) segs(3) x by (simp_all add: unchanged_def)
  define l1 where "l1 = (if last_or as None \<noteq> None then l else l\<lparr>lhead := first_or bs None\<rparr>)"
  define l2 where "l2 = (if first_or bs None \<noteq> None then l1 else l1\<lparr>ltail := last_or as None\<rparr>)"
  define s3 where "s3 = (call_free l2 u s2)\<lparr>nodes := (nodes s2)(x := None)\<rparr>"
  have un: "unchanged {x} s2 s3" by (simp add: s3_def unchanged_def)
  have "seg s3 None (as @ bs) (us @ vs) None"
    using s(3,4) seg_unchanged [OF _ un] x l(2) by (simp add: seg_append)
  moreover have "lhead l2 = first_or (as @ bs) None"
    using D(3) by (cases as) (auto simp: l2_def l1_def last_or_Cons last_or_def)
  moreover have "ltail l2 = last_or (as @ bs) None"
    using D(4) by (cases "bs = []") (auto simp: l2_def l1_def first_or_None_iff last_or_def simp del: not_None_eq)
  moreover have "llen l2 - 1 = length (as @ bs)" using D(5) by (simp add: l2_def l1_def)
  ultimately have "dll (l2\<lparr>llen := llen l2 - 1\<rparr>) s3 (as @ bs) (us @ vs)" using dist by (simp add: dll_def)
  moreover have first: "unlink_prev ?n l s = Some (l1, s1)"
    using s(1) by (simp add: unlink_prev_def l1_def split: if_splits)
  have second: "unlink_next ?n l1 s1 = Some (l2, s2)"
    using s(2) by (simp add: unlink_next_def l2_def split: if_splits)
  have "nodes (call_free l2 u s2) = nodes s2" by (simp add: call_free_def)
  then have "listDelNode l (Some x) s = Some (l2\<lparr>llen := llen l2 - 1\<rparr>, s3)"
    using first second n segs(3) by (simp add: listDelNode_def deref_def zfree_def s3_def)
  moreover have "unchanged (set (as @ x # bs)) s s3"
    using unchanged_trans [OF s(6) un] by (rule unchanged_mono) auto
  moreover have "freed s3 = freed s @ (if lfree l then [u] else [])"
    using s(8) by (simp add: s3_def call_free_def l2_def l1_def)
  ultimately show thesis
    using that [of "l2\<lparr>llen := llen l2 - 1\<rparr>" s3]
    by (simp add: same_methods_def l2_def l1_def s3_def)
qed

lemma listRotate_ok:
  assumes l: "dll l s (as @ [x]) (us @ [u])"
  obtains l' s' where "listRotate l s = Some (l', s')" "dll l' s' (x # as) (u # us)"
    "unchanged (set (as @ [x])) s s'" "freed s' = freed s" "same_methods l l'"
proof (cases "as = []")
  case True
  then have "us = []" using dll_D(6) [OF l] by simp
  then show thesis using that [of l s] l True by (simp add: listRotate_def dll_def same_methods_def)
next
  case False
  note D = dll_D [OF l]
  have len: "length us = length as" using D(6) by simp
  have x: "x \<notin> set as" and dist: "distinct as" using D(1) by simp_all
  have segs: "seg s None as us (Some x)" "nodes s x = Some \<lparr>nprev = last_or as None, nnext = None, nvalue = u\<rparr>"
    using D(2) len by (simp_all add: seg_append)
  obtain s1 where s1: "set_next (last_or as None) None s = Some s1" "seg s1 None as us None"
    "unchanged {last as} s s1" "freed s1 = freed s" by (rule relink_last [OF segs(1) dist False])
  obtain s2 where s2: "set_prev (first_or as None) (Some x) s1 = Some s2" "seg s2 (Some x) as us None"
    "unchanged {hd as} s1 s2" "freed s2 = freed s1" by (rule relink_first [OF s1(2) dist False])
  have un: "unchanged (set as) s s2"
    using unchanged_trans [OF s1(3) s2(3)] by (rule unchanged_mono) (use False in simp)
  then have n: "nodes s2 x = Some \<lparr>nprev = last_or as None, nnext = None, nvalue = u\<rparr>"
    using segs(2) x by (simp add: unchanged_def)
  let ?s = "put_node x \<lparr>nprev = None, nnext = first_or as None, nvalue = u\<rparr> s2"
  let ?l = "l\<lparr>ltail := last_or as None, lhead := Some x\<rparr>"
  have head: "lhead l = first_or as None" "ltail l = Some x"
    using D(3,4) False by (cases as, simp_all)
  have eq: "(put_node x \<lparr>nprev = None, nnext = None, nvalue = u\<rparr> s2)\<lparr>nodes := (nodes s2)(x \<mapsto> \<lparr>nprev = None, nnext = first_or as None, nvalue = u\<rparr>)\<rparr> = ?s"
    by (simp add: put_node_def)
  have "listRotate l s = Some (?l, ?s)"
    using s1(1) s2(1) n segs(2) head D(5) False eq
    by (simp add: listRotate_def deref_def set_prev_def [of "Some x"] set_next_def [of "Some x"] put_node_def)
  moreover have "dll ?l ?s (x # as) (u # us)"
    using s2(2) x dist D(5) False by (simp add: dll_def last_or_Cons) (simp add: last_or_def)
  moreover have "unchanged (set (as @ [x])) s ?s"
    using unchanged_trans [OF un unchanged_put] by (rule unchanged_mono) auto
  ultimately show thesis using that [of ?l ?s] s1(4) s2(4) by (simp add: same_methods_def)
qed

text \<open>Walks, searches and the release of the whole list.\<close>

lemma walk_next:
  "seg s p ps vs None \<Longrightarrow> walk nnext i (first_or ps None) s = Some (if i < length ps then Some (ps ! i) else None)"
proof (induction ps arbitrary: p vs i)
  case Nil
  then show ?case by (cases i) simp_all
next
  case (Cons a ps)
  then obtain v vs' where "vs = v # vs'" by (cases vs) auto
  then show ?case using Cons by (cases i) auto
qed

lemma walk_prev:
  "seg s None ps vs q \<Longrightarrow> walk nprev i (last_or ps None) s = Some (if i < length ps then Some (rev ps ! i) else None)"
proof (induction ps arbitrary: q vs i rule: rev_induct)
  case Nil
  then show ?case by (cases i) simp_all
next
  case (snoc a ps)
  have len: "length vs = Suc (length ps)" using seg_length [OF snoc.prems] by simp
  then obtain us u where us: "vs = us @ [u]" by (cases vs rule: rev_cases) auto
  then have "seg s None ps us (Some a)" "nodes s a = Some \<lparr>nprev = last_or ps None, nnext = q, nvalue = u\<rparr>"
    using snoc.prems len by (simp_all add: seg_append)
  then show ?case using snoc.IH by (cases i) auto
qed

lemma listIndex_ok:
  assumes "dll l s ps vs" "- (2 ^ 63) < i"
  shows "listIndex l i s = Some (if 0 \<le> i \<and> i < int (length ps) then Some (ps ! nat i)
    else if i < 0 \<and> - i \<le> int (length ps) then Some (ps ! nat (int (length ps) + i)) else None)"
proof (cases "i < 0")
  case True
  have "rev ps ! nat (- i - 1) = ps ! nat (int (length ps) + i)" if "- i \<le> int (length ps)"
  proof -
    have "length ps - Suc (nat (- i - 1)) = nat (int (length ps) + i)" "nat (- i - 1) < length ps"
      using True that by linarith+
    then show ?thesis by (simp only: rev_nth)
  qed
  then show ?thesis
    using True assms walk_prev [OF dll_D(2) [OF assms(1)], of "nat (- i - 1)"] dll_D(4) [OF assms(1)]
    by (auto simp: listIndex_def)
next
  case False
  then show ?thesis
    using walk_next [OF dll_D(2) [OF assms(1)], of "nat i"] dll_D(3) [OF assms(1)] assms(2)
    by (auto simp: listIndex_def nat_less_iff)
qed

fun find_addr :: "('a \<Rightarrow> bool) \<Rightarrow> addr list \<Rightarrow> 'a list \<Rightarrow> addr option" where
  "find_addr P (a # ps) (v # vs) = (if P v then Some a else find_addr P ps vs)"
| "find_addr P _ _ = None"

lemma listSearchKey_loop_ok:
  "seg s p ps vs None \<Longrightarrow>
     listSearchKey_loop l key \<lparr>inext = first_or ps None, from_head = True\<rparr> s = Some (find_addr (matches l key) ps vs)"
proof (induction ps arbitrary: p vs)
  case Nil
  then show ?case by (subst listSearchKey_loop.simps) (simp add: listNext_def)
next
  case (Cons a ps)
  then obtain v vs' where "vs = v # vs'" by (cases vs) auto
  then show ?case
    using Cons.prems Cons.IH [of "Some a" vs'] by (subst listSearchKey_loop.simps) (simp add: listNext_def deref_def)
qed

lemma listSearchKey_ok: "dll l s ps vs \<Longrightarrow> listSearchKey l key s = Some (find_addr (matches l key) ps vs)"
  using listSearchKey_loop_ok [OF dll_D(2)] dll_D(3)
  by (fastforce simp: listSearchKey_def listGetIterator_def)

lemma listRelease_loop_ok:
  "seg s p ps vs None \<Longrightarrow> distinct ps \<Longrightarrow>
     listRelease_loop (length ps) l (first_or ps None) s
     = Some (s\<lparr>nodes := nodes s |` (- set ps), freed := freed s @ (if lfree l then vs else [])\<rparr>)"
proof (induction ps arbitrary: p vs s)
  case Nil
  then show ?case by (cases vs) simp_all
next
  case (Cons a ps)
  then obtain v vs' where vs: "vs = v # vs'" by (cases vs) auto
  let ?s = "(call_free l v s)\<lparr>nodes := (nodes s)(a := None)\<rparr>"
  have a: "nodes s a = Some \<lparr>nprev = p, nnext = first_or ps None, nvalue = v\<rparr>" and
    seg: "seg s (Some a) ps vs' None" and dist: "a \<notin> set ps" "distinct ps"
    using Cons.prems vs by simp_all
  have "unchanged {a} s ?s" by (simp add: unchanged_def)
  then have "seg ?s (Some a) ps vs' None" using seg_unchanged [OF seg] dist(1) by simp
  note IH = Cons.IH [OF this dist(2)]
  have "nodes ?s |` (- set ps) = nodes s |` (- set (a # ps))"
    by (auto simp: restrict_map_def)
  moreover have "listRelease_loop (length (a # ps)) l (first_or (a # ps) None) s
      = listRelease_loop (length ps) l (first_or ps None) ?s"
    using a by (simp add: deref_def zfree_def call_free_def)
  ultimately have "listRelease_loop (length (a # ps)) l (first_or (a # ps) None) s
      = Some (?s\<lparr>nodes := nodes s |` (- set (a # ps)), freed := freed ?s @ (if lfree l then vs' else [])\<rparr>)"
    using IH by (simp only:)
  then show ?case by (simp add: vs call_free_def)
qed

lemma listRelease_ok:
  "dll l s ps vs \<Longrightarrow> listRelease l s
     = Some (s\<lparr>nodes := nodes s |` (- set ps), freed := freed s @ (if lfree l then vs else [])\<rparr>)"
  using listRelease_loop_ok [OF dll_D(2) dll_D(1)] dll_D(3,5) by (fastforce simp: listRelease_def)

section \<open>Runs of operations\<close>

text \<open>
  A client that works on one list by position and by key.  Every step gives the allocator's
  next address.
\<close>

datatype 'a list_op =
  LHead 'a | LTail 'a | LInsert int bool 'a | LDel int | LDelKey 'a | LRotate | LGet int | LLength

datatype 'a list_res = LUnit | LFlag bool | LValue "'a option" | LCount nat

fun list_exec :: "addr \<Rightarrow> 'a adlist \<times> 'a store \<Rightarrow> 'a list_op \<Rightarrow> (('a adlist \<times> 'a store) \<times> 'a list_res) option" where
  "list_exec a (l, s) (LHead v) = do { (l, s, ok) \<leftarrow> listAddNodeHead (Some a) l v s; Some ((l, s), LFlag ok) }"
| "list_exec a (l, s) (LTail v) = do { (l, s, ok) \<leftarrow> listAddNodeTail (Some a) l v s; Some ((l, s), LFlag ok) }"
| "list_exec a (l, s) (LInsert i after v) = do {
     node \<leftarrow> listIndex l i s;
     if node = None then Some ((l, s), LFlag False)
     else do { (l, s, ok) \<leftarrow> listInsertNode (Some a) l node v after s; Some ((l, s), LFlag ok) } }"
| "list_exec a (l, s) (LDel i) = do {
     node \<leftarrow> listIndex l i s;
     if node = None then Some ((l, s), LFlag False)
     else do { (l, s) \<leftarrow> listDelNode l node s; Some ((l, s), LFlag True) } }"
| "list_exec a (l, s) (LDelKey key) = do {
     node \<leftarrow> listSearchKey l key s;
     if node = None then Some ((l, s), LFlag False)
     else do { (l, s) \<leftarrow> listDelNode l node s; Some ((l, s), LFlag True) } }"
| "list_exec a (l, s) LRotate = do { (l, s) \<leftarrow> listRotate l s; Some ((l, s), LUnit) }"
| "list_exec a (l, s) (LGet i) = do {
     node \<leftarrow> listIndex l i s;
     if node = None then Some ((l, s), LValue None)
     else do { n \<leftarrow> deref s node; Some ((l, s), LValue (Some (nvalue n))) } }"
| "list_exec a (l, s) LLength = Some ((l, s), LCount (llen l))"

text \<open>
  All the runs of a sequence of operations, whatever addresses \<open>zmalloc\<close> chooses among those
  that are not allocated.  A run that ends in \<open>None\<close> has made an invalid access.
\<close>

inductive list_run :: "'a adlist \<times> 'a store \<Rightarrow> 'a list_op list \<Rightarrow> 'a list_res list \<Rightarrow> ('a adlist \<times> 'a store) option \<Rightarrow> bool" where
  run_nil: "list_run st [] [] (Some st)"
| run_step: "nodes (snd st) a = None \<Longrightarrow> list_exec a st op = Some (st', r) \<Longrightarrow> list_run st' ops rs out
     \<Longrightarrow> list_run st (op # ops) (r # rs) out"
| run_crash: "nodes (snd st) a = None \<Longrightarrow> list_exec a st op = None \<Longrightarrow> list_run st (op # ops) [] None"

inductive_cases list_run_nilE: "list_run st [] rs out"
inductive_cases list_run_consE: "list_run st (op # ops) rs out"

text \<open>The same operations on a HOL list.\<close>

definition list_pos :: "int \<Rightarrow> 'a list \<Rightarrow> nat option" where
  "list_pos i vs =
    (if 0 \<le> i \<and> i < int (length vs) then Some (nat i)
     else if i < 0 \<and> - i \<le> int (length vs) then Some (nat (int (length vs) + i)) else None)"

fun list_ref :: "'a list \<Rightarrow> 'a list_op \<Rightarrow> 'a list \<times> 'a list_res" where
  "list_ref vs (LHead v) = (v # vs, LFlag True)"
| "list_ref vs (LTail v) = (vs @ [v], LFlag True)"
| "list_ref vs (LInsert i after v) =
    (case list_pos i vs of None \<Rightarrow> (vs, LFlag False)
     | Some n \<Rightarrow> let n = (if after then Suc n else n) in (take n vs @ v # drop n vs, LFlag True))"
| "list_ref vs (LDel i) =
    (case list_pos i vs of None \<Rightarrow> (vs, LFlag False) | Some n \<Rightarrow> (take n vs @ drop (Suc n) vs, LFlag True))"
| "list_ref vs (LDelKey key) = (remove1 key vs, LFlag (key \<in> set vs))"
| "list_ref vs LRotate = (if vs = [] then [] else last vs # butlast vs, LUnit)"
| "list_ref vs (LGet i) = (vs, LValue (map_option (\<lambda>n. vs ! n) (list_pos i vs)))"
| "list_ref vs LLength = (vs, LCount (length vs))"

fun list_op_ok :: "'a list_op \<Rightarrow> bool" where
  "list_op_ok (LInsert i after v) = (- (2 ^ 63) < i)"
| "list_op_ok (LDel i) = (- (2 ^ 63) < i)"
| "list_op_ok (LGet i) = (- (2 ^ 63) < i)"
| "list_op_ok _ = True"

lemma list_pos_less: "list_pos i vs = Some n \<Longrightarrow> n < length vs"
  by (auto simp: list_pos_def split: if_splits)

lemma listIndex_pos:
  "dll l s ps vs \<Longrightarrow> - (2 ^ 63) < i \<Longrightarrow> listIndex l i s = Some (map_option (\<lambda>n. ps ! n) (list_pos i vs))"
  by (simp add: listIndex_ok list_pos_def dll_D(6))

lemma dll_split:
  assumes "dll l s ps vs" "n < length vs"
  obtains as x bs us u ws where "ps = as @ x # bs" "vs = us @ u # ws" "length us = length as" "length as = n"
    "as = take n ps" "us = take n vs" "bs = drop (Suc n) ps" "ws = drop (Suc n) vs" "x = ps ! n" "u = vs ! n"
proof -
  have "n < length ps" using assms dll_D(6) by metis
  then show thesis
    using that [of "take n ps" "ps ! n" "drop (Suc n) ps" "take n vs" "vs ! n" "drop (Suc n) vs"] assms(2)
      id_take_nth_drop [of n ps] id_take_nth_drop [of n vs] by simp
qed

lemma find_addr_first:
  "length vs = length ps \<Longrightarrow> (case find_addr P ps vs of
     None \<Rightarrow> \<forall>v\<in>set vs. \<not> P v
   | Some a \<Rightarrow> \<exists>n<length ps. a = ps ! n \<and> P (vs ! n) \<and> (\<forall>v\<in>set (take n vs). \<not> P v))"
proof (induction P ps vs rule: find_addr.induct)
  case (1 P a ps v vs)
  show ?case
  proof (cases "P v")
    case True
    then show ?thesis by (auto intro: exI [of _ 0])
  next
    case False
    show ?thesis
    proof (cases "find_addr P ps vs")
      case None
      with 1 False show ?thesis by simp
    next
      case (Some b)
      with 1 False obtain n where "n < length ps" "b = ps ! n" "P (vs ! n)" "\<forall>v\<in>set (take n vs). \<not> P v" by auto
      then show ?thesis using Some False by (simp, intro exI [of _ "Suc n"]) simp
    qed
  qed
qed simp_all

lemma remove1_nth: "n < length vs \<Longrightarrow> vs ! n \<notin> set (take n vs) \<Longrightarrow> remove1 (vs ! n) vs = take n vs @ drop (Suc n) vs"
proof -
  assume "n < length vs" "vs ! n \<notin> set (take n vs)"
  then show ?thesis
    using remove1_append [of "vs ! n" "take n vs" "vs ! n # drop (Suc n) vs"] id_take_nth_drop [of n vs] by simp
qed

text \<open>The memory the list does not own is \<open>m\<close>.\<close>

definition foreign :: "'a store \<Rightarrow> addr list \<Rightarrow> addr \<rightharpoonup> 'a listNode" where
  "foreign s ps = nodes s |` (- set ps)"

lemma foreign_Nil [simp]: "foreign s [] = nodes s"
  by (simp add: foreign_def restrict_map_def)

lemma foreign_add:
  "unchanged (insert a (set ps)) s s' \<Longrightarrow> nodes s a = None \<Longrightarrow> set ps' = insert a (set ps) \<Longrightarrow> foreign s' ps' = foreign s ps"
  by (auto simp: foreign_def unchanged_def restrict_map_def)

lemma foreign_del:
  "unchanged (set ps) s s' \<Longrightarrow> nodes s' x = None \<Longrightarrow> set ps = insert x (set ps') \<Longrightarrow> foreign s' ps' = foreign s ps"
  by (auto simp: foreign_def unchanged_def restrict_map_def)

lemma foreign_same: "unchanged (set ps) s s' \<Longrightarrow> set ps' = set ps \<Longrightarrow> foreign s' ps' = foreign s ps"
  by (auto simp: foreign_def unchanged_def restrict_map_def)

definition list_state :: "(addr \<rightharpoonup> 'a listNode) \<Rightarrow> 'a adlist \<times> 'a store \<Rightarrow> 'a list \<Rightarrow> bool" where
  "list_state m st vs \<longleftrightarrow> (\<exists>ps. dll (fst st) (snd st) ps vs \<and> foreign (snd st) ps = m) \<and> lmatch (fst st) = None"

lemma list_stateI: "dll l s ps vs \<Longrightarrow> foreign s ps = m \<Longrightarrow> lmatch l = None \<Longrightarrow> list_state m (l, s) vs"
  by (auto simp: list_state_def)

lemma delete_step:
  assumes l: "dll l s ps vs" "foreign s ps = m" "lmatch l = None" "n < length vs"
  shows "\<exists>l' s'. listDelNode l (Some (ps ! n)) s = Some (l', s') \<and> list_state m (l', s') (take n vs @ drop (Suc n) vs)"
proof -
  obtain as x bs us u ws where sp: "ps = as @ x # bs" "vs = us @ u # ws" "length us = length as" "length as = n"
    "as = take n ps" "us = take n vs" "bs = drop (Suc n) ps" "ws = drop (Suc n) vs" "x = ps ! n" "u = vs ! n"
    by (rule dll_split [OF l(1,4)])
  obtain l' s' where d: "listDelNode l (Some x) s = Some (l', s')" "dll l' s' (as @ bs) (us @ ws)"
    "nodes s' x = None" "unchanged (set (as @ x # bs)) s s'" "same_methods l l'"
    by (rule listDelNode_ok [OF l(1) [unfolded sp(1,2)] sp(3)])
  have "foreign s' (as @ bs) = m" using foreign_del [OF d(4,3)] l(2) sp(1) by simp
  then have "list_state m (l', s') (us @ ws)"
    using d(5) l(3) by (intro list_stateI [OF d(2)]) (simp_all add: same_methods_def)
  then show ?thesis using d(1) unfolding sp(6,8,9) by blast
qed

lemma list_exec_ok:
  assumes st: "list_state m st vs" and a: "nodes (snd st) a = None" and op: "list_op_ok op"
  shows "\<exists>st' r. list_exec a st op = Some (st', r) \<and> (list_state m st' (fst (list_ref vs op)) \<and> r = snd (list_ref vs op))"
proof -
  obtain l s ps where stl: "st = (l, s)" and l: "dll l s ps vs" "foreign s ps = m" "lmatch l = None"
    using st by (cases st) (auto simp: list_state_def)
  have a: "nodes s a = None" using a stl by simp
  show ?thesis
  proof (cases op)
    case (LHead v)
    obtain l' s' where "listAddNodeHead (Some a) l v s = Some (l', s', True)" "dll l' s' (a # ps) (v # vs)"
      "unchanged (insert a (set ps)) s s'" "same_methods l l'" by (rule listAddNodeHead_ok [OF l(1) a])
    then show ?thesis
      using LHead stl l foreign_add [OF _ a] by (auto simp: same_methods_def intro!: list_stateI)
  next
    case (LTail v)
    obtain l' s' where "listAddNodeTail (Some a) l v s = Some (l', s', True)" "dll l' s' (ps @ [a]) (vs @ [v])"
      "unchanged (insert a (set ps)) s s'" "same_methods l l'" by (rule listAddNodeTail_ok [OF l(1) a])
    then show ?thesis
      using LTail stl l foreign_add [OF _ a] by (auto simp: same_methods_def intro!: list_stateI)
  next
    case (LInsert i after v)
    have idx: "listIndex l i s = Some (map_option (\<lambda>n. ps ! n) (list_pos i vs))"
      using listIndex_pos [OF l(1)] op LInsert by simp
    show ?thesis
    proof (cases "list_pos i vs")
      case None
      then show ?thesis using LInsert stl st idx by simp
    next
      case (Some n)
      obtain as x bs us u ws where sp: "ps = as @ x # bs" "vs = us @ u # ws" "length us = length as" "length as = n"
        "as = take n ps" "us = take n vs" "bs = drop (Suc n) ps" "ws = drop (Suc n) vs" "x = ps ! n" "u = vs ! n"
        by (rule dll_split [OF l(1) list_pos_less [OF Some]])
      obtain l' s' where d: "listInsertNode (Some a) l (Some x) v after s = Some (l', s', True)"
        "dll l' s' (if after then as @ x # a # bs else as @ a # x # bs) (if after then us @ u # v # ws else us @ v # u # ws)"
        "unchanged (insert a (set (as @ x # bs))) s s'" "same_methods l l'"
        by (rule listInsertNode_ok [OF l(1) [unfolded sp(1,2)] sp(3) a, of v after])
      have "foreign s' (if after then as @ x # a # bs else as @ a # x # bs) = m"
        using foreign_add [OF d(3) a, of "if after then as @ x # a # bs else as @ a # x # bs"] l(2) sp(1)
        by (cases after) (simp_all add: insert_commute)
      then have "list_state m (l', s') (if after then us @ u # v # ws else us @ v # u # ws)"
        using d l(3) by (intro list_stateI) (simp_all add: same_methods_def)
      moreover have "(if after then us @ u # v # ws else us @ v # u # ws) = fst (list_ref vs op)"
        using LInsert Some sp(2-4) by simp
      ultimately show ?thesis using d(1) LInsert stl idx Some sp(9) by (simp add: Let_def)
    qed
  next
    case (LDel i)
    have idx: "listIndex l i s = Some (map_option (\<lambda>n. ps ! n) (list_pos i vs))"
      using listIndex_pos [OF l(1)] op LDel by simp
    show ?thesis
    proof (cases "list_pos i vs")
      case None
      then show ?thesis using LDel stl st idx by simp
    next
      case (Some n)
      then show ?thesis
        using delete_step [OF l list_pos_less [OF Some]] LDel stl idx by auto
    qed
  next
    case (LDelKey key)
    have match: "matches l key = (\<lambda>v. key = v)" using l(3) by (simp add: matches_def fun_eq_iff)
    have len: "length vs = length ps" using dll_D(6) [OF l(1)] .
    have search: "listSearchKey l key s = Some (find_addr (\<lambda>v. key = v) ps vs)"
      using listSearchKey_ok [OF l(1), of key] match by simp
    show ?thesis
    proof (cases "find_addr (\<lambda>v. key = v) ps vs")
      case None
      then have "key \<notin> set vs" using find_addr_first [OF len, of "\<lambda>v. key = v"] by auto
      then show ?thesis using LDelKey stl st search None by (simp add: remove1_idem)
    next
      case (Some b)
      then obtain n where n: "n < length vs" "b = ps ! n" "key = vs ! n" "key \<notin> set (take n vs)"
        using find_addr_first [OF len, of "\<lambda>v. key = v"] len by auto
      then have "remove1 key vs = take n vs @ drop (Suc n) vs" "key \<in> set vs" using remove1_nth by auto
      then show ?thesis using delete_step [OF l n(1)] LDelKey stl search Some n(2) by auto
    qed
  next
    case LRotate
    show ?thesis
    proof (cases "ps = []")
      case True
      then show ?thesis using LRotate stl st dll_D(5,6) [OF l(1)] by (auto simp: listRotate_def)
    next
      case False
      then obtain as x where ps: "ps = as @ [x]" by (metis rev_exhaust)
      obtain us u where vs: "vs = us @ [u]" using dll_D(6) [OF l(1)] ps by (cases vs rule: rev_cases) auto
      obtain l' s' where "listRotate l s = Some (l', s')" "dll l' s' (x # as) (u # us)"
        "unchanged (set (as @ [x])) s s'" "same_methods l l'" by (rule listRotate_ok [OF l(1) [unfolded ps vs]])
      then show ?thesis
        using LRotate stl l ps vs foreign_same [of "as @ [x]" s s' "x # as"]
        by (auto simp: same_methods_def intro!: list_stateI)
    qed
  next
    case (LGet i)
    have idx: "listIndex l i s = Some (map_option (\<lambda>n. ps ! n) (list_pos i vs))"
      using listIndex_pos [OF l(1)] op LGet by simp
    show ?thesis
    proof (cases "list_pos i vs")
      case None
      then show ?thesis using LGet stl st idx by simp
    next
      case (Some n)
      then have "n < length ps" using list_pos_less [OF Some] dll_D(6) [OF l(1)] by simp
      then show ?thesis using LGet stl st idx Some seg_nth [OF dll_D(2) [OF l(1)]] by (simp add: deref_def)
    qed
  next
    case LLength
    then show ?thesis using stl st dll_D(5,6) [OF l(1)] by simp
  qed
qed

lemma list_run_refines:
  assumes "list_run st ops rs out" "list_state m st vs" "\<forall>op\<in>set ops. list_op_ok op"
  shows "\<exists>st'. out = Some st' \<and> list_state m st' (fst (run_ops list_ref vs ops)) \<and> rs = snd (run_ops list_ref vs ops)"
  using assms
proof (induction arbitrary: vs rule: list_run.induct)
  case (run_nil st)
  then show ?case by simp
next
  case (run_step st a op st' r ops rs out)
  obtain vs' where "list_state m st' vs'" "(vs', r) = list_ref vs op"
    using list_exec_ok [OF run_step.prems(1) run_step.hyps(1), of op] run_step.hyps(2) run_step.prems(2) by auto
  with run_step.IH [of vs'] run_step.prems(2) show ?case
    by (auto simp: split_beta simp flip: \<open>(vs', r) = list_ref vs op\<close>)
next
  case (run_crash st a op ops)
  then show ?case using list_exec_ok [OF run_crash.prems(1) run_crash.hyps(1), of op] by simp
qed

section \<open>Copying a list\<close>

text \<open>
  The copy takes its values from the \<open>dup\<close> method and its nodes from the allocator.  When
  either fails, the nodes made so far are given back and \<open>NULL\<close> is returned.
\<close>

fun dup_values :: "'a adlist \<Rightarrow> 'a list \<Rightarrow> 'a list option" where
  "dup_values l [] = Some []"
| "dup_values l (v # vs) =
    (case dup_value l v of None \<Rightarrow> None | Some w \<Rightarrow> map_option (\<lambda>ws. w # ws) (dup_values l vs))"

lemma dup_values_cong: "ldup l = ldup l' \<Longrightarrow> dup_values l vs = dup_values l' vs"
  by (induction vs) (simp_all add: dup_value_def cong: option.case_cong)

definition next_from :: "addr list \<Rightarrow> listIter" where
  "next_from ps = \<lparr>inext = first_or ps None, from_head = True\<rparr>"

lemma listDup_loop_ok:
  assumes "seg s p ps vs None" "dll copy s cs ws" "set cs \<inter> set ps = {}"
    "distinct fresh" "\<forall>a\<in>set fresh. nodes s a = None"
  shows "\<exists>r s'. listDup_loop copy (next_from ps) fresh s = Some (r, s')
    \<and> (case dup_values copy vs of
         Some ws' \<Rightarrow> if length vs \<le> length fresh
           then \<exists>c. r = Some c \<and> dll c s' (cs @ take (length vs) fresh) (ws @ ws') \<and> same_methods copy c
             \<and> unchanged (set (cs @ take (length vs) fresh)) s s'
           else r = None \<and> foreign s' [] = foreign s cs
       | None \<Rightarrow> r = None \<and> foreign s' [] = foreign s cs)"
  using assms
proof (induction ps arbitrary: p vs copy cs ws fresh s)
  case Nil
  then show ?case
    by (cases vs) (simp_all add: listDup_loop.simps [of copy] listNext_def next_from_def same_methods_def)
next
  case (Cons a ps)
  then obtain v vs' where vs: "vs = v # vs'" by (cases vs) auto
  have n: "nodes s a = Some \<lparr>nprev = p, nnext = first_or ps None, nvalue = v\<rparr>" and seg: "seg s (Some a) ps vs' None"
    using Cons.prems(1) vs by simp_all
  have step: "listDup_loop copy (next_from (a # ps)) fresh s =
     (case dup_value copy v of
         None \<Rightarrow> do { s \<leftarrow> listRelease copy s; Some (None, s) }
       | Some v \<Rightarrow> do {
           (copy, s, ok) \<leftarrow> listAddNodeTail (case fresh of [] \<Rightarrow> None | a # _ \<Rightarrow> Some a) copy v s;
           if ok then listDup_loop copy (next_from ps) (tl fresh) s
           else do { s \<leftarrow> listRelease copy s; Some (None, s) } })"
  proof -
    have "listNext (next_from (a # ps)) s = Some (Some a, next_from ps)"
      using n by (simp add: listNext_def next_from_def)
    then show ?thesis using n by (subst listDup_loop.simps) (simp add: deref_def)
  qed
  have release: "\<exists>s'. listRelease copy s = Some s' \<and> foreign s' [] = foreign s cs"
    using listRelease_ok [OF Cons.prems(2)] by (auto simp: foreign_def restrict_map_def)
  show ?case
  proof (cases "dup_value copy v")
    case None
    then show ?thesis using step release vs by auto
  next
    case (Some w)
    show ?thesis
    proof (cases fresh)
      case Nil
      then show ?thesis
        using step release vs Some by (cases "dup_values copy vs'") (auto simp: listAddNodeTail_def)
    next
      case (Cons b fresh')
      have b: "nodes s b = None" using Cons.prems(5) Cons by simp
      obtain copy' s1 where add: "listAddNodeTail (Some b) copy w s = Some (copy', s1, True)"
        "dll copy' s1 (cs @ [b]) (ws @ [w])" "unchanged (insert b (set cs)) s s1" "same_methods copy copy'"
        by (rule listAddNodeTail_ok [OF Cons.prems(2) b])
      have "b \<notin> set ps" using seg_alloc [OF seg] b by auto
      moreover have disj: "set cs \<inter> set ps = {}" using Cons.prems(3) by auto
      ultimately have "seg s1 (Some a) ps vs' None" using seg_unchanged [OF seg add(3)] by auto
      moreover have "set (cs @ [b]) \<inter> set ps = {}" using disj \<open>b \<notin> set ps\<close> by auto
      moreover have "distinct fresh'" using Cons.prems(4) Cons by simp
      moreover have "\<forall>a\<in>set fresh'. nodes s1 a = None"
      proof
        fix x assume x: "x \<in> set fresh'"
        then have "x \<noteq> b" "nodes s x = None" using Cons.prems(4,5) Cons by auto
        moreover from this have "x \<notin> set cs" using fresh_notin [OF Cons.prems(2)] by blast
        ultimately show "nodes s1 x = None" using add(3) by (simp add: unchanged_def)
      qed
      ultimately obtain r s' where ih: "listDup_loop copy' (next_from ps) fresh' s1 = Some (r, s')"
        "case dup_values copy' vs' of
         Some ws' \<Rightarrow> if length vs' \<le> length fresh'
           then \<exists>c. r = Some c \<and> dll c s' ((cs @ [b]) @ take (length vs') fresh') ((ws @ [w]) @ ws') \<and> same_methods copy' c
             \<and> unchanged (set ((cs @ [b]) @ take (length vs') fresh')) s1 s'
           else r = None \<and> foreign s' [] = foreign s1 (cs @ [b])
       | None \<Rightarrow> r = None \<and> foreign s' [] = foreign s1 (cs @ [b])"
        using Cons.IH [OF _ add(2)] by blast
      have meth: "dup_values copy' vs' = dup_values copy vs'"
        using add(4) by (intro dup_values_cong) (simp add: same_methods_def)
      have run: "listDup_loop copy (next_from (a # ps)) fresh s = Some (r, s')"
        using step Some add(1) ih(1) Cons by simp
      have "foreign s1 (cs @ [b]) = foreign s cs" using foreign_add [OF add(3) b] by simp
      moreover have "unchanged (set (cs @ b # take (length vs') fresh')) s s'"
        if "unchanged (set ((cs @ [b]) @ take (length vs') fresh')) s1 s'"
        using unchanged_trans [OF add(3) that] by (rule unchanged_mono) auto
      moreover have "same_methods copy c" if "same_methods copy' c" for c
        using that add(4) by (simp add: same_methods_def)
      ultimately show ?thesis
        using run ih(2) Some vs Cons meth by (auto split: option.splits if_splits)
    qed
  qed
qed

lemma listDup_ok:
  assumes "dll l s ps vs" "distinct fresh" "\<forall>a\<in>set fresh. nodes s a = None"
  shows "\<exists>r s'. listDup l fresh s = Some (r, s')
    \<and> (case dup_values l vs of
         Some ws \<Rightarrow> if length vs \<le> length fresh
           then \<exists>c. r = Some c \<and> dll c s' (take (length vs) fresh) ws \<and> dll l s' ps vs \<and> same_methods l c
           else r = None \<and> nodes s' = nodes s
       | None \<Rightarrow> r = None \<and> nodes s' = nodes s)"
proof -
  let ?c = "listCreate\<lparr>ldup := ldup l, lfree := lfree l, lmatch := lmatch l\<rparr>"
  have "dll ?c s [] []" by (simp add: dll_def listCreate_def)
  moreover have "dup_values ?c vs = dup_values l vs" by (rule dup_values_cong) simp
  ultimately
  obtain r s' where run: "listDup_loop ?c (next_from ps) fresh s = Some (r, s')"
    "case dup_values l vs of
         Some ws' \<Rightarrow> if length vs \<le> length fresh
           then \<exists>c. r = Some c \<and> dll c s' (take (length vs) fresh) ws' \<and> same_methods ?c c
             \<and> unchanged (set (take (length vs) fresh)) s s'
           else r = None \<and> foreign s' [] = foreign s []
       | None \<Rightarrow> r = None \<and> foreign s' [] = foreign s []"
    using listDup_loop_ok [OF dll_D(2) [OF assms(1)] _ _ assms(2,3), of ?c "[]" "[]"]
    by (auto cong: option.case_cong if_cong)
  have keep: "dll l s' ps vs" if "unchanged (set (take (length vs) fresh)) s s'"
    using dll_unchanged [OF assms(1) that] fresh_notin [OF assms(1)] assms(3) by (auto dest: in_set_takeD)
  have "listGetIterator l True = next_from ps"
    using dll_D(3) [OF assms(1)] by (simp add: listGetIterator_def next_from_def)
  then have "listDup l fresh s = Some (r, s')" using run(1) by (simp add: listDup_def)
  then show ?thesis
    using run(2) keep by (auto simp: same_methods_def split: option.splits if_splits)
qed

text \<open>
  C15: whatever addresses the allocator returns, a run of list operations from an empty list
  never dereferences \<open>NULL\<close> or memory that is not allocated, gives the results of the same
  operations on a sequence, ends in a list whose nodes are linked both ways and hold that
  sequence, and leaves the memory it does not own as it was: no node leaks, none is left dangling.
\<close>

theorem adlist_refines_sequence:
  assumes "list_run (listCreate, s0) ops rs out" "\<forall>op\<in>set ops. list_op_ok op"
  shows "\<exists>l s ps. out = Some (l, s) \<and> rs = snd (run_ops list_ref [] ops)
    \<and> dll l s ps (fst (run_ops list_ref [] ops)) \<and> nodes s |` (- set ps) = nodes s0"
proof -
  have "list_state (nodes s0) (listCreate, s0) []"
    by (rule list_stateI [OF dll_create]) (simp_all add: listCreate_def)
  from list_run_refines [OF assms(1) this assms(2)] show ?thesis
    by (auto simp: list_state_def foreign_def)
qed

definition sample_list_ops :: "int list_op list" where
  "sample_list_ops = [LTail 1, LTail 2, LHead 3, LInsert (-1) False 4, LRotate, LDelKey 3, LGet 0, LDel 1]"

lemma sample_list_run:
  "\<exists>out. list_run (listCreate, \<lparr>nodes = Map.empty, freed = []\<rparr>) sample_list_ops
     [LFlag True, LFlag True, LFlag True, LFlag True, LUnit, LFlag True, LValue (Some 2), LFlag True] out"
  supply ops = listAddNodeTail_def listAddNodeHead_def listCreate_def listIndex_def listInsertNode_def listRotate_def
    listSearchKey_def listSearchKey_loop.simps listGetIterator_def listNext_def matches_def listDelNode_def
    unlink_prev_def unlink_next_def zfree_def call_free_def deref_def set_prev_def set_next_def Let_def eval_nat_numeral
  unfolding sample_list_ops_def
  apply (rule exI)
  apply (rule list_run.run_step [where a = 1], simp add: ops, simp add: ops)
  apply (rule list_run.run_step [where a = 2], simp add: ops, simp add: ops)
  apply (rule list_run.run_step [where a = 3], simp add: ops, simp add: ops)
  apply (rule list_run.run_step [where a = 4], simp add: ops, simp add: ops)
  apply (rule list_run.run_step [where a = 5], simp add: ops, simp add: ops)
  apply (rule list_run.run_step [where a = 6], simp add: ops, simp add: ops)
  apply (rule list_run.run_step [where a = 7], simp add: ops, simp add: ops)
  apply (rule list_run.run_step [where a = 8], simp add: ops, simp add: ops)
  apply (rule list_run.run_nil)
  done

theorem adlist_refines_sequence_witness:
  "\<exists>l s ps. dll l s ps [2 :: int, 4] \<and> nodes s |` (- set ps) = Map.empty"
proof -
  obtain out where run: "list_run (listCreate, \<lparr>nodes = Map.empty, freed = []\<rparr>) sample_list_ops
     [LFlag True, LFlag True, LFlag True, LFlag True, LUnit, LFlag True, LValue (Some 2), LFlag True] out"
    using sample_list_run by blast
  have "\<forall>op\<in>set sample_list_ops. list_op_ok op" "fst (run_ops list_ref [] sample_list_ops) = [2, 4]"
    by (simp_all add: sample_list_ops_def list_pos_def)
  then show ?thesis using adlist_refines_sequence [OF run] by fastforce
qed

end
