(* ===== verification/Resp.thy ===== *)
theory Resp
  imports Sds_Text
begin

text \<open>
  The request side of the wire protocol: the parser of \<open>networking.c\<close> that turns the bytes
  arriving from a client into commands, however they are cut into reads, and the encoder of
  \<open>aof.c\<close> that writes commands in the same protocol.  Strings are their contents here; that the
  operations of \<open>sds.c\<close> act on contents in this way is shown in the theory of strings.
\<close>

section \<open>The encoder\<close>

definition CRLF :: bytes where "CRLF = [13, 10]"

text \<open>\<open>buf\<close> has 32 bytes, whose initial contents are arbitrary; the mark takes the first.\<close>

definition bulk_head :: "byte \<Rightarrow> char \<Rightarrow> nat \<Rightarrow> bytes" where
  "bulk_head fill mark n =
    (let (len, buf) = ll2string (replicate 31 fill) 31 (of_nat n)
     in ch mark # take len buf @ CRLF)"

fun catAppendOnly_args :: "byte \<Rightarrow> bytes \<Rightarrow> bytes list \<Rightarrow> bytes" where
  "catAppendOnly_args fill dst [] = dst"
| "catAppendOnly_args fill dst (arg # args) =
    catAppendOnly_args fill (((dst @ bulk_head fill CHR ''$'' (length arg)) @ arg) @ CRLF) args"

definition catAppendOnlyGenericCommand :: "byte \<Rightarrow> bytes \<Rightarrow> bytes list \<Rightarrow> bytes" where
  "catAppendOnlyGenericCommand fill dst args =
    catAppendOnly_args fill (dst @ bulk_head fill CHR ''*'' (length args)) args"

section \<open>The parser\<close>

datatype reqtype = ReqNone | ReqInline | ReqMultibulk

record client =
  querybuf :: bytes
  req :: reqtype
  multibulklen :: nat
  bulklen :: "nat option"  \<comment> \<open>\<open>None\<close> is the value -1\<close>
  argv :: "bytes list"
  close_after_reply :: bool
  is_slave :: bool
  is_master :: bool
  is_blocked :: bool
  repl_ack_time :: int
  reploff :: nat
  reply :: bytes

definition REDIS_INLINE_MAX_SIZE :: nat where "REDIS_INLINE_MAX_SIZE = 1024 * 64"
definition REDIS_MBULK_BIG_ARG :: nat where "REDIS_MBULK_BIG_ARG = 1024 * 32"

text \<open>\<open>strchr\<close> for a character that is not zero, on a buffer followed by its terminator.\<close>

fun cstrchr :: "bytes \<Rightarrow> byte \<Rightarrow> nat option" where
  "cstrchr [] c = None"
| "cstrchr (b # bs) c = (if b = c then Some 0 else if b = 0 then None else map_option Suc (cstrchr bs c))"

definition addReplyErrorLength :: "client \<Rightarrow> bytes \<Rightarrow> client" where
  "addReplyErrorLength c s = c\<lparr>reply := reply c @ str ''-ERR '' @ s @ CRLF\<rparr>"

text \<open>The formatted text ends at a zero byte, and its line breaks become spaces.\<close>

definition addReplyErrorFormat :: "client \<Rightarrow> bytes \<Rightarrow> client" where
  "addReplyErrorFormat c s =
    addReplyErrorLength c (map (\<lambda>b. if b = 13 \<or> b = 10 then ch CHR '' '' else b) (takeWhile (\<lambda>b. b \<noteq> 0) s))"

text \<open>The query buffer from a position on, as \<open>sdsrange(c->querybuf,pos,-1)\<close> leaves it.\<close>

definition rest_from :: "nat \<Rightarrow> bytes \<Rightarrow> bytes" where
  "rest_from pos s = range_ref (int pos) (-1) s"

definition setProtocolError :: "client \<Rightarrow> nat \<Rightarrow> client" where
  "setProtocolError c pos = c\<lparr>close_after_reply := True, querybuf := rest_from pos (querybuf c)\<rparr>"

definition resetClient :: "client \<Rightarrow> client" where
  "resetClient c = c\<lparr>argv := [], req := ReqNone, multibulklen := 0, bulklen := None\<rparr>"

definition processInlineBuffer :: "byte \<Rightarrow> int \<Rightarrow> client \<Rightarrow> client \<times> bool" where
  "processInlineBuffer fill now c =
    (case cstrchr (querybuf c) 10 of
       None \<Rightarrow>
         (if length (querybuf c) > REDIS_INLINE_MAX_SIZE
          then setProtocolError (addReplyErrorLength c (str ''Protocol error: too big inline request'')) 0
          else c, False)
     | Some newline \<Rightarrow>
         (let querylen = (if newline \<noteq> 0 \<and> querybuf c ! (newline - 1) = 13 then newline - 1 else newline)
         in case sdssplitargs fill (take querylen (querybuf c)) of
              None \<Rightarrow>
                (setProtocolError (addReplyErrorLength c (str ''Protocol error: unbalanced quotes in request'')) 0, False)
            | Some args \<Rightarrow>
                let c = (if querylen = 0 \<and> is_slave c then c\<lparr>repl_ack_time := now\<rparr> else c);
                    c = c\<lparr>querybuf := rest_from (querylen + 2) (querybuf c)\<rparr>
                in (c\<lparr>argv := List.filter (\<lambda>a. a \<noteq> []) (map content args)\<rparr>, True)))"

text \<open>
  The multi bulk request in three parts: the count, the length of one argument, and the loop
  over the arguments.  \<open>MbErr\<close> and \<open>MbOk\<close> are the returns, \<open>MbGo pos\<close> goes on at \<open>pos\<close>; the
  result \<open>None\<close> is a failed assertion.
\<close>

datatype mb_status = MbErr | MbOk | MbGo nat

definition mb_count :: "client \<Rightarrow> (client \<times> mb_status) option" where
  "mb_count c =
    (if multibulklen c \<noteq> 0 then Some (c, MbGo 0)
     else if argv c \<noteq> [] then None
     else (case cstrchr (querybuf c) 13 of
       None \<Rightarrow>
         Some (if length (querybuf c) > REDIS_INLINE_MAX_SIZE
               then setProtocolError (addReplyErrorLength c (str ''Protocol error: too big mbulk count string'')) 0
               else c, MbErr)
     | Some newline \<Rightarrow>
         if int newline > int (length (querybuf c)) - 2 then Some (c, MbErr)
         else if querybuf c ! 0 \<noteq> ch CHR ''*'' then None
         else
           (let err = Some (setProtocolError (addReplyErrorLength c (str ''Protocol error: invalid multibulk length'')) 0, MbErr)
           in case string2ll (take (newline - 1) (drop 1 (querybuf c))) of
                None \<Rightarrow> err
              | Some ll \<Rightarrow>
                  if sint ll > 1024 * 1024 then err
                  else let pos = newline + 2
                    in if sint ll \<le> 0 then Some (c\<lparr>querybuf := rest_from pos (querybuf c)\<rparr>, MbOk)
                       else Some (c\<lparr>multibulklen := nat (sint ll)\<rparr>, MbGo pos))))"

datatype bulk_status = BErr | BBreak | BGo nat

definition mb_bulklen :: "client \<Rightarrow> nat \<Rightarrow> client \<times> bulk_status" where
  "mb_bulklen c pos =
    (if bulklen c \<noteq> None then (c, BGo pos)
     else (case cstrchr (drop pos (querybuf c)) 13 of
       None \<Rightarrow>
         (if length (querybuf c) > REDIS_INLINE_MAX_SIZE
          then (setProtocolError (addReplyErrorLength c (str ''Protocol error: too big bulk count string'')) 0, BErr)
          else (c, BBreak))
     | Some off \<Rightarrow>
         let newline = pos + off
         in if int newline > int (length (querybuf c)) - 2 then (c, BBreak)
         else if querybuf c ! pos \<noteq> ch CHR ''$'' then
           (setProtocolError (addReplyErrorFormat c
              (str ''Protocol error: expected '' @ [39, 36, 39] @ str '', got '' @ [39, querybuf c ! pos, 39])) pos, BErr)
         else
           (let err = (setProtocolError (addReplyErrorLength c (str ''Protocol error: invalid bulk length'')) pos, BErr)
           in case string2ll (take (newline - (pos + 1)) (drop (pos + 1) (querybuf c))) of
                None \<Rightarrow> err
              | Some ll \<Rightarrow>
                  if sint ll < 0 \<or> sint ll > 512 * 1024 * 1024 then err
                  else
                    let pos = newline + 2;
                        (c, pos) = (if sint ll \<ge> int REDIS_MBULK_BIG_ARG
                                    then (c\<lparr>querybuf := rest_from pos (querybuf c)\<rparr>, 0) else (c, pos))
                    in (c\<lparr>bulklen := Some (nat (sint ll))\<rparr>, BGo pos))))"

text \<open>One argument: the fat ones take over the whole buffer.\<close>

definition mb_take_arg :: "client \<Rightarrow> nat \<Rightarrow> nat \<Rightarrow> client \<times> nat" where
  "mb_take_arg c len pos =
    (if pos = 0 \<and> len \<ge> REDIS_MBULK_BIG_ARG \<and> length (querybuf c) = len + 2
     then (c\<lparr>argv := argv c @ [take len (querybuf c)], querybuf := []\<rparr>, 0)
     else (c\<lparr>argv := argv c @ [take len (drop pos (querybuf c))]\<rparr>, pos + (len + 2)))"

text \<open>The loop runs \<open>multibulklen\<close> times; the position is \<open>None\<close> after a protocol error.\<close>

fun mb_loop :: "nat \<Rightarrow> client \<Rightarrow> nat \<Rightarrow> client \<times> nat option" where
  "mb_loop 0 c pos = (c, Some pos)"
| "mb_loop (Suc n) c pos =
    (case mb_bulklen c pos of
       (c, BErr) \<Rightarrow> (c, None)
     | (c, BBreak) \<Rightarrow> (c, Some pos)
     | (c, BGo pos) \<Rightarrow>
         (let len = the (bulklen c)
          in if length (querybuf c) - pos < len + 2 then (c, Some pos)
             else let (c, pos) = mb_take_arg c len pos
               in mb_loop n (c\<lparr>bulklen := None, multibulklen := n\<rparr>) pos))"

definition processMultibulkBuffer :: "client \<Rightarrow> (client \<times> bool) option" where
  "processMultibulkBuffer c =
    (case mb_count c of
       None \<Rightarrow> None
     | Some (c, MbErr) \<Rightarrow> Some (c, False)
     | Some (c, MbOk) \<Rightarrow> Some (c, True)
     | Some (c, MbGo pos) \<Rightarrow>
         (case mb_loop (multibulklen c) c pos of
            (c, None) \<Rightarrow> Some (c, False)
          | (c, Some pos) \<Rightarrow>
              let c = (if pos \<noteq> 0 then c\<lparr>querybuf := rest_from pos (querybuf c)\<rparr> else c)
              in Some (c, multibulklen c = 0)))"

section \<open>Requests make progress\<close>

lemma rest_from [simp]: "rest_from i c = drop i c"
proof (cases "length c = 0")
  case False
  then show ?thesis by (cases "i < length c") (auto simp: rest_from_def range_ref_def norm_index_def)
qed (simp add: rest_from_def range_ref_def norm_index_def)

lemma cstrchr_Some:
  "cstrchr bs c = Some n \<Longrightarrow> n < length bs \<and> bs ! n = c \<and> c \<notin> set (take n bs) \<and> 0 \<notin> set (take n bs)"
  by (induction bs arbitrary: n) (auto split: if_splits simp: less_Suc_eq_0_disj)

lemma inline_shrinks:
  "processInlineBuffer fill now c = (c', True) \<Longrightarrow> length (querybuf c') < length (querybuf c)"
  using cstrchr_Some [of "querybuf c" 10]
  by (auto simp: processInlineBuffer_def Let_def split: option.splits if_splits)

lemma mb_count_shrinks:
  "mb_count c = Some (c', st) \<Longrightarrow>
     (st = MbOk \<longrightarrow> length (querybuf c') < length (querybuf c))
     \<and> (\<forall>pos. st = MbGo pos \<longrightarrow> querybuf c' = querybuf c \<and> pos \<le> length (querybuf c') \<and> multibulklen c' \<noteq> 0)"
  using cstrchr_Some [of "querybuf c" 13]
  by (auto simp: mb_count_def Let_def split: option.splits if_splits)

lemma mb_bulklen_go:
  "mb_bulklen c pos = (c', BGo pos') \<Longrightarrow> pos \<le> length (querybuf c) \<Longrightarrow>
     pos' \<le> length (querybuf c') \<and> length (querybuf c') - pos' \<le> length (querybuf c) - pos
     \<and> bulklen c' \<noteq> None"
  using cstrchr_Some [of "drop pos (querybuf c)" 13]
  by (auto simp: mb_bulklen_def Let_def split: option.splits if_splits)

lemma mb_bulklen_break: "mb_bulklen c pos = (c', BBreak) \<Longrightarrow> c' = c"
  by (auto simp: mb_bulklen_def Let_def split: option.splits if_splits)

lemma mb_take_arg_shrinks:
  "mb_take_arg c len pos = (c', pos') \<Longrightarrow> len + 2 \<le> length (querybuf c) - pos \<Longrightarrow> pos \<le> length (querybuf c) \<Longrightarrow>
     pos' \<le> length (querybuf c') \<and> length (querybuf c') - pos' < length (querybuf c) - pos"
  by (auto simp: mb_take_arg_def split: if_splits)

lemma mb_loop_shrinks:
  "mb_loop n c pos = (c', Some pos') \<Longrightarrow> pos \<le> length (querybuf c) \<Longrightarrow> multibulklen c = n \<Longrightarrow>
     pos' \<le> length (querybuf c') \<and> length (querybuf c') - pos' \<le> length (querybuf c) - pos
     \<and> (multibulklen c' = 0 \<longrightarrow> 0 < n \<longrightarrow> length (querybuf c') - pos' < length (querybuf c) - pos)"
proof (induction n arbitrary: c pos)
  case 0
  then show ?case by simp
next
  case (Suc n)
  obtain c1 st where h: "mb_bulklen c pos = (c1, st)" by fastforce
  show ?case
  proof (cases st)
    case BErr
    then show ?thesis using Suc.prems(1) h by simp
  next
    case BBreak
    then show ?thesis using Suc.prems h BBreak mb_bulklen_break [OF h [unfolded BBreak]] by auto
  next
    case (BGo pos1)
    note go = mb_bulklen_go [OF h [unfolded BGo] Suc.prems(2)]
    show ?thesis
    proof (cases "length (querybuf c1) - pos1 < the (bulklen c1) + 2")
      case True
      have "multibulklen c1 = multibulklen c"
        using h by (auto simp: mb_bulklen_def setProtocolError_def addReplyErrorLength_def addReplyErrorFormat_def
            Let_def split: option.splits if_splits)
      then show ?thesis using Suc.prems h BGo True go by auto
    next
      case False
      obtain c2 pos2 where t: "mb_take_arg c1 (the (bulklen c1)) pos1 = (c2, pos2)" by fastforce
      have sh: "pos2 \<le> length (querybuf c2)" "length (querybuf c2) - pos2 < length (querybuf c1) - pos1"
        using mb_take_arg_shrinks [OF t] False go by auto
      have "mb_loop n (c2\<lparr>bulklen := None, multibulklen := n\<rparr>) pos2 = (c', Some pos')"
        using Suc.prems(1) h BGo False t by (simp add: Let_def)
      from Suc.IH [OF this] sh go show ?thesis by auto
    qed
  qed
qed

lemma multibulk_shrinks:
  assumes "processMultibulkBuffer c = Some (c', True)"
  shows "length (querybuf c') < length (querybuf c)"
proof -
  obtain c1 st where count: "mb_count c = Some (c1, st)"
    using assms by (auto simp: processMultibulkBuffer_def split: option.splits)
  show ?thesis
  proof (cases st)
    case MbErr
    then show ?thesis using assms count by (simp add: processMultibulkBuffer_def)
  next
    case MbOk
    then show ?thesis using assms count mb_count_shrinks [OF count] by (simp add: processMultibulkBuffer_def)
  next
    case (MbGo pos)
    then have go: "querybuf c1 = querybuf c" "pos \<le> length (querybuf c1)" "multibulklen c1 \<noteq> 0"
      using mb_count_shrinks [OF count] by auto
    obtain c2 pos2 where loop: "mb_loop (multibulklen c1) c1 pos = (c2, Some pos2)"
      "multibulklen c2 = 0" "querybuf c' = drop pos2 (querybuf c2)"
      using assms count MbGo by (auto simp: processMultibulkBuffer_def Let_def split: option.splits prod.splits if_splits)
    have "length (querybuf c2) - pos2 < length (querybuf c1) - pos"
      using mb_loop_shrinks [OF loop(1) go(2) refl] loop(2) go(3) by auto
    then show ?thesis using go(1) loop(3) by simp
  qed
qed

section \<open>Reading and executing\<close>

text \<open>
  Executing a command is a parameter: it changes a state of its own, and says whether the
  client is to be reset (\<open>REDIS_OK\<close>), was blocked, or is to be closed.
\<close>

record cmd_result =
  res_ok :: bool
  res_blocked :: bool
  res_close :: bool

type_synonym 's executor = "'s \<Rightarrow> bytes list \<Rightarrow> 's \<times> cmd_result"

function processInputBuffer :: "byte \<Rightarrow> int \<Rightarrow> ('s \<Rightarrow> bool) \<Rightarrow> 's executor \<Rightarrow> 's \<Rightarrow> client \<Rightarrow> ('s \<times> client) option" where
  "processInputBuffer fill now paused exec s c =
    (if querybuf c = [] then Some (s, c)
     else if \<not> is_slave c \<and> paused s then Some (s, c)
     else if is_blocked c then Some (s, c)
     else if close_after_reply c then Some (s, c)
     else
       let c = (if req c = ReqNone
                then c\<lparr>req := (if querybuf c ! 0 = ch CHR ''*'' then ReqMultibulk else ReqInline)\<rparr> else c)
       in (case (if req c = ReqInline then Some (processInlineBuffer fill now c) else processMultibulkBuffer c) of
             None \<Rightarrow> None
           | Some (c, False) \<Rightarrow> Some (s, c)
           | Some (c, True) \<Rightarrow>
               (if argv c = [] then processInputBuffer fill now paused exec s (resetClient c)
                else let (s, r) = exec s (argv c);
                         c = c\<lparr>is_blocked := res_blocked r, close_after_reply := res_close r\<rparr>
                     in processInputBuffer fill now paused exec s (if res_ok r then resetClient c else c))))"
  by pat_completeness auto
termination
proof (relation "measure (\<lambda>(_, _, _, _, _, c). length (querybuf c))", goal_cases)
  case 1
  then show ?case by simp
next
  case (2 fill now paused exec s c c1 y c2 z)
  have "length (querybuf c2) < length (querybuf c1)"
    using 2 inline_shrinks [of fill now c1 c2] multibulk_shrinks [of c1 c2] by (auto split: if_splits)
  then show ?case using 2 by (simp add: resetClient_def split: if_splits)
next
  case (3 fill now paused exec s c c1 y c2 z)
  have "length (querybuf c2) < length (querybuf c1)"
    using 3 inline_shrinks [of fill now c1 c2] multibulk_shrinks [of c1 c2] by (auto split: if_splits)
  then show ?case using 3 by (auto simp: resetClient_def split: if_splits)
qed

declare processInputBuffer.simps [simp del]

text \<open>
  One readable event: \<open>read\<close> returned the bytes \<open>data\<close>.  None at all means that the peer has
  closed the connection; a query buffer beyond the limit closes it from this side.
\<close>

datatype 's read_outcome = Alive 's client | Freed 's | Aborted

definition readQueryFromClient ::
  "byte \<Rightarrow> int \<Rightarrow> ('s \<Rightarrow> bool) \<Rightarrow> 's executor \<Rightarrow> nat \<Rightarrow> 's \<Rightarrow> client \<Rightarrow> bytes \<Rightarrow> 's read_outcome" where
  "readQueryFromClient fill now paused exec max_querybuf s c data =
    (if data = [] then Freed s
     else
       let c = c\<lparr>querybuf := querybuf c @ data, reploff := (if is_master c then reploff c + length data else reploff c)\<rparr>
       in if length (querybuf c) > max_querybuf then Freed s
          else (case processInputBuffer fill now paused exec s c of
                  None \<Rightarrow> Aborted | Some (s, c) \<Rightarrow> Alive s c))"

text \<open>How many bytes the next \<open>read\<close> asks for.\<close>

definition REDIS_IOBUF_LEN :: nat where "REDIS_IOBUF_LEN = 1024 * 16"

definition query_readlen :: "client \<Rightarrow> int" where
  "query_readlen c =
    (if req c = ReqMultibulk \<and> multibulklen c \<noteq> 0 \<and> bulklen c \<noteq> None \<and> the (bulklen c) \<ge> REDIS_MBULK_BIG_ARG
     then min (int (the (bulklen c)) + 2 - int (length (querybuf c))) (int REDIS_IOBUF_LEN)
     else int REDIS_IOBUF_LEN)"

section \<open>What the encoder writes\<close>

definition enc_arg :: "bytes \<Rightarrow> bytes" where
  "enc_arg a = ch CHR ''$'' # dec_nat (length a) @ CRLF @ a @ CRLF"

definition enc_cmd :: "bytes list \<Rightarrow> bytes" where
  "enc_cmd args = ch CHR ''*'' # dec_nat (length args) @ CRLF @ concat (map enc_arg args)"

text \<open>The limits of the parser.\<close>

definition arg_ok :: "bytes \<Rightarrow> bool" where
  "arg_ok a \<longleftrightarrow> length a \<le> 512 * 1024 * 1024"

definition cmd_ok :: "bytes list \<Rightarrow> bool" where
  "cmd_ok args \<longleftrightarrow> args \<noteq> [] \<and> length args \<le> 1024 * 1024 \<and> list_all arg_ok args"

lemma sint_of_nat: "n < 2 ^ 63 \<Longrightarrow> sint (of_nat n :: u64) = int n"
proof -
  assume n: "n < 2 ^ 63"
  then have u: "unat (of_nat n :: u64) = n" by (simp add: unat_of_nat_small)
  then have "0 \<le> sint (of_nat n :: u64)" using n by (simp add: sint_nonneg_iff word_le_nat_alt LLONG_MAX_def)
  with u show ?thesis using nat_sint [of "of_nat n"] by (metis int_nat_eq)
qed

lemma bulk_head_eq:
  assumes "n < 2 ^ 63"
  shows "bulk_head fill mark n = ch mark # dec_nat n @ CRLF"
proof -
  let ?d = "decimal (sint (of_nat n :: u64))"
  have d: "?d = dec_nat n" using assms by (simp add: sint_of_nat decimal_def)
  have "length ?d < 31" using length_decimal_le [of "of_nat n"] by simp
  then have "ll2string (replicate 31 fill) 31 (of_nat n) = (length ?d, mem_put 0 (?d @ [0]) (replicate 31 fill))"
    using ll2string_ok [of 31 "replicate 31 fill" "of_nat n"] by simp
  then show ?thesis by (simp add: bulk_head_def d mem_put_def)
qed

lemma catAppendOnly_args_eq:
  "\<forall>a\<in>set args. length a < 2 ^ 63 \<Longrightarrow> catAppendOnly_args fill dst args = dst @ concat (map enc_arg args)"
  by (induction args arbitrary: dst) (simp_all add: bulk_head_eq enc_arg_def)

lemma catAppendOnly_eq:
  assumes "cmd_ok args"
  shows "catAppendOnlyGenericCommand fill dst args = dst @ enc_cmd args"
proof -
  have "length args < 2 ^ 63" "\<forall>a\<in>set args. length a < 2 ^ 63"
    using assms by (auto simp: cmd_ok_def arg_ok_def list_all_iff)
  then show ?thesis
    by (simp add: catAppendOnlyGenericCommand_def catAppendOnly_args_eq bulk_head_eq enc_cmd_def)
qed

section \<open>Headers arriving in pieces\<close>

lemma cstrchr_hit: "c \<notin> set h \<Longrightarrow> 0 \<notin> set h \<Longrightarrow> cstrchr (h @ c # r) c = Some (length h)"
  by (induction h) auto

lemma cstrchr_miss: "c \<notin> set h \<Longrightarrow> cstrchr h c = None"
  by (induction h) auto

lemma header_cases:
  assumes "q @ F = h @ 13 # 10 # R" "13 \<notin> set h" "0 \<notin> set h"
  obtains (none) "cstrchr q 13 = None" "length q \<le> length h" "F \<noteq> []"
  | (half) "cstrchr q 13 = Some (length h)" "length q = length h + 1" "F \<noteq> []"
  | (whole) q' where "cstrchr q 13 = Some (length h)" "q = h @ 13 # 10 # q'" "q' @ F = R"
proof (cases "length q \<le> length h")
  case True
  then have "q = take (length q) h" "F \<noteq> []"
    using assms(1) by (metis append_eq_append_conv_if, metis append_self_conv append_Nil2 length_append le_add1
        add_le_same_cancel1 length_0_conv length_greater_0_conv list.distinct(1) not_le append_is_Nil_conv add_eq_self_zero dual_order.antisym)
  moreover have "13 \<notin> set (take (length q) h)" using assms(2) by (meson in_set_takeD)
  ultimately show thesis using none True cstrchr_miss by metis
next
  case False
  then have "take (length h) q = h" using assms(1) by (metis append_eq_append_conv_if nat_le_linear append_eq_conv_conj)
  then obtain r where q: "q = h @ r" by (metis append_take_drop_id)
  then have "r \<noteq> []" "r @ F = 13 # 10 # R" using False assms(1) by auto
  then obtain r' where r: "r = 13 # r'" "r' @ F = 10 # R" by (cases r) auto
  show thesis
  proof (cases r')
    case Nil
    then show thesis using half q r cstrchr_hit [OF assms(2,3)] by auto
  next
    case (Cons x q')
    then show thesis using whole [of q'] q r cstrchr_hit [OF assms(2,3)] by auto
  qed
qed

lemma dec_nat_clean: "is_digit d \<Longrightarrow> d \<noteq> 13 \<and> d \<noteq> 0"
  by (auto simp: is_digit_def word_le_nat_alt)

lemma head_clean: "13 \<notin> set (ch m # dec_nat n)" "0 \<notin> set (ch m # dec_nat n)" if "m = CHR ''*'' \<or> m = CHR ''$''"
  using that dec_nat_digits [of _ n] dec_nat_clean by auto

lemma string2ll_dec_nat: "n < 2 ^ 63 \<Longrightarrow> string2ll (dec_nat n) = Some (of_nat n)"
  using string2ll_ok [of "dec_nat n" "of_nat n"] by (simp add: sint_of_nat decimal_def)

lemma length_dec_nat_small: "n \<le> 1024 * 1024 * 1024 \<Longrightarrow> length (dec_nat n) \<le> 10"
  using length_dec_nat_le [of n 9] by simp

section \<open>Commands arriving in pieces\<close>

text \<open>
  \<open>pending b S rest T\<close>: the stream \<open>S\<close> still holds the arguments \<open>rest\<close> of the current
  command, the length of the first being known when \<open>b\<close> is, and then \<open>T\<close>.
\<close>

definition pending :: "nat option \<Rightarrow> bytes \<Rightarrow> bytes list \<Rightarrow> bytes \<Rightarrow> bool" where
  "pending b S rest T \<longleftrightarrow>
    (case b of
       None \<Rightarrow> S = concat (map enc_arg rest) @ T
     | Some n \<Rightarrow> rest \<noteq> [] \<and> n = length (hd rest) \<and> S = hd rest @ CRLF @ concat (map enc_arg (tl rest)) @ T)"

text \<open>
  The buffer is small, or waits for one fat argument that starts at its beginning and has no
  byte beyond it.  \<open>room\<close> holds when the parser is called, \<open>tail_ok\<close> when it has to wait.
\<close>

definition room :: "client \<Rightarrow> nat \<Rightarrow> bool" where
  "room c pos \<longleftrightarrow> length (querybuf c) \<le> REDIS_INLINE_MAX_SIZE
     \<or> (\<exists>n. bulklen c = Some n \<and> REDIS_MBULK_BIG_ARG \<le> n \<and> pos = 0 \<and> length (querybuf c) \<le> n + 2)"

definition tail_small :: "nat option \<Rightarrow> nat \<Rightarrow> bool" where
  "tail_small b k \<longleftrightarrow> k \<le> REDIS_MBULK_BIG_ARG + 1 \<or> (\<exists>n. b = Some n \<and> REDIS_MBULK_BIG_ARG \<le> n \<and> k < n + 2)"

lemma mb_bulklen_stream:
  assumes b: "bulklen c = None" and s: "drop pos (querybuf c) @ F = enc_arg a @ T" and a: "arg_ok a"
    and pos: "pos \<le> length (querybuf c)" and room: "length (querybuf c) \<le> REDIS_INLINE_MAX_SIZE"
  obtains (wait) "mb_bulklen c pos = (c, BBreak)" "F \<noteq> []" "length (querybuf c) - pos \<le> 12"
  | (go) q pos' where "mb_bulklen c pos = (c\<lparr>querybuf := q, bulklen := Some (length a)\<rparr>, BGo pos')"
      "pos' \<le> length q" "length q \<le> length (querybuf c)" "drop pos' q @ F = a @ CRLF @ T"
proof -
  let ?h = "ch CHR ''$'' # dec_nat (length a)"
  have la: "length a \<le> 512 * 1024 * 1024" "length a < 2 ^ 63" using a by (simp_all add: arg_ok_def)
  have lh: "length ?h \<le> 11" using length_dec_nat_small [of "length a"] la by simp
  have s': "drop pos (querybuf c) @ F = ?h @ 13 # 10 # a @ CRLF @ T"
    using s by (simp add: enc_arg_def CRLF_def)
  show thesis
  proof (rule header_cases [OF s'])
    show "13 \<notin> set ?h" "0 \<notin> set ?h" by (rule head_clean; simp)+
  next
    assume "cstrchr (drop pos (querybuf c)) 13 = None" "length (drop pos (querybuf c)) \<le> length ?h" "F \<noteq> []"
    then show thesis using wait b room lh by (simp add: mb_bulklen_def)
  next
    assume h: "cstrchr (drop pos (querybuf c)) 13 = Some (length ?h)" "length (drop pos (querybuf c)) = length ?h + 1" "F \<noteq> []"
    then have len: "length (querybuf c) = pos + length ?h + 1" using pos by simp
    then have "mb_bulklen c pos = (c, BBreak)" using h(1) b by (simp add: mb_bulklen_def)
    then show thesis using wait h(3) len lh by simp
  next
    fix q' assume q: "cstrchr (drop pos (querybuf c)) 13 = Some (length ?h)"
      "drop pos (querybuf c) = ?h @ 13 # 10 # q'" "q' @ F = a @ CRLF @ T"
    let ?nl = "pos + length ?h" and ?p = "pos + length ?h + 2"
    have len: "length (querybuf c) = ?p + length q'" using arg_cong [OF q(2), of length] pos by simp
    have first: "querybuf c ! pos = ch CHR ''$''" using q(2) pos len by (metis nth_Cons_0 append_Cons nth_via_drop)
    have "drop (pos + 1) (querybuf c) = dec_nat (length a) @ 13 # 10 # q'"
      using arg_cong [OF q(2), of "drop 1"] by simp
    then have digits: "take (?nl - (pos + 1)) (drop (pos + 1) (querybuf c)) = dec_nat (length a)" by simp
    have num: "string2ll (dec_nat (length a)) = Some (of_nat (length a))" "sint (of_nat (length a) :: u64) = int (length a)"
      using string2ll_dec_nat sint_of_nat la(2) by blast+
    have rest: "drop ?p (querybuf c) = q'" using arg_cong [OF q(2), of "drop (length ?h + 2)"] by (simp add: add.commute add.left_commute)
    have step: "mb_bulklen c pos =
       (if length a \<ge> REDIS_MBULK_BIG_ARG then (c\<lparr>querybuf := drop ?p (querybuf c), bulklen := Some (length a)\<rparr>, BGo 0)
        else (c\<lparr>bulklen := Some (length a)\<rparr>, BGo ?p))"
    proof -
      have "\<not> int ?nl > int (length (querybuf c)) - 2" using len by simp
      then show ?thesis
        unfolding mb_bulklen_def Let_def b q(1)
        by (simp only: option.case first digits num if_False if_True simp_thms not_None_eq option.distinct)
          (use la(1) in simp)
    qed
    show thesis
    proof (cases "length a \<ge> REDIS_MBULK_BIG_ARG")
      case True
      then show thesis using go [of q' 0] step rest q(3) len by simp
    next
      case False
      then show thesis using go [of "querybuf c" ?p] step rest q(3) len by simp
    qed
  qed
qed

lemma mb_take_arg_stream:
  assumes s: "drop pos (querybuf c) @ F = a @ CRLF @ T" and fits: "length a + 2 \<le> length (querybuf c) - pos"
    and pos: "pos \<le> length (querybuf c)"
  obtains q pos' where "mb_take_arg c (length a) pos = (c\<lparr>querybuf := q, argv := argv c @ [a]\<rparr>, pos')"
    "pos' \<le> length q" "length q \<le> length (querybuf c)" "drop pos' q @ F = T"
    "room c pos \<Longrightarrow> bulklen c = Some (length a) \<Longrightarrow> length q \<le> REDIS_INLINE_MAX_SIZE"
proof -
  let ?d = "drop pos (querybuf c)"
  have d: "take (length a) ?d = a" "drop (length a + 2) ?d @ F = T"
  proof -
    have "take (length a + 2) (?d @ F) = take (length a + 2) ?d" using fits pos by simp
    then have eq: "take (length a + 2) ?d = a @ CRLF" using s by (simp add: CRLF_def)
    from arg_cong [OF eq, of "take (length a)"] show "take (length a) ?d = a" by (simp add: min_def)
    have "?d = (a @ CRLF) @ drop (length a + 2) ?d" unfolding eq [symmetric] by (rule append_take_drop_id [symmetric])
    then have "(a @ CRLF) @ drop (length a + 2) ?d @ F = (a @ CRLF) @ T"
      using s by (metis append_assoc)
    then show "drop (length a + 2) ?d @ F = T" by (simp only: same_append_eq)
  qed
  show thesis
  proof (cases "pos = 0 \<and> length a \<ge> REDIS_MBULK_BIG_ARG \<and> length (querybuf c) = length a + 2")
    case True
    then show thesis using that [of "[]" 0] d by (simp add: mb_take_arg_def)
  next
    case False
    have "length (querybuf c) \<le> REDIS_INLINE_MAX_SIZE" if "room c pos" "bulklen c = Some (length a)"
      using that False fits pos by (auto simp: room_def)
    then show thesis
      using that [of "querybuf c" "pos + (length a + 2)"] False d fits pos
      by (simp add: mb_take_arg_def add.commute add.left_commute)
  qed
qed

text \<open>Everything but the state of the parser.\<close>

definition same_client :: "client \<Rightarrow> client \<Rightarrow> bool" where
  "same_client c c' \<longleftrightarrow> (\<exists>q m b a. c' = c\<lparr>querybuf := q, multibulklen := m, bulklen := b, argv := a\<rparr>)"

lemma same_clientI: "same_client c (c\<lparr>querybuf := q, argv := a, bulklen := b, multibulklen := m\<rparr>)"
proof -
  have "c\<lparr>querybuf := q, argv := a, bulklen := b, multibulklen := m\<rparr> = c\<lparr>querybuf := q, multibulklen := m, bulklen := b, argv := a\<rparr>"
    by simp
  then show ?thesis unfolding same_client_def by blast
qed

lemma same_client_simps [simp]: "same_client c c"
  "same_client c (c\<lparr>querybuf := q, bulklen := b\<rparr>)"
proof -
  have "c = c\<lparr>querybuf := querybuf c, multibulklen := multibulklen c, bulklen := bulklen c, argv := argv c\<rparr>" by simp
  then show "same_client c c" unfolding same_client_def by blast
  have "c\<lparr>querybuf := q, bulklen := b\<rparr> = c\<lparr>querybuf := q, multibulklen := multibulklen c, bulklen := b, argv := argv c\<rparr>" by simp
  then show "same_client c (c\<lparr>querybuf := q, bulklen := b\<rparr>)" unfolding same_client_def by blast
qed

lemma same_client_trans: "same_client c1 c2 \<Longrightarrow> same_client c2 c3 \<Longrightarrow> same_client c1 c3"
  by (auto simp: same_client_def) (metis (no_types, lifting) client.ext_inject client.surjective client.update_convs(1,3,4,5))

lemma mb_loop_stream:
  assumes "list_all arg_ok rest" "multibulklen c = length rest" "pos \<le> length (querybuf c)"
    "pending (bulklen c) (drop pos (querybuf c) @ F) rest T" "room c pos"
  shows "\<exists>rest' c' pos'. mb_loop (length rest) c pos = (c', Some pos') \<and> pos' \<le> length (querybuf c')
    \<and> same_client c c' \<and> argv c' @ rest' = argv c @ rest \<and> multibulklen c' = length rest'
    \<and> pending (bulklen c') (drop pos' (querybuf c') @ F) rest' T
    \<and> length (querybuf c') \<le> length (querybuf c)
    \<and> (if rest' = [] then rest \<noteq> [] \<longrightarrow> length (querybuf c') \<le> REDIS_INLINE_MAX_SIZE
       else F \<noteq> [] \<and> tail_small (bulklen c') (length (querybuf c') - pos'))"
  using assms
proof (induction rest arbitrary: c pos)
  case Nil
  then show ?case by simp
next
  case (Cons a rest)
  have a: "arg_ok a" and rest: "list_all arg_ok rest" using Cons.prems(1) by simp_all
  \<comment> \<open>the state once the length of the argument is known\<close>
  have take: "\<exists>rest' c' pos'. mb_loop (length (a # rest)) c pos = (c', Some pos') \<and> pos' \<le> length (querybuf c')
    \<and> same_client c c' \<and> argv c' @ rest' = argv c @ a # rest \<and> multibulklen c' = length rest'
    \<and> pending (bulklen c') (drop pos' (querybuf c') @ F) rest' T
    \<and> length (querybuf c') \<le> length (querybuf c)
    \<and> (if rest' = [] then a # rest \<noteq> [] \<longrightarrow> length (querybuf c') \<le> REDIS_INLINE_MAX_SIZE
       else F \<noteq> [] \<and> tail_small (bulklen c') (length (querybuf c') - pos'))"
    if go: "mb_bulklen c pos = (c1, BGo pos1)" "bulklen c1 = Some (length a)" "pos1 \<le> length (querybuf c1)"
      "drop pos1 (querybuf c1) @ F = a @ CRLF @ concat (map enc_arg rest) @ T" "same_client c c1"
      "argv c1 = argv c" "multibulklen c1 = multibulklen c" "length (querybuf c1) \<le> length (querybuf c)" "room c1 pos1" for c1 pos1
  proof (cases "length (querybuf c1) - pos1 < length a + 2")
    case True
    have "F \<noteq> []"
    proof
      assume "F = []"
      then have "length (querybuf c1) - pos1 = length (a @ CRLF @ concat (map enc_arg rest) @ T)"
        using go(4) by (metis append_Nil2 length_drop)
      then show False using True by (simp add: CRLF_def)
    qed
    moreover have "tail_small (bulklen c1) (length (querybuf c1) - pos1)"
      using True go(2) by (auto simp: tail_small_def)
    ultimately show ?thesis
      using go True Cons.prems(2) by (intro exI [of _ "a # rest"]) (simp add: pending_def)
  next
    case False
    obtain q pos2 where t: "mb_take_arg c1 (length a) pos1 = (c1\<lparr>querybuf := q, argv := argv c1 @ [a]\<rparr>, pos2)"
      "pos2 \<le> length q" "length q \<le> length (querybuf c1)" "drop pos2 q @ F = concat (map enc_arg rest) @ T"
      "length q \<le> REDIS_INLINE_MAX_SIZE"
      using mb_take_arg_stream [OF go(4) _ go(3)] False go(2,9) by (metis not_le)
    let ?c2 = "c1\<lparr>querybuf := q, argv := argv c1 @ [a], bulklen := None, multibulklen := length rest\<rparr>"
    have "mb_loop (length (a # rest)) c pos = mb_loop (length rest) ?c2 pos2"
      using go(1,2) False t(1) by simp
    moreover obtain rest' c' pos' where ih: "mb_loop (length rest) ?c2 pos2 = (c', Some pos')" "pos' \<le> length (querybuf c')"
      "same_client ?c2 c'" "argv c' @ rest' = (argv c1 @ [a]) @ rest" "multibulklen c' = length rest'"
      "pending (bulklen c') (drop pos' (querybuf c') @ F) rest' T" "length (querybuf c') \<le> length q"
      "if rest' = [] then rest \<noteq> [] \<longrightarrow> length (querybuf c') \<le> REDIS_INLINE_MAX_SIZE
       else F \<noteq> [] \<and> tail_small (bulklen c') (length (querybuf c') - pos')"
      using Cons.IH [OF rest, of ?c2 pos2] t by (auto simp: pending_def room_def)
    moreover have "same_client c c'"
      using same_client_trans [OF same_client_trans [OF go(5) same_clientI] ih(3)] .
    ultimately show ?thesis using go(6,8) t(3,5) by (intro exI [of _ rest'] exI [of _ c'] exI [of _ pos']) auto
  qed
  show ?case
  proof (cases "bulklen c")
    case (Some n)
    then show ?thesis
      using take [of c pos] Cons.prems
      by (simp add: mb_bulklen_def pending_def)
  next
    case None
    have small: "length (querybuf c) \<le> REDIS_INLINE_MAX_SIZE" using Cons.prems(5) None by (simp add: room_def)
    have s: "drop pos (querybuf c) @ F = enc_arg a @ concat (map enc_arg rest) @ T"
      using Cons.prems(4) None by (simp add: pending_def)
    show ?thesis
    proof (rule mb_bulklen_stream [OF None s a Cons.prems(3) small])
      assume "mb_bulklen c pos = (c, BBreak)" "F \<noteq> []" "length (querybuf c) - pos \<le> 12"
      then show ?thesis
        using Cons.prems
        by (intro exI [of _ "a # rest"]) (simp add: tail_small_def REDIS_MBULK_BIG_ARG_def)
    next
      fix q pos' assume go: "mb_bulklen c pos = (c\<lparr>querybuf := q, bulklen := Some (length a)\<rparr>, BGo pos')"
        "pos' \<le> length q" "length q \<le> length (querybuf c)" "drop pos' q @ F = a @ CRLF @ concat (map enc_arg rest) @ T"
      then show ?thesis
        using small by (intro take [OF go(1)]) (simp_all add: room_def)
    qed
  qed
qed

lemma mb_count_stream:
  assumes idle: "multibulklen c = 0" "argv c = []" and s: "querybuf c @ F = enc_cmd cmd @ T" and ok: "cmd_ok cmd"
    and room: "length (querybuf c) \<le> REDIS_INLINE_MAX_SIZE"
  obtains (wait) "mb_count c = Some (c, MbErr)" "F \<noteq> []" "length (querybuf c) \<le> 12"
  | (go) pos where "mb_count c = Some (c\<lparr>multibulklen := length cmd\<rparr>, MbGo pos)" "pos \<le> length (querybuf c)"
      "drop pos (querybuf c) @ F = concat (map enc_arg cmd) @ T"
proof -
  let ?h = "ch CHR ''*'' # dec_nat (length cmd)"
  have la: "length cmd \<le> 1024 * 1024" "length cmd < 2 ^ 63" "cmd \<noteq> []" using ok by (simp_all add: cmd_ok_def)
  have lh: "length ?h \<le> 11" using length_dec_nat_small [of "length cmd"] la by simp
  have s': "querybuf c @ F = ?h @ 13 # 10 # concat (map enc_arg cmd) @ T"
    using s by (simp add: enc_cmd_def CRLF_def)
  show thesis
  proof (rule header_cases [OF s'])
    show "13 \<notin> set ?h" "0 \<notin> set ?h" by (rule head_clean; simp)+
  next
    assume "cstrchr (querybuf c) 13 = None" "length (querybuf c) \<le> length ?h" "F \<noteq> []"
    then show thesis using wait idle room lh by (simp add: mb_count_def)
  next
    assume h: "cstrchr (querybuf c) 13 = Some (length ?h)" "length (querybuf c) = length ?h + 1" "F \<noteq> []"
    then have "mb_count c = Some (c, MbErr)" using idle by (simp add: mb_count_def)
    then show thesis using wait h lh by simp
  next
    fix q' assume q: "cstrchr (querybuf c) 13 = Some (length ?h)"
      "querybuf c = ?h @ 13 # 10 # q'" "q' @ F = concat (map enc_arg cmd) @ T"
    have num: "string2ll (dec_nat (length cmd)) = Some (of_nat (length cmd))" "sint (of_nat (length cmd) :: u64) = int (length cmd)"
      using string2ll_dec_nat sint_of_nat la(2) by blast+
    have "mb_count c = Some (c\<lparr>multibulklen := length cmd\<rparr>, MbGo (length ?h + 2))"
      using idle q(1) num la by (simp add: mb_count_def q(2) Let_def)
    then show thesis using go [of "length ?h + 2"] q(2,3) by simp
  qed
qed

text \<open>The parser has the arguments of \<open>cmd\<close> up to \<open>rest\<close>, or has not seen its count yet.\<close>

definition in_command :: "client \<Rightarrow> bytes \<Rightarrow> bytes list \<Rightarrow> bytes \<Rightarrow> bool" where
  "in_command c F cmd T \<longleftrightarrow>
    (multibulklen c = 0 \<and> argv c = [] \<and> bulklen c = None \<and> querybuf c @ F = enc_cmd cmd @ T)
    \<or> (\<exists>rest. rest \<noteq> [] \<and> argv c @ rest = cmd \<and> multibulklen c = length rest
         \<and> pending (bulklen c) (querybuf c @ F) rest T)"

lemma multibulk_stream:
  assumes cmd: "in_command c F cmd T" and ok: "cmd_ok cmd" and room: "room c 0"
  obtains (complete) c' where "processMultibulkBuffer c = Some (c', True)" "same_client c c'" "argv c' = cmd"
      "querybuf c' @ F = T" "bulklen c' = None" "length (querybuf c') \<le> REDIS_INLINE_MAX_SIZE"
  | (wait) c' where "processMultibulkBuffer c = Some (c', False)" "same_client c c'" "in_command c' F cmd T"
      "F \<noteq> []" "tail_small (bulklen c') (length (querybuf c'))" "bulklen c' \<noteq> None \<Longrightarrow> multibulklen c' \<noteq> 0"
      "multibulklen c' = 0 \<Longrightarrow> querybuf c' = querybuf c"
proof -
  have loop: thesis
    if count: "mb_count c = Some (c1, MbGo pos)" "same_client c c1" "pos \<le> length (querybuf c1)" "rest \<noteq> []"
      "argv c1 @ rest = cmd" "multibulklen c1 = length rest"
      "pending (bulklen c1) (drop pos (querybuf c1) @ F) rest T" "room c1 pos" for c1 pos rest
  proof -
    have "list_all arg_ok rest" using ok count(5) by (auto simp: cmd_ok_def)
    from mb_loop_stream [OF this count(6,3,7,8)] obtain rest' c2 pos' where l:
      "mb_loop (length rest) c1 pos = (c2, Some pos')" "pos' \<le> length (querybuf c2)" "same_client c1 c2"
      "argv c2 @ rest' = cmd" "multibulklen c2 = length rest'" "pending (bulklen c2) (drop pos' (querybuf c2) @ F) rest' T"
      "if rest' = [] then rest \<noteq> [] \<longrightarrow> length (querybuf c2) \<le> REDIS_INLINE_MAX_SIZE
       else F \<noteq> [] \<and> tail_small (bulklen c2) (length (querybuf c2) - pos')"
      using count(5) by metis
    let ?c = "c2\<lparr>querybuf := drop pos' (querybuf c2)\<rparr>"
    have res: "processMultibulkBuffer c = Some (?c, rest' = [])"
      using count(1,6) l(1,5) by (simp add: processMultibulkBuffer_def)
    have "same_client c2 ?c" using same_client_simps(2) [where c = c2 and q = "drop pos' (querybuf c2)" and b = "bulklen c2"] by simp
    then have same: "same_client c ?c" using same_client_trans count(2) l(3) by blast
    show thesis
    proof (cases "rest' = []")
      case True
      then show thesis
        using complete [of ?c] res same l count(4) by (auto simp: pending_def split: option.splits)
    next
      case False
      then have "in_command ?c F cmd T" using l by (auto simp: in_command_def)
      then show thesis using wait [of ?c] res same False l(5,7) by simp
    qed
  qed
  from cmd show thesis unfolding in_command_def
  proof (elim disjE conjE exE)
    assume idle: "multibulklen c = 0" "argv c = []" "bulklen c = None" "querybuf c @ F = enc_cmd cmd @ T"
    have small: "length (querybuf c) \<le> REDIS_INLINE_MAX_SIZE" using room idle(3) by (simp add: room_def)
    show thesis
    proof (rule mb_count_stream [OF idle(1,2,4) ok small])
      assume w: "mb_count c = Some (c, MbErr)" "F \<noteq> []" "length (querybuf c) \<le> 12"
      then show thesis
        using wait [of c] cmd idle by (simp add: processMultibulkBuffer_def tail_small_def REDIS_MBULK_BIG_ARG_def)
    next
      fix pos assume g: "mb_count c = Some (c\<lparr>multibulklen := length cmd\<rparr>, MbGo pos)" "pos \<le> length (querybuf c)"
      "drop pos (querybuf c) @ F = concat (map enc_arg cmd) @ T"
      have "same_client c (c\<lparr>multibulklen := length cmd\<rparr>)"
        using same_clientI [where c = c and a = "argv c" and b = "bulklen c" and m = "length cmd" and q = "querybuf c"] by simp
      then show thesis
        using loop [OF g(1), of cmd] g idle small ok by (simp add: pending_def room_def cmd_ok_def)
    qed
  next
    fix rest assume m: "rest \<noteq> []" "argv c @ rest = cmd" "multibulklen c = length rest"
      "pending (bulklen c) (querybuf c @ F) rest T"
    then have "mb_count c = Some (c, MbGo 0)" by (simp add: mb_count_def)
    from loop [OF this, of rest] m room show thesis by simp
  qed
qed

section \<open>Streams of commands\<close>

fun awaits :: "client \<Rightarrow> bytes \<Rightarrow> bytes list list \<Rightarrow> bool" where
  "awaits c F [] \<longleftrightarrow> multibulklen c = 0 \<and> argv c = [] \<and> bulklen c = None \<and> querybuf c = [] \<and> F = [] \<and> req c = ReqNone"
| "awaits c F (cmd # cmds) \<longleftrightarrow> in_command c F cmd (concat (map enc_cmd cmds))
     \<and> (if req c = ReqNone then multibulklen c = 0 else req c = ReqMultibulk)
     \<and> (querybuf c = [] \<longrightarrow> multibulklen c = 0 \<longrightarrow> req c = ReqNone)"

definition tail_ok :: "client \<Rightarrow> bool" where
  "tail_ok c \<longleftrightarrow> length (querybuf c) \<le> REDIS_MBULK_BIG_ARG + 1
     \<or> (req c = ReqMultibulk \<and> multibulklen c \<noteq> 0 \<and>
        (\<exists>n. bulklen c = Some n \<and> REDIS_MBULK_BIG_ARG \<le> n \<and> length (querybuf c) < n + 2))"

text \<open>The state of the connection, without the parser's.\<close>

definition same_conn :: "client \<Rightarrow> client \<Rightarrow> bool" where
  "same_conn c c' \<longleftrightarrow> close_after_reply c' = close_after_reply c \<and> is_slave c' = is_slave c \<and> is_master c' = is_master c
     \<and> is_blocked c' = is_blocked c \<and> repl_ack_time c' = repl_ack_time c \<and> reply c' = reply c \<and> reploff c' = reploff c"

definition plain_exec :: "'s executor \<Rightarrow> bool" where
  "plain_exec exec \<longleftrightarrow> (\<forall>s a. snd (exec s a) = \<lparr>res_ok = True, res_blocked = False, res_close = False\<rparr>)"

definition exec_all :: "'s executor \<Rightarrow> 's \<Rightarrow> bytes list list \<Rightarrow> 's" where
  "exec_all exec s cmds = foldl (\<lambda>s a. fst (exec s a)) s cmds"

lemma same_client_conn: "same_client c c' \<Longrightarrow> same_conn c c' \<and> req c' = req c"
  by (auto simp: same_client_def same_conn_def)

lemma same_conn_trans: "same_conn c1 c2 \<Longrightarrow> same_conn c2 c3 \<Longrightarrow> same_conn c1 c3"
  by (simp add: same_conn_def)

lemma in_command_not_empty: "in_command c [] cmd T \<Longrightarrow> querybuf c \<noteq> []"
  by (auto simp: in_command_def enc_cmd_def pending_def CRLF_def split: option.splits)
    (auto simp: enc_arg_def neq_Nil_conv)

lemma in_command_start:
  "multibulklen c = 0 \<Longrightarrow> argv c = [] \<Longrightarrow> bulklen c = None \<Longrightarrow> in_command c F cmd T \<longleftrightarrow> querybuf c @ F = enc_cmd cmd @ T"
  by (auto simp: in_command_def)

lemma awaits_start:
  "multibulklen c = 0 \<Longrightarrow> argv c = [] \<Longrightarrow> bulklen c = None \<Longrightarrow> req c = ReqNone \<Longrightarrow>
     querybuf c @ F = concat (map enc_cmd cmds) \<Longrightarrow> awaits c F cmds"
  by (cases cmds) (simp_all add: in_command_start)

lemma input_stream:
  assumes "awaits c F cmds" "list_all cmd_ok cmds" "room c 0" "plain_exec exec" "\<And>s. \<not> paused s"
    "\<not> is_blocked c" "\<not> close_after_reply c"
  shows "\<exists>processed rest c'. cmds = processed @ rest
    \<and> processInputBuffer fill now paused exec s c = Some (exec_all exec s processed, c')
    \<and> awaits c' F rest \<and> tail_ok c' \<and> same_conn c c' \<and> (F = [] \<longrightarrow> rest = [])"
  using assms(1-3,6,7)
proof (induction "length (querybuf c)" arbitrary: c cmds s rule: less_induct)
  case less
  show ?case
  proof (cases "querybuf c = []")
    case True
    have "cmds = []" if "F = []" using less.prems(1) True that in_command_not_empty by (cases cmds) auto
    then show ?thesis
      using True less.prems(1) by (intro exI [of _ "[]"] exI [of _ cmds] exI [of _ c])
        (simp add: processInputBuffer.simps [of fill now paused exec s c] exec_all_def tail_ok_def same_conn_def)
  next
    case False
    obtain cmd cmds' where cmds: "cmds = cmd # cmds'" using less.prems(1) False by (cases cmds) auto
    let ?T = "concat (map enc_cmd cmds')"
    let ?c = "if req c = ReqNone then c\<lparr>req := (if querybuf c ! 0 = ch CHR ''*'' then ReqMultibulk else ReqInline)\<rparr> else c"
    have cmd: "in_command c F cmd ?T" "cmd_ok cmd" using less.prems(1,2) cmds by simp_all
    have star: "querybuf c ! 0 = ch CHR ''*''" if "req c = ReqNone"
    proof -
      have "multibulklen c = 0" using that less.prems(1) cmds by simp
      then have "querybuf c @ F = enc_cmd cmd @ ?T" using cmd(1) by (auto simp: in_command_def)
      then show ?thesis using False by (cases "querybuf c") (simp_all add: enc_cmd_def)
    qed
    have req: "req ?c = ReqMultibulk" using star less.prems(1) cmds by (auto split: if_splits)
    have c: "querybuf ?c = querybuf c" "same_conn c ?c" "in_command ?c F cmd ?T" "room ?c 0"
      using cmd(1) less.prems(3) by (simp_all add: same_conn_def in_command_def room_def)
    have run: "processInputBuffer fill now paused exec s c =
      (case processMultibulkBuffer ?c of
             None \<Rightarrow> None
           | Some (c, False) \<Rightarrow> Some (s, c)
           | Some (c, True) \<Rightarrow>
               (if argv c = [] then processInputBuffer fill now paused exec s (resetClient c)
                else let (s, r) = exec s (argv c);
                         c = c\<lparr>is_blocked := res_blocked r, close_after_reply := res_close r\<rparr>
                     in processInputBuffer fill now paused exec s (if res_ok r then resetClient c else c)))"
      using False less.prems(4,5) assms(5) req
      by (subst processInputBuffer.simps) (simp del: if_split add: Let_def)
    show ?thesis
    proof (rule multibulk_stream [OF c(3) cmd(2) c(4)])
      fix c2 assume r: "processMultibulkBuffer ?c = Some (c2, True)" "same_client ?c c2" "argv c2 = cmd"
        "querybuf c2 @ F = ?T" "bulklen c2 = None" "length (querybuf c2) \<le> REDIS_INLINE_MAX_SIZE"
      obtain s' where ex: "exec s cmd = (s', \<lparr>res_ok = True, res_blocked = False, res_close = False\<rparr>)"
        using assms(4) by (metis plain_exec_def prod.collapse)
      let ?c3 = "resetClient (c2\<lparr>is_blocked := False, close_after_reply := False\<rparr>)"
      have conn: "same_conn c c2" using same_conn_trans [OF c(2)] same_client_conn [OF r(2)] by blast
      have go: "processInputBuffer fill now paused exec s c = processInputBuffer fill now paused exec s' ?c3"
        using run r(1,3) ex cmd(2) by (simp add: cmd_ok_def)
      have "length (querybuf ?c3) < length (querybuf c)"
        using multibulk_shrinks [OF r(1)] c(1) by (simp add: resetClient_def)
      moreover have "awaits ?c3 F cmds'" using r(4) by (intro awaits_start) (simp_all add: resetClient_def)
      moreover have "list_all cmd_ok cmds'" using less.prems(2) cmds by simp
      moreover have "room ?c3 0" using r(6) by (simp add: room_def resetClient_def)
      moreover have "\<not> is_blocked ?c3" "\<not> close_after_reply ?c3" by (simp_all add: resetClient_def)
      ultimately obtain processed rest c' where ih: "cmds' = processed @ rest"
        "processInputBuffer fill now paused exec s' ?c3 = Some (exec_all exec s' processed, c')"
        "awaits c' F rest" "tail_ok c'" "same_conn ?c3 c'" "F = [] \<longrightarrow> rest = []"
        using less.hyps by metis
      have "same_conn c2 ?c3"
        using conn less.prems(4,5) by (simp add: same_conn_def resetClient_def)
      then have "same_conn c c'" using same_conn_trans conn ih(5) by blast
      moreover have "exec_all exec s (cmd # processed) = exec_all exec s' processed" by (simp add: exec_all_def ex)
      ultimately show ?thesis
        using go ih cmds by (intro exI [of _ "cmd # processed"] exI [of _ rest] exI [of _ c']) simp
    next
      fix c2 assume r: "processMultibulkBuffer ?c = Some (c2, False)" "same_client ?c c2" "in_command c2 F cmd ?T"
      "F \<noteq> []" "tail_small (bulklen c2) (length (querybuf c2))" "bulklen c2 \<noteq> None \<Longrightarrow> multibulklen c2 \<noteq> 0"
      "multibulklen c2 = 0 \<Longrightarrow> querybuf c2 = querybuf ?c"
      have conn: "same_conn c c2" "req c2 = ReqMultibulk"
        using same_conn_trans [OF c(2)] same_client_conn [OF r(2)] req by auto
      have "processInputBuffer fill now paused exec s c = Some (s, c2)" using run r(1) by simp
      moreover have "multibulklen c2 \<noteq> 0 \<or> querybuf c2 \<noteq> []" using r(7) False c(1) by auto
      then have "awaits c2 F cmds" using r(3) conn(2) cmds by auto
      moreover have "tail_ok c2" using r(5,6) conn(2) by (auto simp: tail_small_def tail_ok_def)
      ultimately show ?thesis
        using conn(1) r(4) by (intro exI [of _ "[]"] exI [of _ cmds] exI [of _ c2]) (simp add: exec_all_def)
    qed
  qed
qed

section \<open>Reading from the connection\<close>

text \<open>All the reads of a connection; what the last one leaves is the outcome.\<close>

fun feed :: "byte \<Rightarrow> int \<Rightarrow> ('s \<Rightarrow> bool) \<Rightarrow> 's executor \<Rightarrow> nat \<Rightarrow> 's \<Rightarrow> client \<Rightarrow> bytes list \<Rightarrow> 's read_outcome" where
  "feed fill now paused exec mx s c [] = Alive s c"
| "feed fill now paused exec mx s c (d # ds) =
    (case readQueryFromClient fill now paused exec mx s c d of
       Alive s c \<Rightarrow> feed fill now paused exec mx s c ds | out \<Rightarrow> out)"

text \<open>Every read returns at least one byte and not more than was asked for.\<close>

fun reads_ok :: "byte \<Rightarrow> int \<Rightarrow> ('s \<Rightarrow> bool) \<Rightarrow> 's executor \<Rightarrow> nat \<Rightarrow> 's \<Rightarrow> client \<Rightarrow> bytes list \<Rightarrow> bool" where
  "reads_ok fill now paused exec mx s c [] = True"
| "reads_ok fill now paused exec mx s c (d # ds) =
    (d \<noteq> [] \<and> int (length d) \<le> query_readlen c \<and>
     (case readQueryFromClient fill now paused exec mx s c d of
        Alive s c \<Rightarrow> reads_ok fill now paused exec mx s c ds | _ \<Rightarrow> True))"

definition conn_idle :: "client \<Rightarrow> bool" where
  "conn_idle c \<longleftrightarrow> querybuf c = [] \<and> req c = ReqNone \<and> multibulklen c = 0 \<and> bulklen c = None \<and> argv c = []
     \<and> \<not> close_after_reply c \<and> \<not> is_blocked c"

lemma room_after_read:
  assumes "tail_ok c" "int (length d) \<le> query_readlen c"
  shows "room (c\<lparr>querybuf := querybuf c @ d, reploff := k\<rparr>) 0"
  using assms by (auto simp: tail_ok_def query_readlen_def room_def REDIS_MBULK_BIG_ARG_def REDIS_INLINE_MAX_SIZE_def
      REDIS_IOBUF_LEN_def split: if_splits)

lemma in_command_append: "in_command c (d @ F) cmd T \<Longrightarrow> in_command (c\<lparr>querybuf := querybuf c @ d, reploff := k\<rparr>) F cmd T"
  by (auto simp: in_command_def)

lemma awaits_append:
  assumes "awaits c (d @ F) cmds"
  shows "awaits (c\<lparr>querybuf := querybuf c @ d, reploff := k\<rparr>) F cmds"
  using assms in_command_append by (cases cmds) (auto split: if_splits)

lemma in_command_bulklen: "in_command c F cmd T \<Longrightarrow> bulklen c = Some n \<Longrightarrow> \<exists>a\<in>set cmd. n = length a"
proof (unfold in_command_def, elim disjE exE conjE)
  fix rest assume "bulklen c = Some n" "rest \<noteq> []" "argv c @ rest = cmd" "pending (bulklen c) (querybuf c @ F) rest T"
  then have "n = length (hd rest)" "hd rest \<in> set cmd" by (auto simp: pending_def)
  then show ?thesis by blast
qed simp

lemma awaits_size:
  assumes "awaits c F cmds" "list_all cmd_ok cmds" "room c 0"
  shows "length (querybuf c) \<le> 2 ^ 30"
proof (cases "bulklen c")
  case None
  then show ?thesis using assms(3) by (simp add: room_def REDIS_INLINE_MAX_SIZE_def)
next
  case (Some n)
  then obtain cmd cmds' where "cmds = cmd # cmds'" using assms(1) by (cases cmds) auto
  then have "n \<le> 512 * 1024 * 1024"
    using in_command_bulklen [of c F cmd _ n] Some assms(1,2) by (auto simp: cmd_ok_def arg_ok_def list_all_iff)
  then show ?thesis using assms(3) Some by (auto simp: room_def REDIS_INLINE_MAX_SIZE_def)
qed

lemma read_stream:
  assumes "awaits c (d @ F) cmds" "list_all cmd_ok cmds" "tail_ok c" "plain_exec exec" "\<And>s. \<not> paused s"
    "\<not> is_blocked c" "\<not> close_after_reply c" "\<not> is_master c" "2 ^ 30 \<le> mx" "d \<noteq> []" "int (length d) \<le> query_readlen c"
  obtains processed rest c' where "cmds = processed @ rest"
    "readQueryFromClient fill now paused exec mx s c d = Alive (exec_all exec s processed) c'"
    "awaits c' F rest" "tail_ok c'" "same_conn c c'" "F = [] \<longrightarrow> rest = []"
proof -
  let ?c = "c\<lparr>querybuf := querybuf c @ d, reploff := reploff c\<rparr>"
  have aw: "awaits ?c F cmds" by (rule awaits_append [OF assms(1)])
  have room: "room ?c 0" by (rule room_after_read [OF assms(3,11)])
  obtain processed rest c' where p: "cmds = processed @ rest"
    "processInputBuffer fill now paused exec s ?c = Some (exec_all exec s processed, c')"
    "awaits c' F rest" "tail_ok c'" "same_conn ?c c'" "F = [] \<longrightarrow> rest = []"
    using input_stream [where c = ?c and s = s and fill = fill and now = now and paused = paused, OF aw assms(2) room assms(4,5)] assms(6,7)
    by auto
  have "length (querybuf ?c) \<le> mx" using awaits_size [OF aw assms(2) room] assms(9) by linarith
  then have "readQueryFromClient fill now paused exec mx s c d = Alive (exec_all exec s processed) c'"
    using assms(8,10) p(2) by (simp add: readQueryFromClient_def)
  then show thesis using that [of processed rest c'] p by (simp add: same_conn_def)
qed

lemma feed_stream:
  assumes "awaits c (concat ds) cmds" "list_all cmd_ok cmds" "tail_ok c" "plain_exec exec" "\<And>s. \<not> paused s"
    "\<not> is_blocked c" "\<not> close_after_reply c" "\<not> is_master c" "2 ^ 30 \<le> mx" "reads_ok fill now paused exec mx s c ds"
    "concat ds = [] \<longrightarrow> cmds = []"
  shows "\<exists>c'. feed fill now paused exec mx s c ds = Alive (exec_all exec s cmds) c' \<and> same_conn c c' \<and> conn_idle c'"
  using assms(1-3,6-8,10,11)
proof (induction ds arbitrary: c cmds s)
  case Nil
  then have "cmds = []" by simp
  with Nil show ?case by (simp add: exec_all_def same_conn_def conn_idle_def)
next
  case (Cons d ds)
  have d: "d \<noteq> []" "int (length d) \<le> query_readlen c" "awaits c (d @ concat ds) cmds" using Cons.prems(1,7) by simp_all
  obtain processed rest c' where p: "cmds = processed @ rest"
    "readQueryFromClient fill now paused exec mx s c d = Alive (exec_all exec s processed) c'"
    "awaits c' (concat ds) rest" "tail_ok c'" "same_conn c c'" "concat ds = [] \<longrightarrow> rest = []"
    by (rule read_stream [OF d(3) Cons.prems(2,3) assms(4,5) Cons.prems(4-6) assms(9) d(1,2)])
  obtain c'' where "feed fill now paused exec mx (exec_all exec s processed) c' ds = Alive (exec_all exec (exec_all exec s processed) rest) c''"
    "same_conn c' c''" "conn_idle c''"
    using Cons.IH [OF p(3) _ p(4)] Cons.prems p(1,2,5,6) by (auto simp: same_conn_def)
  then show ?case
    using p(2) same_conn_trans [OF p(5)] by (simp add: exec_all_def p(1))
qed

text \<open>Without fat arguments, every read asks for the same number of bytes.\<close>

lemma reads_ok_small:
  assumes "awaits c (concat ds) cmds" "list_all cmd_ok cmds" "tail_ok c" "plain_exec exec" "\<And>s. \<not> paused s"
    "\<not> is_blocked c" "\<not> close_after_reply c" "\<not> is_master c" "2 ^ 30 \<le> mx"
    "\<forall>cmd\<in>set cmds. \<forall>a\<in>set cmd. length a < REDIS_MBULK_BIG_ARG" "\<forall>d\<in>set ds. d \<noteq> [] \<and> length d \<le> REDIS_IOBUF_LEN"
  shows "reads_ok fill now paused exec mx s c ds"
  using assms(1-3,6-8,10,11)
proof (induction ds arbitrary: c cmds s)
  case (Cons d ds)
  have "n < REDIS_MBULK_BIG_ARG" if n: "bulklen c = Some n" for n
  proof (cases cmds)
    case Nil
    then show ?thesis using Cons.prems(1) n by simp
  next
    case cc: (Cons cmd cmds2)
    then have "\<exists>a\<in>set cmd. n = length a" using Cons.prems(1) in_command_bulklen [OF _ n] by auto
    then show ?thesis using Cons.prems(7) cc by auto
  qed
  then have readlen: "query_readlen c = int REDIS_IOBUF_LEN" by (auto simp: query_readlen_def)
  have d: "d \<noteq> []" "int (length d) \<le> query_readlen c" "awaits c (d @ concat ds) cmds"
    using Cons.prems(1,8) readlen by simp_all
  obtain processed rest c' where p: "cmds = processed @ rest"
    "readQueryFromClient fill now paused exec mx s c d = Alive (exec_all exec s processed) c'"
    "awaits c' (concat ds) rest" "tail_ok c'" "same_conn c c'"
    by (rule read_stream [OF d(3) Cons.prems(2,3) assms(4,5) Cons.prems(4-6) assms(9) d(1,2)])
  have "reads_ok fill now paused exec mx (exec_all exec s processed) c' ds"
    using Cons.IH [OF p(3) _ p(4)] Cons.prems p(1,5) by (auto simp: same_conn_def)
  then show ?case using d p(2) by simp
qed simp

lemma conn_idle_unique: "conn_idle c \<Longrightarrow> conn_idle c' \<Longrightarrow> same_conn c c' \<Longrightarrow> c' = c"
  by (simp add: conn_idle_def same_conn_def)

text \<open>
  C16: round trip over the wire.  Write any commands with \<open>catAppendOnlyGenericCommand\<close>, one
  after the other, and let the bytes arrive in reads of any sizes that the reader asks for:
  exactly these commands are executed, in order, with their arguments byte for byte; no
  protocol error is reported, no assertion fails, and the client ends as it was.
\<close>

theorem wire_roundtrip:
  assumes "list_all cmd_ok cmds" "concat ds = foldl (catAppendOnlyGenericCommand fill0) [] cmds"
    "conn_idle c" "\<not> is_master c" "plain_exec exec" "\<And>s. \<not> paused s" "2 ^ 30 \<le> mx"
    "reads_ok fill now paused exec mx s c ds"
  shows "feed fill now paused exec mx s c ds = Alive (exec_all exec s cmds) c"
proof -
  have "foldl (catAppendOnlyGenericCommand fill0) dst cmds = dst @ concat (map enc_cmd cmds)" for dst
    using assms(1) by (induction cmds arbitrary: dst) (simp_all add: catAppendOnly_eq)
  then have bytes: "concat ds = concat (map enc_cmd cmds)" using assms(2) by simp
  have "awaits c (concat ds) cmds"
    using assms(3) bytes by (intro awaits_start) (simp_all add: conn_idle_def)
  moreover have "concat ds = [] \<longrightarrow> cmds = []" unfolding bytes by (cases cmds) (simp_all add: enc_cmd_def)
  ultimately obtain c' where "feed fill now paused exec mx s c ds = Alive (exec_all exec s cmds) c'" "same_conn c c'" "conn_idle c'"
    using feed_stream [of c ds cmds exec paused mx fill now s] assms(1,3-8) by (auto simp: conn_idle_def tail_ok_def)
  then show ?thesis using conn_idle_unique [OF assms(3)] by simp
qed

definition log_exec :: "bytes list list executor" where
  "log_exec s a = (s @ [a], \<lparr>res_ok = True, res_blocked = False, res_close = False\<rparr>)"

definition fresh_client :: client where
  "fresh_client = \<lparr>querybuf = [], req = ReqNone, multibulklen = 0, bulklen = None, argv = [], close_after_reply = False,
     is_slave = False, is_master = False, is_blocked = False, repl_ack_time = 0, reploff = 0, reply = []\<rparr>"

theorem wire_roundtrip_witness:
  "feed 0 0 (\<lambda>_. False) log_exec (2 ^ 30) [] fresh_client
     [str ''*2'' @ CRLF @ str ''$3'' @ [13], [10] @ str ''GET'' @ CRLF @ str ''$1'' @ CRLF @ [0] @ CRLF @ str ''*1'' @ CRLF,
      str ''$4'' @ CRLF @ str ''PING'' @ CRLF]
   = Alive [[str ''GET'', [0]], [str ''PING'']] fresh_client"
proof -
  let ?cmds = "[[str ''GET'', [0]], [str ''PING'']]"
  let ?ds = "[str ''*2'' @ CRLF @ str ''$3'' @ [13], [10] @ str ''GET'' @ CRLF @ str ''$1'' @ CRLF @ [0] @ CRLF @ str ''*1'' @ CRLF,
      str ''$4'' @ CRLF @ str ''PING'' @ CRLF]"
  have ok: "list_all cmd_ok ?cmds" by (simp add: cmd_ok_def arg_ok_def str_def)
  have bytes: "concat ?ds = foldl (catAppendOnlyGenericCommand 0) [] ?cmds"
    using ok by (simp add: catAppendOnly_eq enc_cmd_def enc_arg_def CRLF_def str_def dec_nat.simps digit_def)
  have idle: "conn_idle fresh_client" "\<not> is_master fresh_client" "plain_exec log_exec"
    by (simp_all add: conn_idle_def fresh_client_def plain_exec_def log_exec_def)
  have all: "exec_all log_exec [] ?cmds = ?cmds" by (simp add: exec_all_def log_exec_def)
  have reads: "reads_ok 0 0 (\<lambda>_. False) log_exec (2 ^ 30) [] fresh_client ?ds"
  proof (rule reads_ok_small)
    show "awaits fresh_client (concat ?ds) ?cmds"
      unfolding bytes using ok
      by (intro awaits_start) (simp_all add: fresh_client_def catAppendOnly_eq)
  qed (use ok idle in \<open>simp_all add: tail_ok_def conn_idle_def fresh_client_def str_def CRLF_def REDIS_IOBUF_LEN_def REDIS_MBULK_BIG_ARG_def\<close>)
  show ?thesis
    using wire_roundtrip [OF ok bytes idle(1,2,3) _ _ reads] all by simp
qed

end
