(* ===== verification/Clib.thy ===== *)
theory Clib
  imports Sds_Text
begin

text \<open>
  The functions of the C library the server reads numbers with, on the bytes of a buffer.
  A C string is what a buffer holds before its first zero byte (\<open>c_str\<close>).
\<close>

section \<open>Definitions\<close>

text \<open>\<open>strtol\<close> in base ten: white space, a sign, digits, and saturation at the limits.\<close>

definition strtol_val :: "bytes \<Rightarrow> int" where
  "strtol_val s =
    (let s = dropWhile isspace s;
         neg = (s \<noteq> [] \<and> hd s = ch CHR ''-'');
         s = (if s \<noteq> [] \<and> (hd s = ch CHR ''-'' \<or> hd s = ch CHR ''+'') then tl s else s);
         n = int (digits_val 0 (takeWhile is_digit s))
     in if neg then max (- (2 ^ 63)) (- n) else min (2 ^ 63 - 1) n)"

definition atoi :: "bytes \<Rightarrow> int" where
  "atoi s = sint (word_of_int (strtol_val s) :: u32)"

text \<open>
  \<open>strtoll\<close> with everything it reports: the value, the bytes that were not consumed, and
  whether the value was out of range.
\<close>

definition strtoll :: "bytes \<Rightarrow> int \<times> bytes \<times> bool" where
  "strtoll s =
    (let t = dropWhile isspace s;
         neg = (t \<noteq> [] \<and> hd t = ch CHR ''-'');
         t = (if t \<noteq> [] \<and> (hd t = ch CHR ''-'' \<or> hd t = ch CHR ''+'') then tl t else t);
         ds = takeWhile is_digit t;
         n = (if neg then - int (digits_val 0 ds) else int (digits_val 0 ds))
     in if ds = [] then (0, s, False)
        else (max (- (2 ^ 63)) (min (2 ^ 63 - 1) n), drop (length ds) t, n < - (2 ^ 63) \<or> 2 ^ 63 - 1 < n))"

section \<open>Reading back decimal text\<close>

lemma digit_not_space: "is_digit d \<Longrightarrow> \<not> isspace d \<and> d \<noteq> ch CHR ''-'' \<and> d \<noteq> ch CHR ''+''"
  by (auto simp: is_digit_def isspace_def word_le_nat_alt)

lemma dec_nat_not_Nil: "dec_nat n \<noteq> []"
  by (subst dec_nat.simps) simp

lemma strtol_dec_nat:
  assumes "n < 2 ^ 63" "r = [] \<or> \<not> is_digit (hd r)"
  shows "strtol_val (dec_nat n @ r) = int n"
proof -
  obtain d ds where d: "dec_nat n = d # ds" using dec_nat_not_Nil by (cases "dec_nat n") auto
  have dig: "\<forall>x\<in>set (dec_nat n). is_digit x" using dec_nat_digits by blast
  then have "takeWhile is_digit (dec_nat n @ r) = dec_nat n"
    using assms(2) by (cases r) (auto simp: takeWhile_append2)
  moreover have "digits_val (digit_val d) ds = n" using digits_val_dec_nat [of n] d by simp
  ultimately show ?thesis
    using assms(1) dig d digit_not_space [of d] by (simp add: strtol_val_def Let_def)
qed

lemma strtol_empty: "strtol_val [] = 0" "strtol_val [13] = 0"
  by (simp_all add: strtol_val_def isspace_def)

lemma atoi_dec_nat: "n < 2 ^ 31 \<Longrightarrow> r = [] \<or> \<not> is_digit (hd r) \<Longrightarrow> atoi (dec_nat n @ r) = int n"
proof -
  assume n: "n < 2 ^ 31" and r: "r = [] \<or> \<not> is_digit (hd r)"
  have "sint (of_nat n :: u32) = int n"
  proof -
    have u: "unat (of_nat n :: u32) = n" using n by (simp add: unat_of_nat_small)
    have "sint (of_nat n :: u32) = signed_take_bit 31 (int n)" by (simp add: signed_of_nat)
    also have "\<dots> = int n" using n by (simp add: signed_take_bit_int_eq_self)
    finally show ?thesis .
  qed
  then show ?thesis using strtol_dec_nat [OF _ r, of n] n by (simp add: atoi_def)
qed

end
