(* ===== verification/Aof.thy ===== *)
theory Aof
  imports Resp Clib
begin

text \<open>
  The append only file of \<open>aof.c\<close>: what a command adds to it, the buffer that collects the
  differences during a rewrite, and the loader with its treatment of truncated files.  The
  file is its bytes; the server's execution of a command is a parameter.
\<close>

section \<open>The rewrite buffer\<close>

definition AOF_RW_BUF_BLOCK_SIZE :: nat where "AOF_RW_BUF_BLOCK_SIZE = 1024 * 1024 * 10"

record aofrwblock =
  bused :: nat
  bfree :: nat
  bbuf :: bytes

definition new_block :: "byte \<Rightarrow> aofrwblock" where
  "new_block fill = \<lparr>bused = 0, bfree = AOF_RW_BUF_BLOCK_SIZE, bbuf = replicate AOF_RW_BUF_BLOCK_SIZE fill\<rparr>"

definition aofRewriteBufferSize :: "aofrwblock list \<Rightarrow> nat" where
  "aofRewriteBufferSize bs = foldl (\<lambda>size b. size + bused b) 0 bs"

text \<open>Filling the free part of the last block.\<close>

definition fill_block :: "aofrwblock \<Rightarrow> bytes \<Rightarrow> aofrwblock \<times> bytes" where
  "fill_block b s =
    (let thislen = (if bfree b < length s then bfree b else length s)
     in if thislen > 0 then
          (b\<lparr>bbuf := mem_put (bused b) (take thislen s) (bbuf b), bused := bused b + thislen, bfree := bfree b - thislen\<rparr>,
           drop thislen s)
        else (b, s))"

lemma fill_block_rest: "length (snd (fill_block b s)) = length s - bfree b"
  by (simp add: fill_block_def Let_def)

function aofRewriteBufferAppend :: "byte \<Rightarrow> aofrwblock list \<Rightarrow> bytes \<Rightarrow> aofrwblock list" where
  "aofRewriteBufferAppend fill bs s =
    (if s = [] then bs
     else
       let (bs, s) = (if bs \<noteq> [] then let (b, s) = fill_block (last bs) s in (butlast bs @ [b], s) else (bs, s))
       in if s \<noteq> [] then aofRewriteBufferAppend fill (bs @ [new_block fill]) s else bs)"
  by pat_completeness auto
termination
  by (relation "(\<lambda>(_, bs, s). length s) <*mlex*> measure (\<lambda>(_, bs, s). if bs \<noteq> [] \<and> bfree (last bs) > 0 then 0 else 1)")
    (auto simp: mlex_prod_def wf_mlex new_block_def AOF_RW_BUF_BLOCK_SIZE_def split: prod.splits if_splits
      dest!: arg_cong [where f = snd and y = "(_, _)"] simp: fill_block_rest intro!: wf_mlex)

declare aofRewriteBufferAppend.simps [simp del]

text \<open>
  Sending the blocks to the child: \<open>ws\<close> are the results of the calls of \<open>write\<close>, which never
  writes more than it is given; when they are used up the pipe is full.
\<close>

function aofChildWriteDiffData :: "bool \<Rightarrow> int list \<Rightarrow> aofrwblock list \<Rightarrow> bytes \<Rightarrow> aofrwblock list \<times> bytes" where
  "aofChildWriteDiffData stop ws bs sent =
    (if stop \<or> bs = [] then (bs, sent)
     else
       let b = hd bs
       in if bused b > 0 then
            (if ws = [] \<or> hd ws \<le> 0 then (bs, sent)
             else
               let nwritten = min (nat (hd ws)) (bused b);
                   sent = sent @ mem_get 0 nwritten (bbuf b);
                   b = b\<lparr>bbuf := memmove 0 nwritten (bused b - nwritten) (bbuf b), bused := bused b - nwritten\<rparr>
               in aofChildWriteDiffData stop (tl ws) (if bused b = 0 then tl bs else b # tl bs) sent)
          else aofChildWriteDiffData stop ws (tl bs) sent)"
  by pat_completeness auto
termination
  by (relation "measure (\<lambda>(_, ws, bs, _). length ws + length bs)")
    (auto simp: Let_def neq_Nil_conv)

declare aofChildWriteDiffData.simps [simp del]

text \<open>The final write to the file: \<open>None\<close> is the error return.\<close>

fun aofRewriteBufferWrite :: "int list \<Rightarrow> aofrwblock list \<Rightarrow> bytes \<Rightarrow> bytes option" where
  "aofRewriteBufferWrite ws [] out = Some out"
| "aofRewriteBufferWrite ws (b # bs) out =
    (if bused b \<noteq> 0 then
       (if ws = [] \<or> hd ws \<noteq> int (bused b) then None
        else aofRewriteBufferWrite (tl ws) bs (out @ mem_get 0 (bused b) (bbuf b)))
     else aofRewriteBufferWrite ws bs out)"

section \<open>Feeding the file\<close>

datatype aof_cmd = ExpireCmd | PexpireCmd | ExpireatCmd | SetexCmd | PsetexCmd | OtherCmd

record aof_state =
  aof_on :: bool
  aof_rewriting :: bool
  aof_selected_db :: int
  aof_buf :: bytes
  aof_blocks :: "aofrwblock list"

definition ll_text :: "byte \<Rightarrow> u64 \<Rightarrow> bytes" where
  "ll_text fill v = (let (n, buf) = ll2string (replicate 32 fill) 32 v in take n buf)"

definition catAppendOnlyExpireAtCommand :: "byte \<Rightarrow> u64 \<Rightarrow> bytes \<Rightarrow> aof_cmd \<Rightarrow> bytes \<Rightarrow> bytes \<Rightarrow> bytes" where
  "catAppendOnlyExpireAtCommand fill now dst cmd key seconds =
    (let when = word_of_int (strtol_val seconds);
         when = (if cmd = ExpireCmd \<or> cmd = SetexCmd \<or> cmd = ExpireatCmd then when * 1000 else when);
         when = (if cmd = ExpireCmd \<or> cmd = PexpireCmd \<or> cmd = SetexCmd \<or> cmd = PsetexCmd then when + now else when)
     in catAppendOnlyGenericCommand fill dst [str ''PEXPIREAT'', key, ll_text fill when])"

definition aof_select :: "bytes \<Rightarrow> bytes" where
  "aof_select seldb =
    str ''*2'' @ CRLF @ str ''$6'' @ CRLF @ str ''SELECT'' @ CRLF @ str ''$'' @ dec_nat (length seldb) @ CRLF @ seldb @ CRLF"

definition feedAppendOnlyFile :: "byte \<Rightarrow> u64 \<Rightarrow> aof_cmd \<Rightarrow> int \<Rightarrow> bytes list \<Rightarrow> aof_state \<Rightarrow> aof_state" where
  "feedAppendOnlyFile fill now cmd dictid args st =
    (let seldb = ll_text fill (word_of_int dictid);
         (buf, st) =
           (if dictid \<noteq> aof_selected_db st then
              (aof_select seldb, st\<lparr>aof_selected_db := dictid\<rparr>)
            else ([], st));
         buf =
           (if cmd = ExpireCmd \<or> cmd = PexpireCmd \<or> cmd = ExpireatCmd then
              catAppendOnlyExpireAtCommand fill now buf cmd (args ! 1) (args ! 2)
            else if cmd = SetexCmd \<or> cmd = PsetexCmd then
              catAppendOnlyExpireAtCommand fill now
                (catAppendOnlyGenericCommand fill buf [str ''SET'', args ! 1, args ! 3]) cmd (args ! 1) (args ! 2)
            else catAppendOnlyGenericCommand fill buf args);
         st = (if aof_on st then st\<lparr>aof_buf := aof_buf st @ buf\<rparr> else st)
     in if aof_rewriting st then st\<lparr>aof_blocks := aofRewriteBufferAppend fill (aof_blocks st) buf\<rparr> else st)"

section \<open>Loading the file\<close>

text \<open>\<open>fgets\<close> into a buffer of \<open>n\<close> bytes: a line with its end, or as much as fits.\<close>

definition fgets :: "nat \<Rightarrow> bytes \<Rightarrow> (bytes \<times> bytes) option" where
  "fgets n inp =
    (if inp = [] then None
     else
       let line = takeWhile (\<lambda>b. b \<noteq> 10) inp;
           len = min (n - 1) (if length line < length inp then length line + 1 else length line)
       in Some (take len inp, drop len inp))"

definition fgets_eof :: "nat \<Rightarrow> bytes \<Rightarrow> bool" where
  "fgets_eof n inp \<longleftrightarrow> 10 \<notin> set inp \<and> length inp < n - 1"

text \<open>
  What reading one command comes to: the command, the end of the file, an unexpected end inside
  the command, another read error, or bytes that are not in the format.
\<close>

datatype aof_read = AofCmd "bytes list" bytes | AofEof | AofShort | AofReadErr | AofFmtErr

fun aof_read_args :: "nat \<Rightarrow> bytes list \<Rightarrow> bytes \<Rightarrow> aof_read" where
  "aof_read_args 0 args inp = AofCmd args inp"
| "aof_read_args (Suc j) args inp =
    (case fgets 128 inp of
       None \<Rightarrow> AofShort
     | Some (line, inp) \<Rightarrow>
         (let buf = c_str line
          in if buf = [] \<or> hd buf \<noteq> ch CHR ''$'' then AofFmtErr
             else
               let len = unat (word_of_int (strtol_val (tl buf)) :: u64)
               in if len \<noteq> 0 \<and> length inp < len then AofShort
                  else if length (drop len inp) < 2 then AofShort
                  else aof_read_args j (args @ [take len inp]) (drop 2 (drop len inp))))"

definition aof_read_command :: "bytes \<Rightarrow> aof_read" where
  "aof_read_command inp =
    (case fgets 128 inp of
       None \<Rightarrow> AofEof
     | Some (line, rest) \<Rightarrow>
         (let buf = c_str line
          in if buf = [] \<or> hd buf \<noteq> ch CHR ''*'' then AofFmtErr
             else if tl buf = [] then (if fgets_eof 128 inp then AofShort else AofReadErr)
             else let argc = atoi (tl buf)
               in if argc < 1 then AofFmtErr else aof_read_args (nat argc) [] rest))"

text \<open>
  The loop over the commands.  The state of the server is \<open>'s\<close>; \<open>exec\<close> is \<open>None\<close> for an unknown
  command, which ends the program, and \<open>in_multi\<close> says that a transaction is open.  The result
  of a successful load is the state and the size of the file afterwards.
\<close>

datatype 's aof_outcome = AofEmpty | AofLoaded 's nat | AofExit

text \<open>Commands leave a shorter file.\<close>

lemma fgets_shorter: "fgets n inp = Some (line, rest) \<Longrightarrow> 1 < n \<Longrightarrow> length rest < length inp"
  using length_takeWhile_le [of "\<lambda>b. b \<noteq> 10" inp] by (auto simp: fgets_def Let_def min_def split: if_splits)

lemma aof_read_args_shorter: "aof_read_args j args inp = AofCmd args' rest \<Longrightarrow> length rest \<le> length inp"
proof (induction j args inp rule: aof_read_args.induct)
  case (2 j args inp)
  then show ?case
    using fgets_shorter [of 128 inp] by (fastforce simp: Let_def split: option.splits if_splits)
qed simp

lemma aof_read_command_shorter: "aof_read_command inp = AofCmd args rest \<Longrightarrow> length rest < length inp"
  using fgets_shorter [of 128 inp] aof_read_args_shorter
  by (fastforce simp: aof_read_command_def Let_def split: option.splits if_splits)

function aof_load :: "('s \<Rightarrow> bytes list \<Rightarrow> 's option) \<Rightarrow> ('s \<Rightarrow> bool) \<Rightarrow> bool \<Rightarrow> nat \<Rightarrow> 's \<Rightarrow> bytes \<Rightarrow> nat \<Rightarrow> 's aof_outcome" where
  "aof_load exec in_multi load_truncated fsize s inp valid_up_to =
    (case aof_read_command inp of
       AofCmd args rest \<Rightarrow>
         (case exec s args of
            None \<Rightarrow> AofExit
          | Some s \<Rightarrow> aof_load exec in_multi load_truncated fsize s rest
                        (if load_truncated then fsize - length rest else valid_up_to))
     | AofEof \<Rightarrow> if \<not> in_multi s then AofLoaded s fsize
                else if load_truncated then AofLoaded s valid_up_to else AofExit
     | AofShort \<Rightarrow> if load_truncated then AofLoaded s valid_up_to else AofExit
     | AofReadErr \<Rightarrow> AofExit
     | AofFmtErr \<Rightarrow> AofExit)"
  by pat_completeness auto
termination
  by (relation "measure (\<lambda>(_, _, _, _, _, inp, _). length inp)") (auto dest: aof_read_command_shorter)

declare aof_load.simps [simp del]

definition loadAppendOnlyFile :: "('s \<Rightarrow> bytes list \<Rightarrow> 's option) \<Rightarrow> ('s \<Rightarrow> bool) \<Rightarrow> bool \<Rightarrow> 's \<Rightarrow> bytes \<Rightarrow> 's aof_outcome" where
  "loadAppendOnlyFile exec in_multi load_truncated s contents =
    (if contents = [] then AofEmpty else aof_load exec in_multi load_truncated (length contents) s contents 0)"

section \<open>The rewrite buffer loses nothing\<close>

definition block_ok :: "aofrwblock \<Rightarrow> bool" where
  "block_ok b \<longleftrightarrow> length (bbuf b) = AOF_RW_BUF_BLOCK_SIZE \<and> bused b + bfree b \<le> AOF_RW_BUF_BLOCK_SIZE"

definition block_data :: "aofrwblock \<Rightarrow> bytes" where
  "block_data b = take (bused b) (bbuf b)"

definition rw_content :: "aofrwblock list \<Rightarrow> bytes" where
  "rw_content bs = concat (map block_data bs)"

lemma rw_content_simps [simp]: "rw_content [] = []" "rw_content (b # bs) = block_data b @ rw_content bs"
  "rw_content (as @ bs) = rw_content as @ rw_content bs"
  by (simp_all add: rw_content_def)

lemma new_block_ok: "block_ok (new_block fill)" "block_data (new_block fill) = []" "bfree (new_block fill) \<noteq> 0"
  by (simp_all add: block_ok_def block_data_def new_block_def AOF_RW_BUF_BLOCK_SIZE_def)

lemma length_block_data: "block_ok b \<Longrightarrow> length (block_data b) = bused b"
  by (simp add: block_ok_def block_data_def)

lemma fill_block_ok:
  assumes "block_ok b"
  shows "block_ok (fst (fill_block b s)) \<and> block_data (fst (fill_block b s)) @ snd (fill_block b s) = block_data b @ s"
proof -
  have fits: "bused b + min (bfree b) (length s) \<le> length (bbuf b)" using assms by (auto simp: block_ok_def)
  have "take (bused b + n) (mem_put (bused b) (take n s) (bbuf b)) = take (bused b) (bbuf b) @ take n s"
    if "n \<le> length s" "bused b + n \<le> length (bbuf b)" for n
    using that by (simp add: mem_put_def)
  then show ?thesis
    using assms fits by (auto simp: fill_block_def Let_def block_ok_def block_data_def length_mem_put min_def split: if_splits)
qed

lemma rewrite_append_ok:
  "list_all block_ok bs \<Longrightarrow>
     list_all block_ok (aofRewriteBufferAppend fill bs s) \<and> rw_content (aofRewriteBufferAppend fill bs s) = rw_content bs @ s"
proof (induction fill bs s rule: aofRewriteBufferAppend.induct)
  case (1 fill bs s)
  show ?case
  proof (cases "s = []")
    case True
    then have "aofRewriteBufferAppend fill bs s = bs" by (subst aofRewriteBufferAppend.simps) simp
    then show ?thesis using 1(2) True by simp
  next
    case False
    define r where "r = (if bs \<noteq> [] then let (b, s) = fill_block (last bs) s in (butlast bs @ [b], s) else (bs, s))"
    obtain bs1 s1 where r1: "r = (bs1, s1)" by fastforce
    have ok: "list_all block_ok bs1 \<and> rw_content bs1 @ s1 = rw_content bs @ s"
    proof (cases "bs = []")
      case True
      then show ?thesis using r1 by (simp add: r_def)
    next
      case ne: False
      obtain as b where bs: "bs = as @ [b]" using ne by (metis rev_exhaust)
      then show ?thesis
        using r1 1(2) fill_block_ok [of b s] by (auto simp: r_def split_beta)
    qed
    have step: "aofRewriteBufferAppend fill bs s = (if s1 \<noteq> [] then aofRewriteBufferAppend fill (bs1 @ [new_block fill]) s1 else bs1)"
      using False r1 by (subst aofRewriteBufferAppend.simps) (simp add: r_def)
    show ?thesis
    proof (cases "s1 = []")
      case True
      then show ?thesis using step ok by simp
    next
      case s1: False
      have "list_all block_ok (bs1 @ [new_block fill])" using ok new_block_ok by simp
      with 1(1) [OF False r_def r1 [symmetric] s1] show ?thesis
        using step s1 ok new_block_ok(2) by simp
    qed
  qed
qed

lemma child_write_ok:
  "list_all block_ok bs \<Longrightarrow> aofChildWriteDiffData stop ws bs sent = (bs', sent') \<Longrightarrow>
     list_all block_ok bs' \<and> sent' @ rw_content bs' = sent @ rw_content bs"
proof (induction stop ws bs sent rule: aofChildWriteDiffData.induct)
  case (1 stop ws bs sent)
  show ?case
  proof (cases "stop \<or> bs = [] \<or> (bused (hd bs) > 0 \<and> (ws = [] \<or> hd ws \<le> 0))")
    case True
    then have "aofChildWriteDiffData stop ws bs sent = (bs, sent)"
      by (subst aofChildWriteDiffData.simps) (auto simp: Let_def)
    then show ?thesis using 1(3,4) by simp
  next
    case False
    then obtain b bs1 where bs: "bs = b # bs1" by (cases bs) auto
    have b: "block_ok b" "list_all block_ok bs1" using 1(3) bs by simp_all
    show ?thesis
    proof (cases "bused b > 0")
      case True
      define n where "n = min (nat (hd ws)) (bused b)"
      define s where "s = sent @ mem_get 0 n (bbuf b)"
      define b' where "b' = b\<lparr>bbuf := memmove 0 n (bused b - n) (bbuf b), bused := bused b - n\<rparr>"
      have n: "n \<le> bused b" by (simp add: n_def)
      have fits: "bused b \<le> length (bbuf b)" using b(1) by (simp add: block_ok_def)
      then have data: "block_data b' = drop n (block_data b)"
        by (simp add: b'_def block_data_def memmove_def mem_put_def mem_get_def drop_take)
      have "length (memmove 0 n (bused b - n) (bbuf b)) = length (bbuf b)"
        using fits n by (intro length_memmove) auto
      then have ok: "block_ok b'" using b(1) by (auto simp: b'_def block_ok_def)
      have s: "s = sent @ take n (block_data b)" using n by (simp add: s_def mem_get_def block_data_def min_def)
      have step: "aofChildWriteDiffData stop ws bs sent =
          aofChildWriteDiffData stop (tl ws) (if bused b' = 0 then bs1 else b' # bs1) s"
        using False True bs by (subst aofChildWriteDiffData.simps) (simp add: Let_def n_def s_def b'_def)
      have rest: "rw_content (if bused b' = 0 then bs1 else b' # bs1) = drop n (block_data b) @ rw_content bs1"
        using data by (auto simp: block_data_def [of b'])
      have "list_all block_ok (if bused b' = 0 then bs1 else b' # bs1)" using ok b(2) by simp
      moreover have "aofChildWriteDiffData stop (tl ws) (if bused b' = 0 then bs1 else b' # bs1) s = (bs', sent')"
        using step 1(4) by simp
      moreover have c: "\<not> (stop \<or> bs = [])" "b = hd bs" "\<not> (ws = [] \<or> hd ws \<le> 0)" "tl bs = bs1" using False True bs by auto
      ultimately have "list_all block_ok bs' \<and> sent' @ rw_content bs' = s @ drop n (block_data b) @ rw_content bs1"
        using 1(1) [OF c(1,2) True c(3) n_def s_def b'_def] unfolding c(4) rest by blast
      moreover have "s @ drop n (block_data b) @ rw_content bs1 = sent @ rw_content bs"
        unfolding s bs by simp
      ultimately show ?thesis by (simp only:)
    next
      case empty: False
      have "aofChildWriteDiffData stop ws bs sent = aofChildWriteDiffData stop ws bs1 sent"
        using False empty bs by (subst aofChildWriteDiffData.simps) (simp add: Let_def)
      moreover have "block_data b = []" using empty by (simp add: block_data_def)
      moreover have "list_all block_ok bs' \<and> sent' @ rw_content bs' = sent @ rw_content bs1"
      proof -
        have c: "\<not> (stop \<or> bs = [])" "b = hd bs" "tl bs = bs1" using False bs by auto
        have "aofChildWriteDiffData stop ws bs1 sent = (bs', sent')" using calculation(1) 1(4) by simp
        then show ?thesis using 1(2) [OF c(1,2) empty] b(2) unfolding c(3) by blast
      qed
      ultimately show ?thesis using bs by simp
    qed
  qed
qed

text \<open>The server appends while it serves clients; the child is written to whenever its pipe is writable.\<close>

datatype rw_event = RwAppend bytes | RwWritable bool "int list"

fun rw_step :: "byte \<Rightarrow> aofrwblock list \<times> bytes \<Rightarrow> rw_event \<Rightarrow> aofrwblock list \<times> bytes" where
  "rw_step fill (bs, sent) (RwAppend s) = (aofRewriteBufferAppend fill bs s, sent)"
| "rw_step fill (bs, sent) (RwWritable stop ws) = aofChildWriteDiffData stop ws bs sent"

fun rw_appended :: "rw_event \<Rightarrow> bytes" where
  "rw_appended (RwAppend s) = s"
| "rw_appended (RwWritable stop ws) = []"

lemma rw_run:
  "list_all block_ok bs \<Longrightarrow> foldl (rw_step fill) (bs, sent) evs = (bs', sent') \<Longrightarrow>
     list_all block_ok bs' \<and> sent' @ rw_content bs' = sent @ rw_content bs @ concat (map rw_appended evs)"
proof (induction evs arbitrary: bs sent)
  case (Cons e evs)
  obtain bs1 sent1 where s: "rw_step fill (bs, sent) e = (bs1, sent1)" by fastforce
  have "list_all block_ok bs1 \<and> sent1 @ rw_content bs1 = sent @ rw_content bs @ rw_appended e"
    using s Cons.prems(1) rewrite_append_ok [of bs fill] child_write_ok [of bs]
    by (cases e) auto
  with Cons.IH [of bs1 sent1] Cons.prems(2) s show ?case by auto
qed simp

lemma rewrite_size_ok: "list_all block_ok bs \<Longrightarrow> aofRewriteBufferSize bs = length (rw_content bs)"
proof -
  have "foldl (\<lambda>size b. size + bused b) n bs = n + length (rw_content bs)" if "list_all block_ok bs" for n
    using that by (induction bs arbitrary: n) (simp_all add: length_block_data)
  then show "list_all block_ok bs \<Longrightarrow> ?thesis" by (simp add: aofRewriteBufferSize_def)
qed

lemma rewrite_write_ok: "aofRewriteBufferWrite ws bs out \<in> {None, Some (out @ rw_content bs)}"
  by (induction ws bs out rule: aofRewriteBufferWrite.induct) (auto simp: block_data_def mem_get_def)

text \<open>
  C19: the differences collected during a rewrite are neither lost nor repeated nor reordered.
  Whatever is appended, and however much the child's pipe takes each time, what was sent
  followed by what is buffered is what was appended; the reported size is that of the buffered
  part, every block stays within its array, and the final write either fails or writes exactly
  the rest.
\<close>

theorem aof_rewrite_buffer_exact:
  "case foldl (rw_step fill) ([], []) evs of (bs, sent) \<Rightarrow>
     (\<exists>rest. sent @ rest = concat (map rw_appended evs)
        \<and> aofRewriteBufferSize bs = length rest
        \<and> aofRewriteBufferWrite ws bs [] \<in> {None, Some rest}
        \<and> list_all block_ok bs)"
proof -
  obtain bs sent where run: "foldl (rw_step fill) ([], []) evs = (bs, sent)" by fastforce
  have "list_all block_ok bs \<and> sent @ rw_content bs = concat (map rw_appended evs)"
    using rw_run [OF _ run] by simp
  then show ?thesis
    using run rewrite_size_ok rewrite_write_ok [of ws bs "[]"] by auto
qed

section \<open>Reading back what was written\<close>

lemma fgets_line:
  "10 \<notin> set h \<Longrightarrow> length h < 120 \<Longrightarrow> fgets 128 (h @ CRLF @ r) = Some (h @ CRLF, r)"
  by (simp add: fgets_def CRLF_def Let_def takeWhile_append)

lemma fgets_partial:
  assumes "10 \<notin> set p" "length p < 127" "p \<noteq> []"
  shows "fgets 128 p = Some (p, [])" "fgets_eof 128 p"
proof -
  have "takeWhile (\<lambda>b. b \<noteq> 10) p = p" using assms(1) by (intro takeWhile_eq_all) auto
  then show "fgets 128 p = Some (p, [])" using assms by (simp add: fgets_def Let_def)
  show "fgets_eof 128 p" using assms by (simp add: fgets_eof_def)
qed

lemma digit_not_newline: "is_digit d \<Longrightarrow> d \<noteq> 10"
  by (auto simp: is_digit_def word_le_nat_alt)

lemma head_10: "10 \<notin> set (ch m # dec_nat n)" if "m = CHR ''*'' \<or> m = CHR ''$''"
  using that dec_nat_digits [of 10 n] digit_not_newline [of 10] by auto

lemma not_digit_13: "\<not> is_digit 13" by (simp add: is_digit_def word_le_nat_alt)

lemma line_clean: "10 \<notin> set (ch m # dec_nat n)" "0 \<notin> set ((ch m # dec_nat n) @ CRLF)"
  if "m = CHR ''*'' \<or> m = CHR ''$''"
  using head_10 [OF that] head_clean(2) [OF that] by (auto simp: CRLF_def)

lemma word_of_len: "n < 2 ^ 63 \<Longrightarrow> unat (word_of_int (int n) :: u64) = n"
  by (simp add: unat_of_nat_small)

lemma read_arg_head:
  assumes "length a < 2 ^ 63"
  shows "aof_read_args (Suc j) args (ch CHR ''$'' # dec_nat (length a) @ CRLF @ r) =
    (if length r < length a + 2 then AofShort else aof_read_args j (args @ [take (length a) r]) (drop (length a + 2) r))"
proof -
  let ?h = "ch CHR ''$'' # dec_nat (length a)"
  have h: "10 \<notin> set ?h" "0 \<notin> set (?h @ CRLF)" by (rule line_clean; simp)+
  have "length (dec_nat (length a)) \<le> 19"
    using length_dec_nat_le [of "length a" 18] assms by simp
  then have "length ?h < 120" by simp
  then have fg: "fgets 128 (?h @ CRLF @ r) = Some (?h @ CRLF, r)" by (intro fgets_line h(1))
  have num: "strtol_val (dec_nat (length a) @ CRLF) = int (length a)"
    by (rule strtol_dec_nat [OF assms]) (simp add: CRLF_def not_digit_13)
  have "aof_read_args (Suc j) args (?h @ CRLF @ r) =
    (if length a \<noteq> 0 \<and> length r < length a then AofShort
     else if length (drop (length a) r) < 2 then AofShort
     else aof_read_args j (args @ [take (length a) r]) (drop 2 (drop (length a) r)))"
    using fg c_str_clean [OF h(2)] num word_of_len [OF assms] by (simp add: Let_def)
  then show ?thesis by (simp add: add.commute) (cases "length a = 0"; linarith)
qed

lemma read_args_enc:
  "list_all arg_ok args \<Longrightarrow> aof_read_args (length args) acc (concat (map enc_arg args) @ rest) = AofCmd (acc @ args) rest"
proof (induction args arbitrary: acc)
  case (Cons a args)
  have a: "length a < 2 ^ 63" using Cons.prems by (simp add: arg_ok_def)
  have "aof_read_args (length (a # args)) acc (concat (map enc_arg (a # args)) @ rest)
      = aof_read_args (length args) (acc @ [a]) (concat (map enc_arg args) @ rest)"
    using read_arg_head [OF a, of "length args" acc "a @ CRLF @ concat (map enc_arg args) @ rest"]
    by (simp add: enc_arg_def CRLF_def)
  then show ?case using Cons by simp
qed simp

lemma read_command_head:
  assumes "1 \<le> n" "n \<le> 1024 * 1024"
  shows "aof_read_command (ch CHR ''*'' # dec_nat n @ CRLF @ r) = aof_read_args n [] r"
proof -
  let ?h = "ch CHR ''*'' # dec_nat n"
  have h: "10 \<notin> set ?h" "0 \<notin> set (?h @ CRLF)" by (rule line_clean; simp)+
  have "length ?h < 120" using length_dec_nat_small [of n] assms by simp
  then have fg: "fgets 128 (?h @ CRLF @ r) = Some (?h @ CRLF, r)" by (intro fgets_line h(1))
  have "atoi (dec_nat n @ CRLF) = int n"
    by (rule atoi_dec_nat) (use assms in \<open>simp_all add: CRLF_def not_digit_13\<close>)
  then show ?thesis using fg c_str_clean [OF h(2)] assms(1) dec_nat_not_Nil by (simp add: aof_read_command_def)
qed

lemma read_command_enc:
  assumes "cmd_ok cmd"
  shows "aof_read_command (enc_cmd cmd @ rest) = AofCmd cmd rest"
proof -
  have "1 \<le> length cmd" using assms by (simp add: cmd_ok_def Suc_le_eq)
  then show ?thesis
    using assms read_command_head [of "length cmd" "concat (map enc_arg cmd) @ rest"] read_args_enc [of cmd "[]" rest]
    by (simp add: cmd_ok_def enc_cmd_def)
qed

text \<open>The file format is a codec: the commands written one after the other are read one by one.\<close>

definition aof_enc :: "byte \<Rightarrow> bytes list \<Rightarrow> bytes" where
  "aof_enc fill cmd = catAppendOnlyGenericCommand fill [] cmd"

definition aof_dec :: "bytes \<Rightarrow> (bytes list \<times> bytes) option" where
  "aof_dec inp = (case aof_read_command inp of AofCmd args rest \<Rightarrow> Some (args, rest) | _ \<Rightarrow> None)"

interpretation aof: codec cmd_ok "aof_enc fill" aof_dec for fill
  by unfold_locales (simp add: aof_enc_def aof_dec_def catAppendOnly_eq read_command_enc)

section \<open>Files cut short\<close>

lemma dec_nat_prefix:
  "dec_nat n = p @ q \<Longrightarrow> p = [] \<or> (\<exists>m. p = dec_nat m \<and> m \<le> n \<and> (0 < n \<longrightarrow> 0 < m))"
proof (induction n arbitrary: q rule: dec_nat.induct)
  case (1 n)
  show ?case
  proof (cases "q = []")
    case True
    then show ?thesis using 1 by auto
  next
    case False
    then obtain q' x where q: "q = q' @ [x]" by (metis rev_exhaust)
    show ?thesis
    proof (cases "n < 10")
      case True
      then show ?thesis using 1(2) q by (simp add: dec_nat.simps [of n])
    next
      case big: False
      then have "dec_nat (n div 10) = p @ q'" using 1(2) q by (simp add: dec_nat.simps [of n])
      from 1(1) [OF big this] show ?thesis
      proof (elim disjE exE conjE)
        fix m assume m: "p = dec_nat m" "m \<le> n div 10" "0 < n div 10 \<longrightarrow> 0 < m"
        have "m \<le> n" using m(2) by linarith
        moreover have "0 < m" using m(3) big by linarith
        ultimately show ?thesis using m(1) by (intro disjI2 exI [of _ m]) simp
      qed simp
    qed
  qed
qed

text \<open>A header line that is not complete: what is there of the number is smaller, and not 0 unless the number is.\<close>

lemma partial_number:
  assumes "p @ q = dec_nat n @ CRLF" "length q \<ge> 1" "n < 2 ^ 63"
  obtains m where "strtol_val p = int m" "m \<le> n" "p \<noteq> [] \<and> 0 < n \<longrightarrow> 0 < m"
    "n < 2 ^ 31 \<Longrightarrow> atoi p = int m"
proof -
  consider (short) "length p \<le> length (dec_nat n)" | (cr) "p = dec_nat n @ [13]"
  proof (cases "length p \<le> length (dec_nat n)")
    case False
    then have "length p = length (dec_nat n) + 1"
      using arg_cong [OF assms(1), of length] assms(2) by (simp add: CRLF_def)
    then have "p = take (length (dec_nat n) + 1) (dec_nat n @ CRLF)" using assms(1) by (metis append_eq_conv_conj)
    then show thesis using cr by (simp add: CRLF_def)
  qed (use short in simp)
  then show thesis
  proof cases
    case short
    then obtain r where "dec_nat n = p @ r" using assms(1) by (metis append_eq_append_conv_if append_take_drop_id)
    then have "p = [] \<or> (\<exists>m. p = dec_nat m \<and> m \<le> n \<and> (0 < n \<longrightarrow> 0 < m))" by (rule dec_nat_prefix)
    then show thesis
    proof (elim disjE exE conjE)
      assume "p = []"
      then show thesis using that [of 0] strtol_empty by (simp add: atoi_def)
    next
      fix m assume "p = dec_nat m" "m \<le> n" "0 < n \<longrightarrow> 0 < m"
      then show thesis
        using that [of m] strtol_dec_nat [of m "[]"] atoi_dec_nat [of m "[]"] assms(3) by simp
    qed
  next
    case cr
    then show thesis
      using that [of n] strtol_dec_nat [of n "[13]"] atoi_dec_nat [of n "[13]"] assms(3) not_digit_13 by simp
  qed
qed

lemma header_split:
  "p @ q = h @ r \<Longrightarrow> (\<exists>q'. q' \<noteq> [] \<and> p @ q' = h) \<or> (\<exists>p'. p = h @ p' \<and> p' @ q = r)"
  by (auto simp: append_eq_append_conv2)

lemma partial_line:
  assumes "p @ q = (ch m # dec_nat n) @ CRLF" "q \<noteq> []" "p \<noteq> []" "m = CHR ''*'' \<or> m = CHR ''$''" "n < 2 ^ 63"
  obtains p' where "fgets 128 p = Some (p, [])" "fgets_eof 128 p" "c_str p = p" "p = ch m # p'" "p' @ q = dec_nat n @ CRLF"
proof -
  obtain p' where p: "p = ch m # p'" "p' @ q = dec_nat n @ CRLF" using assms(1,3) by (cases p) auto
  obtain q' x where q: "q = q' @ [x]" using assms(2) by (metis rev_exhaust)
  have eq: "p @ q' = (ch m # dec_nat n) @ [13]" using assms(1) q by (simp add: CRLF_def)
  have clean: "10 \<notin> set ((ch m # dec_nat n) @ [13])" "0 \<notin> set ((ch m # dec_nat n) @ [13])"
    using line_clean(1) [OF assms(4), of n] line_clean(2) [OF assms(4), of n] by (simp_all add: CRLF_def)
  have sub: "set p \<subseteq> set ((ch m # dec_nat n) @ [13])" unfolding eq [symmetric] by simp
  have "length p \<le> length ((ch m # dec_nat n) @ [13])" unfolding eq [symmetric] by simp
  moreover have "length (dec_nat n) \<le> 19" using length_dec_nat_le [of n 18] assms(5) by simp
  ultimately have len: "length p < 127" by simp
  have nl: "10 \<notin> set p" and "0 \<notin> set p" using clean sub by blast+
  then show thesis using that [of p'] p c_str_clean fgets_partial [OF nl len assms(3)] by blast
qed

lemma read_args_short:
  "list_all arg_ok args \<Longrightarrow> p @ q = concat (map enc_arg args) \<Longrightarrow> q \<noteq> [] \<Longrightarrow> aof_read_args (length args) acc p = AofShort"
proof (induction args arbitrary: p acc)
  case Nil
  then show ?case by simp
next
  case (Cons a args)
  have a: "length a < 2 ^ 63" using Cons.prems(1) by (simp add: arg_ok_def)
  let ?h = "ch CHR ''$'' # dec_nat (length a)" and ?R = "concat (map enc_arg args)"
  have s: "p @ q = (?h @ CRLF) @ a @ CRLF @ ?R" using Cons.prems(2) by (simp add: enc_arg_def [of a])
  show ?case
  proof (cases "p = []")
    case True
    then show ?thesis by (simp add: fgets_def)
  next
    case False
    from header_split [OF s] show ?thesis
    proof (elim disjE exE conjE)
      fix q' assume q': "q' \<noteq> []" "p @ q' = ?h @ CRLF"
      obtain p' where l: "fgets 128 p = Some (p, [])" "c_str p = p" "p = ch CHR ''$'' # p'" "p' @ q' = dec_nat (length a) @ CRLF"
        by (rule partial_line [OF q'(2,1) False _ a]) auto
      have "1 \<le> length q'" using q'(1) by (simp add: Suc_le_eq)
      then obtain k where "strtol_val p' = int k" using partial_number [OF l(4) _ a] by blast
      then show ?thesis using l(1-3) by (simp add: Let_def)
    next
      fix p2 assume p2: "p = (?h @ CRLF) @ p2" "p2 @ q = a @ CRLF @ ?R"
      have step: "aof_read_args (length (a # args)) acc p =
        (if length p2 < length a + 2 then AofShort
         else aof_read_args (length args) (acc @ [take (length a) p2]) (drop (length a + 2) p2))"
        using read_arg_head [OF a, of "length args" acc p2] p2(1) by simp
      show ?thesis
      proof (cases "length p2 < length a + 2")
        case True
        then show ?thesis using step by simp
      next
        case big: False
        have "drop (length a + 2) (p2 @ q) = ?R" unfolding p2(2) by (simp add: CRLF_def)
        then have "drop (length a + 2) p2 @ q = ?R" using big by simp
        then show ?thesis using step big Cons.IH [of "drop (length a + 2) p2"] Cons.prems(1,3) by simp
      qed
    qed
  qed
qed

lemma read_command_short:
  assumes "cmd_ok cmd" "p @ q = enc_cmd cmd" "q \<noteq> []" "p \<noteq> []"
  shows "aof_read_command p = AofShort"
proof -
  let ?n = "length cmd" and ?R = "concat (map enc_arg cmd)"
  have n: "1 \<le> ?n" "?n \<le> 1024 * 1024" "?n < 2 ^ 63" "?n < 2 ^ 31"
    using assms(1) by (simp_all add: cmd_ok_def Suc_le_eq)
  have "p @ q = ((ch CHR ''*'' # dec_nat ?n) @ CRLF) @ ?R" using assms(2) by (simp add: enc_cmd_def)
  from header_split [OF this] show ?thesis
  proof (elim disjE exE conjE)
    fix q' assume q': "q' \<noteq> []" "p @ q' = (ch CHR ''*'' # dec_nat ?n) @ CRLF"
    obtain p' where l: "fgets 128 p = Some (p, [])" "fgets_eof 128 p" "c_str p = p" "p = ch CHR ''*'' # p'"
      "p' @ q' = dec_nat ?n @ CRLF"
      by (rule partial_line [OF q'(2,1) assms(4) _ n(3)]) auto
    have "1 \<le> length q'" using q'(1) by (simp add: Suc_le_eq)
    then obtain k where k: "p' \<noteq> [] \<and> 0 < ?n \<longrightarrow> 0 < k" "atoi p' = int k"
      using partial_number [OF l(5) _ n(3)] n(4) by metis
    show ?thesis
    proof (cases "p' = []")
      case True
      then show ?thesis using l by (simp add: aof_read_command_def)
    next
      case False
      then obtain j where "k = Suc j" using k(1) n(1) by (cases k) auto
      then have "aof_read_command p = aof_read_args (Suc j) [] []"
        using l k(2) False by (simp add: aof_read_command_def Let_def nat_add_distrib)
      then show ?thesis by (simp add: fgets_def)
    qed
  next
    fix p2 assume p2: "p = ((ch CHR ''*'' # dec_nat ?n) @ CRLF) @ p2" "p2 @ q = ?R"
    then show ?thesis
      using read_command_head [OF n(1,2), of p2] read_args_short [OF _ p2(2) assms(3)] assms(1)
      by (simp add: cmd_ok_def)
  qed
qed

text \<open>The commands that are complete in the first \<open>n\<close> bytes of a log.\<close>

fun complete_cmds :: "nat \<Rightarrow> bytes list list \<Rightarrow> bytes list list" where
  "complete_cmds n [] = []"
| "complete_cmds n (cmd # cmds) =
    (if length (enc_cmd cmd) \<le> n then cmd # complete_cmds (n - length (enc_cmd cmd)) cmds else [])"

definition log_of :: "bytes list list \<Rightarrow> bytes" where
  "log_of cmds = concat (map enc_cmd cmds)"

lemma enc_cmd_nonempty: "enc_cmd cmd \<noteq> []"
  by (simp add: enc_cmd_def)

lemma aof_load_truncated:
  assumes "list_all cmd_ok cmds" "n \<le> length (log_of cmds)" "tot = done_bytes + n"
    "in_multi (foldl step s (complete_cmds n cmds)) = False"
  shows "aof_load (\<lambda>s a. Some (step s a)) in_multi True tot s (take n (log_of cmds)) done_bytes
    = AofLoaded (foldl step s (complete_cmds n cmds)) (done_bytes + length (log_of (complete_cmds n cmds)))"
  using assms
proof (induction cmds arbitrary: n s done_bytes)
  case Nil
  then show ?case by (simp add: log_of_def aof_load.simps aof_read_command_def fgets_def)
next
  case (Cons cmd cmds)
  let ?e = "enc_cmd cmd"
  have log: "log_of (cmd # cmds) = ?e @ log_of cmds" by (simp add: log_of_def)
  show ?case
  proof (cases "length ?e \<le> n")
    case True
    let ?n = "n - length ?e"
    have "take n (log_of (cmd # cmds)) = ?e @ take ?n (log_of cmds)" using True log by simp
    moreover have "aof_read_command (?e @ take ?n (log_of cmds)) = AofCmd cmd (take ?n (log_of cmds))"
      using Cons.prems(1) by (intro read_command_enc) simp
    moreover have "?n \<le> length (log_of cmds)" using Cons.prems(2) log by simp
    moreover have "tot - length (take ?n (log_of cmds)) = done_bytes + length ?e"
      using Cons.prems(2,3) True log by simp
    ultimately have "aof_load (\<lambda>s a. Some (step s a)) in_multi True tot s (take n (log_of (cmd # cmds))) done_bytes
      = aof_load (\<lambda>s a. Some (step s a)) in_multi True tot (step s cmd) (take ?n (log_of cmds)) (done_bytes + length ?e)"
      by (subst aof_load.simps) simp
    moreover have "\<dots> = AofLoaded (foldl step (step s cmd) (complete_cmds ?n cmds))
        (done_bytes + length ?e + length (log_of (complete_cmds ?n cmds)))"
      using Cons.prems True log by (intro Cons.IH) simp_all
    ultimately show ?thesis using True by (simp add: log_of_def)
  next
    case False
    have t: "take n (log_of (cmd # cmds)) = take n ?e" using False log by simp
    show ?thesis
    proof (cases "n = 0")
      case True
      then show ?thesis
        using Cons.prems(3,4) False by (simp add: aof_load.simps aof_read_command_def fgets_def log_of_def enc_cmd_nonempty)
    next
      case n: False
      have cut: "take n ?e @ drop n ?e = ?e" "drop n ?e \<noteq> []" "take n ?e \<noteq> []"
        using False n enc_cmd_nonempty by auto
      have "aof_read_command (take n ?e) = AofShort"
        by (rule read_command_short [OF _ cut]) (use Cons.prems(1) in simp)
      then show ?thesis using t False by (subst aof_load.simps) (simp add: log_of_def)
    qed
  qed
qed

lemma complete_cmds_take:
  "\<exists>k\<le>length cmds. complete_cmds n cmds = take k cmds \<and> length (log_of (take k cmds)) \<le> n
     \<and> (k = length cmds \<or> n < length (log_of (take (Suc k) cmds)))"
proof (induction cmds arbitrary: n)
  case (Cons cmd cmds)
  show ?case
  proof (cases "length (enc_cmd cmd) \<le> n")
    case True
    obtain k where "k \<le> length cmds" "complete_cmds (n - length (enc_cmd cmd)) cmds = take k cmds"
      "length (log_of (take k cmds)) \<le> n - length (enc_cmd cmd)"
      "k = length cmds \<or> n - length (enc_cmd cmd) < length (log_of (take (Suc k) cmds))"
      using Cons.IH by blast
    then show ?thesis using True by (intro exI [of _ "Suc k"]) (auto simp: log_of_def)
  qed (auto simp: log_of_def intro!: exI [of _ 0])
qed (simp add: log_of_def)

lemma log_of_written: "list_all cmd_ok cmds \<Longrightarrow> foldl (catAppendOnlyGenericCommand fill) dst cmds = dst @ log_of cmds"
  by (induction cmds arbitrary: dst) (simp_all add: catAppendOnly_eq log_of_def)

text \<open>
  C17: a file cut at any byte is loaded up to the last complete command.  When
  \<open>aof-load-truncated\<close> is on, the commands that are whole in the file are executed, in order and
  nothing else, and the file is truncated to exactly these; a file that is not cut is loaded
  completely.
\<close>

theorem aof_load_prefix:
  assumes "list_all cmd_ok cmds" "contents = foldl (catAppendOnlyGenericCommand fill) [] cmds"
    "0 < n" "n \<le> length contents"
  shows "\<exists>k\<le>length cmds.
    length (foldl (catAppendOnlyGenericCommand fill) [] (take k cmds)) \<le> n
    \<and> (k = length cmds \<or> n < length (foldl (catAppendOnlyGenericCommand fill) [] (take (Suc k) cmds)))
    \<and> loadAppendOnlyFile (\<lambda>s a. Some (step s a)) (\<lambda>_. False) True s (take n contents)
      = AofLoaded (foldl step s (take k cmds)) (length (foldl (catAppendOnlyGenericCommand fill) [] (take k cmds)))"
proof -
  have log: "contents = log_of cmds" using log_of_written [OF assms(1), of fill "[]"] assms(2) by simp
  have written: "foldl (catAppendOnlyGenericCommand fill) [] (take k cmds) = log_of (take k cmds)" for k
    using assms(1) log_of_written [of "take k cmds"] by (metis append_Nil append_take_drop_id list_all_append)
  obtain k where k: "k \<le> length cmds" "complete_cmds n cmds = take k cmds" "length (log_of (take k cmds)) \<le> n"
    "k = length cmds \<or> n < length (log_of (take (Suc k) cmds))" using complete_cmds_take by blast
  have "take n contents \<noteq> []" using assms(3,4) by auto
  then have "loadAppendOnlyFile (\<lambda>s a. Some (step s a)) (\<lambda>_. False) True s (take n contents)
      = AofLoaded (foldl step s (take k cmds)) (length (log_of (take k cmds)))"
    using aof_load_truncated [of cmds n n 0 "\<lambda>_. False" step s] assms(1,4) log k(2)
    by (simp add: loadAppendOnlyFile_def)
  then show ?thesis using k(1,3,4) unfolding written by (intro exI [of _ k] conjI)
qed

theorem aof_load_prefix_witness:
  "\<exists>k\<le>2. loadAppendOnlyFile (\<lambda>s a. Some (s @ [a])) (\<lambda>_. False) True []
     (take 20 (foldl (catAppendOnlyGenericCommand 0) [] [[str ''PING''], [str ''PING'']]))
    = AofLoaded (take k [[str ''PING''], [str ''PING'']]) (length (foldl (catAppendOnlyGenericCommand 0) [] (take k [[str ''PING''], [str ''PING'']])))"
proof -
  let ?cmds = "[[str ''PING''], [str ''PING'']]"
  have ok: "list_all cmd_ok ?cmds" by (simp add: cmd_ok_def arg_ok_def)
  have "20 \<le> length (foldl (catAppendOnlyGenericCommand 0) [] ?cmds)"
    using ok by (simp add: catAppendOnly_eq enc_cmd_def enc_arg_def CRLF_def dec_nat.simps)
  note len = this
  have id: "foldl (\<lambda>s a. s @ [a]) [] cs = cs" for cs :: "bytes list list" by (induction cs rule: rev_induct) simp_all
  from aof_load_prefix [OF ok refl _ len, of "\<lambda>s a. s @ [a]" "[]", unfolded id] show ?thesis
  proof (elim meta_impE exE conjE)
    fix k assume "k \<le> length ?cmds" "loadAppendOnlyFile (\<lambda>s a. Some (s @ [a])) (\<lambda>_. False) True []
      (take 20 (foldl (catAppendOnlyGenericCommand 0) [] ?cmds))
      = AofLoaded (take k ?cmds) (length (foldl (catAppendOnlyGenericCommand 0) [] (take k ?cmds)))"
    then show ?thesis by (intro exI [of _ k] conjI) simp_all
  qed simp
qed

section \<open>A transaction cut short\<close>

text \<open>
  The loader looks the command up by its name, without regard to case, and calls its function
  directly, without the checks and the queueing of \<open>processCommand\<close>: no arity check is made, and
  the commands between \<open>MULTI\<close> and \<open>EXEC\<close> are executed at once.  The state is the data set and the
  flag \<open>REDIS_MULTI\<close> of the fake client.  \<open>multiCommand\<close> sets the flag (a nested \<open>MULTI\<close> leaves it
  set); \<open>execCommand\<close> and \<open>discardCommand\<close> find no queued command, and whatever they reply, they
  leave the flag cleared.  Replies to the fake client go nowhere.  \<open>step\<close> is the function of every
  other command.
\<close>

definition aof_cmd_name :: "bytes list \<Rightarrow> bytes" where
  "aof_cmd_name args = map tolower (hd args)"

definition fake_exec :: "('d \<Rightarrow> bytes list \<Rightarrow> 'd) \<Rightarrow> 'd \<times> bool \<Rightarrow> bytes list \<Rightarrow> 'd \<times> bool" where
  "fake_exec step s args =
    (let name = aof_cmd_name args
     in if name = str ''multi'' then (fst s, True)
        else if name = str ''exec'' \<or> name = str ''discard'' then (fst s, False)
        else (step (fst s) args, snd s))"

definition tx_command :: "bytes list \<Rightarrow> bool" where
  "tx_command args = (aof_cmd_name args \<in> {str ''multi'', str ''exec'', str ''discard''})"

lemma tx_command_MULTI: "aof_cmd_name [[77, 85, 76, 84, 73]] = str ''multi''"
  by (simp add: aof_cmd_name_def tolower_def)

lemma fake_exec_queue:
  "\<forall>c\<in>set cs. \<not> tx_command c \<Longrightarrow> foldl (fake_exec step) (d, m) cs = (foldl step d cs, m)"
  by (induction cs arbitrary: d) (auto simp: fake_exec_def tx_command_def Let_def)

lemma complete_cmds_exact: "complete_cmds (length (log_of as)) (as @ bs) = as"
proof (induction as)
  case Nil
  have "0 < length (enc_cmd b)" for b using enc_cmd_nonempty by simp
  then show ?case by (cases bs) (auto simp: log_of_def)
qed (simp add: log_of_def)

text \<open>
  C20: a file that ends inside a transaction is not rejected, and the transaction is not undone:
  with \<open>aof-load-truncated\<close> on, the commands of the transaction that are in the file have been
  executed although \<open>EXEC\<close> is missing, and the file keeps them together with the open \<open>MULTI\<close>.
\<close>

theorem aof_load_half_transaction:
  assumes "list_all cmd_ok txn" "\<forall>c\<in>set txn. \<not> tx_command c" "j \<le> length txn"
    "contents = foldl (catAppendOnlyGenericCommand fill) [] ([str ''MULTI''] # take j txn)"
  shows "loadAppendOnlyFile (\<lambda>s a. Some (fake_exec step s a)) snd True (d, False) contents
    = AofLoaded (foldl step d (take j txn), True) (length contents)"
proof -
  let ?cmds = "[str ''MULTI''] # take j txn"
  have ok: "list_all cmd_ok ?cmds"
    using assms(1) by (auto simp: cmd_ok_def arg_ok_def list_all_iff dest: in_set_takeD)
  then have log: "contents = log_of ?cmds" unfolding assms(4) by (simp only: log_of_written append_Nil)
  have ne: "contents \<noteq> []" unfolding log by (simp add: log_of_def enc_cmd_nonempty)
  have run: "foldl (fake_exec step) (d, False) ?cmds = (foldl step d (take j txn), True)"
    using fake_exec_queue [of "take j txn" step d True] assms(2) by (auto simp: fake_exec_def Let_def tx_command_MULTI dest: in_set_takeD)
  have whole: "complete_cmds (length contents) ?cmds = ?cmds" using complete_cmds_exact [of ?cmds "[]"] log by simp
  \<comment> \<open>the file ends after a complete command, but the transaction is open\<close>
  have "aof_load (\<lambda>s a. Some (fake_exec step s a)) snd True (length contents) s (log_of cs) b
      = AofLoaded (foldl (fake_exec step) s cs) (length contents)"
    if "list_all cmd_ok cs" "length contents = b + length (log_of cs)" "snd (foldl (fake_exec step) s cs)" for s cs b
    using that
  proof (induction cs arbitrary: s b)
    case Nil
    then show ?case by (simp add: log_of_def aof_load.simps aof_read_command_def fgets_def)
  next
    case (Cons c cs)
    have "aof_read_command (log_of (c # cs)) = AofCmd c (log_of cs)"
      using read_command_enc [of c "log_of cs"] Cons.prems(1) by (simp add: log_of_def)
    then have "aof_load (\<lambda>s a. Some (fake_exec step s a)) snd True (length contents) s (log_of (c # cs)) b
      = aof_load (\<lambda>s a. Some (fake_exec step s a)) snd True (length contents) (fake_exec step s c) (log_of cs)
          (length contents - length (log_of cs))"
      by (subst aof_load.simps) simp
    then show ?case using Cons by (simp add: log_of_def)
  qed
  from this [of ?cmds 0 "(d, False)"] show ?thesis
    using ok log run ne by (simp add: loadAppendOnlyFile_def)
qed

theorem aof_load_half_transaction_witness:
  "loadAppendOnlyFile (\<lambda>s a. Some (fake_exec (\<lambda>d a. d @ [a]) s a)) snd True ([], False)
     (foldl (catAppendOnlyGenericCommand 0) [] [[str ''MULTI''], [str ''INCR'', str ''a'']])
   = AofLoaded ([[str ''INCR'', str ''a'']], True)
      (length (foldl (catAppendOnlyGenericCommand 0) [] [[str ''MULTI''], [str ''INCR'', str ''a'']]))"
proof -
  let ?txn = "[[str ''INCR'', str ''a''], [str ''DECR'', str ''b'']]"
  have "list_all cmd_ok ?txn" "\<forall>c\<in>set ?txn. \<not> tx_command c"
    by (simp_all add: cmd_ok_def arg_ok_def tx_command_def aof_cmd_name_def tolower_def)
  from aof_load_half_transaction [OF this, of 1 _ 0 "\<lambda>d a. d @ [a]" "[]"] show ?thesis by simp
qed

section \<open>What the server writes\<close>

text \<open>The commands that go into the file for one command of the server.\<close>

definition aof_translate :: "byte \<Rightarrow> u64 \<Rightarrow> int \<Rightarrow> aof_cmd \<Rightarrow> int \<Rightarrow> bytes list \<Rightarrow> bytes list list" where
  "aof_translate fill now selected cmd dictid args =
    (let expire = (\<lambda>scale base. [str ''PEXPIREAT'', args ! 1,
                     ll_text fill (word_of_int (strtol_val (args ! 2)) * scale + base)])
     in (if dictid \<noteq> selected then [[str ''SELECT'', ll_text fill (word_of_int dictid)]] else []) @
        (case cmd of
           ExpireCmd \<Rightarrow> [expire 1000 now]
         | PexpireCmd \<Rightarrow> [expire 1 now]
         | ExpireatCmd \<Rightarrow> [expire 1000 0]
         | SetexCmd \<Rightarrow> [[str ''SET'', args ! 1, args ! 3], expire 1000 now]
         | PsetexCmd \<Rightarrow> [[str ''SET'', args ! 1, args ! 3], expire 1 now]
         | OtherCmd \<Rightarrow> [args]))"

definition aof_args_ok :: "aof_cmd \<Rightarrow> bytes list \<Rightarrow> bool" where
  "aof_args_ok cmd args \<longleftrightarrow> cmd_ok args
     \<and> (cmd = SetexCmd \<or> cmd = PsetexCmd \<longrightarrow> 4 \<le> length args) \<and> (cmd \<noteq> OtherCmd \<longrightarrow> 3 \<le> length args)"

lemma ll_text_decimal: "ll_text fill v = decimal (sint v)"
proof -
  have "length (decimal (sint v)) < 32" using length_decimal_le [of v] by simp
  then show ?thesis
    using ll2string_ok [of 32 "replicate 32 fill" v] by (simp add: ll_text_def mem_put_def)
qed

lemma aof_translate_ok:
  assumes "aof_args_ok cmd args"
  shows "list_all cmd_ok (aof_translate fill now selected cmd dictid args)"
proof -
  have arg: "i < length args \<Longrightarrow> arg_ok (args ! i)" for i
    using assms by (auto simp: aof_args_ok_def cmd_ok_def list_all_length)
  have num: "arg_ok (ll_text fill v)" for v
    using length_decimal_le [of v] by (simp add: arg_ok_def ll_text_decimal)
  show ?thesis
    using assms arg num by (cases cmd)
      (simp_all add: aof_translate_def Let_def aof_args_ok_def cmd_ok_def, simp_all add: arg_ok_def)
qed

lemma select_text: "aof_select t = enc_cmd [str ''SELECT'', t]"
  by (simp add: aof_select_def enc_cmd_def enc_arg_def str_def dec_nat.simps digit_def)

lemma feed_ok:
  assumes "aof_args_ok cmd args" "list_all block_ok (aof_blocks st)"
  shows "let st' = feedAppendOnlyFile fill now cmd dictid args st;
             new = log_of (aof_translate fill now (aof_selected_db st) cmd dictid args)
         in aof_selected_db st' = dictid \<and> aof_on st' = aof_on st \<and> aof_rewriting st' = aof_rewriting st
            \<and> aof_buf st' = aof_buf st @ (if aof_on st then new else [])
            \<and> list_all block_ok (aof_blocks st')
            \<and> rw_content (aof_blocks st') = rw_content (aof_blocks st) @ (if aof_rewriting st then new else [])"
proof -
  have ok: "list_all cmd_ok (aof_translate fill now (aof_selected_db st) cmd dictid args)"
    by (rule aof_translate_ok [OF assms(1)])
  have blocks: "list_all block_ok (aofRewriteBufferAppend fill (aof_blocks st) s)"
    "rw_content (aofRewriteBufferAppend fill (aof_blocks st) s) = rw_content (aof_blocks st) @ s" for s
    using rewrite_append_ok [OF assms(2), of fill s] by simp_all
  show ?thesis
    using ok assms(2) blocks
    by (cases cmd) (simp_all add: feedAppendOnlyFile_def aof_translate_def Let_def select_text
        catAppendOnlyExpireAtCommand_def catAppendOnly_eq log_of_def)
qed

text \<open>A sequence of commands executed by the server, each with the time, its database and arguments.\<close>

type_synonym aof_event = "u64 \<times> aof_cmd \<times> int \<times> bytes list"

fun feed_event :: "byte \<Rightarrow> aof_state \<Rightarrow> aof_event \<Rightarrow> aof_state" where
  "feed_event fill st (now, cmd, dictid, args) = feedAppendOnlyFile fill now cmd dictid args st"

fun translate_all :: "byte \<Rightarrow> int \<Rightarrow> aof_event list \<Rightarrow> bytes list list" where
  "translate_all fill selected [] = []"
| "translate_all fill selected ((now, cmd, dictid, args) # es) =
    aof_translate fill now selected cmd dictid args @ translate_all fill dictid es"

lemma feed_events_ok:
  assumes "\<forall>(now, cmd, dictid, args)\<in>set es. aof_args_ok cmd args" "list_all block_ok (aof_blocks st)" "aof_on st"
  shows "aof_buf (foldl (feed_event fill) st es) = aof_buf st @ log_of (translate_all fill (aof_selected_db st) es)
    \<and> list_all cmd_ok (translate_all fill (aof_selected_db st) es)
    \<and> (aof_rewriting st \<longrightarrow> rw_content (aof_blocks (foldl (feed_event fill) st es))
        = rw_content (aof_blocks st) @ log_of (translate_all fill (aof_selected_db st) es))"
  using assms
proof (induction es arbitrary: st)
  case Nil
  then show ?case by (simp add: log_of_def)
next
  case (Cons e es)
  obtain now cmd dictid args where e: "e = (now, cmd, dictid, args)" by (cases e) auto
  let ?st = "feedAppendOnlyFile fill now cmd dictid args st"
  have ok: "aof_args_ok cmd args" using Cons.prems(1) e by auto
  note f = feed_ok [OF ok Cons.prems(2), of fill now dictid, unfolded Let_def]
  have "\<forall>(now, cmd, dictid, args)\<in>set es. aof_args_ok cmd args" using Cons.prems(1) by simp
  moreover have "list_all block_ok (aof_blocks ?st)" "aof_on ?st" using f Cons.prems(3) by simp_all
  ultimately have ih: "aof_buf (foldl (feed_event fill) ?st es) = aof_buf ?st @ log_of (translate_all fill (aof_selected_db ?st) es)
    \<and> list_all cmd_ok (translate_all fill (aof_selected_db ?st) es)
    \<and> (aof_rewriting ?st \<longrightarrow> rw_content (aof_blocks (foldl (feed_event fill) ?st es))
        = rw_content (aof_blocks ?st) @ log_of (translate_all fill (aof_selected_db ?st) es))"
    by (rule Cons.IH)
  have sel: "aof_selected_db ?st = dictid" "aof_rewriting ?st = aof_rewriting st" using f by blast+
  show ?case
    using ih [unfolded sel] f Cons.prems(3) aof_translate_ok [OF ok] by (simp add: e log_of_def cong: if_cong)
qed

text \<open>
  C18: the log is a faithful copy of the history.  What the server appends while it executes
  commands, with the \<open>SELECT\<close>s it inserts and the translation of the commands with a relative
  time to live into an absolute expiry, is read back by the loader as exactly these commands in
  this order, and ends the load without an error; the differences collected for a rewrite that
  is in progress are the same bytes.
\<close>

theorem aof_feed_load:
  assumes "\<forall>(now, cmd, dictid, args)\<in>set es. aof_args_ok cmd args" "es \<noteq> []"
    "st = \<lparr>aof_on = True, aof_rewriting = True, aof_selected_db = -1, aof_buf = [], aof_blocks = []\<rparr>"
    "st' = foldl (feed_event fill) st es"
  shows "loadAppendOnlyFile (\<lambda>s a. Some (step s a)) (\<lambda>_. False) trunc s (aof_buf st')
      = AofLoaded (foldl step s (translate_all fill (-1) es)) (length (aof_buf st'))
    \<and> rw_content (aof_blocks st') = aof_buf st'"
proof -
  let ?cs = "translate_all fill (-1) es"
  have f: "aof_buf st' = log_of ?cs" "list_all cmd_ok ?cs" "rw_content (aof_blocks st') = log_of ?cs"
    using feed_events_ok [OF assms(1), of st fill] by (simp_all add: assms(3,4))
  have "?cs \<noteq> []"
  proof -
    obtain now cmd dictid args es' where "es = (now, cmd, dictid, args) # es'" using assms(2) by (cases es) auto
    then show ?thesis by (cases cmd) (simp_all add: aof_translate_def Let_def)
  qed
  then have ne: "log_of ?cs \<noteq> []" using enc_cmd_nonempty by (cases ?cs) (auto simp: log_of_def)
  have "aof_load (\<lambda>s a. Some (step s a)) (\<lambda>_. False) trunc n s (log_of cs) b = AofLoaded (foldl step s cs) n"
    if "list_all cmd_ok cs" for s cs b n
    using that
  proof (induction cs arbitrary: s b)
    case Nil
    then show ?case by (simp add: log_of_def aof_load.simps aof_read_command_def fgets_def)
  next
    case (Cons c cs)
    have "aof_read_command (log_of (c # cs)) = AofCmd c (log_of cs)"
      using read_command_enc [of c "log_of cs"] Cons.prems(1) by (simp add: log_of_def)
    then show ?case using Cons by (subst aof_load.simps) simp
  qed
  then show ?thesis using f ne by (simp add: loadAppendOnlyFile_def)
qed

theorem aof_feed_load_witness:
  "let es = [(1000, SetexCmd, 0, [str ''SETEX'', str ''k'', str ''5'', str ''v'']), (2000, OtherCmd, 3, [str ''DEL'', str ''k''])];
       st' = foldl (feed_event 0) \<lparr>aof_on = True, aof_rewriting = True, aof_selected_db = -1, aof_buf = [], aof_blocks = []\<rparr> es
   in loadAppendOnlyFile (\<lambda>s a. Some (s @ [a])) (\<lambda>_. False) False [] (aof_buf st')
      = AofLoaded [[str ''SELECT'', str ''0''], [str ''SET'', str ''k'', str ''v''], [str ''PEXPIREAT'', str ''k'', str ''6000''],
          [str ''SELECT'', str ''3''], [str ''DEL'', str ''k'']] (length (aof_buf st'))"
proof -
  let ?es = "[(1000, SetexCmd, 0, [str ''SETEX'', str ''k'', str ''5'', str ''v'']), (2000, OtherCmd, 3, [str ''DEL'', str ''k''])]"
  have ok: "\<forall>(now, cmd, dictid, args)\<in>set ?es. aof_args_ok cmd args"
    by (simp add: aof_args_ok_def cmd_ok_def arg_ok_def)
  have "translate_all 0 (-1) ?es =
    [[str ''SELECT'', str ''0''], [str ''SET'', str ''k'', str ''v''], [str ''PEXPIREAT'', str ''k'', str ''6000''],
     [str ''SELECT'', str ''3''], [str ''DEL'', str ''k'']]"
    by (simp add: aof_translate_def ll_text_decimal decimal_def dec_nat.simps digit_def strtol_val_def isspace_def
        is_digit_def digits_val_def digit_val_def)
  then show ?thesis
    using aof_feed_load [OF ok _ refl refl, where step = "\<lambda>s a. s @ [a]" and trunc = False and s = "[]" and fill = 0] by (simp add: Let_def)
qed

end
