(* ===== verification/Object.thy ===== *)
theory Object
  imports Resp Clib "HOL-Library.Signed_Division"
begin

text \<open>
  The objects of \<open>object.c\<close> that hold strings, in their three encodings, and the replies of
  \<open>networking.c\<close> that print them.  Values of the other types are opaque here.  An object is
  its value: the code changes an object in place only where it is not shared, so the reference
  count is visible only in the decision of \<open>tryObjectEncoding\<close> to leave a shared object alone.
\<close>

section \<open>Objects\<close>

definition REDIS_SHARED_INTEGERS :: u64 where "REDIS_SHARED_INTEGERS = 10000"
definition REDIS_ENCODING_EMBSTR_SIZE_LIMIT :: nat where "REDIS_ENCODING_EMBSTR_SIZE_LIMIT = 39"

datatype objtype = StringType | ListType | SetType | ZsetType | HashType

text \<open>\<open>OtherObj\<close> carries a type other than the string type and an opaque value.\<close>

datatype 'x robj = RawStr bytes | EmbStr bytes | IntStr u64 | OtherObj objtype 'x

fun obj_type :: "'x robj \<Rightarrow> objtype" where
  "obj_type (OtherObj t x) = t"
| "obj_type o1 = StringType"

definition createStringObject :: "bytes \<Rightarrow> 'x robj" where
  "createStringObject s = (if length s \<le> REDIS_ENCODING_EMBSTR_SIZE_LIMIT then EmbStr s else RawStr s)"

text \<open>A \<open>long\<close> has 64 bits, so the last branch is never taken; small values are shared objects.\<close>

definition createStringObjectFromLongLong :: "u64 \<Rightarrow> 'x robj" where
  "createStringObjectFromLongLong v =
    (if LLONG_MIN \<le>s v \<and> v \<le>s LLONG_MAX then IntStr v else RawStr (content (sdsfromlonglong 0 v)))"

text \<open>
  Encoding a string argument.  \<open>refs\<close> is its reference count; \<open>None\<close> is the failed assertion on
  the type.  The shared integers and the private ones have the same value.
\<close>

fun tryObjectEncoding :: "nat \<Rightarrow> 'x robj \<Rightarrow> 'x robj option" where
  "tryObjectEncoding refs (OtherObj t x) = None"
| "tryObjectEncoding refs (IntStr v) = Some (IntStr v)"
| "tryObjectEncoding refs (EmbStr s) =
    Some (if refs > 1 then EmbStr s
          else case (if length s \<le> 21 then string2l s else None) of
                 Some v \<Rightarrow> IntStr v
               | None \<Rightarrow> EmbStr s)"
| "tryObjectEncoding refs (RawStr s) =
    Some (if refs > 1 then RawStr s
          else case (if length s \<le> 21 then string2l s else None) of
                 Some v \<Rightarrow> IntStr v
               | None \<Rightarrow> if length s \<le> REDIS_ENCODING_EMBSTR_SIZE_LIMIT then EmbStr s else RawStr s)"

text \<open>The text of an integer in a buffer of \<open>n\<close> bytes, read up to its terminator.\<close>

definition int_text :: "byte \<Rightarrow> nat \<Rightarrow> u64 \<Rightarrow> bytes" where
  "int_text fill n v = (let (len, buf) = ll2string (replicate n fill) n v in take len buf)"

fun getDecodedObject :: "byte \<Rightarrow> 'x robj \<Rightarrow> 'x robj option" where
  "getDecodedObject fill (RawStr s) = Some (RawStr s)"
| "getDecodedObject fill (EmbStr s) = Some (EmbStr s)"
| "getDecodedObject fill (IntStr v) =
    Some (createStringObject (c_str (snd (ll2string (replicate 32 fill) 32 v))))"
| "getDecodedObject fill (OtherObj t x) = None"

fun string_bytes :: "byte \<Rightarrow> nat \<Rightarrow> 'x robj \<Rightarrow> bytes option" where
  "string_bytes fill n (RawStr s) = Some s"
| "string_bytes fill n (EmbStr s) = Some s"
| "string_bytes fill n (IntStr v) = Some (int_text fill n v)"
| "string_bytes fill n (OtherObj t x) = None"

definition compareStringObjects :: "byte \<Rightarrow> 'x robj \<Rightarrow> 'x robj \<Rightarrow> int option" where
  "compareStringObjects fill a b =
    (case (string_bytes fill 128 a, string_bytes fill 128 b) of
       (Some astr, Some bstr) \<Rightarrow>
         (let minlen = (if length astr < length bstr then length astr else length bstr);
              cmp = memcmp astr bstr minlen
          in Some (if cmp = 0 then s32_of (int (length astr) - int (length bstr)) else cmp))
     | _ \<Rightarrow> None)"

definition equalStringObjects :: "byte \<Rightarrow> 'x robj \<Rightarrow> 'x robj \<Rightarrow> bool option" where
  "equalStringObjects fill a b =
    (case (a, b) of
       (IntStr v, IntStr w) \<Rightarrow> Some (v = w)
     | _ \<Rightarrow> map_option (\<lambda>r. r = 0) (compareStringObjects fill a b))"

fun stringObjectLen :: "byte \<Rightarrow> 'x robj \<Rightarrow> nat option" where
  "stringObjectLen fill (RawStr s) = Some (length s)"
| "stringObjectLen fill (EmbStr s) = Some (length s)"
| "stringObjectLen fill (IntStr v) = Some (fst (ll2string (replicate 32 fill) 32 v))"
| "stringObjectLen fill (OtherObj t x) = None"

fun isObjectRepresentableAsLongLong :: "'x robj \<Rightarrow> u64 option option" where
  "isObjectRepresentableAsLongLong (IntStr v) = Some (Some v)"
| "isObjectRepresentableAsLongLong (RawStr s) = Some (string2ll s)"
| "isObjectRepresentableAsLongLong (EmbStr s) = Some (string2ll s)"
| "isObjectRepresentableAsLongLong (OtherObj t x) = None"

text \<open>
  The integer of an argument or value; a missing object is 0.  The outer \<open>None\<close> is a failed
  assertion, the inner one the error return.
\<close>

definition ll_of_bytes :: "bytes \<Rightarrow> u64 option" where
  "ll_of_bytes s =
    (let (value, rest, erange) = strtoll (c_str s)
     in if (s \<noteq> [] \<and> isspace (hd s)) \<or> rest \<noteq> [] \<or> erange then None else Some (word_of_int value))"

fun getLongLongFromObject :: "'x robj option \<Rightarrow> u64 option option" where
  "getLongLongFromObject None = Some (Some 0)"
| "getLongLongFromObject (Some (RawStr s)) = Some (ll_of_bytes s)"
| "getLongLongFromObject (Some (EmbStr s)) = Some (ll_of_bytes s)"
| "getLongLongFromObject (Some (IntStr v)) = Some (Some v)"
| "getLongLongFromObject (Some (OtherObj t x)) = None"

section \<open>Replies\<close>

text \<open>Headers below 32 are shared objects with the same text; lengths are never negative.\<close>

definition addReplyLongLongWithPrefix :: "byte \<Rightarrow> u64 \<Rightarrow> char \<Rightarrow> bytes" where
  "addReplyLongLongWithPrefix fill ll prefix =
    (if (prefix = CHR ''*'' \<or> prefix = CHR ''$'') \<and> ll <s 32 then ch prefix # dec_nat (unat ll) @ CRLF
     else let (len, buf) = ll2string (replicate 127 fill) 127 ll in ch prefix # take len buf @ CRLF)"

definition addReplyLongLong :: "byte \<Rightarrow> u64 \<Rightarrow> bytes" where
  "addReplyLongLong fill ll =
    (if ll = 0 then str '':0'' @ CRLF else if ll = 1 then str '':1'' @ CRLF
     else addReplyLongLongWithPrefix fill ll CHR '':'')"

definition bulk_header :: "byte \<Rightarrow> nat \<Rightarrow> bytes" where
  "bulk_header fill len =
    (if len < 32 then ch CHR ''$'' # dec_nat len @ CRLF
     else addReplyLongLongWithPrefix fill (of_nat len) CHR ''$'')"

text \<open>The number of decimal digits by division, which truncates towards zero.\<close>

function count_digits :: "nat \<Rightarrow> int \<Rightarrow> nat" where
  "count_digits len n = (let n = n sdiv 10 in if n \<noteq> 0 then count_digits (len + 1) n else len)"
  by pat_completeness auto
termination
  by (relation "measure (\<lambda>(_, n). nat \<bar>n\<bar>)") (auto simp: signed_divide_int_def abs_mult abs_sgn_eq)

declare count_digits.simps [simp del]

text \<open>The header of a bulk reply; negating the smallest \<open>long\<close> leaves it as it is.\<close>

fun addReplyBulkLen :: "byte \<Rightarrow> 'x robj \<Rightarrow> bytes option" where
  "addReplyBulkLen fill (OtherObj t x) = None"
| "addReplyBulkLen fill (RawStr s) = Some (bulk_header fill (length s))"
| "addReplyBulkLen fill (EmbStr s) = Some (bulk_header fill (length s))"
| "addReplyBulkLen fill (IntStr v) =
    Some (bulk_header fill (if v <s 0 then count_digits 2 (sint (- v)) else count_digits 1 (sint v)))"

definition addReplyBulk :: "byte \<Rightarrow> 'x robj \<Rightarrow> bytes option" where
  "addReplyBulk fill obj =
    (case (addReplyBulkLen fill obj, string_bytes fill 32 obj) of
       (Some hdr, Some body) \<Rightarrow> Some (hdr @ body @ CRLF)
     | _ \<Rightarrow> None)"

definition addReplyBulkCBuffer :: "byte \<Rightarrow> bytes \<Rightarrow> bytes" where
  "addReplyBulkCBuffer fill p = addReplyLongLongWithPrefix fill (of_nat (length p)) CHR ''$'' @ p @ CRLF"

definition addReplyMultiBulkLen :: "byte \<Rightarrow> nat \<Rightarrow> bytes" where
  "addReplyMultiBulkLen fill len =
    (if len < 32 then ch CHR ''*'' # dec_nat len @ CRLF
     else addReplyLongLongWithPrefix fill (of_nat len) CHR ''*'')"

section \<open>The bytes of a string object\<close>

fun obj_bytes :: "'x robj \<Rightarrow> bytes" where
  "obj_bytes (RawStr s) = s"
| "obj_bytes (EmbStr s) = s"
| "obj_bytes (IntStr v) = decimal (sint v)"
| "obj_bytes (OtherObj t x) = []"

abbreviation is_string :: "'x robj \<Rightarrow> bool" where
  "is_string obj \<equiv> obj_type obj = StringType"

text \<open>What every object in the server satisfies: the embedded encoding is for short strings.\<close>

fun obj_ok :: "'x robj \<Rightarrow> bool" where
  "obj_ok (RawStr s) = (length s \<le> 512 * 1024 * 1024)"
| "obj_ok (EmbStr s) = (length s \<le> REDIS_ENCODING_EMBSTR_SIZE_LIMIT)"
| "obj_ok (IntStr v) = True"
| "obj_ok (OtherObj t x) = (t \<noteq> StringType)"

text \<open>The encoding a string gets when it becomes a value.\<close>

definition encode_ref :: "bytes \<Rightarrow> 'x robj" where
  "encode_ref s =
    (case string2ll s of Some v \<Rightarrow> IntStr v | None \<Rightarrow> createStringObject s)"

lemma string_cases:
  assumes "is_string obj" "obj_ok obj"
  obtains s where "obj = RawStr s" | s where "obj = EmbStr s" | v where "obj = IntStr v"
  using assms by (cases obj) auto

lemma int_text_ok: "20 < n \<Longrightarrow> ll2string (replicate n fill) n v = (length (decimal (sint v)), mem_put 0 (decimal (sint v) @ [0]) (replicate n fill))"
  using length_decimal_le [of v] by (simp add: ll2string_ok)

lemma int_text_decimal [simp]: "20 < n \<Longrightarrow> int_text fill n v = decimal (sint v)"
  by (simp add: int_text_def int_text_ok mem_put_def)

lemma decimal_clean: "0 \<notin> set (decimal i)"
proof -
  have "0 \<notin> set (dec_nat n)" for n using dec_nat_digits [of 0 n] by (auto simp: is_digit_def)
  then show ?thesis by (simp add: decimal_def)
qed

lemma c_str_int_text: "20 < n \<Longrightarrow> c_str (snd (ll2string (replicate n fill) n v)) = decimal (sint v)"
proof -
  assume n: "20 < n"
  have "c_str (decimal (sint v) @ 0 # r) = decimal (sint v)" for r
    using decimal_clean [of "sint v"] by (auto simp: c_str_def takeWhile_append)
  then show ?thesis using n by (simp add: int_text_ok mem_put_def)
qed

lemma string_bytes_eq: "is_string obj \<Longrightarrow> obj_ok obj \<Longrightarrow> 20 < n \<Longrightarrow> string_bytes fill n obj = Some (obj_bytes obj)"
  by (erule (1) string_cases) simp_all

lemma createStringObject_bytes [simp]:
  "obj_bytes (createStringObject s) = s" "is_string (createStringObject s)"
  by (simp_all add: createStringObject_def)

lemma createStringObject_ok: "length s \<le> 512 * 1024 * 1024 \<Longrightarrow> obj_ok (createStringObject s)"
  by (simp add: createStringObject_def)

lemma getDecodedObject_ok:
  "is_string obj \<Longrightarrow> obj_ok obj \<Longrightarrow> \<exists>dec. getDecodedObject fill obj = Some dec \<and> obj_bytes dec = obj_bytes obj \<and> (\<forall>v. dec \<noteq> IntStr v)"
  by (erule (1) string_cases) (auto simp: c_str_int_text createStringObject_def)

lemma stringObjectLen_ok: "is_string obj \<Longrightarrow> obj_ok obj \<Longrightarrow> stringObjectLen fill obj = Some (length (obj_bytes obj))"
  by (erule (1) string_cases) (simp_all add: int_text_ok)

lemma length_encodable: "string2ll s = Some v \<Longrightarrow> length s \<le> 21"
  using length_decimal_le [of v] by (simp add: string2ll_ok)

lemma string2l_guard: "(if length s \<le> 21 then string2l s else None) = string2ll s"
  using length_encodable [of s] by (cases "string2ll s") (auto simp: string2l_eq)

text \<open>Encoding an unshared argument gives the canonical encoding of its bytes; a shared one is kept.\<close>

lemma tryObjectEncoding_ref:
  assumes "is_string obj" "obj_ok obj" "refs \<le> 1" "\<forall>v. obj \<noteq> IntStr v"
  shows "tryObjectEncoding refs obj = Some (encode_ref (obj_bytes obj))"
  using assms(1,2)
proof (rule string_cases)
  fix s assume "obj = RawStr s"
  then show ?thesis using assms(3)
    by (auto simp: string2l_guard encode_ref_def createStringObject_def split: option.split)
next
  fix s assume "obj = EmbStr s"
  then show ?thesis using assms(2,3)
    by (auto simp: string2l_guard encode_ref_def createStringObject_def split: option.split)
qed (use assms(4) in auto)

lemma encode_ref_bytes [simp]: "obj_bytes (encode_ref s) = s" "is_string (encode_ref s)"
  by (auto simp: encode_ref_def string2ll_ok split: option.split)

lemma encode_ref_ok: "length s \<le> 512 * 1024 * 1024 \<Longrightarrow> obj_ok (encode_ref s)"
  by (auto simp: encode_ref_def createStringObject_ok split: option.split)

lemma tryObjectEncoding_keeps:
  assumes "is_string obj" "obj_ok obj"
  shows "\<exists>enc. tryObjectEncoding refs obj = Some enc \<and> obj_bytes enc = obj_bytes obj \<and> obj_ok enc \<and> is_string enc"
  using assms
  by (rule string_cases)
    (use assms(2) in \<open>auto simp: string2l_guard string2ll_ok split: option.split\<close>)

lemma decimal_inj: "decimal (sint v) = decimal (sint w) \<longleftrightarrow> v = (w :: u64)"
  using string2ll_ok [of "decimal (sint v)" v] string2ll_ok [of "decimal (sint v)" w] by auto

lemma obj_ok_length: "is_string obj \<Longrightarrow> obj_ok obj \<Longrightarrow> length (obj_bytes obj) \<le> 512 * 1024 * 1024"
  using order_trans [OF length_decimal_le, of "512 * 1024 * 1024"]
  by (cases obj) (auto simp: REDIS_ENCODING_EMBSTR_SIZE_LIMIT_def)

lemma compare_ok:
  assumes "is_string a" "obj_ok a" "is_string b" "obj_ok b"
  shows "\<exists>r. compareStringObjects fill a b = Some r
      \<and> (r < 0 \<longleftrightarrow> ord_class.lexordp (obj_bytes a) (obj_bytes b))
      \<and> (r > 0 \<longleftrightarrow> ord_class.lexordp (obj_bytes b) (obj_bytes a))
      \<and> (r = 0 \<longleftrightarrow> obj_bytes a = obj_bytes b)"
proof -
  have "length (obj_bytes a) \<le> 512 * 1024 * 1024" "length (obj_bytes b) \<le> 512 * 1024 * 1024"
    using obj_ok_length assms by blast+
  then have "s32_of (int (length (obj_bytes a)) - int (length (obj_bytes b)))
      = int (length (obj_bytes a)) - int (length (obj_bytes b))"
    by (simp add: s32_of_small)
  then have "compareStringObjects fill a b = Some (bytes_compare (obj_bytes a) (obj_bytes b))"
    using assms by (simp add: compareStringObjects_def string_bytes_eq bytes_compare_def Let_def min_def not_less)
  then show ?thesis using bytes_compare_order [of "obj_bytes a" "obj_bytes b"] by simp
qed

lemma equal_ok:
  assumes "is_string a" "obj_ok a" "is_string b" "obj_ok b"
  shows "equalStringObjects fill a b = Some (obj_bytes a = obj_bytes b)"
proof (cases "\<exists>v w. a = IntStr v \<and> b = IntStr w")
  case True
  then show ?thesis by (auto simp: equalStringObjects_def decimal_inj)
next
  case False
  then have "equalStringObjects fill a b = map_option (\<lambda>r. r = 0) (compareStringObjects fill a b)"
    by (auto simp: equalStringObjects_def split: robj.split)
  then show ?thesis using compare_ok [OF assms, of fill] by auto
qed

section \<open>Printing objects\<close>

lemma prefix_text:
  assumes "n < 2 ^ 63"
  shows "addReplyLongLongWithPrefix fill (of_nat n) p = ch p # dec_nat n @ CRLF"
proof -
  have u: "unat (of_nat n :: u64) = n" using assms by (simp add: unat_of_nat_small)
  have "decimal (sint (of_nat n :: u64)) = dec_nat n" using assms by (simp add: sint_of_nat decimal_def)
  then show ?thesis
    by (simp add: addReplyLongLongWithPrefix_def int_text_ok mem_put_def u)
qed

lemma bulk_header_text: "n < 2 ^ 63 \<Longrightarrow> bulk_header fill n = ch CHR ''$'' # dec_nat n @ CRLF"
  by (simp add: bulk_header_def prefix_text)

lemma multi_header_text: "n < 2 ^ 63 \<Longrightarrow> addReplyMultiBulkLen fill n = ch CHR ''*'' # dec_nat n @ CRLF"
  by (simp add: addReplyMultiBulkLen_def prefix_text)

lemma integer_text: "addReplyLongLong fill v = ch CHR '':'' # decimal (sint v) @ CRLF"
  by (simp add: addReplyLongLong_def addReplyLongLongWithPrefix_def int_text_ok mem_put_def decimal_def dec_nat_small digit_def)

lemma length_dec_nat_ge: "10 \<le> n \<Longrightarrow> length (dec_nat n) = Suc (length (dec_nat (n div 10)))"
  by (simp add: dec_nat_step)

lemma count_digits_ok: "count_digits len n = len + length (dec_nat (nat \<bar>n\<bar>)) - 1"
proof (induction len n rule: count_digits.induct)
  case (1 len n)
  have ten: "nat \<bar>n sdiv 10\<bar> = nat \<bar>n\<bar> div 10"
    by (simp add: signed_divide_int_def abs_mult abs_sgn_eq nat_div_distrib)
  show ?case
  proof (cases "n sdiv 10 = 0")
    case True
    then have "nat \<bar>n\<bar> < 10" using ten by simp
    then show ?thesis using True by (subst count_digits.simps) (simp add: dec_nat_small)
  next
    case False
    then have "nat \<bar>n\<bar> div 10 \<noteq> 0" using ten by linarith
    then have ge: "10 \<le> nat \<bar>n\<bar>" by (meson div_eq_0_iff not_less)
    have "count_digits len n = count_digits (len + 1) (n sdiv 10)"
      using False by (subst count_digits.simps) (simp add: Let_def)
    also have "\<dots> = len + 1 + length (dec_nat (nat \<bar>n\<bar> div 10)) - 1" using 1 [OF refl False] ten by simp
    finally show ?thesis using length_dec_nat_ge [OF ge] by simp
  qed
qed

lemma sint_in_range: "- (2 ^ 63) \<le> i \<Longrightarrow> i < 2 ^ 63 \<Longrightarrow> sint (word_of_int i :: u64) = i"
  by (simp add: signed_of_int signed_take_bit_int_eq_self)

lemma sint_uminus_abs: "v <s 0 \<Longrightarrow> \<bar>sint (- v :: u64)\<bar> = - sint v"
proof -
  assume "v <s 0"
  then have neg: "sint v < 0" by (simp add: word_sless_alt)
  show ?thesis
  proof (cases "v = LLONG_MIN")
    case True
    then show ?thesis by (simp add: LLONG_MIN_def)
  next
    case False
    have "sint v \<noteq> - (2 ^ 63)"
    proof
      assume "sint v = - (2 ^ 63)"
      then have "sint v = sint LLONG_MIN" by (simp add: LLONG_MIN_def)
      then show False using False signed_word_eqI by blast
    qed
    then have "sint (word_of_int (- sint v) :: u64) = - sint v" using sint_range64 [of v] neg by (intro sint_in_range) auto
    then have "sint (- v) = - sint v" by simp
    then show ?thesis using neg by simp
  qed
qed

lemma addReplyBulkLen_ok:
  assumes "is_string obj" "obj_ok obj" "length (obj_bytes obj) < 2 ^ 63"
  shows "addReplyBulkLen fill obj = Some (ch CHR ''$'' # dec_nat (length (obj_bytes obj)) @ CRLF)"
  using assms(1,2)
proof (rule string_cases)
  fix v assume "obj = IntStr v"
  moreover have "(if v <s 0 then count_digits 2 (sint (- v)) else count_digits 1 (sint v)) = length (decimal (sint v))"
    using sint_uminus_abs [of v] by (auto simp: count_digits_ok decimal_def word_sless_alt)
  ultimately show ?thesis using assms(3) by (simp add: bulk_header_text)
qed (use assms(3) in \<open>simp_all add: bulk_header_text\<close>)

lemma addReplyBulk_ok:
  "is_string obj \<Longrightarrow> obj_ok obj \<Longrightarrow> length (obj_bytes obj) < 2 ^ 63 \<Longrightarrow> addReplyBulk fill obj = Some (enc_arg (obj_bytes obj))"
  by (simp add: addReplyBulk_def addReplyBulkLen_ok string_bytes_eq enc_arg_def)

section \<open>Integers in strings\<close>

lemma sint_word_abs: "sint (v :: u64) = (if sint v < 0 then - int (nat (- sint v)) else int (nat (sint v)))"
  by simp

lemma strtoll_decimal:
  assumes "r = [] \<or> \<not> is_digit (hd r)"
  shows "strtoll (decimal (sint (v :: u64)) @ r) = (sint v, r, False)"
proof -
  have tw: "takeWhile is_digit (dec_nat n @ r) = dec_nat n" "dropWhile isspace (dec_nat n @ r) = dec_nat n @ r"
    "hd (dec_nat n @ r) \<noteq> ch CHR ''-''" "hd (dec_nat n @ r) \<noteq> ch CHR ''+''" for n
  proof -
    obtain d ds where d: "dec_nat n = d # ds" by (cases "dec_nat n") auto
    have dig: "\<forall>x\<in>set (dec_nat n). is_digit x" using dec_nat_digits by blast
    then show "takeWhile is_digit (dec_nat n @ r) = dec_nat n"
      using assms by (cases r) (auto simp: takeWhile_append2)
    show "dropWhile isspace (dec_nat n @ r) = dec_nat n @ r"
      "hd (dec_nat n @ r) \<noteq> ch CHR ''-''" "hd (dec_nat n @ r) \<noteq> ch CHR ''+''"
      using d dig digit_not_space [of d] by auto
  qed
  have lim: "- (2 ^ 63) \<le> sint v" "sint v < 2 ^ 63" using sint_range64 by auto
  show ?thesis
  proof (cases "sint v < 0")
    case True
    then show ?thesis using tw(1) [of "nat (- sint v)"] lim
      by (simp add: strtoll_def decimal_def isspace_def Let_def)
  next
    case False
    then show ?thesis using tw [of "nat (sint v)"] lim
      by (simp add: strtoll_def decimal_def Let_def)
  qed
qed

lemma c_str_decimal: "c_str (decimal i) = decimal i" "c_str (decimal i @ 0 # r) = decimal i"
  using decimal_clean [of i] by (auto simp: c_str_def takeWhile_append)

lemma hd_decimal_not_space: "\<not> isspace (hd (decimal i @ r))"
proof -
  have "\<not> isspace (hd (dec_nat n @ r))" for n
    using dec_nat_digits [of "hd (dec_nat n)" n] digit_not_space [of "hd (dec_nat n)"] by simp
  then show ?thesis by (simp add: decimal_def isspace_def)
qed

text \<open>A decimal number is read back, and anything after a zero byte is not looked at.\<close>

lemma ll_of_decimal [simp]: "ll_of_bytes (decimal (sint v)) = Some v"
  using strtoll_decimal [of "[]" v] hd_decimal_not_space [of "sint v" "[]"]
  by (simp add: ll_of_bytes_def c_str_decimal)

lemma ll_of_decimal_zero: "ll_of_bytes (decimal (sint v) @ 0 # r) = Some v"
  using strtoll_decimal [of "[]" v] hd_decimal_not_space [of "sint v" "0 # r"]
  by (simp add: ll_of_bytes_def c_str_decimal)

lemma getLongLong_encoded:
  assumes "is_string obj" "obj_ok obj" "tryObjectEncoding refs obj = Some enc"
  shows "getLongLongFromObject (Some enc) = getLongLongFromObject (Some obj)"
  using assms(1,2)
proof (rule string_cases)
  fix s assume "obj = RawStr s"
  then show ?thesis using assms(3) by (auto simp: string2l_guard string2ll_ok split: option.splits if_splits)
next
  fix s assume "obj = EmbStr s"
  then show ?thesis using assms(3) by (auto simp: string2l_guard string2ll_ok split: option.splits if_splits)
qed (use assms(3) in auto)

section \<open>Encodings are invisible\<close>

text \<open>
  C21: the encodings of string objects are an optimisation no operation can see.  Whatever
  \<open>tryObjectEncoding\<close> makes of two strings, their bytes, lengths, decoded copies, integer
  readings and printed replies are the same, they compare in the same order, and they are
  equal exactly if their bytes are.
\<close>

theorem object_encoding_transparent:
  assumes "is_string a" "obj_ok a" "is_string b" "obj_ok b"
    "tryObjectEncoding ra a = Some a'" "tryObjectEncoding rb b = Some b'"
  shows "obj_ok a' \<and> is_string a' \<and> obj_bytes a' = obj_bytes a
    \<and> map_option obj_bytes (getDecodedObject fill a') = Some (obj_bytes a)
    \<and> stringObjectLen fill a' = Some (length (obj_bytes a))
    \<and> getLongLongFromObject (Some a') = getLongLongFromObject (Some a)
    \<and> addReplyBulk fill a' = Some (enc_arg (obj_bytes a))
    \<and> map_option sgn (compareStringObjects fill a' b') = map_option sgn (compareStringObjects fill a b)
    \<and> equalStringObjects fill a' b' = Some (obj_bytes a = obj_bytes b)"
proof -
  have a: "obj_ok a'" "is_string a'" "obj_bytes a' = obj_bytes a"
    using tryObjectEncoding_keeps [OF assms(1,2), of ra] assms(5) by auto
  have b: "obj_ok b'" "is_string b'" "obj_bytes b' = obj_bytes b"
    using tryObjectEncoding_keeps [OF assms(3,4), of rb] assms(6) by auto
  have len: "length (obj_bytes a) < 2 ^ 63" using obj_ok_length [OF assms(1,2)] by simp
  obtain r r' where r: "compareStringObjects fill a b = Some r" "compareStringObjects fill a' b' = Some r'"
    "(r < 0) = (r' < 0)" "(r > 0) = (r' > 0)"
    using compare_ok [OF assms(1-4), of fill] compare_ok [OF a(2,1) b(2,1), of fill] a(3) b(3) by auto
  then have "sgn r' = sgn r" by (auto simp: sgn_if)
  then show ?thesis
    using a b r(1,2) getDecodedObject_ok [OF a(2,1), of fill] stringObjectLen_ok [OF a(2,1), of fill]
      getLongLong_encoded [OF assms(1,2,5)] addReplyBulk_ok [OF a(2,1), of fill] len equal_ok [OF a(2,1) b(2,1), of fill]
    by auto
qed

theorem object_encoding_transparent_witness:
  "equalStringObjects 0 (IntStr 12 :: unit robj) (EmbStr (str ''x'')) = Some False"
proof -
  have e: "tryObjectEncoding 1 (RawStr (str ''12'') :: unit robj) = Some (IntStr 12)"
    "tryObjectEncoding 1 (RawStr (str ''x'') :: unit robj) = Some (EmbStr (str ''x''))"
    by (simp_all add: string2l_def string2ll_def limit_defs word_sless_alt REDIS_ENCODING_EMBSTR_SIZE_LIMIT_def)
  from object_encoding_transparent [OF _ _ _ _ e] show ?thesis by simp
qed

end
