(* ===== verification/Db.thy ===== *)
theory Db
  imports Object "HOL-Library.Monad_Syntax"
begin

text \<open>
  The key space of \<open>db.c\<close>: the databases with their keys, expires and watched keys, the
  functions every command goes through, the hooks that tell watching clients of changes
  (\<open>multi.c\<close>), and the commands that work on keys of any type.  The hash tables are maps, as
  the theory of \<open>dict.c\<close> allows; an operation returns \<open>None\<close> where an assertion of the code
  fails or the program is aborted.  The clock does not move during a command.
\<close>

section \<open>The state\<close>

record 'x redisDb =
  db_dict :: "bytes \<rightharpoonup> 'x robj"
  db_expires :: "bytes \<rightharpoonup> u64"
  db_watched :: "bytes \<rightharpoonup> nat list"

text \<open>The functions a command table may point to.\<close>

datatype command_proc =
    GetCommand | SetCommand | SetnxCommand | SetexCommand | PsetexCommand | AppendCommand | StrlenCommand
  | DelCommand | ExistsCommand | SetrangeCommand | GetrangeCommand | IncrCommand | DecrCommand | MgetCommand
  | IncrbyCommand | DecrbyCommand | GetsetCommand | MsetCommand | MsetnxCommand | SelectCommand | MoveCommand
  | RenameCommand | RenamenxCommand | ExpireCommand | ExpireatCommand | PexpireCommand | PexpireatCommand
  | DbsizeCommand | TypeCommand | TtlCommand | PttlCommand | PersistCommand | FlushdbCommand | FlushallCommand
  | PingCommand | MultiCommand | ExecCommand | DiscardCommand | WatchCommand | UnwatchCommand

record redisCommand =
  cmd_name :: bytes
  cmd_proc :: command_proc
  cmd_arity :: int
  cmd_sflags :: string
  cmd_firstkey :: int

record mclient =
  c_db :: nat
  c_argv :: "bytes list"
  c_multi :: bool
  c_dirty_cas :: bool
  c_dirty_exec :: bool
  c_close :: bool
  c_master :: bool
  c_pubsub :: bool
  c_authenticated :: bool
  c_mstate :: "(redisCommand \<times> bytes list) list"
  c_watched_keys :: "(nat \<times> bytes) list"
  c_reply :: bytes

text \<open>
  \<open>sclients\<close> is the list of connected clients and \<open>cl\<close> their structures; \<open>propagated\<close> collects
  what goes to the append only file (the first flag) and to the slaves (the second).
\<close>

record 'x server =
  sdbs :: "nat \<Rightarrow> 'x redisDb"
  dbnum :: nat
  sclients :: "nat list"
  cl :: "nat \<Rightarrow> mclient"
  dirty :: int
  saveparamslen :: nat
  mstime :: u64
  loading :: bool
  masterhost :: bool
  cluster_enabled :: bool
  aof_enabled :: bool
  propagated :: "(bool \<times> bool \<times> nat \<times> bytes list) list"

definition mapSize :: "('k \<rightharpoonup> 'v) \<Rightarrow> nat" where
  "mapSize m = card (dom m)"

definition upd_db :: "'x server \<Rightarrow> nat \<Rightarrow> ('x redisDb \<Rightarrow> 'x redisDb) \<Rightarrow> 'x server" where
  "upd_db s db f = s\<lparr>sdbs := (sdbs s)(db := f (sdbs s db))\<rparr>"

definition upd_client :: "'x server \<Rightarrow> nat \<Rightarrow> (mclient \<Rightarrow> mclient) \<Rightarrow> 'x server" where
  "upd_client s c f = s\<lparr>cl := (cl s)(c := f (cl s c))\<rparr>"

section \<open>Replies\<close>

definition shared_ok :: bytes where "shared_ok = str ''+OK'' @ CRLF"
definition shared_emptybulk :: bytes where "shared_emptybulk = str ''$0'' @ CRLF @ CRLF"
definition shared_czero :: bytes where "shared_czero = str '':0'' @ CRLF"
definition shared_cone :: bytes where "shared_cone = str '':1'' @ CRLF"
definition shared_nullbulk :: bytes where "shared_nullbulk = str ''$-1'' @ CRLF"
definition shared_nullmultibulk :: bytes where "shared_nullmultibulk = str ''*-1'' @ CRLF"
definition shared_pong :: bytes where "shared_pong = str ''+PONG'' @ CRLF"
definition shared_queued :: bytes where "shared_queued = str ''+QUEUED'' @ CRLF"
definition shared_wrongtypeerr :: bytes where
  "shared_wrongtypeerr = str ''-WRONGTYPE Operation against a key holding the wrong kind of value'' @ CRLF"
definition shared_nokeyerr :: bytes where "shared_nokeyerr = str ''-ERR no such key'' @ CRLF"
definition shared_syntaxerr :: bytes where "shared_syntaxerr = str ''-ERR syntax error'' @ CRLF"
definition shared_sameobjecterr :: bytes where
  "shared_sameobjecterr = str ''-ERR source and destination objects are the same'' @ CRLF"
definition shared_outofrangeerr :: bytes where "shared_outofrangeerr = str ''-ERR index out of range'' @ CRLF"

text \<open>A reply goes to the end of the client's output; \<open>addReplyErrorFormat\<close> is that of the parser.\<close>

definition addReply :: "'x server \<Rightarrow> nat \<Rightarrow> bytes \<Rightarrow> 'x server" where
  "addReply s c r = upd_client s c (\<lambda>cl. cl\<lparr>c_reply := c_reply cl @ r\<rparr>)"

definition addReplyError :: "'x server \<Rightarrow> nat \<Rightarrow> bytes \<Rightarrow> 'x server" where
  "addReplyError s c err = addReply s c (str ''-ERR '' @ err @ CRLF)"

definition addReplyStatus :: "'x server \<Rightarrow> nat \<Rightarrow> bytes \<Rightarrow> 'x server" where
  "addReplyStatus s c status = addReply s c (str ''+'' @ status @ CRLF)"

definition addReplyInt :: "byte \<Rightarrow> 'x server \<Rightarrow> nat \<Rightarrow> u64 \<Rightarrow> 'x server" where
  "addReplyInt fill s c ll = addReply s c (addReplyLongLong fill ll)"

definition checkType :: "'x server \<Rightarrow> nat \<Rightarrow> 'x robj \<Rightarrow> objtype \<Rightarrow> 'x server \<times> bool" where
  "checkType s c obj ty = (if obj_type obj \<noteq> ty then (addReply s c shared_wrongtypeerr, True) else (s, False))"

text \<open>The integer of an argument, or an error reply; without a message the standard one is sent.\<close>

definition not_integer_msg :: bytes where "not_integer_msg = str ''value is not an integer or out of range''"

definition getLongLongFromObjectOrReply ::
  "'x server \<Rightarrow> nat \<Rightarrow> 'x robj option \<Rightarrow> bytes option \<Rightarrow> ('x server \<times> u64 option) option" where
  "getLongLongFromObjectOrReply s c obj msg =
    map_option
      (\<lambda>r. case r of
         None \<Rightarrow> (addReplyError s c (case msg of Some m \<Rightarrow> m | None \<Rightarrow> not_integer_msg), None)
       | Some value \<Rightarrow> (s, Some value))
      (getLongLongFromObject obj)"

text \<open>A \<open>long\<close> has 64 bits: the second range check never fails.\<close>

definition getLongFromObjectOrReply ::
  "'x server \<Rightarrow> nat \<Rightarrow> 'x robj option \<Rightarrow> bytes option \<Rightarrow> ('x server \<times> u64 option) option" where
  "getLongFromObjectOrReply s c obj msg =
    map_option
      (\<lambda>(s, r). case r of
         None \<Rightarrow> (s, None)
       | Some value \<Rightarrow>
           if value <s LLONG_MIN \<or> LLONG_MAX <s value
           then (addReplyError s c (case msg of Some m \<Rightarrow> m | None \<Rightarrow> str ''value is out of range''), None)
           else (s, Some value))
      (getLongLongFromObjectOrReply s c obj msg)"

section \<open>Telling watching clients\<close>

definition touchWatchedKey :: "'x server \<Rightarrow> nat \<Rightarrow> bytes \<Rightarrow> 'x server" where
  "touchWatchedKey s db key =
    (if mapSize (db_watched (sdbs s db)) = 0 then s
     else case db_watched (sdbs s db) key of
            None \<Rightarrow> s
          | Some clients \<Rightarrow> foldl (\<lambda>s c. upd_client s c (\<lambda>cl. cl\<lparr>c_dirty_cas := True\<rparr>)) s clients)"

text \<open>\<open>None\<close> stands for the database number -1: all of them.\<close>

definition touchWatchedKeysOnFlush :: "'x server \<Rightarrow> nat option \<Rightarrow> 'x server" where
  "touchWatchedKeysOnFlush s dbid =
    foldl (\<lambda>s c.
      foldl (\<lambda>s wk.
        if (dbid = None \<or> dbid = Some (fst wk)) \<and> db_dict (sdbs s (fst wk)) (snd wk) \<noteq> None
        then upd_client s c (\<lambda>cl. cl\<lparr>c_dirty_cas := True\<rparr>) else s) s (c_watched_keys (cl s c)))
      s (sclients s)"

definition signalModifiedKey :: "'x server \<Rightarrow> nat \<Rightarrow> bytes \<Rightarrow> 'x server" where
  "signalModifiedKey s db key = touchWatchedKey s db key"

definition signalFlushedDb :: "'x server \<Rightarrow> nat option \<Rightarrow> 'x server" where
  "signalFlushedDb s dbid = touchWatchedKeysOnFlush s dbid"

section \<open>The C-level interface\<close>

definition lookupKey :: "'x server \<Rightarrow> nat \<Rightarrow> bytes \<Rightarrow> 'x robj option" where
  "lookupKey s db key = db_dict (sdbs s db) key"

definition dbExists :: "'x server \<Rightarrow> nat \<Rightarrow> bytes \<Rightarrow> bool" where
  "dbExists s db key \<longleftrightarrow> db_dict (sdbs s db) key \<noteq> None"

text \<open>The expire time, or -1; an expire of a key that is not there fails the assertion.\<close>

definition getExpire :: "'x server \<Rightarrow> nat \<Rightarrow> bytes \<Rightarrow> u64 option" where
  "getExpire s db key =
    (if mapSize (db_expires (sdbs s db)) = 0 then Some (- 1)
     else case db_expires (sdbs s db) key of
            None \<Rightarrow> Some (- 1)
          | Some when \<Rightarrow> if db_dict (sdbs s db) key = None then None else Some when)"

definition removeExpire :: "'x server \<Rightarrow> nat \<Rightarrow> bytes \<Rightarrow> ('x server \<times> bool) option" where
  "removeExpire s db key =
    (if db_dict (sdbs s db) key = None then None
     else Some (upd_db s db (\<lambda>d. d\<lparr>db_expires := (db_expires d)(key := None)\<rparr>), db_expires (sdbs s db) key \<noteq> None))"

definition setExpire :: "'x server \<Rightarrow> nat \<Rightarrow> bytes \<Rightarrow> u64 \<Rightarrow> 'x server option" where
  "setExpire s db key when =
    (if db_dict (sdbs s db) key = None then None
     else Some (upd_db s db (\<lambda>d. d\<lparr>db_expires := (db_expires d)(key \<mapsto> when)\<rparr>)))"

definition dbDelete :: "'x server \<Rightarrow> nat \<Rightarrow> bytes \<Rightarrow> 'x server \<times> bool" where
  "dbDelete s db key =
    (let s1 = (if mapSize (db_expires (sdbs s db)) > 0
               then upd_db s db (\<lambda>d. d\<lparr>db_expires := (db_expires d)(key := None)\<rparr>) else s)
     in (upd_db s1 db (\<lambda>d. d\<lparr>db_dict := (db_dict d)(key := None)\<rparr>), db_dict (sdbs s1 db) key \<noteq> None))"

definition propagateExpire :: "'x server \<Rightarrow> nat \<Rightarrow> bytes \<Rightarrow> 'x server" where
  "propagateExpire s db key = s\<lparr>propagated := propagated s @ [(aof_enabled s, True, db, [str ''DEL'', key])]\<rparr>"

text \<open>Scripts, which freeze the clock, are not modelled.\<close>

definition expireIfNeeded :: "'x server \<Rightarrow> nat \<Rightarrow> bytes \<Rightarrow> ('x server \<times> bool) option" where
  "expireIfNeeded s db key =
    do {
      when \<leftarrow> getExpire s db key;
      if when <s 0 then Some (s, False)
      else if loading s then Some (s, False)
      else if masterhost s then Some (s, when <s mstime s)
      else if mstime s \<le>s when then Some (s, False)
      else Some (dbDelete (propagateExpire s db key) db key)
    }"

definition lookupKeyRead :: "'x server \<Rightarrow> nat \<Rightarrow> bytes \<Rightarrow> ('x server \<times> 'x robj option) option" where
  "lookupKeyRead s db key =
    do { (s, expired) \<leftarrow> expireIfNeeded s db key; Some (s, lookupKey s db key) }"

definition lookupKeyWrite :: "'x server \<Rightarrow> nat \<Rightarrow> bytes \<Rightarrow> ('x server \<times> 'x robj option) option" where
  "lookupKeyWrite s db key =
    do { (s, expired) \<leftarrow> expireIfNeeded s db key; Some (s, lookupKey s db key) }"

definition lookupKeyReadOrReply :: "'x server \<Rightarrow> nat \<Rightarrow> bytes \<Rightarrow> bytes \<Rightarrow> ('x server \<times> 'x robj option) option" where
  "lookupKeyReadOrReply s c key r =
    do {
      (s, obj) \<leftarrow> lookupKeyRead s (c_db (cl s c)) key;
      Some (if obj = None then addReply s c r else s, obj)
    }"

definition lookupKeyWriteOrReply :: "'x server \<Rightarrow> nat \<Rightarrow> bytes \<Rightarrow> bytes \<Rightarrow> ('x server \<times> 'x robj option) option" where
  "lookupKeyWriteOrReply s c key r =
    do {
      (s, obj) \<leftarrow> lookupKeyWrite s (c_db (cl s c)) key;
      Some (if obj = None then addReply s c r else s, obj)
    }"

text \<open>Adding a key that exists and overwriting one that does not abort the program.\<close>

definition dbAdd :: "'x server \<Rightarrow> nat \<Rightarrow> bytes \<Rightarrow> 'x robj \<Rightarrow> 'x server option" where
  "dbAdd s db key val =
    (if db_dict (sdbs s db) key \<noteq> None then None
     else Some (upd_db s db (\<lambda>d. d\<lparr>db_dict := (db_dict d)(key \<mapsto> val)\<rparr>)))"

definition dbOverwrite :: "'x server \<Rightarrow> nat \<Rightarrow> bytes \<Rightarrow> 'x robj \<Rightarrow> 'x server option" where
  "dbOverwrite s db key val =
    (if db_dict (sdbs s db) key = None then None
     else Some (upd_db s db (\<lambda>d. d\<lparr>db_dict := (db_dict d)(key \<mapsto> val)\<rparr>)))"

definition setKey :: "'x server \<Rightarrow> nat \<Rightarrow> bytes \<Rightarrow> 'x robj \<Rightarrow> 'x server option" where
  "setKey s db key val =
    do {
      (s, old) \<leftarrow> lookupKeyWrite s db key;
      s \<leftarrow> (if old = None then dbAdd s db key val else dbOverwrite s db key val);
      (s, b) \<leftarrow> removeExpire s db key;
      Some (signalModifiedKey s db key)
    }"

text \<open>A raw copy of the value in its place; \<open>shared\<close> says that the reference count is not 1.\<close>

definition dbUnshareStringValue :: "byte \<Rightarrow> bool \<Rightarrow> 'x server \<Rightarrow> nat \<Rightarrow> bytes \<Rightarrow> 'x robj \<Rightarrow> ('x server \<times> bytes) option" where
  "dbUnshareStringValue fill shared s db key obj =
    (case (shared, obj) of
       (False, RawStr b) \<Rightarrow> Some (s, b)
     | _ \<Rightarrow>
         do {
           decoded \<leftarrow> getDecodedObject fill obj;
           s \<leftarrow> dbOverwrite s db key (RawStr (obj_bytes decoded));
           Some (s, obj_bytes decoded)
         })"

definition emptyDb :: "'x server \<Rightarrow> 'x server \<times> nat" where
  "emptyDb s =
    (s\<lparr>sdbs := (\<lambda>j. if j < dbnum s then (sdbs s j)\<lparr>db_dict := Map.empty, db_expires := Map.empty\<rparr> else sdbs s j)\<rparr>,
     (\<Sum>j\<leftarrow>[0..<dbnum s]. mapSize (db_dict (sdbs s j))))"

definition selectDb :: "'x server \<Rightarrow> nat \<Rightarrow> u32 \<Rightarrow> 'x server \<times> bool" where
  "selectDb s c n =
    (if n <s 0 \<or> sint n \<ge> int (dbnum s) then (s, False)
     else (upd_client s c (\<lambda>cl. cl\<lparr>c_db := unat n\<rparr>), True))"

section \<open>Commands on keys\<close>

abbreviation argument :: "'x server \<Rightarrow> nat \<Rightarrow> nat \<Rightarrow> bytes" where
  "argument s c j \<equiv> c_argv (cl s c) ! j"

definition flushdbCommand :: "'x server \<Rightarrow> nat \<Rightarrow> 'x server" where
  "flushdbCommand s c =
    (let db = c_db (cl s c);
         s = s\<lparr>dirty := dirty s + int (mapSize (db_dict (sdbs s db)))\<rparr>;
         s = signalFlushedDb s (Some db);
         s = upd_db s db (\<lambda>d. d\<lparr>db_dict := Map.empty\<rparr>);
         s = upd_db s db (\<lambda>d. d\<lparr>db_expires := Map.empty\<rparr>)
     in addReply s c shared_ok)"

text \<open>
  With automatic saves configured the empty data set is saved, and the counter of changes is
  restored afterwards from a copy in an \<open>int\<close>.
\<close>

definition flushallCommand :: "'x server \<Rightarrow> nat \<Rightarrow> 'x server" where
  "flushallCommand s c =
    (let s = signalFlushedDb s None;
         (s, removed) = emptyDb s;
         s = s\<lparr>dirty := dirty s + int removed\<rparr>;
         s = addReply s c shared_ok;
         s = s\<lparr>dirty := (if saveparamslen s > 0 then s32_of (dirty s) else dirty s)\<rparr>
     in s\<lparr>dirty := dirty s + 1\<rparr>)"

fun del_loop :: "'x server \<Rightarrow> nat \<Rightarrow> bytes list \<Rightarrow> nat \<Rightarrow> ('x server \<times> nat) option" where
  "del_loop s c [] deleted = Some (s, deleted)"
| "del_loop s c (key # keys) deleted =
    do {
      (s, e) \<leftarrow> expireIfNeeded s (c_db (cl s c)) key;
      let (s, found) = dbDelete s (c_db (cl s c)) key;
      if found then
        (let s = signalModifiedKey s (c_db (cl s c)) key
         in del_loop (s\<lparr>dirty := dirty s + 1\<rparr>) c keys (deleted + 1))
      else del_loop s c keys deleted
    }"

definition delCommand :: "byte \<Rightarrow> 'x server \<Rightarrow> nat \<Rightarrow> 'x server option" where
  "delCommand fill s c =
    do {
      (s, deleted) \<leftarrow> del_loop s c (tl (c_argv (cl s c))) 0;
      Some (addReplyInt fill s c (of_nat deleted))
    }"

definition existsCommand :: "'x server \<Rightarrow> nat \<Rightarrow> 'x server option" where
  "existsCommand s c =
    do {
      (s, e) \<leftarrow> expireIfNeeded s (c_db (cl s c)) (argument s c 1);
      Some (if dbExists s (c_db (cl s c)) (argument s c 1) then addReply s c shared_cone else addReply s c shared_czero)
    }"

text \<open>The \<open>long\<close> argument is passed to a parameter of type \<open>int\<close>.\<close>

definition selectCommand :: "'x server \<Rightarrow> nat \<Rightarrow> 'x server option" where
  "selectCommand s c =
    do {
      (s, n) \<leftarrow> getLongFromObjectOrReply s c (Some (RawStr (argument s c 1))) (Some (str ''invalid DB index''));
      Some (case n of
        None \<Rightarrow> s
      | Some n \<Rightarrow>
          if cluster_enabled s \<and> n \<noteq> 0 then addReplyError s c (str ''SELECT is not allowed in cluster mode'')
          else
            (let (s, selected) = selectDb s c (ucast n)
             in if \<not> selected then addReplyError s c (str ''invalid DB index'') else addReply s c shared_ok))
    }"

definition dbsizeCommand :: "byte \<Rightarrow> 'x server \<Rightarrow> nat \<Rightarrow> 'x server" where
  "dbsizeCommand fill s c = addReplyInt fill s c (of_nat (mapSize (db_dict (sdbs s (c_db (cl s c))))))"

fun type_name :: "objtype \<Rightarrow> bytes" where
  "type_name StringType = str ''string''"
| "type_name ListType = str ''list''"
| "type_name SetType = str ''set''"
| "type_name ZsetType = str ''zset''"
| "type_name HashType = str ''hash''"

definition typeCommand :: "'x server \<Rightarrow> nat \<Rightarrow> 'x server option" where
  "typeCommand s c =
    do {
      (s, obj) \<leftarrow> lookupKeyRead s (c_db (cl s c)) (argument s c 1);
      Some (addReplyStatus s c (case obj of None \<Rightarrow> str ''none'' | Some obj \<Rightarrow> type_name (obj_type obj)))
    }"

text \<open>\<open>bytes_compare\<close> is \<open>sdscmp\<close> on the contents of two strings.\<close>

definition renameGenericCommand :: "'x server \<Rightarrow> nat \<Rightarrow> bool \<Rightarrow> 'x server option" where
  "renameGenericCommand s c nx =
    (let src = argument s c 1; dst = argument s c 2; db = c_db (cl s c)
     in if bytes_compare src dst = 0 then Some (addReply s c shared_sameobjecterr)
        else
          do {
            (s, obj) \<leftarrow> lookupKeyWriteOrReply s c src shared_nokeyerr;
            case obj of
              None \<Rightarrow> Some s
            | Some obj \<Rightarrow>
                do {
                  expire \<leftarrow> getExpire s db src;
                  (s, old) \<leftarrow> lookupKeyWrite s db dst;
                  if old \<noteq> None \<and> nx then Some (addReply s c shared_czero)
                  else
                    do {
                      let s = (if old \<noteq> None then fst (dbDelete s db dst) else s);
                      s \<leftarrow> dbAdd s db dst obj;
                      s \<leftarrow> (if expire \<noteq> - 1 then setExpire s db dst expire else Some s);
                      let s = fst (dbDelete s db src);
                      let s = signalModifiedKey s db src;
                      let s = signalModifiedKey s db dst;
                      let s = s\<lparr>dirty := dirty s + 1\<rparr>;
                      Some (addReply s c (if nx then shared_cone else shared_ok))
                    }
                }
          })"

definition renameCommand :: "'x server \<Rightarrow> nat \<Rightarrow> 'x server option" where
  "renameCommand s c = renameGenericCommand s c False"

definition renamenxCommand :: "'x server \<Rightarrow> nat \<Rightarrow> 'x server option" where
  "renamenxCommand s c = renameGenericCommand s c True"

text \<open>\<open>INT_MIN\<close> and \<open>INT_MAX\<close> bound the database number; the test selects the target for a moment.\<close>

definition moveCommand :: "'x server \<Rightarrow> nat \<Rightarrow> 'x server option" where
  "moveCommand s c =
    (if cluster_enabled s then Some (addReplyError s c (str ''MOVE is not allowed in cluster mode''))
     else
       do {
         let src = c_db (cl s c);
         dbid \<leftarrow> getLongLongFromObject (Some (RawStr (argument s c 2) :: 'x robj));
         let (s, selected) =
           (case dbid of
              None \<Rightarrow> (s, False)
            | Some dbid \<Rightarrow>
                if sint dbid < - (2 ^ 31) \<or> sint dbid > 2 ^ 31 - 1 then (s, False) else selectDb s c (ucast dbid));
         if \<not> selected then Some (addReply s c shared_outofrangeerr)
         else
           do {
             let dst = c_db (cl s c);
             let s = fst (selectDb s c (of_nat src));
             if src = dst then Some (addReply s c shared_sameobjecterr)
             else
               do {
                 (s, obj) \<leftarrow> lookupKeyWrite s (c_db (cl s c)) (argument s c 1);
                 case obj of
                   None \<Rightarrow> Some (addReply s c shared_czero)
                 | Some obj \<Rightarrow>
                     do {
                       (s, old) \<leftarrow> lookupKeyWrite s dst (argument s c 1);
                       if old \<noteq> None then Some (addReply s c shared_czero)
                       else
                         do {
                           s \<leftarrow> dbAdd s dst (argument s c 1) obj;
                           let s = fst (dbDelete s src (argument s c 1));
                           let s = s\<lparr>dirty := dirty s + 1\<rparr>;
                           Some (addReply s c shared_cone)
                         }
                     }
               }
           }
       })"

section \<open>Expires\<close>

datatype time_unit = UNIT_SECONDS | UNIT_MILLISECONDS

text \<open>The arithmetic on times is that of 64-bit words, as the compiler generates it.\<close>

definition expireGenericCommand :: "'x server \<Rightarrow> nat \<Rightarrow> u64 \<Rightarrow> time_unit \<Rightarrow> 'x server option" where
  "expireGenericCommand s c basetime unit =
    (let key = argument s c 1; param = argument s c 2; db = c_db (cl s c)
     in do {
       (s, when) \<leftarrow> getLongLongFromObjectOrReply s c (Some (RawStr param)) None;
       case when of
         None \<Rightarrow> Some s
       | Some when \<Rightarrow>
           do {
             let when = (if unit = UNIT_SECONDS then when * 1000 else when);
             let when = when + basetime;
             (s, obj) \<leftarrow> lookupKeyRead s db key;
             if obj = None then Some (addReply s c shared_czero)
             else if when \<le>s mstime s \<and> \<not> loading s \<and> \<not> masterhost s then
               do {
                 let (s, deleted) = dbDelete s db key;
                 if \<not> deleted then None
                 else
                   (let s = s\<lparr>dirty := dirty s + 1\<rparr>;
                        s = upd_client s c (\<lambda>cl. cl\<lparr>c_argv := [str ''DEL'', key]\<rparr>);
                        s = signalModifiedKey s db key
                    in Some (addReply s c shared_cone))
               }
             else
               do {
                 s \<leftarrow> setExpire s db key when;
                 let s = addReply s c shared_cone;
                 let s = signalModifiedKey s db key;
                 Some (s\<lparr>dirty := dirty s + 1\<rparr>)
               }
           }
     })"

definition expireCommand :: "'x server \<Rightarrow> nat \<Rightarrow> 'x server option" where
  "expireCommand s c = expireGenericCommand s c (mstime s) UNIT_SECONDS"

definition expireatCommand :: "'x server \<Rightarrow> nat \<Rightarrow> 'x server option" where
  "expireatCommand s c = expireGenericCommand s c 0 UNIT_SECONDS"

definition pexpireCommand :: "'x server \<Rightarrow> nat \<Rightarrow> 'x server option" where
  "pexpireCommand s c = expireGenericCommand s c (mstime s) UNIT_MILLISECONDS"

definition pexpireatCommand :: "'x server \<Rightarrow> nat \<Rightarrow> 'x server option" where
  "pexpireatCommand s c = expireGenericCommand s c 0 UNIT_MILLISECONDS"

definition ttlGenericCommand :: "byte \<Rightarrow> 'x server \<Rightarrow> nat \<Rightarrow> bool \<Rightarrow> 'x server option" where
  "ttlGenericCommand fill s c output_ms =
    do {
      (s, obj) \<leftarrow> lookupKeyRead s (c_db (cl s c)) (argument s c 1);
      if obj = None then Some (addReplyInt fill s c (- 2))
      else
        do {
          expire \<leftarrow> getExpire s (c_db (cl s c)) (argument s c 1);
          let ttl = (if expire \<noteq> - 1
                     then let ttl = expire - mstime s in if ttl <s 0 then 0 else ttl
                     else - 1);
          Some (if ttl = - 1 then addReplyInt fill s c (- 1)
                else addReplyInt fill s c (if output_ms then ttl else word_of_int (sint (ttl + 500) sdiv 1000)))
        }
    }"

definition ttlCommand :: "byte \<Rightarrow> 'x server \<Rightarrow> nat \<Rightarrow> 'x server option" where
  "ttlCommand fill s c = ttlGenericCommand fill s c False"

definition pttlCommand :: "byte \<Rightarrow> 'x server \<Rightarrow> nat \<Rightarrow> 'x server option" where
  "pttlCommand fill s c = ttlGenericCommand fill s c True"

definition persistCommand :: "'x server \<Rightarrow> nat \<Rightarrow> 'x server option" where
  "persistCommand s c =
    (if db_dict (sdbs s (c_db (cl s c))) (argument s c 1) = None then Some (addReply s c shared_czero)
     else
       do {
         (s, removed) \<leftarrow> removeExpire s (c_db (cl s c)) (argument s c 1);
         Some (if removed then (let s = addReply s c shared_cone in s\<lparr>dirty := dirty s + 1\<rparr>)
               else addReply s c shared_czero)
       })"

section \<open>Start\<close>

text \<open>The server when it starts, and a client when it connects.\<close>

definition initServer :: "nat \<Rightarrow> u64 \<Rightarrow> 'x server" where
  "initServer n now =
    \<lparr>sdbs = \<lambda>_. \<lparr>db_dict = Map.empty, db_expires = Map.empty, db_watched = Map.empty\<rparr>, dbnum = n, sclients = [],
     cl = \<lambda>_. \<lparr>c_db = 0, c_argv = [], c_multi = False, c_dirty_cas = False, c_dirty_exec = False, c_close = False,
       c_master = False, c_pubsub = False, c_authenticated = False, c_mstate = [], c_watched_keys = [], c_reply = []\<rparr>,
     dirty = 0, saveparamslen = 3, mstime = now, loading = False, masterhost = False, cluster_enabled = False, aof_enabled = False,
     propagated = []\<rparr>"

definition createClient :: "'x server \<Rightarrow> nat \<Rightarrow> 'x server" where
  "createClient s c =
    upd_client (s\<lparr>sclients := sclients s @ [c]\<rparr>) c
      (\<lambda>_. \<lparr>c_db = 0, c_argv = [], c_multi = False, c_dirty_cas = False, c_dirty_exec = False, c_close = False,
        c_master = False, c_pubsub = False, c_authenticated = False, c_mstate = [], c_watched_keys = [], c_reply = []\<rparr>)"

end
