(* ===== verification/Db_Inv.thy ===== *)
theory Db_Inv
  imports Db
begin

text \<open>
  The invariant of the key space and of the watch lists, and the relation every command keeps:
  a value that changes while it is watched marks its watchers.  Each operation of \<open>db.c\<close> gets
  one lemma; the lemmas compose along a command.
\<close>

section \<open>The invariant\<close>

definition watchers :: "'x server \<Rightarrow> nat \<Rightarrow> bytes \<Rightarrow> nat list" where
  "watchers s d k = (case db_watched (sdbs s d) k of None \<Rightarrow> [] | Some cs \<Rightarrow> cs)"

text \<open>Both sides of the watch relation agree, without duplicates and without empty lists.\<close>

definition watch_inv :: "'x server \<Rightarrow> bool" where
  "watch_inv s \<longleftrightarrow>
    (\<forall>c d k. (d, k) \<in> set (c_watched_keys (cl s c)) \<longleftrightarrow> c \<in> set (watchers s d k))
    \<and> (\<forall>c. distinct (c_watched_keys (cl s c)))
    \<and> (\<forall>d k. distinct (watchers s d k) \<and> db_watched (sdbs s d) k \<noteq> Some [])
    \<and> (\<forall>c. c_watched_keys (cl s c) \<noteq> [] \<longrightarrow> c \<in> set (sclients s))
    \<and> (\<forall>d. finite (dom (db_watched (sdbs s d))))"

definition keys_inv :: "'x server \<Rightarrow> bool" where
  "keys_inv s \<longleftrightarrow>
    (\<forall>d. dom (db_expires (sdbs s d)) \<subseteq> dom (db_dict (sdbs s d)) \<and> finite (dom (db_dict (sdbs s d))))
    \<and> (\<forall>d k v. db_dict (sdbs s d) k = Some v \<longrightarrow> obj_ok v)"

definition clients_inv :: "'x server \<Rightarrow> bool" where
  "clients_inv s \<longleftrightarrow>
    dbnum s < 2 ^ 31 \<and> (\<forall>c. c_db (cl s c) < dbnum s \<and> list_all arg_ok (c_argv (cl s c)))"

definition srv_inv :: "'x server \<Rightarrow> bool" where
  "srv_inv s \<longleftrightarrow> keys_inv s \<and> watch_inv s \<and> clients_inv s"

section \<open>The relation\<close>

text \<open>What no command on keys touches, and that marks stay.\<close>

definition frame_rel :: "'x server \<Rightarrow> 'x server \<Rightarrow> bool" where
  "frame_rel s t \<longleftrightarrow>
    (\<forall>c. c_watched_keys (cl t c) = c_watched_keys (cl s c) \<and> c_multi (cl t c) = c_multi (cl s c)
       \<and> c_dirty_exec (cl t c) = c_dirty_exec (cl s c) \<and> c_mstate (cl t c) = c_mstate (cl s c)
       \<and> (c_dirty_cas (cl s c) \<longrightarrow> c_dirty_cas (cl t c)))
    \<and> (\<forall>d. db_watched (sdbs t d) = db_watched (sdbs s d))
    \<and> sclients t = sclients s \<and> dbnum t = dbnum s \<and> mstime t = mstime s
    \<and> loading t = loading s \<and> masterhost t = masterhost s \<and> cluster_enabled t = cluster_enabled s"

text \<open>
  A key without an expire keeps its value and gets no expire, or all its watchers are marked;
  the keys in \<open>K\<close> are excepted.
\<close>

definition key_rel :: "'x server \<Rightarrow> 'x server \<Rightarrow> nat \<Rightarrow> bytes \<Rightarrow> bool" where
  "key_rel s t d k \<longleftrightarrow>
    (db_expires (sdbs s d) k = None \<longrightarrow>
       db_dict (sdbs t d) k = db_dict (sdbs s d) k \<and> db_expires (sdbs t d) k = None
       \<or> (\<forall>c\<in>set (watchers s d k). c_dirty_cas (cl t c)))"

definition reaches :: "(nat \<times> bytes) set \<Rightarrow> 'x server \<Rightarrow> 'x server \<Rightarrow> bool" where
  "reaches K s t \<longleftrightarrow> srv_inv t \<and> frame_rel s t \<and> (\<forall>d k. (d, k) \<notin> K \<longrightarrow> key_rel s t d k)"

lemma reaches_inv: "reaches K s t \<Longrightarrow> srv_inv t"
  by (simp add: reaches_def)

lemma reaches_refl: "srv_inv s \<Longrightarrow> reaches K s s"
  by (simp add: reaches_def frame_rel_def key_rel_def)

lemma watchers_frame: "frame_rel s t \<Longrightarrow> watchers t d k = watchers s d k"
  by (simp add: frame_rel_def watchers_def)

lemma frame_trans: "frame_rel s t \<Longrightarrow> frame_rel t u \<Longrightarrow> frame_rel s u"
  by (simp add: frame_rel_def)

lemma key_rel_trans: "frame_rel s t \<Longrightarrow> frame_rel t u \<Longrightarrow> key_rel s t d k \<Longrightarrow> key_rel t u d k \<Longrightarrow> key_rel s u d k"
  unfolding key_rel_def using watchers_frame [of s t d k] by (auto simp: frame_rel_def)

lemma reaches_trans: "reaches K s t \<Longrightarrow> reaches L t u \<Longrightarrow> K \<subseteq> M \<Longrightarrow> L \<subseteq> M \<Longrightarrow> reaches M s u"
  unfolding reaches_def by (blast intro: frame_trans key_rel_trans)

lemma reaches_mono: "reaches K s t \<Longrightarrow> K \<subseteq> L \<Longrightarrow> reaches L s t"
  by (auto simp: reaches_def)

section \<open>Small steps\<close>

lemma srv_inv_facts:
  assumes "srv_inv s"
  shows "db_dict (sdbs s d) k = None \<Longrightarrow> db_expires (sdbs s d) k = None"
    "db_dict (sdbs s d) k = Some v \<Longrightarrow> obj_ok v"
    "finite (dom (db_expires (sdbs s d)))" "finite (dom (db_dict (sdbs s d)))" "finite (dom (db_watched (sdbs s d)))"
    "c_db (cl s c) < dbnum s" "dbnum s < 2 ^ 31" "list_all arg_ok (c_argv (cl s c))"
proof -
  have d: "dom (db_expires (sdbs s d)) \<subseteq> dom (db_dict (sdbs s d))" "finite (dom (db_dict (sdbs s d)))"
    using assms by (auto simp: srv_inv_def keys_inv_def)
  then show "db_dict (sdbs s d) k = None \<Longrightarrow> db_expires (sdbs s d) k = None" "finite (dom (db_expires (sdbs s d)))"
    by (auto intro: finite_subset)
  show "finite (dom (db_dict (sdbs s d)))" by (rule d)
  show "db_dict (sdbs s d) k = Some v \<Longrightarrow> obj_ok v" "finite (dom (db_watched (sdbs s d)))"
    "c_db (cl s c) < dbnum s" "dbnum s < 2 ^ 31" "list_all arg_ok (c_argv (cl s c))"
    using assms by (simp_all add: srv_inv_def keys_inv_def watch_inv_def clients_inv_def)
qed

lemma expire_has_key: "srv_inv s \<Longrightarrow> db_expires (sdbs s d) k \<noteq> None \<Longrightarrow> \<exists>v. db_dict (sdbs s d) k = Some v"
  using srv_inv_facts(1) [of s d k] by (cases "db_dict (sdbs s d) k") auto

lemma srv_inv_simps [simp]:
  "srv_inv (s\<lparr>dirty := n\<rparr>) = srv_inv s" "srv_inv (s\<lparr>propagated := p\<rparr>) = srv_inv s"
  by (simp_all add: srv_inv_def keys_inv_def watch_inv_def clients_inv_def watchers_def)

lemma reaches_same_db:
  assumes "reaches K s t" "srv_inv u" "frame_rel t u" "sdbs u = sdbs t"
  shows "reaches K s u"
proof -
  have "key_rel t u d k" for d k using assms(4) by (simp add: key_rel_def)
  then have "reaches K t u" using assms(2,3) by (simp add: reaches_def)
  then show ?thesis using assms(1) reaches_trans by blast
qed

lemma inv_client:
  assumes "srv_inv s"
    "\<And>x. c_watched_keys (f x) = c_watched_keys x"
    "c_db (f (cl s c)) < dbnum s" "list_all arg_ok (c_argv (f (cl s c)))"
  shows "srv_inv (upd_client s c f)"
  using assms
  by (auto simp: srv_inv_def keys_inv_def watch_inv_def clients_inv_def upd_client_def watchers_def)

lemma reaches_client:
  assumes "reaches K s t"
    "\<And>x. c_watched_keys (f x) = c_watched_keys x \<and> c_multi (f x) = c_multi x \<and> c_dirty_exec (f x) = c_dirty_exec x
       \<and> c_mstate (f x) = c_mstate x \<and> (c_dirty_cas x \<longrightarrow> c_dirty_cas (f x))"
    "c_db (f (cl t c)) < dbnum t" "list_all arg_ok (c_argv (f (cl t c)))"
  shows "reaches K s (upd_client t c f)"
proof -
  have "srv_inv (upd_client t c f)" using assms by (intro inv_client) (auto dest: reaches_inv)
  then show ?thesis
    using assms(1,2) by (intro reaches_same_db [OF assms(1)]) (simp_all add: frame_rel_def upd_client_def)
qed

lemma reaches_addReply [simp]: "reaches K s t \<Longrightarrow> reaches K s (addReply t c r)"
  unfolding addReply_def
  by (rule reaches_client) (auto dest: reaches_inv simp: srv_inv_facts)

lemma reaches_addReplyError [simp]: "reaches K s t \<Longrightarrow> reaches K s (addReplyError t c e)"
  by (simp add: addReplyError_def)

lemma reaches_addReplyStatus [simp]: "reaches K s t \<Longrightarrow> reaches K s (addReplyStatus t c e)"
  by (simp add: addReplyStatus_def)

lemma reaches_addReplyInt [simp]: "reaches K s t \<Longrightarrow> reaches K s (addReplyInt fill t c v)"
  by (simp add: addReplyInt_def)

lemma reaches_dirty [simp]: "reaches K s t \<Longrightarrow> reaches K s (t\<lparr>dirty := n\<rparr>)"
  by (rule reaches_same_db)
    (simp_all add: reaches_inv frame_rel_def)

lemma reaches_propagateExpire [simp]: "reaches K s t \<Longrightarrow> reaches K s (propagateExpire t d k)"
  unfolding propagateExpire_def
  by (rule reaches_same_db)
    (simp_all add: reaches_inv frame_rel_def)

text \<open>What small steps leave alone.\<close>

lemma small_step_simps [simp]:
  "sdbs (addReply s c r) = sdbs s" "sdbs (upd_client s c f) = sdbs s" "sdbs (propagateExpire s d k) = sdbs s"
  "sdbs (addReplyError s c r) = sdbs s" "sdbs (addReplyInt fill s c v) = sdbs s" "sdbs (addReplyStatus s c r) = sdbs s"
  "cl (upd_db s d g) = cl s" "cl (propagateExpire s d k) = cl s"
  "c_db (cl (addReply s c r) c') = c_db (cl s c')" "c_argv (cl (addReply s c r) c') = c_argv (cl s c')"
  by (simp_all add: addReply_def upd_client_def propagateExpire_def addReplyError_def addReplyInt_def addReplyStatus_def upd_db_def)

lemma sdbs_upd_db [simp]: "sdbs (upd_db s d g) d' = (if d' = d then g (sdbs s d) else sdbs s d')"
  by (simp add: upd_db_def)

section \<open>Changing one database\<close>

text \<open>A change of values and expires in one database that respects the invariant, at the keys in \<open>K\<close>.\<close>

lemma reaches_db:
  assumes "reaches K s t"
    "\<And>x. db_watched (g x) = db_watched x"
    "dom (db_expires (g (sdbs t d))) \<subseteq> dom (db_dict (g (sdbs t d)))" "finite (dom (db_dict (g (sdbs t d))))"
    "\<And>k v. db_dict (g (sdbs t d)) k = Some v \<Longrightarrow> obj_ok v"
    "\<And>k. (d, k) \<notin> L \<Longrightarrow> db_expires (sdbs t d) k = None \<Longrightarrow>
       db_dict (g (sdbs t d)) k = db_dict (sdbs t d) k \<and> db_expires (g (sdbs t d)) k = None"
    "K \<subseteq> L"
  shows "reaches L s (upd_db t d g)"
proof -
  have inv: "srv_inv t" using assms(1) by (rule reaches_inv)
  have "srv_inv (upd_db t d g)"
    using inv assms(2-5)
    by (auto simp: srv_inv_def keys_inv_def watch_inv_def clients_inv_def watchers_def upd_db_def)
  moreover have "frame_rel t (upd_db t d g)" using assms(2) by (auto simp: frame_rel_def upd_db_def)
  moreover have "key_rel t (upd_db t d g) d' k" if "(d', k) \<notin> L" for d' k
    using assms(6) that by (auto simp: key_rel_def upd_db_def)
  ultimately have "reaches L t (upd_db t d g)" by (simp add: reaches_def)
  then show ?thesis using assms(1,7) reaches_trans by blast
qed

lemma reaches_set:
  assumes "reaches K s t" "obj_ok v"
  shows "reaches (insert (d, k) K) s (upd_db t d (\<lambda>x. x\<lparr>db_dict := (db_dict x)(k \<mapsto> v)\<rparr>))"
  using assms srv_inv_facts(1-4) [OF reaches_inv [OF assms(1)], of d] expire_has_key [OF reaches_inv [OF assms(1)], of d]
  by (intro reaches_db [OF assms(1)]) (auto split: if_splits)

lemma dbAdd_ok:
  "reaches K s t \<Longrightarrow> obj_ok v \<Longrightarrow> db_dict (sdbs t d) k = None \<Longrightarrow>
     \<exists>u. dbAdd t d k v = Some u \<and> reaches (insert (d, k) K) s u
       \<and> u = upd_db t d (\<lambda>x. x\<lparr>db_dict := (db_dict x)(k \<mapsto> v)\<rparr>)"
  using reaches_set by (fastforce simp: dbAdd_def)

lemma dbOverwrite_ok:
  "reaches K s t \<Longrightarrow> obj_ok v \<Longrightarrow> db_dict (sdbs t d) k \<noteq> None \<Longrightarrow>
     \<exists>u. dbOverwrite t d k v = Some u \<and> reaches (insert (d, k) K) s u
       \<and> u = upd_db t d (\<lambda>x. x\<lparr>db_dict := (db_dict x)(k \<mapsto> v)\<rparr>)"
  using reaches_set by (fastforce simp: dbOverwrite_def)

lemma setExpire_ok:
  assumes "reaches K s t" "db_dict (sdbs t d) k \<noteq> None"
  shows "\<exists>u. setExpire t d k w = Some u \<and> reaches (insert (d, k) K) s u
    \<and> u = upd_db t d (\<lambda>x. x\<lparr>db_expires := (db_expires x)(k \<mapsto> w)\<rparr>)"
proof -
  have "reaches (insert (d, k) K) s (upd_db t d (\<lambda>x. x\<lparr>db_expires := (db_expires x)(k \<mapsto> w)\<rparr>))"
    using assms srv_inv_facts(1-4) [OF reaches_inv [OF assms(1)], of d] expire_has_key [OF reaches_inv [OF assms(1)], of d]
    by (intro reaches_db [OF assms(1)]) (auto split: if_splits)
  then show ?thesis using assms(2) by (auto simp: setExpire_def)
qed

lemma removeExpire_ok:
  assumes "reaches K s t" "db_dict (sdbs t d) k \<noteq> None"
  shows "\<exists>u. removeExpire t d k = Some (u, db_expires (sdbs t d) k \<noteq> None) \<and> reaches K s u
    \<and> u = upd_db t d (\<lambda>x. x\<lparr>db_expires := (db_expires x)(k := None)\<rparr>)"
proof -
  have "reaches K s (upd_db t d (\<lambda>x. x\<lparr>db_expires := (db_expires x)(k := None)\<rparr>))"
    using assms srv_inv_facts(1-4) [OF reaches_inv [OF assms(1)], of d] expire_has_key [OF reaches_inv [OF assms(1)], of d]
    by (intro reaches_db [OF assms(1)]) (auto split: if_splits)
  then show ?thesis using assms(2) by (auto simp: removeExpire_def)
qed

text \<open>Deleting a key with its expire, however the expires are looked at.\<close>

lemma same_expires: "db_expires x = m \<Longrightarrow> x\<lparr>db_expires := m, db_dict := n\<rparr> = x\<lparr>db_dict := n\<rparr>"
  by (cases x) simp

lemma dbDelete_eq:
  assumes "srv_inv s"
  shows "dbDelete s d k =
    (upd_db s d (\<lambda>x. x\<lparr>db_expires := (db_expires x)(k := None), db_dict := (db_dict x)(k := None)\<rparr>), db_dict (sdbs s d) k \<noteq> None)"
proof (cases "mapSize (db_expires (sdbs s d)) = 0")
  case True
  then have "db_expires (sdbs s d) = Map.empty"
    using srv_inv_facts(3) [OF assms, of d] by (simp add: mapSize_def)
  then show ?thesis using True by (simp add: dbDelete_def upd_db_def same_expires)
next
  case False
  then show ?thesis by (simp add: dbDelete_def upd_db_def)
qed

lemma reaches_dbDelete:
  assumes "reaches K s t"
  shows "reaches (insert (d, k) K) s (fst (dbDelete t d k))"
  unfolding dbDelete_eq [OF reaches_inv [OF assms]] fst_conv
  using srv_inv_facts(1-4) [OF reaches_inv [OF assms], of d] expire_has_key [OF reaches_inv [OF assms], of d]
  by (intro reaches_db [OF assms]) (auto split: if_splits)

text \<open>A key that has an expire may be deleted without telling anybody.\<close>

lemma reaches_dbDelete_expired:
  assumes "reaches K s t" "db_expires (sdbs t d) k \<noteq> None"
  shows "reaches K s (fst (dbDelete t d k))"
  unfolding dbDelete_eq [OF reaches_inv [OF assms(1)]] fst_conv
  using assms(2) srv_inv_facts(1-4) [OF reaches_inv [OF assms(1)], of d] expire_has_key [OF reaches_inv [OF assms(1)], of d]
  by (intro reaches_db [OF assms(1)]) (auto split: if_splits)

lemma getExpire_eq:
  assumes "srv_inv s"
  shows "getExpire s d k = Some (case db_expires (sdbs s d) k of None \<Rightarrow> - 1 | Some w \<Rightarrow> w)"
proof (cases "mapSize (db_expires (sdbs s d)) = 0")
  case True
  then have "db_expires (sdbs s d) = Map.empty"
    using srv_inv_facts(3) [OF assms, of d] by (simp add: mapSize_def)
  then show ?thesis by (simp add: getExpire_def mapSize_def)
next
  case False
  then show ?thesis using srv_inv_facts(1) [OF assms, of d k] by (auto simp: getExpire_def split: option.splits)
qed

lemma expireIfNeeded_ok:
  assumes "reaches K s t"
  shows "\<exists>u e. expireIfNeeded t d k = Some (u, e) \<and> reaches K s u \<and> cl u = cl t \<and> dirty u = dirty t
    \<and> (db_expires (sdbs t d) k = None \<longrightarrow> u = t \<and> \<not> e)
    \<and> (db_dict (sdbs u d) k = None \<or> db_dict (sdbs u d) k = db_dict (sdbs t d) k)"
proof -
  have inv: "srv_inv t" "srv_inv (propagateExpire t d k)" using assms reaches_propagateExpire reaches_inv by blast+
  show ?thesis
  proof (cases "db_expires (sdbs t d) k")
    case None
    then have "expireIfNeeded t d k = Some (t, False)" using inv(1) by (simp add: expireIfNeeded_def getExpire_eq word_sless_alt)
    then show ?thesis using assms by (intro exI [of _ t] exI [of _ False]) simp
  next
    case (Some w)
    have "reaches K s (fst (dbDelete (propagateExpire t d k) d k))"
      using Some assms by (intro reaches_dbDelete_expired) simp_all
    then show ?thesis using Some assms inv
      by (auto simp: expireIfNeeded_def getExpire_eq dbDelete_eq propagateExpire_def upd_db_def)
  qed
qed

text \<open>Looking a key up.\<close>

lemma lookupKeyWrite_ok:
  assumes "reaches K s t"
  shows "\<exists>u v. lookupKeyWrite t d k = Some (u, v) \<and> reaches K s u \<and> v = db_dict (sdbs u d) k \<and> cl u = cl t
    \<and> (db_expires (sdbs t d) k = None \<longrightarrow> u = t)"
  using expireIfNeeded_ok [OF assms, of d k] by (auto simp: lookupKeyWrite_def lookupKey_def)

lemma lookupKeyRead_eq: "lookupKeyRead = lookupKeyWrite"
  by (intro ext) (simp add: lookupKeyRead_def lookupKeyWrite_def)

section \<open>Marking watchers\<close>

definition mark :: "'x server \<Rightarrow> nat set \<Rightarrow> 'x server" where
  "mark s C = s\<lparr>cl := \<lambda>c. if c \<in> C then (cl s c)\<lparr>c_dirty_cas := True\<rparr> else cl s c\<rparr>"

lemma mark_simps [simp]:
  "sdbs (mark s C) = sdbs s" "sclients (mark s C) = sclients s" "dirty (mark s C) = dirty s" "propagated (mark s C) = propagated s"
  "dbnum (mark s C) = dbnum s" "mstime (mark s C) = mstime s" "loading (mark s C) = loading s" "masterhost (mark s C) = masterhost s"
  "c_db (cl (mark s C) c) = c_db (cl s c)" "c_argv (cl (mark s C) c) = c_argv (cl s c)"
  "c_reply (cl (mark s C) c) = c_reply (cl s c)" "c_watched_keys (cl (mark s C) c) = c_watched_keys (cl s c)"
  "c_dirty_cas (cl (mark s C) c) = (c_dirty_cas (cl s c) \<or> c \<in> C)"
  "mark (mark s A) B = mark s (A \<union> B)" "mark s {} = s"
  by (auto simp: mark_def fun_eq_iff)

lemma mark_one: "upd_client s c (\<lambda>cl. cl\<lparr>c_dirty_cas := True\<rparr>) = mark s {c}"
  by (simp add: mark_def upd_client_def fun_eq_iff)

lemma mark_loop: "foldl (\<lambda>s c. upd_client s c (\<lambda>cl. cl\<lparr>c_dirty_cas := True\<rparr>)) s cs = mark s (set cs)"
  unfolding mark_one by (induction cs arbitrary: s) simp_all

lemma touchWatchedKey_eq:
  assumes "srv_inv s"
  shows "touchWatchedKey s d k = mark s (set (watchers s d k))"
proof (cases "mapSize (db_watched (sdbs s d)) = 0")
  case True
  then have "db_watched (sdbs s d) = Map.empty"
    using srv_inv_facts(5) [OF assms, of d] by (simp add: mapSize_def)
  then show ?thesis by (simp add: touchWatchedKey_def watchers_def mapSize_def)
qed (simp add: touchWatchedKey_def watchers_def mark_loop split: option.split)

lemma touch_is_mark: "\<exists>C. touchWatchedKey s d k = mark s C"
proof (cases "db_watched (sdbs s d) k")
  case None
  then have "touchWatchedKey s d k = mark s {}" by (simp add: touchWatchedKey_def)
  then show ?thesis by blast
next
  case (Some cs)
  then have "touchWatchedKey s d k = mark s (if mapSize (db_watched (sdbs s d)) = 0 then {} else set cs)"
    by (simp add: touchWatchedKey_def mark_loop)
  then show ?thesis by blast
qed

text \<open>The clients a flush of \<open>dbid\<close> marks.\<close>

definition flush_marks :: "'x server \<Rightarrow> nat option \<Rightarrow> nat set" where
  "flush_marks s dbid =
    {c \<in> set (sclients s). \<exists>wk\<in>set (c_watched_keys (cl s c)).
       (dbid = None \<or> dbid = Some (fst wk)) \<and> db_dict (sdbs s (fst wk)) (snd wk) \<noteq> None}"

lemma mark_if_loop:
  "foldl (\<lambda>s wk. if P (sdbs s) wk then mark s {c} else s) s wks = mark s {c'. c' = c \<and> (\<exists>wk\<in>set wks. P (sdbs s) wk)}"
proof (induction wks arbitrary: s)
  case (Cons wk wks)
  then show ?case by (auto intro: arg_cong [where f = "mark s"])
qed simp

lemma flush_loop:
  "foldl (\<lambda>s c. mark s {c'. c' = c \<and> (\<exists>wk\<in>set (c_watched_keys (cl s c)). P (sdbs s) wk)}) s cs
    = mark s {c \<in> set cs. \<exists>wk\<in>set (c_watched_keys (cl s c)). P (sdbs s) wk}"
proof (induction cs arbitrary: s)
  case (Cons c cs)
  then show ?case by (auto intro: arg_cong [where f = "mark s"])
qed simp

lemma signalFlushedDb_eq: "signalFlushedDb s dbid = mark s (flush_marks s dbid)"
  unfolding signalFlushedDb_def touchWatchedKeysOnFlush_def mark_one
    mark_if_loop [where P = "\<lambda>dbs wk. (dbid = None \<or> dbid = Some (fst wk)) \<and> db_dict (dbs (fst wk)) (snd wk) \<noteq> None"]
    flush_loop [where P = "\<lambda>dbs wk. (dbid = None \<or> dbid = Some (fst wk)) \<and> db_dict (dbs (fst wk)) (snd wk) \<noteq> None"]
  by (simp add: flush_marks_def)

lemma frame_mark: "frame_rel t (mark t C)"
  by (simp add: frame_rel_def mark_def)

lemma srv_inv_mark [simp]: "srv_inv (mark s C) = srv_inv s"
  by (simp add: mark_def srv_inv_def keys_inv_def watch_inv_def clients_inv_def watchers_def all_conj_distrib cong: if_cong)

lemma reaches_mark:
  assumes "reaches K s t" "\<And>d k. (d, k) \<in> K \<Longrightarrow> (d, k) \<notin> L \<Longrightarrow> set (watchers t d k) \<subseteq> C"
  shows "reaches L s (mark t C)"
proof -
  have f: "frame_rel s t" using assms(1) by (simp add: reaches_def)
  have "key_rel s (mark t C) d k" if "(d, k) \<notin> L" for d k
  proof (cases "(d, k) \<in> K")
    case True
    then show ?thesis using assms(2) [OF True that] watchers_frame [OF f, of d k] by (auto simp: key_rel_def)
  next
    case False
    then have "key_rel s t d k" using assms(1) by (simp add: reaches_def)
    then show ?thesis by (rule key_rel_trans [OF f frame_mark]) (simp add: key_rel_def)
  qed
  then show ?thesis using assms(1) frame_trans [OF f frame_mark] by (auto simp: reaches_def)
qed

lemma reaches_signal: "reaches (insert (d, k) K) s t \<Longrightarrow> reaches K s (signalModifiedKey t d k)"
  by (simp add: signalModifiedKey_def touchWatchedKey_eq [OF reaches_inv]) (rule reaches_mark, auto)

lemma reaches_signal_same: "reaches K s t \<Longrightarrow> reaches K s (signalModifiedKey t d k)"
  by (rule reaches_signal) (auto intro: reaches_mono)

lemma signal_simps [simp]:
  "sdbs (signalModifiedKey t d k) = sdbs t" "c_db (cl (signalModifiedKey t d k) c) = c_db (cl t c)"
  "c_argv (cl (signalModifiedKey t d k) c) = c_argv (cl t c)" "c_reply (cl (signalModifiedKey t d k) c) = c_reply (cl t c)"
  "dirty (signalModifiedKey t d k) = dirty t"
  using touch_is_mark [of t d k] by (auto simp: signalModifiedKey_def)

text \<open>The composition every \<open>SET\<close> goes through.\<close>

lemma setKey_ok:
  assumes "reaches K s t" "obj_ok v"
  shows "\<exists>u. setKey t d k v = Some u \<and> reaches K s u \<and> db_dict (sdbs u d) k = Some v
    \<and> (\<forall>c. c_db (cl u c) = c_db (cl t c) \<and> c_argv (cl u c) = c_argv (cl t c) \<and> c_reply (cl u c) = c_reply (cl t c))
    \<and> (\<forall>c\<in>set (watchers u d k). c_dirty_cas (cl u c))"
proof -
  obtain t1 old where t1: "lookupKeyWrite t d k = Some (t1, old)" "reaches K s t1" "old = db_dict (sdbs t1 d) k" "cl t1 = cl t"
    using lookupKeyWrite_ok [OF assms(1), of d k] by blast
  obtain t2 where t2: "(if old = None then dbAdd t1 d k v else dbOverwrite t1 d k v) = Some t2" "reaches (insert (d, k) K) s t2"
    "t2 = upd_db t1 d (\<lambda>x. x\<lparr>db_dict := (db_dict x)(k \<mapsto> v)\<rparr>)"
    using dbAdd_ok [OF t1(2) assms(2)] dbOverwrite_ok [OF t1(2) assms(2)] t1(3) by (cases "old = None") auto
  then obtain t3 b where t3: "removeExpire t2 d k = Some (t3, b)" "reaches (insert (d, k) K) s t3"
    "t3 = upd_db t2 d (\<lambda>x. x\<lparr>db_expires := (db_expires x)(k := None)\<rparr>)"
    using removeExpire_ok [OF t2(2), of d k] by auto
  have "setKey t d k v = Some (signalModifiedKey t3 d k)"
    using t1(1) t2(1) t3(1) by (simp add: setKey_def)
  moreover have "db_dict (sdbs t3 d) k = Some v" "cl t3 = cl t" using t2(3) t3(3) t1(4) by simp_all
  moreover have "\<forall>c\<in>set (watchers (signalModifiedKey t3 d k) d k). c_dirty_cas (cl (signalModifiedKey t3 d k) c)"
    by (simp add: signalModifiedKey_def touchWatchedKey_eq [OF reaches_inv [OF t3(2)]] watchers_def)
  ultimately show ?thesis using reaches_signal [OF t3(2)] by auto
qed

lemma reaches_marked:
  assumes "reaches (insert (d, k) K) s u" "\<forall>c\<in>set (watchers u d k). c_dirty_cas (cl u c)"
  shows "reaches K s u"
proof -
  have "key_rel s u d k"
    using assms watchers_frame [of s u d k] by (simp add: key_rel_def reaches_def)
  moreover have "key_rel s u d' k'" if "(d', k') \<notin> K" "(d', k') \<noteq> (d, k)" for d' k'
    using assms(1) that by (simp add: reaches_def)
  ultimately show ?thesis using assms(1) unfolding reaches_def by blast
qed

lemma setExpire_marked:
  assumes "reaches K s t" "db_dict (sdbs t d) k \<noteq> None" "\<forall>c\<in>set (watchers t d k). c_dirty_cas (cl t c)"
  shows "\<exists>u. setExpire t d k w = Some u \<and> reaches K s u
    \<and> u = upd_db t d (\<lambda>x. x\<lparr>db_expires := (db_expires x)(k \<mapsto> w)\<rparr>)"
proof -
  obtain u where u: "setExpire t d k w = Some u" "reaches (insert (d, k) K) s u"
    "u = upd_db t d (\<lambda>x. x\<lparr>db_expires := (db_expires x)(k \<mapsto> w)\<rparr>)"
    using setExpire_ok [OF assms(1,2)] by blast
  have "\<forall>c\<in>set (watchers u d k). c_dirty_cas (cl u c)" using assms(3) u(3) by (simp add: watchers_def)
  from reaches_marked [OF u(2) this] show ?thesis using u by blast
qed

section \<open>The commands\<close>

lemma getLongLong_ok:
  assumes "reaches K s t" "getLongLongFromObject obj = Some r"
  shows "\<exists>u. getLongLongFromObjectOrReply t c obj m = Some (u, r) \<and> reaches K s u \<and> (r \<noteq> None \<longrightarrow> u = t)
    \<and> sdbs u = sdbs t \<and> mstime u = mstime t \<and> c_argv (cl u c) = c_argv (cl t c) \<and> c_db (cl u c) = c_db (cl t c)"
  using assms by (cases r) (auto simp: getLongLongFromObjectOrReply_def addReplyError_def addReply_def upd_client_def
    simp del: reaches_addReply intro: reaches_addReply [unfolded addReply_def upd_client_def])

lemma getLong_eq: "getLongFromObjectOrReply s c obj m = getLongLongFromObjectOrReply s c obj m"
  by (auto simp: getLongFromObjectOrReply_def long_in_range getLongLongFromObjectOrReply_def option.map_comp o_def
      split: option.split intro!: option.map_cong)

lemma key_of_arg: "reaches K s t \<Longrightarrow> n < length (c_argv (cl t c)) \<Longrightarrow> arg_ok (argument t c n)"
  using srv_inv_facts(8) [OF reaches_inv, of K s t c] by (simp add: list_all_length)

lemma watched_marked:
  assumes "srv_inv s" "c \<in> set (watchers s d k)" "dbid = None \<or> dbid = Some d" "db_dict (sdbs s d) k \<noteq> None"
  shows "c \<in> flush_marks s dbid"
proof -
  have "(d, k) \<in> set (c_watched_keys (cl s c))" using assms(1,2) by (simp add: srv_inv_def watch_inv_def)
  moreover from this have "c_watched_keys (cl s c) \<noteq> []" by auto
  then have "c \<in> set (sclients s)" using assms(1) by (simp add: srv_inv_def watch_inv_def)
  ultimately show ?thesis using assms(3,4) by (auto simp: flush_marks_def intro: bexI [of _ "(d, k)"])
qed

lemma flushdb_ok:
  assumes "reaches K s t"
  shows "reaches K s (flushdbCommand t c)"
proof -
  let ?d = "c_db (cl t c)" and ?f = "\<lambda>x. x\<lparr>db_dict := Map.empty, db_expires := Map.empty\<rparr>"
  let ?t = "t\<lparr>dirty := dirty t + int (mapSize (db_dict (sdbs t (c_db (cl t c)))))\<rparr>"
  have t: "reaches K s ?t" "reaches {} ?t ?t" using assms by (simp_all add: reaches_refl reaches_inv [OF assms])
  define u where "u = mark ?t (flush_marks ?t (Some ?d))"
  have u: "reaches {} ?t u" unfolding u_def by (rule reaches_mark [OF t(2)]) simp
  have "reaches {(d, k). d = ?d \<and> db_dict (sdbs u d) k \<noteq> None} ?t (upd_db u ?d ?f)"
    using srv_inv_facts(1) [OF reaches_inv [OF u], of ?d] by (intro reaches_db [OF u]) auto
  \<comment> \<open>the marks of the keys that are removed were set before\<close>
  moreover have "key_rel ?t (upd_db u ?d ?f) d k" if "d = ?d" "db_dict (sdbs u d) k \<noteq> None" for d k
  proof -
    have "\<forall>c\<in>set (watchers ?t d k). c \<in> flush_marks ?t (Some ?d)"
      using watched_marked [OF reaches_inv [OF t(2)], of _ d k "Some ?d"] that by (simp add: u_def)
    then show ?thesis by (simp add: key_rel_def u_def)
  qed
  ultimately have "reaches {} ?t (upd_db u ?d ?f)" unfolding reaches_def by blast
  then have "reaches K s (upd_db u ?d ?f)" using t(1) reaches_trans by blast
  moreover have "flushdbCommand t c = addReply (upd_db u ?d ?f) c shared_ok"
    by (simp add: flushdbCommand_def Let_def signalFlushedDb_eq u_def upd_db_def)
  ultimately show ?thesis by simp
qed

lemma flushall_ok:
  assumes "reaches K s t"
  shows "reaches K s (flushallCommand t c)"
proof -
  have t: "reaches {} t t" using reaches_refl [OF reaches_inv [OF assms]] .
  define u where "u = mark t (flush_marks t None)"
  have u: "reaches {} t u" unfolding u_def by (rule reaches_mark [OF t]) simp
  define v where "v = fst (emptyDb u)"
  have v: "sdbs v d = (if d < dbnum u then (sdbs u d)\<lparr>db_dict := Map.empty, db_expires := Map.empty\<rparr> else sdbs u d)" for d
    by (simp add: v_def emptyDb_def)
  have "srv_inv v" using reaches_inv [OF u]
    by (auto simp: v_def emptyDb_def srv_inv_def keys_inv_def watch_inv_def clients_inv_def watchers_def)
  moreover have fr: "frame_rel u v" by (auto simp: frame_rel_def v_def emptyDb_def)
  moreover have "key_rel t v d k" for d k
  proof (cases "db_dict (sdbs t d) k")
    case None
    then show ?thesis using srv_inv_facts(1) [OF reaches_inv [OF t], of d k] v [of d] by (simp add: key_rel_def u_def)
  next
    case (Some w)
    then have "\<forall>c\<in>set (watchers t d k). c \<in> flush_marks t None"
      using watched_marked [OF reaches_inv [OF t], of _ d k None] by simp
    then have "\<forall>c\<in>set (watchers t d k). c_dirty_cas (cl v c)" by (simp add: v_def emptyDb_def u_def)
    then show ?thesis by (simp add: key_rel_def)
  qed
  ultimately have "reaches {} t v" using u frame_trans [OF _ fr] by (auto simp: reaches_def)
  then have r: "reaches K s v" using assms reaches_trans by blast
  obtain n where "emptyDb u = (v, n)" by (cases "emptyDb u") (simp add: v_def)
  then have "\<exists>m. flushallCommand t c = (addReply (v\<lparr>dirty := dirty v + int n\<rparr>) c shared_ok)\<lparr>dirty := m\<rparr>"
    by (auto simp: flushallCommand_def signalFlushedDb_eq u_def [symmetric] Let_def)
  then show ?thesis using r by auto
qed

lemma del_loop_ok:
  "reaches K s t \<Longrightarrow> \<exists>u m. del_loop t c keys n = Some (u, m) \<and> reaches K s u"
proof (induction keys arbitrary: t n)
  case (Cons key keys)
  obtain t1 e where t1: "expireIfNeeded t (c_db (cl t c)) key = Some (t1, e)" "reaches K s t1"
    using expireIfNeeded_ok [OF Cons.prems] by blast
  let ?d = "c_db (cl t1 c)"
  obtain t2 f where t2: "dbDelete t1 ?d key = (t2, f)" by fastforce
  have f: "f \<longleftrightarrow> db_dict (sdbs t1 ?d) key \<noteq> None" using t2 by (simp add: dbDelete_eq [OF reaches_inv [OF t1(2)]])
  have r: "reaches (insert (?d, key) K) s t2" using reaches_dbDelete [OF t1(2), of ?d key] t2 by simp
  show ?case
  proof (cases f)
    case True
    have "c_db (cl t2 c) = ?d" using t2 by (auto simp: dbDelete_def Let_def split: if_splits)
    then have "reaches K s ((signalModifiedKey t2 (c_db (cl t2 c)) key)\<lparr>dirty := dirty t2 + 1\<rparr>)" using reaches_signal [OF r] by simp
    from Cons.IH [OF this] show ?thesis using t1(1) t2 True by simp
  next
    case False
    then have "db_dict (sdbs t1 ?d) key = None" using f by simp
    moreover have "db_expires (sdbs t1 ?d) key = None" using srv_inv_facts(1) [OF reaches_inv [OF t1(2)]] calculation .
    moreover have "t2 = upd_db t1 ?d (\<lambda>x. x\<lparr>db_expires := (db_expires x)(key := None), db_dict := (db_dict x)(key := None)\<rparr>)"
      using t2 by (simp add: dbDelete_eq [OF reaches_inv [OF t1(2)]])
    ultimately have "t2 = t1" by (simp add: upd_db_def fun_upd_idem)
    with Cons.IH [OF t1(2)] show ?thesis using t1(1) t2 False by simp
  qed
qed simp

lemma del_ok: "reaches K s t \<Longrightarrow> \<exists>u. delCommand fill t c = Some u \<and> reaches K s u"
  using del_loop_ok [of K s t c "tl (c_argv (cl t c))" 0] by (auto simp: delCommand_def)

lemma exists_ok: "reaches K s t \<Longrightarrow> \<exists>u. existsCommand t c = Some u \<and> reaches K s u"
  using expireIfNeeded_ok [of K s t "c_db (cl t c)" "argument t c 1"] by (auto simp: existsCommand_def)

lemma type_ok: "reaches K s t \<Longrightarrow> \<exists>u. typeCommand t c = Some u \<and> reaches K s u"
  using lookupKeyWrite_ok [of K s t "c_db (cl t c)" "argument t c 1"] by (auto simp: typeCommand_def lookupKeyRead_eq)

lemma dbsize_ok: "reaches K s t \<Longrightarrow> reaches K s (dbsizeCommand fill t c)"
  by (simp add: dbsizeCommand_def)

lemma selectDb_ok:
  assumes "reaches K s t"
  shows "reaches K s (fst (selectDb t c n))" "c_db (cl (fst (selectDb t c n)) c') < dbnum t"
    "sdbs (fst (selectDb t c n)) = sdbs t" "c_argv (cl (fst (selectDb t c n)) c') = c_argv (cl t c')"
proof -
  have lt: "unat n < dbnum t" if "\<not> (n <s 0 \<or> int (dbnum t) \<le> sint n)"
  proof -
    have "0 \<le> sint n" "sint n < int (dbnum t)" using that by (auto simp: word_sless_alt)
    moreover have "uint n = sint n mod 2 ^ 32"
      using unsigned_of_int [of "sint n", where 'b = 32 and 'a = int] by (simp add: take_bit_eq_mod)
    then have "uint n = sint n" using calculation sint_less [of n] by simp
    ultimately show ?thesis by (simp add: unat_eq_nat_uint nat_less_iff)
  qed
  have "c_db (cl t c') < dbnum t" using srv_inv_facts(6) [OF reaches_inv [OF assms]] .
  then show "c_db (cl (fst (selectDb t c n)) c') < dbnum t" using lt by (simp add: selectDb_def upd_client_def)
  show "reaches K s (fst (selectDb t c n))"
    using lt assms srv_inv_facts(8) [OF reaches_inv [OF assms], of c]
    by (auto simp: selectDb_def intro!: reaches_client)
  show "sdbs (fst (selectDb t c n)) = sdbs t" "c_argv (cl (fst (selectDb t c n)) c') = c_argv (cl t c')"
    by (simp_all add: selectDb_def upd_client_def)
qed

lemma select_ok: "reaches K s t \<Longrightarrow> \<exists>u. selectCommand t c = Some u \<and> reaches K s u"
proof -
  assume t: "reaches K s t"
  obtain u where u: "getLongLongFromObjectOrReply t c (Some (RawStr (argument t c 1))) (Some (str ''invalid DB index''))
      = Some (u, ll_of_bytes (argument t c 1))" "reaches K s u"
    using getLongLong_ok [OF t, of "Some (RawStr (argument t c 1))"] by fastforce
  then show ?thesis using selectDb_ok(1) [OF u(2), of c]
    by (auto simp: selectCommand_def getLong_eq split_beta split: option.split)
qed

lemma persist_ok: "reaches K s t \<Longrightarrow> \<exists>u. persistCommand t c = Some u \<and> reaches K s u"
  using removeExpire_ok [of K s t "c_db (cl t c)" "argument t c 1"]
  by (cases "db_dict (sdbs t (c_db (cl t c))) (argument t c 1)") (auto simp: persistCommand_def Let_def)

lemma ttl_ok: "reaches K s t \<Longrightarrow> \<exists>u. ttlGenericCommand fill t c ms = Some u \<and> reaches K s u"
  using lookupKeyWrite_ok [of K s t "c_db (cl t c)" "argument t c 1"]
  by (auto simp: ttlGenericCommand_def lookupKeyRead_eq getExpire_eq [OF reaches_inv] Let_def)

lemma expire_ok:
  assumes "reaches K s t" "1 < length (c_argv (cl t c))"
  shows "\<exists>u. expireGenericCommand t c base unit = Some u \<and> reaches K s u"
proof -
  let ?key = "argument t c 1" and ?d = "c_db (cl t c)"
  obtain t1 r where t1: "getLongLongFromObjectOrReply t c (Some (RawStr (argument t c 2))) None = Some (t1, r)" "reaches K s t1"
    using getLongLong_ok [OF assms(1), of "Some (RawStr (argument t c 2))"] by fastforce
  show ?thesis
  proof (cases r)
    case None
    then show ?thesis using t1 by (simp add: expireGenericCommand_def Let_def)
  next
    case (Some w)
    define at where "at = (if unit = UNIT_SECONDS then w * 1000 else w) + base"
    obtain t2 obj where t2: "lookupKeyRead t1 ?d ?key = Some (t2, obj)" "reaches K s t2" "obj = db_dict (sdbs t2 ?d) ?key"
      using lookupKeyWrite_ok [OF t1(2)] unfolding lookupKeyRead_eq by blast
    show ?thesis
    proof (cases "obj = None")
      case True
      then show ?thesis using t1 t2 Some by (simp add: expireGenericCommand_def Let_def)
    next
      case False
      then have key: "db_dict (sdbs t2 ?d) ?key \<noteq> None" using t2(3) by simp
      show ?thesis
      proof (cases "at \<le>s mstime t2 \<and> \<not> loading t2 \<and> \<not> masterhost t2")
        case True
        let ?t3 = "fst (dbDelete t2 ?d ?key)"
        let ?t4 = "upd_client (?t3\<lparr>dirty := dirty ?t3 + 1\<rparr>) c (\<lambda>cl. cl\<lparr>c_argv := [str ''DEL'', ?key]\<rparr>)"
        have r3: "reaches (insert (?d, ?key) K) s (?t3\<lparr>dirty := dirty ?t3 + 1\<rparr>)" using reaches_dbDelete [OF t2(2)] by simp
        have "arg_ok ?key" using key_of_arg [OF assms] by simp
        then have "reaches (insert (?d, ?key) K) s ?t4"
          using srv_inv_facts(6) [OF reaches_inv [OF r3]] by (intro reaches_client [OF r3]) (simp_all add: arg_ok_def)
        then have "reaches K s (addReply (signalModifiedKey ?t4 ?d ?key) c shared_cone)"
          by (intro reaches_addReply reaches_signal)
        moreover have "expireGenericCommand t c base unit = Some (addReply (signalModifiedKey ?t4 ?d ?key) c shared_cone)"
          using t1(1) t2(1) Some False True key
          by (auto simp: expireGenericCommand_def at_def [symmetric] dbDelete_eq [OF reaches_inv [OF t2(2)]] Let_def)
        ultimately show ?thesis by blast
      next
        case later: False
        obtain t3 where t3: "setExpire t2 ?d ?key at = Some t3" "reaches (insert (?d, ?key) K) s t3"
          using setExpire_ok [OF t2(2) key] by blast
        then have "reaches K s (signalModifiedKey (addReply t3 c shared_cone) ?d ?key)"
          using reaches_signal reaches_addReply by blast
        then show ?thesis using t1(1) t2(1) t3(1) Some False later
          by (auto simp: expireGenericCommand_def at_def [symmetric] Let_def)
      qed
    qed
  qed
qed

lemma sdscmp_new: "bytes_compare a b = 0 \<longleftrightarrow> a = b"
  using bytes_compare_order by blast

lemma rename_ok:
  assumes "reaches K s t"
  shows "\<exists>u. renameGenericCommand t c nx = Some u \<and> reaches K s u"
proof (cases "argument t c 1 = argument t c 2")
  case True
  then show ?thesis using assms by (simp add: renameGenericCommand_def sdscmp_new)
next
  case differ: False
  let ?src = "argument t c 1" and ?dst = "argument t c 2" and ?d = "c_db (cl t c)"
  obtain t1 obj where t1: "lookupKeyWrite t ?d ?src = Some (t1, obj)" "reaches K s t1" "obj = db_dict (sdbs t1 ?d) ?src"
    using lookupKeyWrite_ok [OF assms] by blast
  show ?thesis
  proof (cases obj)
    case None
    then show ?thesis using t1 differ by (simp add: renameGenericCommand_def sdscmp_new lookupKeyWriteOrReply_def Let_def)
  next
    case (Some v)
    define w where "w = (case db_expires (sdbs t1 ?d) ?src of None \<Rightarrow> - 1 | Some w \<Rightarrow> w)"
    have w: "getExpire t1 ?d ?src = Some w" by (simp add: getExpire_eq [OF reaches_inv [OF t1(2)]] w_def)
    obtain t2 old where t2: "lookupKeyWrite t1 ?d ?dst = Some (t2, old)" "reaches K s t2" "old = db_dict (sdbs t2 ?d) ?dst"
      using lookupKeyWrite_ok [OF t1(2)] by blast
    have v: "obj_ok v" using srv_inv_facts(2) [OF reaches_inv [OF t1(2)]] t1(3) Some by simp
    let ?t3 = "if old \<noteq> None then fst (dbDelete t2 ?d ?dst) else t2"
    let ?K = "insert (?d, ?src) (insert (?d, ?dst) K)"
    have r3: "reaches (insert (?d, ?dst) K) s ?t3"
      using reaches_dbDelete [OF t2(2), of ?d ?dst] reaches_mono [OF t2(2), of "insert (?d, ?dst) K"] by auto
    have none: "db_dict (sdbs ?t3 ?d) ?dst = None" using t2(3) by (simp add: dbDelete_eq [OF reaches_inv [OF t2(2)]])
    obtain t4 where t4: "dbAdd ?t3 ?d ?dst v = Some t4" "reaches (insert (?d, ?dst) K) s t4"
      "t4 = upd_db ?t3 ?d (\<lambda>x. x\<lparr>db_dict := (db_dict x)(?dst \<mapsto> v)\<rparr>)"
      using dbAdd_ok [OF r3 v none] by auto
    have "db_dict (sdbs t4 ?d) ?dst \<noteq> None" using t4(3) by simp
    then obtain t5 where t5: "(if w \<noteq> - 1 then setExpire t4 ?d ?dst w else Some t4) = Some t5" "reaches (insert (?d, ?dst) K) s t5"
      using setExpire_ok [OF t4(2), of ?d ?dst w] t4(2) by (cases "w = - 1") auto
    let ?t6 = "fst (dbDelete t5 ?d ?src)"
    have "reaches ?K s ?t6" using reaches_dbDelete [OF t5(2)] .
    then have "reaches (insert (?d, ?dst) K) s (signalModifiedKey ?t6 ?d ?src)" by (rule reaches_signal)
    then have r8: "reaches K s (signalModifiedKey (signalModifiedKey ?t6 ?d ?src) ?d ?dst)" by (rule reaches_signal)
    show ?thesis
      using t1(1) t2(1) t4(1) t5(1) Some differ w r8
      by (auto simp: renameGenericCommand_def sdscmp_new lookupKeyWriteOrReply_def Let_def t2(2))
  qed
qed

text \<open>\<open>MOVE\<close> tells nobody: both keys stay excepted.\<close>

lemma selectDb_moves: "selectDb t c n = (u, b) \<Longrightarrow> b \<Longrightarrow> c_db (cl u c) = unat n"
  by (auto simp: selectDb_def upd_client_def split: if_splits)

lemma move_ok:
  assumes "reaches K s t"
  shows "\<exists>u. moveCommand t c = Some u \<and> reaches UNIV s u"
proof -
  have t: "reaches UNIV s t" using assms reaches_mono by blast
  define p where "p = (case ll_of_bytes (argument t c 2) of None \<Rightarrow> (t, False)
    | Some i \<Rightarrow> if sint i < - (2 ^ 31) \<or> sint i > 2 ^ 31 - 1 then (t, False) else selectDb t c (ucast i))"
  obtain t1 b where p: "p = (t1, b)" by fastforce
  have r1: "reaches UNIV s t1"
    using p t selectDb_ok(1) [OF t, of c] unfolding p_def by (auto split: option.splits if_splits) (metis fst_conv)
  define t2 where "t2 = fst (selectDb t1 c (of_nat (c_db (cl t c))))"
  have r2: "reaches UNIV s t2" unfolding t2_def by (rule selectDb_ok(1) [OF r1])
  let ?key = "argument t2 c 1" and ?dst = "c_db (cl t1 c)" and ?src = "c_db (cl t c)"
  obtain t3 obj where t3: "lookupKeyWrite t2 (c_db (cl t2 c)) ?key = Some (t3, obj)" "reaches UNIV s t3"
    "obj = db_dict (sdbs t3 (c_db (cl t2 c))) ?key" "cl t3 = cl t2"
    using lookupKeyWrite_ok [OF r2] by blast
  obtain t4 old where t4: "lookupKeyWrite t3 ?dst ?key = Some (t4, old)" "reaches UNIV s t4"
    "old = db_dict (sdbs t4 ?dst) ?key" "cl t4 = cl t2"
    using lookupKeyWrite_ok [OF t3(2)] t3(4) by metis
  have last: "\<exists>u. dbAdd t4 ?dst ?key v = Some u \<and> reaches UNIV s u \<and> cl u = cl t4" if "obj = Some v" "old = None" for v
  proof -
    have "obj_ok v" using srv_inv_facts(2) [OF reaches_inv [OF t3(2)]] t3(3) that(1) by simp
    then show ?thesis using dbAdd_ok [OF t4(2)] t4(3) that(2) by fastforce
  qed
  have body: "moveCommand t c =
    (if cluster_enabled t then Some (addReplyError t c (str ''MOVE is not allowed in cluster mode''))
     else if \<not> b then Some (addReply t1 c shared_outofrangeerr)
     else if ?src = ?dst then Some (addReply t2 c shared_sameobjecterr)
     else do {
       (s, obj) \<leftarrow> lookupKeyWrite t2 (c_db (cl t2 c)) ?key;
       case obj of
         None \<Rightarrow> Some (addReply s c shared_czero)
       | Some obj \<Rightarrow>
           do {
             (s, old) \<leftarrow> lookupKeyWrite s ?dst (argument s c 1);
             if old \<noteq> None then Some (addReply s c shared_czero)
             else
               do {
                 s \<leftarrow> dbAdd s ?dst (argument s c 1) obj;
                 let s = fst (dbDelete s ?src (argument s c 1));
                 let s = s\<lparr>dirty := dirty s + 1\<rparr>;
                 Some (addReply s c shared_cone)
               }
           }
     })"
    using p by (simp add: moveCommand_def p_def [symmetric] t2_def Let_def)
  show ?thesis
  proof (cases "cluster_enabled t \<or> \<not> b \<or> ?src = ?dst \<or> obj = None \<or> old \<noteq> None")
    case True
    then show ?thesis using body t r1 r2 t3 t4 by (auto simp: t3(4) split: option.split)
  next
    case False
    then obtain v where v: "obj = Some v" by (cases obj) auto
    then obtain u where u: "dbAdd t4 ?dst ?key v = Some u" "reaches UNIV s u" "cl u = cl t4"
      using last False by blast
    have "reaches UNIV s (fst (dbDelete u ?src ?key))" using reaches_mono [OF reaches_dbDelete [OF u(2)]] by blast
    then show ?thesis using body False v u t3(1) t4(1) by (simp add: t3(4) t4(4) Let_def)
  qed
qed

section \<open>Start\<close>

lemma initServer_inv: "0 < n \<Longrightarrow> n < 2 ^ 31 \<Longrightarrow> srv_inv (initServer n now)"
  by (simp add: srv_inv_def keys_inv_def watch_inv_def clients_inv_def initServer_def watchers_def)

lemma createClient_inv:
  assumes "srv_inv s" "c_watched_keys (cl s c) = []"
  shows "srv_inv (createClient s c)"
proof -
  have same: "watchers (createClient s c) d k = watchers s d k" "sdbs (createClient s c) = sdbs s" for d k
    by (simp_all add: createClient_def upd_client_def watchers_def)
  have "\<forall>d k. (d, k) \<in> set (c_watched_keys (cl s c)) \<longleftrightarrow> c \<in> set (watchers s d k)"
    using assms(1) by (simp add: srv_inv_def watch_inv_def)
  then have "c \<notin> set (watchers s d k)" for d k using assms(2) by simp
  then show ?thesis using assms
    by (auto simp: srv_inv_def keys_inv_def watch_inv_def clients_inv_def same) (auto simp: createClient_def upd_client_def split: if_splits)
qed

end
