(* ===== verification/Strings.thy ===== *)
theory Strings
  imports Db_Inv
begin

text \<open>
  The commands on strings of \<open>t_string.c\<close>, except \<open>INCRBYFLOAT\<close>.  Arguments arrive as raw
  unshared objects.  \<open>None\<close> is an aborted program: a failed assertion or, in \<open>SETRANGE\<close>, an
  allocation that fails.  The parameter \<open>mem\<close> is the length up to which \<open>sdsgrowzero\<close> can grow a
  string: the allocator has room for that length and what \<open>sdsMakeRoomFor\<close> adds to it, and no room
  for a longer one.
\<close>

section \<open>Setting\<close>

definition checkStringLength :: "'x server \<Rightarrow> nat \<Rightarrow> u64 \<Rightarrow> 'x server \<times> bool" where
  "checkStringLength s c n =
    (if 512 * 1024 * 1024 <s n then (addReplyError s c (str ''string exceeds maximum allowed size (512MB)''), False)
     else (s, True))"

text \<open>The value of an argument, encoded; \<open>nx\<close> and \<open>xx\<close> are the bits of \<open>flags\<close>.\<close>

definition encoded_arg :: "bytes \<Rightarrow> 'x robj option" where
  "encoded_arg a = tryObjectEncoding 1 (RawStr a)"

definition setGenericCommand ::
  "'x server \<Rightarrow> nat \<Rightarrow> bytes \<Rightarrow> bool \<Rightarrow> bool \<Rightarrow> bytes \<Rightarrow> 'x robj \<Rightarrow> bytes option \<Rightarrow> time_unit \<Rightarrow> bytes \<Rightarrow> bytes \<Rightarrow> 'x server option" where
  "setGenericCommand s c name nx xx key val expire unit ok_reply abort_reply =
    do {
      (s, ms) \<leftarrow>
        (case expire of
           None \<Rightarrow> Some (s, Some 0)
         | Some e \<Rightarrow>
             do {
               (s, ms) \<leftarrow> getLongLongFromObjectOrReply s c (Some (RawStr e)) None;
               Some (case ms of
                 None \<Rightarrow> (s, None)
               | Some ms \<Rightarrow>
                   if ms \<le>s 0 then (addReplyError s c (str ''invalid expire time in '' @ name), None)
                   else (s, Some (if unit = UNIT_SECONDS then ms * 1000 else ms)))
             });
      case ms of
        None \<Rightarrow> Some s
      | Some ms \<Rightarrow>
          do {
            (s, old_nx) \<leftarrow> (if nx then lookupKeyWrite s (c_db (cl s c)) key else Some (s, None));
            (s, old_xx) \<leftarrow> (if xx \<and> \<not> (nx \<and> old_nx \<noteq> None) then lookupKeyWrite s (c_db (cl s c)) key else Some (s, Some val));
            if nx \<and> old_nx \<noteq> None \<or> xx \<and> old_xx = None then Some (addReply s c abort_reply)
            else
              do {
                s \<leftarrow> setKey s (c_db (cl s c)) key val;
                let s = s\<lparr>dirty := dirty s + 1\<rparr>;
                s \<leftarrow> (if expire \<noteq> None then setExpire s (c_db (cl s c)) key (mstime s + ms) else Some s);
                Some (addReply s c ok_reply)
              }
          }
    }"

text \<open>The two letters of an option in either case, followed by the end of the C string.\<close>

definition is_option :: "bytes \<Rightarrow> char \<Rightarrow> char \<Rightarrow> char \<Rightarrow> char \<Rightarrow> bool" where
  "is_option a lo up lo' up' \<longleftrightarrow>
    (case c_str a of [x, y] \<Rightarrow> (x = ch lo \<or> x = ch up) \<and> (y = ch lo' \<or> y = ch up') | _ \<Rightarrow> False)"

fun set_options :: "bytes list \<Rightarrow> bool \<Rightarrow> bool \<Rightarrow> bytes option \<Rightarrow> time_unit \<Rightarrow> (bool \<times> bool \<times> bytes option \<times> time_unit) option" where
  "set_options [] nx xx expire unit = Some (nx, xx, expire, unit)"
| "set_options (a # args) nx xx expire unit =
    (if is_option a CHR ''n'' CHR ''N'' CHR ''x'' CHR ''X'' then set_options args True xx expire unit
     else if is_option a CHR ''x'' CHR ''X'' CHR ''x'' CHR ''X'' then set_options args nx True expire unit
     else if is_option a CHR ''e'' CHR ''E'' CHR ''x'' CHR ''X'' \<and> args \<noteq> []
     then set_options (tl args) nx xx (Some (hd args)) UNIT_SECONDS
     else if is_option a CHR ''p'' CHR ''P'' CHR ''x'' CHR ''X'' \<and> args \<noteq> []
     then set_options (tl args) nx xx (Some (hd args)) UNIT_MILLISECONDS
     else None)"

definition setCommand :: "'x server \<Rightarrow> nat \<Rightarrow> 'x server option" where
  "setCommand s c =
    (case set_options (drop 3 (c_argv (cl s c))) False False None UNIT_SECONDS of
       None \<Rightarrow> Some (addReply s c shared_syntaxerr)
     | Some (nx, xx, expire, unit) \<Rightarrow>
         do {
           val \<leftarrow> encoded_arg (argument s c 2);
           setGenericCommand s c (str ''set'') nx xx (argument s c 1) val expire unit shared_ok shared_nullbulk
         })"

definition setnxCommand :: "'x server \<Rightarrow> nat \<Rightarrow> 'x server option" where
  "setnxCommand s c =
    do {
      val \<leftarrow> encoded_arg (argument s c 2);
      setGenericCommand s c (str ''setnx'') True False (argument s c 1) val None UNIT_SECONDS shared_cone shared_czero
    }"

definition setexCommand :: "'x server \<Rightarrow> nat \<Rightarrow> 'x server option" where
  "setexCommand s c =
    do {
      val \<leftarrow> encoded_arg (argument s c 3);
      setGenericCommand s c (str ''setex'') False False (argument s c 1) val (Some (argument s c 2)) UNIT_SECONDS
        shared_ok shared_nullbulk
    }"

definition psetexCommand :: "'x server \<Rightarrow> nat \<Rightarrow> 'x server option" where
  "psetexCommand s c =
    do {
      val \<leftarrow> encoded_arg (argument s c 3);
      setGenericCommand s c (str ''psetex'') False False (argument s c 1) val (Some (argument s c 2)) UNIT_MILLISECONDS
        shared_ok shared_nullbulk
    }"

section \<open>Reading\<close>

text \<open>The flag is \<open>REDIS_OK\<close>.\<close>

definition getGenericCommand :: "byte \<Rightarrow> 'x server \<Rightarrow> nat \<Rightarrow> ('x server \<times> bool) option" where
  "getGenericCommand fill s c =
    do {
      (s, obj) \<leftarrow> lookupKeyReadOrReply s c (argument s c 1) shared_nullbulk;
      case obj of
        None \<Rightarrow> Some (s, True)
      | Some obj \<Rightarrow>
          if obj_type obj \<noteq> StringType then Some (addReply s c shared_wrongtypeerr, False)
          else do { r \<leftarrow> addReplyBulk fill obj; Some (addReply s c r, True) }
    }"

definition getCommand :: "byte \<Rightarrow> 'x server \<Rightarrow> nat \<Rightarrow> 'x server option" where
  "getCommand fill s c = map_option fst (getGenericCommand fill s c)"

definition getsetCommand :: "byte \<Rightarrow> 'x server \<Rightarrow> nat \<Rightarrow> 'x server option" where
  "getsetCommand fill s c =
    do {
      (s, ok) \<leftarrow> getGenericCommand fill s c;
      if \<not> ok then Some s
      else
        do {
          val \<leftarrow> encoded_arg (argument s c 2);
          s \<leftarrow> setKey s (c_db (cl s c)) (argument s c 1) val;
          Some (s\<lparr>dirty := dirty s + 1\<rparr>)
        }
    }"

definition strlenCommand :: "byte \<Rightarrow> 'x server \<Rightarrow> nat \<Rightarrow> 'x server option" where
  "strlenCommand fill s c =
    do {
      (s, obj) \<leftarrow> lookupKeyReadOrReply s c (argument s c 1) shared_czero;
      case obj of
        None \<Rightarrow> Some s
      | Some obj \<Rightarrow>
          (let (s, wrong) = checkType s c obj StringType
           in if wrong then Some s
              else do { n \<leftarrow> stringObjectLen fill obj; Some (addReplyInt fill s c (of_nat n)) })
    }"

text \<open>The positions of \<open>GETRANGE\<close> on a string of \<open>len\<close> bytes; \<open>end\<close> is compared unsigned.\<close>

definition range_bounds :: "nat \<Rightarrow> u64 \<Rightarrow> u64 \<Rightarrow> u64 \<times> u64" where
  "range_bounds len start fin =
    (let start = (if start <s 0 then of_nat len + start else start);
         fin = (if fin <s 0 then of_nat len + fin else fin);
         start = (if start <s 0 then 0 else start);
         fin = (if fin <s 0 then 0 else fin);
         fin = (if of_nat len \<le> fin then of_nat len - 1 else fin)
     in (start, fin))"

definition getrangeCommand :: "byte \<Rightarrow> 'x server \<Rightarrow> nat \<Rightarrow> 'x server option" where
  "getrangeCommand fill s c =
    do {
      (s, start) \<leftarrow> getLongLongFromObjectOrReply s c (Some (RawStr (argument s c 2))) None;
      case start of
        None \<Rightarrow> Some s
      | Some start \<Rightarrow>
          do {
            (s, fin) \<leftarrow> getLongLongFromObjectOrReply s c (Some (RawStr (argument s c 3))) None;
            case fin of
              None \<Rightarrow> Some s
            | Some fin \<Rightarrow>
                do {
                  (s, obj) \<leftarrow> lookupKeyReadOrReply s c (argument s c 1) shared_emptybulk;
                  case obj of
                    None \<Rightarrow> Some s
                  | Some obj \<Rightarrow>
                      (let (s, wrong) = checkType s c obj StringType
                       in if wrong then Some s
                          else
                            do {
                              b \<leftarrow> string_bytes fill 32 obj;
                              let (start, fin) = range_bounds (length b) start fin;
                              Some (if fin <s start \<or> length b = 0 then addReply s c shared_emptybulk
                                    else addReply s c (addReplyBulkCBuffer fill (take (unat (fin - start + 1)) (drop (unat start) b))))
                            })
                }
          }
    }"

fun mget_loop :: "byte \<Rightarrow> 'x server \<Rightarrow> nat \<Rightarrow> bytes list \<Rightarrow> 'x server option" where
  "mget_loop fill s c [] = Some s"
| "mget_loop fill s c (key # keys) =
    do {
      (s, obj) \<leftarrow> lookupKeyRead s (c_db (cl s c)) key;
      r \<leftarrow> (case obj of
              None \<Rightarrow> Some shared_nullbulk
            | Some obj \<Rightarrow> if obj_type obj \<noteq> StringType then Some shared_nullbulk else addReplyBulk fill obj);
      mget_loop fill (addReply s c r) c keys
    }"

definition mgetCommand :: "byte \<Rightarrow> 'x server \<Rightarrow> nat \<Rightarrow> 'x server option" where
  "mgetCommand fill s c =
    mget_loop fill (addReply s c (addReplyMultiBulkLen fill (length (c_argv (cl s c)) - 1))) c (tl (c_argv (cl s c)))"

section \<open>Setting many\<close>

fun busy_loop :: "'x server \<Rightarrow> nat \<Rightarrow> bytes list \<Rightarrow> nat \<Rightarrow> ('x server \<times> nat) option" where
  "busy_loop s c (key # val # rest) busykeys =
    do {
      (s, old) \<leftarrow> lookupKeyWrite s (c_db (cl s c)) key;
      busy_loop s c rest (if old \<noteq> None then busykeys + 1 else busykeys)
    }"
| "busy_loop s c _ busykeys = Some (s, busykeys)"

fun mset_loop :: "'x server \<Rightarrow> nat \<Rightarrow> bytes list \<Rightarrow> 'x server option" where
  "mset_loop s c (key # val # rest) =
    do {
      v \<leftarrow> encoded_arg val;
      s \<leftarrow> setKey s (c_db (cl s c)) key v;
      mset_loop s c rest
    }"
| "mset_loop s c _ = Some s"

definition msetGenericCommand :: "'x server \<Rightarrow> nat \<Rightarrow> bool \<Rightarrow> 'x server option" where
  "msetGenericCommand s c nx =
    (let argc = length (c_argv (cl s c)); pairs = tl (c_argv (cl s c))
     in if argc mod 2 = 0 then Some (addReplyError s c (str ''wrong number of arguments for MSET''))
        else
          do {
            (s, busykeys) \<leftarrow> (if nx then busy_loop s c pairs 0 else Some (s, 0));
            if nx \<and> busykeys \<noteq> 0 then Some (addReply s c shared_czero)
            else
              do {
                s \<leftarrow> mset_loop s c pairs;
                let s = s\<lparr>dirty := dirty s + int ((argc - 1) div 2)\<rparr>;
                Some (addReply s c (if nx then shared_cone else shared_ok))
              }
          })"

definition msetCommand :: "'x server \<Rightarrow> nat \<Rightarrow> 'x server option" where
  "msetCommand s c = msetGenericCommand s c False"

definition msetnxCommand :: "'x server \<Rightarrow> nat \<Rightarrow> 'x server option" where
  "msetnxCommand s c = msetGenericCommand s c True"

section \<open>Changing\<close>

definition store_bytes :: "'x server \<Rightarrow> nat \<Rightarrow> bytes \<Rightarrow> bytes \<Rightarrow> 'x server" where
  "store_bytes s db key b = upd_db s db (\<lambda>d. d\<lparr>db_dict := (db_dict d)(key \<mapsto> RawStr b)\<rparr>)"

text \<open>Writing \<open>value\<close> at \<open>offset\<close> of a string that is first grown with zeros.\<close>

definition write_at :: "bytes \<Rightarrow> nat \<Rightarrow> bytes \<Rightarrow> nat \<Rightarrow> bytes" where
  "write_at b offset value newlen = mem_put offset value (b @ replicate (newlen - length b) 0)"

definition setrangeCommand :: "byte \<Rightarrow> nat \<Rightarrow> 'x server \<Rightarrow> nat \<Rightarrow> 'x server option" where
  "setrangeCommand fill mem s c =
    (let value = argument s c 3; key = argument s c 1; db = c_db (cl s c)
     in do {
       (s, offset) \<leftarrow> getLongFromObjectOrReply s c (Some (RawStr (argument s c 2))) None;
       case offset of
         None \<Rightarrow> Some s
       | Some offset \<Rightarrow>
           if offset <s 0 then Some (addReplyError s c (str ''offset is out of range''))
           else
             do {
               let newlen = offset + of_nat (length value);
               (s, obj) \<leftarrow> lookupKeyWrite s db key;
               (s, target) \<leftarrow>
                 (case obj of
                    None \<Rightarrow>
                      if length value = 0 then Some (addReply s c shared_czero, None)
                      else
                        (let (s, ok) = checkStringLength s c newlen
                         in if \<not> ok then Some (s, None)
                            else do { s \<leftarrow> dbAdd s db key (RawStr []); Some (s, Some []) })
                  | Some obj \<Rightarrow>
                      (let (s, wrong) = checkType s c obj StringType
                       in if wrong then Some (s, None)
                          else
                            do {
                              olen \<leftarrow> stringObjectLen fill obj;
                              if length value = 0 then Some (addReplyInt fill s c (of_nat olen), None)
                              else
                                (let (s, ok) = checkStringLength s c newlen
                                 in if \<not> ok then Some (s, None)
                                    else
                                      do {
                                        (s, b) \<leftarrow> dbUnshareStringValue fill False s db key obj;
                                        Some (s, Some b)
                                      })
                            }));
               case target of
                 None \<Rightarrow> Some s
               | Some b \<Rightarrow>
                   if mem < unat newlen then None
                   else
                     (let b = write_at b (unat offset) value (unat newlen);
                          s = store_bytes s db key b;
                          s = signalModifiedKey s db key;
                          s = s\<lparr>dirty := dirty s + 1\<rparr>
                      in Some (addReplyInt fill s c (of_nat (length b))))
             }
     })"

definition appendCommand :: "byte \<Rightarrow> 'x server \<Rightarrow> nat \<Rightarrow> 'x server option" where
  "appendCommand fill s c =
    (let key = argument s c 1; suffix = argument s c 2; db = c_db (cl s c)
     in do {
       (s, obj) \<leftarrow> lookupKeyWrite s db key;
       (s, totlen) \<leftarrow>
         (case obj of
            None \<Rightarrow>
              do {
                v \<leftarrow> encoded_arg suffix;
                s \<leftarrow> dbAdd s db key v;
                n \<leftarrow> stringObjectLen fill v;
                Some (s, Some n)
              }
          | Some obj \<Rightarrow>
              (let (s, wrong) = checkType s c obj StringType
               in if wrong then Some (s, None)
                  else
                    do {
                      olen \<leftarrow> stringObjectLen fill obj;
                      let (s, ok) = checkStringLength s c (of_nat (olen + length suffix));
                      if \<not> ok then Some (s, None)
                      else
                        do {
                          (s, b) \<leftarrow> dbUnshareStringValue fill False s db key obj;
                          let s = store_bytes s db key (b @ suffix);
                          Some (s, Some (length (b @ suffix)))
                        }
                    }));
       case totlen of
         None \<Rightarrow> Some s
       | Some n \<Rightarrow>
           (let s = signalModifiedKey s db key;
                s = s\<lparr>dirty := dirty s + 1\<rparr>
            in Some (addReplyInt fill s c (of_nat n)))
     })"

text \<open>
  A number in place of the old one.  The code changes an unshared integer object in place,
  which gives the same value.
\<close>

definition incr_overflows :: "u64 \<Rightarrow> u64 \<Rightarrow> bool" where
  "incr_overflows oldvalue incr \<longleftrightarrow>
    (incr <s 0 \<and> oldvalue <s 0 \<and> incr <s LLONG_MIN - oldvalue)
    \<or> (0 <s incr \<and> 0 <s oldvalue \<and> LLONG_MAX - oldvalue <s incr)"

definition incrDecrCommand :: "byte \<Rightarrow> 'x server \<Rightarrow> nat \<Rightarrow> u64 \<Rightarrow> 'x server option" where
  "incrDecrCommand fill s c incr =
    (let key = argument s c 1; db = c_db (cl s c)
     in do {
       (s, obj) \<leftarrow> lookupKeyWrite s db key;
       let (s, wrong) = (case obj of None \<Rightarrow> (s, False) | Some obj \<Rightarrow> checkType s c obj StringType);
       if wrong then Some s
       else
         do {
           (s, oldvalue) \<leftarrow> getLongLongFromObjectOrReply s c obj None;
           case oldvalue of
             None \<Rightarrow> Some s
           | Some oldvalue \<Rightarrow>
               if incr_overflows oldvalue incr
               then Some (addReplyError s c (str ''increment or decrement would overflow''))
               else
                 do {
                   let new = createStringObjectFromLongLong (oldvalue + incr);
                   s \<leftarrow> (if obj \<noteq> None then dbOverwrite s db key new else dbAdd s db key new);
                   let s = signalModifiedKey s db key;
                   let s = s\<lparr>dirty := dirty s + 1\<rparr>;
                   text \<leftarrow> string_bytes fill 32 new;
                   Some (addReply (addReply (addReply s c (str '':'')) c text) c CRLF)
                 }
         }
     })"

definition incrCommand :: "byte \<Rightarrow> 'x server \<Rightarrow> nat \<Rightarrow> 'x server option" where
  "incrCommand fill s c = incrDecrCommand fill s c 1"

definition decrCommand :: "byte \<Rightarrow> 'x server \<Rightarrow> nat \<Rightarrow> 'x server option" where
  "decrCommand fill s c = incrDecrCommand fill s c (- 1)"

definition incrbyCommand :: "byte \<Rightarrow> 'x server \<Rightarrow> nat \<Rightarrow> 'x server option" where
  "incrbyCommand fill s c =
    do {
      (s, incr) \<leftarrow> getLongLongFromObjectOrReply s c (Some (RawStr (argument s c 2))) None;
      case incr of None \<Rightarrow> Some s | Some incr \<Rightarrow> incrDecrCommand fill s c incr
    }"

definition decrbyCommand :: "byte \<Rightarrow> 'x server \<Rightarrow> nat \<Rightarrow> 'x server option" where
  "decrbyCommand fill s c =
    do {
      (s, incr) \<leftarrow> getLongLongFromObjectOrReply s c (Some (RawStr (argument s c 2))) None;
      case incr of None \<Rightarrow> Some s | Some incr \<Rightarrow> incrDecrCommand fill s c (- incr)
    }"

section \<open>No command aborts, and watchers are told\<close>

lemma reaches_checkType [simp]: "reaches K s t \<Longrightarrow> reaches K s (fst (checkType t c v ty))"
  by (simp add: checkType_def)

lemma checkType_cases: "checkType t c v ty = (if obj_type v = ty then (t, False) else (addReply t c shared_wrongtypeerr, True))"
  by (simp add: checkType_def)

lemma checkStringLength_reaches: "reaches K s t \<Longrightarrow> reaches K s (fst (checkStringLength t c n))"
  by (simp add: checkStringLength_def)

lemma encoded_arg_eq: "arg_ok a \<Longrightarrow> encoded_arg a = Some (encode_ref a)"
  unfolding encoded_arg_def by (subst tryObjectEncoding_ref) (simp_all add: arg_ok_def)

lemma encode_arg_ok: "arg_ok a \<Longrightarrow> obj_ok (encode_ref a)"
  by (rule encode_ref_ok) (simp add: arg_ok_def)

lemma setGeneric_ok:
  assumes "reaches K s t" "obj_ok val"
  shows "\<exists>u. setGenericCommand t c name nx xx key val expire unit ok_r abort_r = Some u \<and> reaches K s u"
proof -
  define p where "p = (case expire of
           None \<Rightarrow> Some (t, Some 0)
         | Some e \<Rightarrow>
             do {
               (s, ms) \<leftarrow> getLongLongFromObjectOrReply t c (Some (RawStr e)) None;
               Some (case ms of
                 None \<Rightarrow> (s, None)
               | Some ms \<Rightarrow>
                   if ms \<le>s 0 then (addReplyError s c (str ''invalid expire time in '' @ name), None)
                   else (s, Some (if unit = UNIT_SECONDS then ms * 1000 else ms)))
             })"
  have "\<exists>t1 ms. p = Some (t1, ms) \<and> reaches K s t1"
  proof (cases expire)
    case (Some e)
    obtain t1 r where "getLongLongFromObjectOrReply t c (Some (RawStr e)) None = Some (t1, r)" "reaches K s t1"
      using getLongLong_ok [OF assms(1), of "Some (RawStr e)"] by fastforce
    then show ?thesis using Some by (auto simp: p_def split: option.split)
  qed (use assms(1) in \<open>simp add: p_def\<close>)
  then obtain t1 ms where p: "p = Some (t1, ms)" "reaches K s t1" by blast
  show ?thesis
  proof (cases ms)
    case None
    then show ?thesis using p by (simp add: setGenericCommand_def p_def)
  next
    case (Some w)
    let ?d = "c_db (cl t1 c)"
    have "\<exists>t2 a. (if nx then lookupKeyWrite t1 ?d key else Some (t1, None)) = Some (t2, a) \<and> reaches K s t2"
      using lookupKeyWrite_ok [OF p(2), of ?d key] p(2) by auto
    then obtain t2 a where t2: "(if nx then lookupKeyWrite t1 ?d key else Some (t1, None)) = Some (t2, a)" "reaches K s t2" by blast
    have "\<exists>t3 b. (if xx \<and> \<not> (nx \<and> a \<noteq> None) then lookupKeyWrite t2 (c_db (cl t2 c)) key else Some (t2, Some val)) = Some (t3, b) \<and> reaches K s t3"
      using lookupKeyWrite_ok [OF t2(2), of "c_db (cl t2 c)" key] t2(2) by auto
    then obtain t3 b where t3: "(if xx \<and> \<not> (nx \<and> a \<noteq> None) then lookupKeyWrite t2 (c_db (cl t2 c)) key else Some (t2, Some val)) = Some (t3, b)"
      "reaches K s t3" by blast
    show ?thesis
    proof (cases "nx \<and> a \<noteq> None \<or> xx \<and> b = None")
      case True
      have "setGenericCommand t c name nx xx key val expire unit ok_r abort_r = Some (addReply t3 c abort_r)"
        unfolding setGenericCommand_def p_def [symmetric] using p(1) Some t2(1) t3(1) True by simp
      then show ?thesis using t3(2) by simp
    next
      case False
      let ?e = "c_db (cl t3 c)"
      obtain t4 where t4: "setKey t3 ?e key val = Some t4" "reaches K s t4" "db_dict (sdbs t4 ?e) key = Some val" "c_db (cl t4 c) = ?e"
        "\<forall>c\<in>set (watchers t4 ?e key). c_dirty_cas (cl t4 c)"
        using setKey_ok [OF t3(2) assms(2), of ?e key] by blast
      let ?t5 = "t4\<lparr>dirty := dirty t4 + 1\<rparr>"
      have r5: "reaches K s ?t5" using t4(2) by simp
      \<comment> \<open>setting the expire comes after the signal, but the watchers are marked by then\<close>
      have "\<exists>t6. (if expire \<noteq> None then setExpire ?t5 (c_db (cl ?t5 c)) key (mstime ?t5 + w) else Some ?t5) = Some t6 \<and> reaches K s t6"
        using setExpire_marked [OF r5, of "c_db (cl t4 c)" key "mstime t4 + w"] r5 t4(3-5) by (auto simp: watchers_def)
      then show ?thesis
        unfolding setGenericCommand_def p_def [symmetric] using p(1) Some t2(1) t3(1) t4(1) False by auto
    qed
  qed
qed

lemma set_ok: "reaches K s t \<Longrightarrow> 2 < length (c_argv (cl t c)) \<Longrightarrow> \<exists>u. setCommand t c = Some u \<and> reaches K s u"
  using setGeneric_ok [of K s t "encode_ref (argument t c 2)"] key_of_arg [of K s t 2 c]
  by (auto simp: setCommand_def encoded_arg_eq encode_arg_ok split: option.split)

lemma setnx_ok: "reaches K s t \<Longrightarrow> 2 < length (c_argv (cl t c)) \<Longrightarrow> \<exists>u. setnxCommand t c = Some u \<and> reaches K s u"
  using setGeneric_ok [of K s t "encode_ref (argument t c 2)"] key_of_arg [of K s t 2 c]
  by (simp add: setnxCommand_def encoded_arg_eq encode_arg_ok)

lemma setex_ok: "reaches K s t \<Longrightarrow> 3 < length (c_argv (cl t c)) \<Longrightarrow> \<exists>u. setexCommand t c = Some u \<and> reaches K s u"
  using setGeneric_ok [of K s t "encode_ref (argument t c 3)"] key_of_arg [of K s t 3 c]
  by (simp add: setexCommand_def encoded_arg_eq encode_arg_ok)

lemma psetex_ok: "reaches K s t \<Longrightarrow> 3 < length (c_argv (cl t c)) \<Longrightarrow> \<exists>u. psetexCommand t c = Some u \<and> reaches K s u"
  using setGeneric_ok [of K s t "encode_ref (argument t c 3)"] key_of_arg [of K s t 3 c]
  by (simp add: psetexCommand_def encoded_arg_eq encode_arg_ok)

lemma lookupReadOrReply_ok:
  assumes "reaches K s t"
  shows "\<exists>u v. lookupKeyReadOrReply t c k r = Some (u, v) \<and> reaches K s u \<and> v = db_dict (sdbs u (c_db (cl t c))) k
    \<and> c_db (cl u c) = c_db (cl t c) \<and> c_argv (cl u c) = c_argv (cl t c)"
  using lookupKeyWrite_ok [OF assms, of "c_db (cl t c)" k]
  by (auto simp: lookupKeyReadOrReply_def lookupKeyRead_eq)

lemma stored_value: "reaches K s t \<Longrightarrow> db_dict (sdbs t d) k = Some v \<Longrightarrow> obj_ok v"
  using srv_inv_facts(2) [OF reaches_inv] .

lemma bulk_of_value:
  assumes "reaches K s t" "db_dict (sdbs t d) k = Some v" "is_string v"
  shows "addReplyBulk fill v = Some (enc_arg (obj_bytes v))"
  using addReplyBulk_ok [OF assms(3) stored_value [OF assms(1,2)]] obj_ok_length [OF assms(3) stored_value [OF assms(1,2)]] by simp

lemma getGeneric_ok:
  assumes "reaches K s t"
  shows "\<exists>u b. getGenericCommand fill t c = Some (u, b) \<and> reaches K s u \<and> c_argv (cl u c) = c_argv (cl t c)"
proof -
  obtain u v where u: "lookupKeyReadOrReply t c (argument t c 1) shared_nullbulk = Some (u, v)" "reaches K s u"
    "v = db_dict (sdbs u (c_db (cl t c))) (argument t c 1)" "c_argv (cl u c) = c_argv (cl t c)"
    using lookupReadOrReply_ok [OF assms] by blast
  show ?thesis
  proof (cases v)
    case None
    then show ?thesis using u by (simp add: getGenericCommand_def ex_bool_eq)
  next
    case (Some w)
    then show ?thesis using u bulk_of_value [OF u(2), of _ _ w]
      by (cases "is_string w") (simp_all add: getGenericCommand_def ex_bool_eq)
  qed
qed

lemma get_ok: "reaches K s t \<Longrightarrow> \<exists>u. getCommand fill t c = Some u \<and> reaches K s u"
  using getGeneric_ok [of K s t fill c] by (auto simp: getCommand_def)

lemma getset_ok:
  assumes "reaches K s t" "2 < length (c_argv (cl t c))"
  shows "\<exists>u. getsetCommand fill t c = Some u \<and> reaches K s u"
proof -
  obtain u b where u: "getGenericCommand fill t c = Some (u, b)" "reaches K s u" "c_argv (cl u c) = c_argv (cl t c)"
    using getGeneric_ok [OF assms(1)] by blast
  have a: "arg_ok (argument u c 2)" using key_of_arg [OF assms] u(3) by simp
  then obtain v where "setKey u (c_db (cl u c)) (argument u c 1) (encode_ref (argument u c 2)) = Some v" "reaches K s v"
    using setKey_ok [OF u(2) encode_arg_ok [OF a]] by blast
  then show ?thesis using u a by (cases b) (simp_all add: getsetCommand_def encoded_arg_eq)
qed

lemma strlen_ok:
  assumes "reaches K s t"
  shows "\<exists>u. strlenCommand fill t c = Some u \<and> reaches K s u"
proof -
  obtain u v where u: "lookupKeyReadOrReply t c (argument t c 1) shared_czero = Some (u, v)" "reaches K s u"
    "v = db_dict (sdbs u (c_db (cl t c))) (argument t c 1)"
    using lookupReadOrReply_ok [OF assms] by blast
  show ?thesis
  proof (cases v)
    case None
    then show ?thesis using u by (simp add: strlenCommand_def)
  next
    case (Some w)
    then show ?thesis using u stored_value [OF u(2), of _ _ w] stringObjectLen_ok [of w fill]
      by (cases "is_string w") (simp_all add: strlenCommand_def checkType_cases)
  qed
qed

lemma getrange_ok:
  assumes "reaches K s t"
  shows "\<exists>u. getrangeCommand fill t c = Some u \<and> reaches K s u"
proof -
  obtain t1 a where t1: "getLongLongFromObjectOrReply t c (Some (RawStr (argument t c 2))) None = Some (t1, a)" "reaches K s t1"
    using getLongLong_ok [OF assms, of "Some (RawStr (argument t c 2))"] by fastforce
  obtain t2 b where t2: "getLongLongFromObjectOrReply t1 c (Some (RawStr (argument t1 c 3))) None = Some (t2, b)" "reaches K s t2"
    using getLongLong_ok [OF t1(2), of "Some (RawStr (argument t1 c 3))"] by fastforce
  obtain u v where u: "lookupKeyReadOrReply t2 c (argument t2 c 1) shared_emptybulk = Some (u, v)" "reaches K s u"
    "v = db_dict (sdbs u (c_db (cl t2 c))) (argument t2 c 1)"
    using lookupReadOrReply_ok [OF t2(2)] by blast
  show ?thesis
  proof (cases "a = None \<or> b = None \<or> v = None")
    case True
    then show ?thesis using t1 t2 u by (auto simp: getrangeCommand_def split: option.split)
  next
    case False
    then obtain w where w: "v = Some w" by (cases v) auto
    then have "obj_ok w" using stored_value [OF u(2)] u(3) by simp
    then show ?thesis using False w t1 t2 u string_bytes_eq [of w 32 fill]
      by (cases "is_string w") (auto simp: getrangeCommand_def checkType_cases split_beta Let_def)
  qed
qed

lemma mget_loop_ok: "reaches K s t \<Longrightarrow> \<exists>u. mget_loop fill t c keys = Some u \<and> reaches K s u"
proof (induction keys arbitrary: t)
  case (Cons key keys)
  obtain u v where u: "lookupKeyRead t (c_db (cl t c)) key = Some (u, v)" "reaches K s u" "v = db_dict (sdbs u (c_db (cl t c))) key"
    using lookupKeyWrite_ok [OF Cons.prems, of "c_db (cl t c)" key] unfolding lookupKeyRead_eq by blast
  have "\<exists>r. (case v of None \<Rightarrow> Some shared_nullbulk
      | Some v \<Rightarrow> if obj_type v \<noteq> StringType then Some shared_nullbulk else addReplyBulk fill v) = Some r"
  proof (cases v)
    case (Some w)
    then show ?thesis using u bulk_of_value [OF u(2), of _ _ w fill] by (cases "is_string w") auto
  qed simp
  then show ?case using u Cons.IH [of "addReply u c r" for r] by fastforce
qed simp

lemma mget_ok: "reaches K s t \<Longrightarrow> \<exists>u. mgetCommand fill t c = Some u \<and> reaches K s u"
  unfolding mgetCommand_def by (rule mget_loop_ok) simp

lemma busy_loop_ok: "reaches K s t \<Longrightarrow> \<exists>u m. busy_loop t c ps n = Some (u, m) \<and> reaches K s u"
proof (induction t c ps n rule: busy_loop.induct)
  case (1 t c key val rest n)
  then show ?case using lookupKeyWrite_ok [OF 1(2), of "c_db (cl t c)" key] by fastforce
qed simp_all

lemma mset_loop_ok: "reaches K s t \<Longrightarrow> list_all arg_ok ps \<Longrightarrow> \<exists>u. mset_loop t c ps = Some u \<and> reaches K s u"
proof (induction t c ps rule: mset_loop.induct)
  case (1 t c key val rest)
  obtain u where "setKey t (c_db (cl t c)) key (encode_ref val) = Some u" "reaches K s u"
    using setKey_ok [OF 1(2) encode_arg_ok, of val "c_db (cl t c)" key] 1(3) by auto
  then show ?case using 1 by (simp add: encoded_arg_eq)
qed simp_all

lemma mset_ok:
  assumes "reaches K s t"
  shows "\<exists>u. msetGenericCommand t c nx = Some u \<and> reaches K s u"
proof -
  let ?ps = "tl (c_argv (cl t c))"
  have args: "list_all arg_ok ?ps"
    using srv_inv_facts(8) [OF reaches_inv [OF assms], of c] by (cases "c_argv (cl t c)") simp_all
  obtain u m where u: "(if nx then busy_loop t c ?ps 0 else Some (t, 0)) = Some (u, m)" "reaches K s u"
    using busy_loop_ok [OF assms, of c ?ps 0] assms by (cases nx) auto
  obtain v where "mset_loop u c ?ps = Some v" "reaches K s v" using mset_loop_ok [OF u(2) args] by blast
  then show ?thesis using u assms by (auto simp: msetGenericCommand_def Let_def)
qed

lemma unshare_ok:
  assumes "reaches K s t" "db_dict (sdbs t d) k = Some v" "is_string v"
  shows "\<exists>u. dbUnshareStringValue fill shared t d k v = Some (u, obj_bytes v) \<and> reaches (insert (d, k) K) s u \<and> cl u = cl t
    \<and> (\<exists>w. u = t \<or> u = upd_db t d (\<lambda>x. x\<lparr>db_dict := (db_dict x)(k \<mapsto> RawStr w)\<rparr>))"
proof -
  have ok: "obj_ok v" using stored_value [OF assms(1,2)] .
  obtain dec where dec: "getDecodedObject fill v = Some dec" "obj_bytes dec = obj_bytes v"
    using getDecodedObject_ok [OF assms(3) ok] by blast
  have raw: "obj_ok (RawStr (obj_bytes v))" using obj_ok_length [OF assms(3) ok] by simp
  obtain u where u: "dbOverwrite t d k (RawStr (obj_bytes v)) = Some u" "reaches (insert (d, k) K) s u"
    "u = upd_db t d (\<lambda>x. x\<lparr>db_dict := (db_dict x)(k \<mapsto> RawStr (obj_bytes v))\<rparr>)"
    using dbOverwrite_ok [OF assms(1) raw, of d k] assms(2) by auto
  show ?thesis
  proof (cases "\<not> shared \<and> (\<exists>b. v = RawStr b)")
    case True
    then have "dbUnshareStringValue fill shared t d k v = Some (t, obj_bytes v)" by (auto simp: dbUnshareStringValue_def)
    moreover have "reaches (insert (d, k) K) s t" using assms(1) by (rule reaches_mono) blast
    ultimately show ?thesis by (intro exI [of _ t]) simp
  next
    case False
    then have "dbUnshareStringValue fill shared t d k v =
        do { decoded \<leftarrow> getDecodedObject fill v; s \<leftarrow> dbOverwrite t d k (RawStr (obj_bytes decoded)); Some (s, obj_bytes decoded) }"
      by (cases shared; cases v) (simp_all add: dbUnshareStringValue_def)
    then have "dbUnshareStringValue fill shared t d k v = Some (u, obj_bytes v)" using dec u(1) by simp
    moreover have "cl u = cl t" using u(3) by simp
    ultimately show ?thesis using u(2,3) by (intro exI [of _ u] conjI exI [of _ "obj_bytes v"]) simp_all
  qed
qed

lemma reaches_store:
  "reaches K s t \<Longrightarrow> length b \<le> 512 * 1024 * 1024 \<Longrightarrow> reaches (insert (d, k) K) s (store_bytes t d k b)"
  unfolding store_bytes_def by (rule reaches_set) simp_all

lemma string_length_le: "checkStringLength s c n = (u, True) \<Longrightarrow> \<not> n <s 0 \<Longrightarrow> unat n \<le> 512 * 1024 * 1024"
proof -
  assume a: "checkStringLength s c n = (u, True)" "\<not> n <s 0"
  have "\<not> 512 * 1024 * 1024 <s n" using a(1) by (simp add: checkStringLength_def split: if_splits)
  then have "0 \<le> sint n" "sint n \<le> 512 * 1024 * 1024" using a(2) by (simp_all add: word_sless_alt)
  then have "uint n \<le> 512 * 1024 * 1024" using uint_sint64 [of n] by simp
  then have "int (unat n) \<le> 512 * 1024 * 1024" by (simp only: uint_nat)
  then show ?thesis by linarith
qed

lemma length_write_at: "offset + length value \<le> newlen \<Longrightarrow> length (write_at b offset value newlen) = max newlen (length b)"
  by (simp add: write_at_def length_mem_put max_def)

lemma append_ok:
  assumes "reaches K s t" "2 < length (c_argv (cl t c))"
  shows "\<exists>u. appendCommand fill t c = Some u \<and> reaches K s u"
proof -
  let ?key = "argument t c 1" and ?x = "argument t c 2" and ?d = "c_db (cl t c)"
  obtain t1 v where t1: "lookupKeyWrite t ?d ?key = Some (t1, v)" "reaches K s t1" "v = db_dict (sdbs t1 ?d) ?key"
    using lookupKeyWrite_ok [OF assms(1)] by blast
  have x: "arg_ok ?x" "length ?x \<le> 512 * 1024 * 1024" using key_of_arg [OF assms] by (simp_all add: arg_ok_def)
  show ?thesis
  proof (cases v)
    case None
    obtain t2 where t2: "dbAdd t1 ?d ?key (encode_ref ?x) = Some t2" "reaches (insert (?d, ?key) K) s t2"
      using dbAdd_ok [OF t1(2) encode_arg_ok [OF x(1)], of ?d ?key] None t1(3) by auto
    have "stringObjectLen fill (encode_ref ?x :: 'a robj) = Some (length ?x)"
      using stringObjectLen_ok [OF encode_ref_bytes(2) encode_arg_ok [OF x(1)]] by simp
    then show ?thesis
      using t1(1) t2(1) None x(1) reaches_signal [OF t2(2)] by (simp add: appendCommand_def encoded_arg_eq Let_def)
  next
    case (Some w)
    have w: "obj_ok w" using stored_value [OF t1(2)] t1(3) Some by simp
    show ?thesis
    proof (cases "is_string w")
      case False
      then show ?thesis using t1(1,2) Some by (simp add: appendCommand_def checkType_cases Let_def)
    next
      case True
      note len = stringObjectLen_ok [OF True w, of fill]
      let ?n = "length (obj_bytes w) + length ?x"
      have "?n \<le> 1024 * 1024 * 1024" using obj_ok_length [OF True w] x(2) by simp
      then have n: "unat (of_nat ?n :: u64) = ?n" "\<not> (of_nat ?n :: u64) <s 0"
        by (simp_all add: unat_of_nat_small word_sless_alt sint_of_nat del: of_nat_add)
      obtain t2 b where t2: "checkStringLength t1 c (of_nat ?n) = (t2, b)" by fastforce
      show ?thesis
      proof (cases b)
        case False
        then show ?thesis using t1(1,2) t2 Some True len checkStringLength_reaches [OF t1(2), of c "of_nat ?n"]
          by (simp add: appendCommand_def checkType_cases Let_def del: of_nat_add)
      next
        case yes: True
        then have eq: "t2 = t1" using t2 by (auto simp: checkStringLength_def split: if_splits)
        have small: "length (obj_bytes w @ ?x) \<le> 512 * 1024 * 1024" using string_length_le [of t1 c "of_nat ?n"] t2 yes n by simp
        obtain t3 where t3: "dbUnshareStringValue fill False t1 ?d ?key w = Some (t3, obj_bytes w)" "reaches (insert (?d, ?key) K) s t3"
          using unshare_ok [OF t1(2), of ?d ?key w] t1(3) Some True by auto
        have "reaches (insert (?d, ?key) K) s (store_bytes t3 ?d ?key (obj_bytes w @ ?x))"
          using reaches_store [OF t3(2) small, of ?d ?key] by simp
        from reaches_signal [OF this] show ?thesis using t1(1) t2 t3(1) yes eq Some True len
          by (simp add: appendCommand_def checkType_cases Let_def del: of_nat_add)
      qed
    qed
  qed
qed

lemma getLongLong_value:
  assumes "reaches K s t" "\<And>w. v = Some w \<Longrightarrow> is_string w \<and> obj_ok w"
  obtains r where "getLongLongFromObject v = Some r"
proof (cases v)
  case (Some w)
  then have "\<exists>r. getLongLongFromObject (Some w) = Some r" using assms(2) by (cases w) auto
  then show ?thesis using that Some by blast
qed (use that in simp)

lemma reply_number: "string_bytes fill 32 (createStringObjectFromLongLong n) = Some (decimal (sint n))"
  using long_in_range [of n] by (auto simp: createStringObjectFromLongLong_def word_sless_alt word_sle_eq)

lemma number_object: "createStringObjectFromLongLong n = IntStr n"
  using long_in_range [of n] by (auto simp: createStringObjectFromLongLong_def word_sless_alt word_sle_eq)

lemma incrDecr_ok:
  assumes "reaches K s t"
  shows "\<exists>u. incrDecrCommand fill t c n = Some u \<and> reaches K s u"
proof -
  let ?key = "argument t c 1" and ?d = "c_db (cl t c)"
  obtain t1 v where t1: "lookupKeyWrite t ?d ?key = Some (t1, v)" "reaches K s t1" "v = db_dict (sdbs t1 ?d) ?key"
    using lookupKeyWrite_ok [OF assms] by blast
  show ?thesis
  proof (cases "\<exists>w. v = Some w \<and> \<not> is_string w")
    case True
    then show ?thesis using t1 by (auto simp: incrDecrCommand_def checkType_cases Let_def)
  next
    case False
    then have str: "is_string w \<and> obj_ok w" if "v = Some w" for w using that stored_value [OF t1(2)] t1(3) by auto
    then have sel: "(case v of None \<Rightarrow> (t1, False) | Some w \<Rightarrow> checkType t1 c w StringType) = (t1, False)"
      by (auto simp: checkType_cases split: option.split)
    obtain r where r: "getLongLongFromObject v = Some r" using getLongLong_value [OF t1(2)] str by blast
    obtain t2 where t2: "getLongLongFromObjectOrReply t1 c v None = Some (t2, r)" "reaches K s t2" "r \<noteq> None \<longrightarrow> t2 = t1"
      using getLongLong_ok [OF t1(2) r, of c None] by blast
    show ?thesis
    proof (cases "r = None \<or> incr_overflows (the r) n")
      case True
      then show ?thesis using t1(1) t2 sel by (cases r) (auto simp: incrDecrCommand_def Let_def)
    next
      case False
      then obtain old where old: "r = Some old" "\<not> incr_overflows old n" "t2 = t1" using t2(3) by (cases r) auto
      let ?new = "createStringObjectFromLongLong (old + n)"
      obtain t3 where t3: "(if v \<noteq> None then dbOverwrite t1 ?d ?key ?new else dbAdd t1 ?d ?key ?new) = Some t3"
        "reaches (insert (?d, ?key) K) s t3"
      proof (cases v)
        case None
        then have "\<exists>u. dbAdd t1 ?d ?key ?new = Some u \<and> reaches (insert (?d, ?key) K) s u"
          using dbAdd_ok [OF t1(2), of ?new ?d ?key] t1(3) by (auto simp: number_object)
        then show ?thesis using that None by auto
      next
        case (Some w)
        then have "\<exists>u. dbOverwrite t1 ?d ?key ?new = Some u \<and> reaches (insert (?d, ?key) K) s u"
          using dbOverwrite_ok [OF t1(2), of ?new ?d ?key] t1(3) by (auto simp: number_object)
        then show ?thesis using that Some by auto
      qed
      show ?thesis using t1(1) t2(1) t3(1) old sel reaches_signal [OF t3(2)]
        by (auto simp: incrDecrCommand_def Let_def reply_number split: if_splits)
    qed
  qed
qed

lemma incrby_ok: "reaches K s t \<Longrightarrow> \<exists>u. incrbyCommand fill t c = Some u \<and> reaches K s u"
  using getLongLong_ok [of K s t "Some (RawStr (argument t c 2))" _ c None] incrDecr_ok
  by (fastforce simp: incrbyCommand_def split: option.split)

lemma decrby_ok: "reaches K s t \<Longrightarrow> \<exists>u. decrbyCommand fill t c = Some u \<and> reaches K s u"
  using getLongLong_ok [of K s t "Some (RawStr (argument t c 2))" _ c None] incrDecr_ok
  by (fastforce simp: decrbyCommand_def split: option.split)

text \<open>\<open>SETRANGE\<close> is safe while the sum of offset and length is in the range of \<open>long\<close>.\<close>

definition setrange_safe :: "bytes \<Rightarrow> bytes \<Rightarrow> bool" where
  "setrange_safe offset value \<longleftrightarrow>
    (\<forall>n. ll_of_bytes offset = Some n \<longrightarrow> sint n + int (length value) < 2 ^ 63)"

lemma sint_add_nat:
  "0 \<le> sint (n :: u64) \<Longrightarrow> sint n + int m < 2 ^ 63 \<Longrightarrow> sint (n + of_nat m) = sint n + int m"
  using sint_in_range [of "sint n + int m"] by simp

lemma checkStringLength_fst: "checkStringLength t c n = (u, b) \<Longrightarrow> (b \<longrightarrow> u = t) \<and> c_db (cl u c') = c_db (cl t c') \<and> sdbs u = sdbs t"
  by (auto simp: checkStringLength_def addReplyError_def addReply_def upd_client_def split: if_splits)

lemma setrange_ok:
  assumes "reaches K s t" "512 * 1024 * 1024 \<le> mem" "setrange_safe (argument t c 2) (argument t c 3)"
  shows "\<exists>u. setrangeCommand fill mem t c = Some u \<and> reaches K s u"
proof -
  let ?key = "argument t c 1" and ?val = "argument t c 3" and ?d = "c_db (cl t c)"
  obtain t1 off where t1: "getLongLongFromObjectOrReply t c (Some (RawStr (argument t c 2))) None = Some (t1, off)"
    "reaches K s t1" "off = ll_of_bytes (argument t c 2)"
    using getLongLong_ok [OF assms(1), of "Some (RawStr (argument t c 2))"] by fastforce
  show ?thesis
  proof (cases "off = None \<or> the off <s 0")
    case True
    then show ?thesis using t1(1,2) by (cases off) (auto simp: setrangeCommand_def getLong_eq Let_def)
  next
    case False
    then obtain n where n: "off = Some n" "\<not> n <s 0" by auto
    let ?len = "n + of_nat (length ?val)"
    have sum: "sint ?len = sint n + int (length ?val)" "\<not> ?len <s 0"
      using sint_add_nat [of n "length ?val"] n assms(3) t1(3) by (auto simp: setrange_safe_def word_sless_alt)
    have u: "unat ?len = unat n + length ?val"
      using sum n(2) uint_sint64 [of ?len] uint_sint64 [of n] by (simp add: word_sless_alt unat_eq_nat_uint nat_add_distrib)
    obtain t2 v where t2: "lookupKeyWrite t1 ?d ?key = Some (t2, v)" "reaches K s t2" "v = db_dict (sdbs t2 ?d) ?key"
      using lookupKeyWrite_ok [OF t1(2)] by blast
    obtain t3 b where t3: "checkStringLength t2 c ?len = (t3, b)" by fastforce
    have r3: "reaches K s t3" using checkStringLength_reaches [OF t2(2), of c ?len] t3 by simp
    have same: "t3 = t2" if b using checkStringLength_fst [OF t3] that by simp
    have small: "unat ?len \<le> 512 * 1024 * 1024" if b using string_length_le [of t2 c ?len t3] t3 sum(2) that by simp
    have stored: "\<exists>w. Some (addReplyInt fill ((signalModifiedKey (store_bytes u ?d ?key (write_at old (unat n) ?val (unat ?len))) ?d ?key)
          \<lparr>dirty := dirty (signalModifiedKey (store_bytes u ?d ?key (write_at old (unat n) ?val (unat ?len))) ?d ?key) + 1\<rparr>) c
          (of_nat (length (write_at old (unat n) ?val (unat ?len))))) = Some w \<and> reaches K s w"
      if h: b "reaches (insert (?d, ?key) K) s u" "length old \<le> 512 * 1024 * 1024" for u old
    proof -
      have "length (write_at old (unat n) ?val (unat ?len)) \<le> 512 * 1024 * 1024"
        using small [OF h(1)] h(3) length_write_at [of "unat n" ?val "unat ?len" old] u by simp
      from reaches_signal [OF reaches_store [OF h(2) this, of ?d ?key, simplified]] show ?thesis by simp
    qed
    show ?thesis
    proof (cases v)
      case None
      show ?thesis
      proof (cases "length ?val = 0 \<or> \<not> b")
        case True
        then show ?thesis using t1(1) t2(1,2) t3 r3 n None
          by (cases "length ?val = 0") (auto simp: setrangeCommand_def getLong_eq Let_def)
      next
        case go: False
        obtain t4 where "dbAdd t2 ?d ?key (RawStr []) = Some t4" "reaches (insert (?d, ?key) K) s t4"
          using dbAdd_ok [OF t2(2), of "RawStr []" ?d ?key] None t2(3) by auto
        then show ?thesis using t1(1) t2(1) t3 n None go same small assms(2) stored [of t4 "[]"]
          by (simp add: setrangeCommand_def getLong_eq Let_def)
      qed
    next
      case (Some w)
      have w: "obj_ok w" using stored_value [OF t2(2)] t2(3) Some by simp
      show ?thesis
      proof (cases "\<not> is_string w \<or> length ?val = 0 \<or> \<not> b")
        case True
        then show ?thesis using t1(1) t2(1,2) t3 r3 n Some stringObjectLen_ok [OF _ w, of fill]
          by (cases "is_string w"; cases "length ?val = 0") (auto simp: setrangeCommand_def getLong_eq checkType_cases Let_def)
      next
        case go: False
        obtain t4 where "dbUnshareStringValue fill False t2 ?d ?key w = Some (t4, obj_bytes w)" "reaches (insert (?d, ?key) K) s t4"
          using unshare_ok [OF t2(2), of ?d ?key w fill False] t2(3) Some go by auto
        then show ?thesis using t1(1) t2(1) t3 n Some go same small assms(2) stored [of t4 "obj_bytes w"]
            stringObjectLen_ok [OF _ w, of fill] obj_ok_length [OF _ w]
          by (simp add: setrangeCommand_def getLong_eq checkType_cases Let_def)
      qed
    qed
  qed
qed

end
