(* ===== verification/Strings_Ref.thy ===== *)
theory Strings_Ref
  imports Strings
begin

text \<open>
  The commands on plain strings (no time to live, no other types) as a refinement of operations on
  a map from keys to byte strings, errors and replies included.
\<close>

section \<open>The commands as operations on byte strings\<close>

datatype string_op =
    OGet bytes | OSet bytes bytes | OSetnx bytes bytes | OGetset bytes bytes | OStrlen bytes
  | OAppend bytes bytes | OIncrby bytes u64 | OGetrange bytes u64 u64 | OSetrange bytes u64 bytes

text \<open>The command line of an operation, numbers in decimal.\<close>

fun op_words :: "string_op \<Rightarrow> bytes list" where
  "op_words (OGet k) = [str ''get'', k]"
| "op_words (OSet k v) = [str ''set'', k, v]"
| "op_words (OSetnx k v) = [str ''setnx'', k, v]"
| "op_words (OGetset k v) = [str ''getset'', k, v]"
| "op_words (OStrlen k) = [str ''strlen'', k]"
| "op_words (OAppend k v) = [str ''append'', k, v]"
| "op_words (OIncrby k n) = [str ''incrby'', k, decimal (sint n)]"
| "op_words (OGetrange k i j) = [str ''getrange'', k, decimal (sint i), decimal (sint j)]"
| "op_words (OSetrange k i v) = [str ''setrange'', k, decimal (sint i), v]"

fun op_proc :: "byte \<Rightarrow> nat \<Rightarrow> string_op \<Rightarrow> 'x server \<Rightarrow> nat \<Rightarrow> 'x server option" where
  "op_proc fill mem (OGet k) = getCommand fill"
| "op_proc fill mem (OSet k v) = setCommand"
| "op_proc fill mem (OSetnx k v) = setnxCommand"
| "op_proc fill mem (OGetset k v) = getsetCommand fill"
| "op_proc fill mem (OStrlen k) = strlenCommand fill"
| "op_proc fill mem (OAppend k v) = appendCommand fill"
| "op_proc fill mem (OIncrby k n) = incrbyCommand fill"
| "op_proc fill mem (OGetrange k i j) = getrangeCommand fill"
| "op_proc fill mem (OSetrange k i v) = setrangeCommand fill mem"

text \<open>Running one command for client \<open>c\<close>: the new state and the reply, or nothing if the program aborts.\<close>

definition exec_string :: "byte \<Rightarrow> nat \<Rightarrow> nat \<Rightarrow> 'x server \<Rightarrow> string_op \<Rightarrow> 'x server \<times> bytes option" where
  "exec_string fill mem c s op =
    (let s0 = upd_client s c (\<lambda>cl. cl\<lparr>c_argv := op_words op, c_reply := []\<rparr>)
     in case op_proc fill mem op s0 c of
          None \<Rightarrow> (s, None)
        | Some s1 \<Rightarrow> (s1, Some (c_reply (cl s1 c))))"

text \<open>What the commands mean on a map of byte strings.\<close>

definition error_reply :: "string \<Rightarrow> bytes" where
  "error_reply msg = str ''-ERR '' @ str msg @ CRLF"

definition int_reply :: "int \<Rightarrow> bytes" where
  "int_reply i = ch CHR '':'' # decimal i @ CRLF"

definition opt_reply :: "bytes option \<Rightarrow> bytes" where
  "opt_reply v = (case v of None \<Rightarrow> shared_nullbulk | Some v \<Rightarrow> enc_arg v)"

definition value_of :: "bytes option \<Rightarrow> bytes" where
  "value_of v = (case v of None \<Rightarrow> [] | Some v \<Rightarrow> v)"

fun string_ref :: "(bytes \<rightharpoonup> bytes) \<Rightarrow> string_op \<Rightarrow> (bytes \<rightharpoonup> bytes) \<times> bytes option" where
  "string_ref m (OGet k) = (m, Some (opt_reply (m k)))"
| "string_ref m (OSet k v) = (m(k \<mapsto> v), Some shared_ok)"
| "string_ref m (OSetnx k v) = (if m k = None then (m(k \<mapsto> v), Some (int_reply 1)) else (m, Some (int_reply 0)))"
| "string_ref m (OGetset k v) = (m(k \<mapsto> v), Some (opt_reply (m k)))"
| "string_ref m (OStrlen k) = (m, Some (int_reply (int (length (value_of (m k))))))"
| "string_ref m (OAppend k v) =
    (let w = value_of (m k) @ v
     in if m k \<noteq> None \<and> length w > 512 * 1024 * 1024
        then (m, Some (error_reply ''string exceeds maximum allowed size (512MB)''))
        else (m(k \<mapsto> w), Some (int_reply (int (length w)))))"
| "string_ref m (OIncrby k n) =
    (case (case m k of None \<Rightarrow> Some 0 | Some v \<Rightarrow> ll_of_bytes v) of
       None \<Rightarrow> (m, Some (error_reply ''value is not an integer or out of range''))
     | Some i \<Rightarrow>
         if sint i + sint n < - (2 ^ 63) \<or> 2 ^ 63 \<le> sint i + sint n
         then (m, Some (error_reply ''increment or decrement would overflow''))
         else (m(k \<mapsto> decimal (sint i + sint n)), Some (int_reply (sint i + sint n))))"
| "string_ref m (OGetrange k i j) = (m, Some (enc_arg (range_ref (sint i) (sint j) (value_of (m k)))))"
| "string_ref m (OSetrange k i v) =
    (if sint i < 0 then (m, Some (error_reply ''offset is out of range''))
     else if v = [] then (m, Some (int_reply (int (length (value_of (m k))))))
     else if sint i + int (length v) > 512 * 1024 * 1024
     then (m, Some (error_reply ''string exceeds maximum allowed size (512MB)''))
     else
       let old = value_of (m k); i = nat (sint i);
           w = take i (old @ replicate (i - length old) 0) @ v @ drop (i + length v) old
       in (m(k \<mapsto> w), Some (int_reply (int (length w)))))"

text \<open>Arguments within the protocol's limit, and no offset beyond the range of \<open>long\<close>.\<close>

fun op_ok :: "string_op \<Rightarrow> bool" where
  "op_ok (OSetrange k i v) = (arg_ok k \<and> arg_ok v \<and> sint i + int (length v) < 2 ^ 63)"
| "op_ok op = list_all arg_ok (op_words op)"

definition strings_inv :: "'x server \<Rightarrow> nat \<Rightarrow> nat \<Rightarrow> bool" where
  "strings_inv s c d \<longleftrightarrow> srv_inv s \<and> c_db (cl s c) = d \<and> (\<forall>k. db_expires (sdbs s d) k = None)
    \<and> (\<forall>k v. db_dict (sdbs s d) k = Some v \<longrightarrow> is_string v)"

definition smap :: "'x server \<Rightarrow> nat \<Rightarrow> bytes \<rightharpoonup> bytes" where
  "smap s d k = map_option obj_bytes (db_dict (sdbs s d) k)"

text \<open>A state after a command: nothing but the map and the reply.\<close>

definition string_result :: "nat \<Rightarrow> nat \<Rightarrow> (bytes \<rightharpoonup> bytes) \<Rightarrow> bytes \<Rightarrow> 'x server option \<Rightarrow> bool" where
  "string_result c d m r u \<longleftrightarrow>
    (\<exists>s. u = Some s \<and> c_db (cl s c) = d \<and> (\<forall>k. db_expires (sdbs s d) k = None)
      \<and> (\<forall>k v. db_dict (sdbs s d) k = Some v \<longrightarrow> is_string v) \<and> smap s d = m \<and> c_reply (cl s c) = r)"

lemma reply_simps [simp]:
  "c_reply (cl (addReply s c r) c) = c_reply (cl s c) @ r"
  "c_reply (cl (addReplyError s c e) c) = c_reply (cl s c) @ str ''-ERR '' @ e @ CRLF"
  "c_reply (cl (addReplyInt fill s c i) c) = c_reply (cl s c) @ int_reply (sint i)"
  "c_db (cl (addReplyError s c e) c') = c_db (cl s c')" "c_db (cl (addReplyInt fill s c i) c') = c_db (cl s c')"
  "sdbs (store_bytes s d k b) = sdbs (upd_db s d (\<lambda>d. d\<lparr>db_dict := (db_dict d)(k \<mapsto> RawStr b)\<rparr>))"
  "cl (store_bytes s d k b) = cl s"
  by (simp_all add: addReply_def addReplyError_def addReplyInt_def upd_client_def integer_text int_reply_def store_bytes_def)

lemma lookup_plain:
  "srv_inv s \<Longrightarrow> db_expires (sdbs s d) k = None \<Longrightarrow> lookupKeyWrite s d k = Some (s, db_dict (sdbs s d) k)"
  using lookupKeyWrite_ok [OF reaches_refl, of s d k] by auto

lemma setKey_plain:
  assumes "srv_inv s" "db_expires (sdbs s d) k = None"
  shows "\<exists>u. setKey s d k v = Some (signalModifiedKey u d k) \<and> cl u = cl s
    \<and> db_dict (sdbs u d) = (db_dict (sdbs s d))(k \<mapsto> v) \<and> db_expires (sdbs u d) = (db_expires (sdbs s d))(k := None)"
  using assms lookup_plain [OF assms]
  by (cases "db_dict (sdbs s d) k") (auto simp: setKey_def dbAdd_def dbOverwrite_def removeExpire_def)

text \<open>The state in which a command starts.\<close>

lemma exec_start:
  assumes "strings_inv s c d" "list_all arg_ok (op_words op)" "s0 = upd_client s c (\<lambda>cl. cl\<lparr>c_argv := op_words op, c_reply := []\<rparr>)"
  shows "srv_inv s0" "c_argv (cl s0 c) = op_words op" "c_reply (cl s0 c) = []" "c_db (cl s0 c) = d" "sdbs s0 = sdbs s" "smap s0 d = smap s d"
    "\<And>k. db_expires (sdbs s0 d) k = None" "\<And>k v. db_dict (sdbs s0 d) k = Some v \<Longrightarrow> is_string v \<and> obj_ok v"
  using assms srv_inv_facts(2,6) [of s]
  by (auto simp: strings_inv_def upd_client_def smap_def intro!: inv_client [unfolded upd_client_def] ext)

lemma getLongLong_arg: "getLongLongFromObjectOrReply s c (Some (RawStr (decimal (sint i)))) m = Some (s, Some i)"
  by (simp add: getLongLongFromObjectOrReply_def)

lemma string_resultI:
  assumes "c_db (cl u c) = d" "db_expires (sdbs u d) = Map.empty" "\<And>k v. db_dict (sdbs u d) k = Some v \<Longrightarrow> is_string v"
    "\<And>k. map_option obj_bytes (db_dict (sdbs u d) k) = m k" "c_reply (cl u c) = r"
  shows "string_result c d m r (Some u)"
  using assms by (auto simp: string_result_def smap_def)

lemma set_plain:
  assumes "srv_inv s" "db_expires (sdbs s d) = Map.empty" "\<And>k v. db_dict (sdbs s d) k = Some v \<Longrightarrow> is_string v"
    "c_db (cl s c) = d" "c_reply (cl s c) = []"
  shows "string_result c d ((smap s d)(k \<mapsto> v)) r
    (do { s \<leftarrow> setKey s d k (encode_ref v); let s = s\<lparr>dirty := dirty s + n\<rparr>; Some (addReply s c r) })"
proof -
  obtain u where u: "setKey s d k (encode_ref v) = Some (signalModifiedKey u d k)" "cl u = cl s"
    "db_dict (sdbs u d) = (db_dict (sdbs s d))(k \<mapsto> encode_ref v)" "db_expires (sdbs u d) = (db_expires (sdbs s d))(k := None)"
    using setKey_plain [OF assms(1), of d k "encode_ref v"] assms(2) by auto
  show ?thesis using assms(2-5) u(2-4)
    by (auto simp: u(1) smap_def intro!: string_resultI split: if_splits)
qed

lemma get_plain:
  assumes "srv_inv s" "\<And>k. db_expires (sdbs s d) k = None" "\<And>k v. db_dict (sdbs s d) k = Some v \<Longrightarrow> is_string v \<and> obj_ok v"
    "c_db (cl s c) = d" "argument s c 1 = k"
  shows "getGenericCommand fill s c = Some (addReply s c (opt_reply (smap s d k)), True)"
proof (cases "db_dict (sdbs s d) k")
  case None
  then show ?thesis using assms lookup_plain [OF assms(1,2), of k]
    by (simp add: getGenericCommand_def lookupKeyReadOrReply_def lookupKeyRead_eq opt_reply_def smap_def)
next
  case (Some v)
  then show ?thesis using assms lookup_plain [OF assms(1,2), of k] bulk_of_value [OF reaches_refl [OF assms(1)], of d k v fill]
    by (simp add: getGenericCommand_def lookupKeyReadOrReply_def lookupKeyRead_eq opt_reply_def smap_def)
qed

definition plain_start :: "'x server \<Rightarrow> nat \<Rightarrow> nat \<Rightarrow> string_op \<Rightarrow> bool" where
  "plain_start s c d op \<longleftrightarrow> srv_inv s \<and> db_expires (sdbs s d) = Map.empty
    \<and> (\<forall>k v. db_dict (sdbs s d) k = Some v \<longrightarrow> is_string v \<and> obj_ok v)
    \<and> c_db (cl s c) = d \<and> c_reply (cl s c) = [] \<and> c_argv (cl s c) = op_words op"

definition step_result :: "byte \<Rightarrow> nat \<Rightarrow> 'x server \<Rightarrow> nat \<Rightarrow> nat \<Rightarrow> string_op \<Rightarrow> bool" where
  "step_result fill mem s c d op \<longleftrightarrow>
    (\<exists>m r. string_ref (smap s d) op = (m, Some r) \<and> string_result c d m r (op_proc fill mem op s c))"

lemma plain_startD:
  assumes "plain_start s c d op"
  shows "srv_inv s" "\<And>k. db_expires (sdbs s d) k = None" "\<And>k v. db_dict (sdbs s d) k = Some v \<Longrightarrow> is_string v"
    "\<And>k v. db_dict (sdbs s d) k = Some v \<Longrightarrow> obj_ok v" "c_db (cl s c) = d" "c_reply (cl s c) = []" "c_argv (cl s c) = op_words op"
    "\<And>k. lookupKeyWrite s d k = Some (s, db_dict (sdbs s d) k)" "\<And>k. lookupKeyRead s d k = Some (s, db_dict (sdbs s d) k)"
    "\<And>r k. lookupKeyReadOrReply s c k r = Some (if db_dict (sdbs s d) k = None then addReply s c r else s, db_dict (sdbs s d) k)"
  using assms by (auto simp: plain_start_def lookup_plain lookupKeyRead_eq lookupKeyReadOrReply_def)

text \<open>A reply without a change, and a new value with a reply.\<close>

lemma result_same:
  "plain_start s c d op \<Longrightarrow> c_reply (cl u c) = r \<Longrightarrow> sdbs u = sdbs s \<Longrightarrow> c_db (cl u c) = d \<Longrightarrow> string_result c d (smap s d) r (Some u)"
  by (rule string_resultI) (auto simp: plain_start_def smap_def)

lemma result_change:
  assumes "plain_start s c d op" "db_dict (sdbs u d) = (db_dict (sdbs s d))(k \<mapsto> v)" "db_expires (sdbs u d) = db_expires (sdbs s d)"
    "is_string v" "obj_bytes v = b" "c_db (cl u c) = d" "c_reply (cl u c) = r"
  shows "string_result c d ((smap s d)(k \<mapsto> b)) r (Some u)"
  using assms by (intro string_resultI) (auto simp: plain_start_def smap_def split: if_splits)

lemma opt_reply_simps: "opt_reply None = shared_nullbulk" "opt_reply (Some v) = enc_arg v"
  "value_of None = []" "value_of (Some v) = v"
  by (simp_all add: opt_reply_def value_of_def)

lemma int_reply_shared: "shared_czero = int_reply 0" "shared_cone = int_reply 1"
  by (simp_all add: shared_czero_def shared_cone_def int_reply_def decimal_def dec_nat_small digit_def)

lemma get_step: "plain_start s c d (OGet k) \<Longrightarrow> step_result fill mem s c d (OGet k)"
  using get_plain [of s d c k fill]
  by (auto simp: step_result_def getCommand_def plain_startD intro: result_same)

lemma set_step:
  assumes "plain_start s c d (OSet k v)" "arg_ok v"
  shows "step_result fill mem s c d (OSet k v)"
  using set_plain [of s d c k v shared_ok 1] plain_startD [OF assms(1)] assms
  by (simp add: step_result_def setCommand_def setGenericCommand_def encoded_arg_eq plain_start_def)

lemma setnx_step:
  assumes "plain_start s c d (OSetnx k v)" "arg_ok v"
  shows "step_result fill mem s c d (OSetnx k v)"
proof (cases "db_dict (sdbs s d) k")
  case None
  then show ?thesis
    using set_plain [of s d c k v shared_cone 1] plain_startD [OF assms(1)] assms
    by (simp add: step_result_def setnxCommand_def setGenericCommand_def encoded_arg_eq plain_start_def smap_def int_reply_shared)
next
  case (Some w)
  then show ?thesis
    using plain_startD [OF assms(1)] assms(2)
    by (simp add: step_result_def setnxCommand_def setGenericCommand_def encoded_arg_eq int_reply_shared
        smap_def [of s d k] result_same [OF assms(1)])
qed

lemma getset_step:
  assumes "plain_start s c d (OGetset k v)" "arg_ok v"
  shows "step_result fill mem s c d (OGetset k v)"
proof -
  note D = plain_startD [OF assms(1)]
  let ?s = "addReply s c (opt_reply (smap s d k))"
  have get: "getGenericCommand fill s c = Some (?s, True)" using D by (intro get_plain) simp_all
  have inv: "srv_inv ?s" using reaches_inv [OF reaches_addReply [OF reaches_refl [OF D(1)]]] .
  obtain u where u: "setKey ?s d k (encode_ref v) = Some (signalModifiedKey u d k)" "cl u = cl ?s"
    "db_dict (sdbs u d) = (db_dict (sdbs s d))(k \<mapsto> encode_ref v)" "db_expires (sdbs u d) = (db_expires (sdbs s d))(k := None)"
    using setKey_plain [OF inv, of d k "encode_ref v"] D(2) by auto
  have "getsetCommand fill s c = Some ((signalModifiedKey u d k)\<lparr>dirty := dirty (signalModifiedKey u d k) + 1\<rparr>)"
    using get u(1) D(5,7) assms(2) by (simp add: getsetCommand_def encoded_arg_eq)
  moreover have "db_expires (sdbs u d) = db_expires (sdbs s d)" using u(4) D(2) by auto
  ultimately show ?thesis using u D(5,6)
    by (simp add: step_result_def result_change [OF assms(1), where v = "encode_ref v"])
qed

lemma strlen_step:
  assumes "plain_start s c d (OStrlen k)"
  shows "step_result fill mem s c d (OStrlen k)"
proof (cases "db_dict (sdbs s d) k")
  case None
  then show ?thesis using plain_startD [OF assms]
    by (simp add: step_result_def strlenCommand_def smap_def [of s d k] int_reply_shared opt_reply_simps result_same [OF assms])
next
  case (Some v)
  note D = plain_startD [OF assms]
  have "sint (of_nat (length (obj_bytes v)) :: u64) = int (length (obj_bytes v))"
    using obj_ok_length [OF D(3) [OF Some] D(4) [OF Some]] by (intro sint_of_nat) simp
  then show ?thesis using Some D stringObjectLen_ok [OF D(3) [OF Some] D(4) [OF Some], of fill]
    by (simp add: step_result_def strlenCommand_def checkType_cases smap_def [of s d k] opt_reply_simps result_same [OF assms])
qed

lemma sint_add_lengths: "m \<le> 2 ^ 32 \<Longrightarrow> n \<le> 2 ^ 32 \<Longrightarrow> sint (of_nat m + of_nat n :: u64) = int m + int n"
  using sint_of_nat [of "m + n"] by simp

text \<open>What \<open>dbUnshareStringValue\<close> leaves behind is overwritten by the caller.\<close>

lemma unshare_plain:
  assumes "srv_inv s" "db_dict (sdbs s d) k = Some v" "is_string v" "obj_ok v"
  shows "\<exists>u. dbUnshareStringValue fill False s d k v = Some (u, obj_bytes v) \<and> cl u = cl s
    \<and> (\<forall>w. (db_dict (sdbs u d))(k \<mapsto> w) = (db_dict (sdbs s d))(k \<mapsto> w)) \<and> db_expires (sdbs u d) = db_expires (sdbs s d)"
proof -
  obtain u w where "dbUnshareStringValue fill False s d k v = Some (u, obj_bytes v)" "cl u = cl s"
    "u = s \<or> u = upd_db s d (\<lambda>x. x\<lparr>db_dict := (db_dict x)(k \<mapsto> RawStr w)\<rparr>)"
    using unshare_ok [OF reaches_refl [OF assms(1)] assms(2,3), of fill False] by blast
  then show ?thesis by (intro exI [of _ u]) auto
qed

lemma append_step:
  assumes "plain_start s c d (OAppend k v)" "arg_ok v"
  shows "step_result fill mem s c d (OAppend k v)"
proof (cases "db_dict (sdbs s d) k")
  case None
  note D = plain_startD [OF assms(1)]
  have len: "stringObjectLen fill (encode_ref v) = Some (length v)"
    using stringObjectLen_ok [OF encode_ref_bytes(2) encode_arg_ok [OF assms(2)]] by simp
  have "sint (of_nat (length v) :: u64) = int (length v)" using assms(2) by (intro sint_of_nat) (simp add: arg_ok_def)
  then show ?thesis using None D assms(2)
    by (simp add: step_result_def appendCommand_def dbAdd_def encoded_arg_eq len smap_def [of s d k] opt_reply_simps
        result_change [OF assms(1), where v = "encode_ref v"] Let_def)
next
  case (Some w)
  note D = plain_startD [OF assms(1)]
  note w = D(3) [OF Some] D(4) [OF Some]
  have lim: "length (obj_bytes w) \<le> 512 * 1024 * 1024" "length v \<le> 512 * 1024 * 1024"
    using obj_ok_length [OF w] assms(2) by (simp_all add: arg_ok_def)
  have sum: "sint (of_nat (length (obj_bytes w)) + of_nat (length v) :: u64) = int (length (obj_bytes w) + length v)"
    using lim by (subst sint_add_lengths) simp_all
  obtain u where u: "dbUnshareStringValue fill False s d k w = Some (u, obj_bytes w)" "cl u = cl s"
    "\<forall>w. (db_dict (sdbs u d))(k \<mapsto> w) = (db_dict (sdbs s d))(k \<mapsto> w)" "db_expires (sdbs u d) = db_expires (sdbs s d)"
    using unshare_plain [OF D(1) Some w, of fill] by blast
  show ?thesis
  proof (cases "512 * 1024 * 1024 < length (obj_bytes w) + length v")
    case True
    then have "checkStringLength s c (of_nat (length (obj_bytes w)) + of_nat (length v))
        = (addReplyError s c (str ''string exceeds maximum allowed size (512MB)''), False)"
      using sum by (simp add: checkStringLength_def word_sless_alt)
    then show ?thesis using Some D(5-10) True stringObjectLen_ok [OF w, of fill]
      by (simp add: step_result_def appendCommand_def checkType_cases w smap_def [of s d k] opt_reply_simps error_reply_def
          result_same [OF assms(1)] Let_def)
  next
    case False
    then have "checkStringLength s c (of_nat (length (obj_bytes w)) + of_nat (length v)) = (s, True)"
      using sum by (simp add: checkStringLength_def word_sless_alt)
    then show ?thesis using Some D(5-10) False stringObjectLen_ok [OF w, of fill] u sum
      by (simp add: step_result_def appendCommand_def checkType_cases w smap_def [of s d k] opt_reply_simps
          result_change [OF assms(1), where v = "RawStr (obj_bytes w @ v)"] Let_def)
  qed
qed

lemma llong_words: "word_of_int (- (2 ^ 63)) = LLONG_MIN" "word_of_int (2 ^ 63 - 1) = LLONG_MAX"
  by (simp_all add: limit_defs)

lemma overflow_iff: "incr_overflows i n \<longleftrightarrow> sint i + sint n < - (2 ^ 63) \<or> 2 ^ 63 \<le> sint i + sint n"
proof -
  have lim: "- (2 ^ 63) \<le> sint i" "sint i < 2 ^ 63" "- (2 ^ 63) \<le> sint n" "sint n < 2 ^ 63" using sint_range64 by auto
  have words: "word_of_int (- (2 ^ 63) - sint i) = LLONG_MIN - i" "word_of_int (2 ^ 63 - 1 - sint i) = LLONG_MAX - i"
    using llong_words by (simp_all only: wi_hom_sub [symmetric] of_int_sint scast_id)
  have min: "sint (LLONG_MIN - i) = - (2 ^ 63) - sint i" if "sint i < 0"
    using that lim unfolding words(1) [symmetric] by (intro sint_in_range) auto
  have max: "sint (LLONG_MAX - i) = 2 ^ 63 - 1 - sint i" if "0 < sint i"
    using that lim unfolding words(2) [symmetric] by (intro sint_in_range) auto
  show ?thesis
    using min max lim by (cases "sint i < 0"; cases "0 < sint i") (auto simp: incr_overflows_def word_sless_alt)
qed

lemma incrby_step:
  assumes "plain_start s c d (OIncrby k n)"
  shows "step_result fill mem s c d (OIncrby k n)"
proof -
  note D = plain_startD [OF assms]
  let ?v = "db_dict (sdbs s d) k"
  define r where "r = (case smap s d k of None \<Rightarrow> Some 0 | Some v \<Rightarrow> ll_of_bytes v)"
  have get: "getLongLongFromObject ?v = Some r"
    using D(3,4) [of k] by (cases ?v; cases "the ?v") (auto simp: r_def smap_def)
  have sel: "(case ?v of None \<Rightarrow> (s, False) | Some w \<Rightarrow> checkType s c w StringType) = (s, False)"
    using D(3) [of k] by (auto simp: checkType_cases split: option.split)
  have ref: "string_ref (smap s d) (OIncrby k n) =
    (case r of None \<Rightarrow> (smap s d, Some (error_reply ''value is not an integer or out of range''))
     | Some i \<Rightarrow> if incr_overflows i n then (smap s d, Some (error_reply ''increment or decrement would overflow''))
        else ((smap s d)(k \<mapsto> decimal (sint i + sint n)), Some (int_reply (sint i + sint n))))"
    by (simp only: string_ref.simps r_def overflow_iff)
  have proc: "op_proc fill mem (OIncrby k n) s c = incrDecrCommand fill s c n"
    using D(7) by (simp add: incrbyCommand_def getLongLong_arg)
  show ?thesis
  proof (cases r)
    case None
    then show ?thesis using D(5-10) get sel unfolding step_result_def ref proc
      by (simp add: incrDecrCommand_def getLongLongFromObjectOrReply_def error_reply_def not_integer_msg_def
          result_same [OF assms] Let_def)
  next
    case (Some i)
    show ?thesis
    proof (cases "incr_overflows i n")
      case True
      then show ?thesis using D(5-10) get sel Some unfolding step_result_def ref proc
        by (simp add: incrDecrCommand_def getLongLongFromObjectOrReply_def error_reply_def result_same [OF assms] Let_def)
    next
      case False
      then have sum: "sint (i + n) = sint i + sint n"
        using sint_in_range [of "sint i + sint n"] by (simp add: overflow_iff)
      have store: "(if \<exists>y. ?v = Some y then dbOverwrite s d k (IntStr (i + n)) else dbAdd s d k (IntStr (i + n)))
        = Some (upd_db s d (\<lambda>x. x\<lparr>db_dict := (db_dict x)(k \<mapsto> IntStr (i + n))\<rparr>))"
        by (cases ?v) (simp_all add: dbAdd_def dbOverwrite_def)
      show ?thesis using D(5-10) get sel Some False store sum unfolding step_result_def ref proc
        by (simp add: incrDecrCommand_def getLongLongFromObjectOrReply_def number_object int_reply_def
            result_change [OF assms, where v = "IntStr (i + n)"] Let_def)
    qed
  qed
qed

subsection \<open>Ranges\<close>

lemma sint_at_most: "sint (a + of_nat n :: u64) = sint a + int n" if "- (2 ^ 63) \<le> sint a + int n" "sint a + int n < 2 ^ 63"
  using sint_in_range [OF that] by simp

lemma word_of_nat_unat: "of_nat (unat w) = (w :: u64)"
  by simp

lemma range_bounds_ok:
  assumes "n \<le> 2 ^ 32" "0 < n" "range_bounds n i j = (a, b)"
  shows "sint a = int (norm_index n (sint i))" "sint b = int (min (norm_index n (sint j)) (n - 1))"
proof -
  have lim: "- (2 ^ 63) \<le> sint i" "sint i < 2 ^ 63" "- (2 ^ 63) \<le> sint j" "sint j < 2 ^ 63" using sint_range64 by auto
  have low: "sint (if (if x <s 0 then of_nat n + x else x) <s 0 then 0 else if x <s 0 then of_nat n + x else x) = int (norm_index n (sint x))"
    for x :: u64
  proof (cases "sint x < 0")
    case True
    then have "sint (of_nat n + x) = int n + sint x"
      using sint_at_most [of x n] assms(1) sint_range64 [of x] by (simp add: add.commute)
    then show ?thesis using True by (simp add: word_sless_alt norm_index_def)
  qed (simp add: word_sless_alt norm_index_def)
  define f where "f = (if (if j <s 0 then of_nat n + j else j) <s 0 then 0 else if j <s 0 then of_nat n + j else j)"
  have f: "sint f = int (norm_index n (sint j))" unfolding f_def by (rule low)
  have "uint f = int (norm_index n (sint j))" using f uint_sint64 [of f] by simp
  then have uf: "unat f = norm_index n (sint j)" by (simp add: unat_eq_nat_uint)
  have un: "unat (of_nat n :: u64) = n" using assms(1) by (simp add: unat_of_nat_small)
  have last: "sint (of_nat n - 1 :: u64) = int n - 1"
    using sint_of_nat [of "n - 1"] assms(1,2) by (simp add: of_nat_diff)
  have "a = (if (if i <s 0 then of_nat n + i else i) <s 0 then 0 else if i <s 0 then of_nat n + i else i)"
    "b = (if of_nat n \<le> f then of_nat n - 1 else f)"
    using assms(3) unfolding range_bounds_def f_def Let_def by (simp_all only: prod.inject)
  then show "sint a = int (norm_index n (sint i))" "sint b = int (min (norm_index n (sint j)) (n - 1))"
    using low [of i] f uf un last assms(2) by (auto simp: word_le_nat_alt min_def)
qed

lemma range_reply:
  assumes "n = length v" "n \<le> 2 ^ 32" "range_bounds n i j = (a, b)"
  shows "(if b <s a \<or> n = 0 then shared_emptybulk else addReplyBulkCBuffer fill (take (unat (b - a + 1)) (drop (unat a) v)))
    = enc_arg (range_ref (sint i) (sint j) v)"
proof -
  have empty: "shared_emptybulk = enc_arg []"
    by (simp add: shared_emptybulk_def enc_arg_def dec_nat_small digit_def)
  show ?thesis
  proof (cases "n = 0")
    case True
    then show ?thesis using assms(1) by (simp add: empty range_ref_def)
  next
    case False
    let ?i = "norm_index n (sint i)" and ?j = "norm_index n (sint j)"
    note ab = range_bounds_ok [OF assms(2) _ assms(3)]
    show ?thesis
    proof (cases "min ?j (n - 1) < ?i")
      case True
      then show ?thesis using ab False assms(1) by (auto simp: word_sless_alt empty range_ref_def min_def split: if_splits)
    next
      case le: False
      have "uint a = int ?i" "uint b = int (min ?j (n - 1))" using ab False uint_sint64 [of a] uint_sint64 [of b] by simp_all
      then have u: "unat a = ?i" "unat b = min ?j (n - 1)" by (simp_all add: unat_eq_nat_uint)
      have "b = of_nat (min ?j (n - 1))" "a = of_nat ?i"
        using word_of_nat_unat [of b] word_of_nat_unat [of a] by (simp_all only: u)
      then have "b - a + 1 = of_nat (Suc (min ?j (n - 1)) - ?i)"
        using le by (simp add: Suc_diff_le of_nat_diff)
      then have w: "unat (b - a + 1) = Suc (min ?j (n - 1)) - ?i"
        using assms(2) False by (simp add: unat_of_nat_small)
      have same: "take (Suc (min ?j (n - 1)) - ?i) (drop ?i v) = range_ref (sint i) (sint j) v"
        using False assms(1) by (auto simp: range_ref_def min_def)
      have "length (range_ref (sint i) (sint j) v) < 2 ^ 63"
        using assms(1,2) by (simp add: range_ref_def)
      then have "addReplyBulkCBuffer fill (range_ref (sint i) (sint j) v) = enc_arg (range_ref (sint i) (sint j) v)"
        by (simp only: addReplyBulkCBuffer_def prefix_text enc_arg_def append_Cons append_assoc)
      moreover have "take (unat (b - a + 1)) (drop (unat a) v) = range_ref (sint i) (sint j) v" by (simp only: u w same)
      ultimately show ?thesis using ab False le by (simp add: word_sless_alt)
    qed
  qed
qed

lemma getrange_step:
  assumes "plain_start s c d (OGetrange k i j)"
  shows "step_result fill mem s c d (OGetrange k i j)"
proof (cases "db_dict (sdbs s d) k")
  case None
  then show ?thesis using plain_startD [OF assms]
    by (simp add: step_result_def getrangeCommand_def getLongLong_arg smap_def [of s d k] opt_reply_simps range_ref_def
        shared_emptybulk_def enc_arg_def dec_nat_small digit_def result_same [OF assms])
next
  case (Some v)
  note D = plain_startD [OF assms]
  note v = D(3) [OF Some] D(4) [OF Some]
  obtain a b where ab: "range_bounds (length (obj_bytes v)) i j = (a, b)" by fastforce
  have r: "(if b <s a \<or> length (obj_bytes v) = 0 then shared_emptybulk
      else addReplyBulkCBuffer fill (take (unat (b - a + 1)) (drop (unat a) (obj_bytes v)))) = enc_arg (range_ref (sint i) (sint j) (obj_bytes v))"
    using obj_ok_length [OF v] by (intro range_reply [OF refl _ ab]) simp
  show ?thesis using Some D v ab r string_bytes_eq [OF v, of 32 fill]
    by (cases "b <s a \<or> length (obj_bytes v) = 0")
      (simp_all add: step_result_def getrangeCommand_def getLongLong_arg checkType_cases smap_def [of s d k] opt_reply_simps
        result_same [OF assms])
qed

lemma getLong_arg: "getLongFromObjectOrReply s c (Some (RawStr (decimal (sint i)))) m = Some (s, Some i)"
  by (simp add: getLong_eq getLongLong_arg)

lemma write_at_ref:
  "write_at b i v (i + length v) = take i (b @ replicate (i - length b) 0) @ v @ drop (i + length v) b"
  by (simp add: write_at_def mem_put_def min_def)

lemma setrange_step:
  assumes "plain_start s c d (OSetrange k i v)" "arg_ok v" "sint i + int (length v) < 2 ^ 63" "512 * 1024 * 1024 \<le> mem"
  shows "step_result fill mem s c d (OSetrange k i v)"
proof (cases "sint i < 0")
  case True
  then show ?thesis using plain_startD [OF assms(1)]
    by (simp add: step_result_def setrangeCommand_def getLong_arg word_sless_alt error_reply_def result_same [OF assms(1)] Let_def)
next
  case nonneg: False
  note D = plain_startD [OF assms(1)]
  let ?len = "i + of_nat (length v)" and ?n = "nat (sint i)"
  have sum: "sint ?len = sint i + int (length v)" using sint_add_nat [of i "length v"] nonneg assms(3) by simp
  have "uint i = sint i" "uint ?len = sint i + int (length v)" using nonneg sum uint_sint64 [of i] uint_sint64 [of ?len] by simp_all
  then have u: "unat i = ?n" "unat ?len = ?n + length v" using nonneg by (simp_all add: unat_eq_nat_uint nat_add_distrib)
  have chk: "checkStringLength s c ?len = (if 512 * 1024 * 1024 < sint i + int (length v)
      then (addReplyError s c (str ''string exceeds maximum allowed size (512MB)''), False) else (s, True))"
    using sum by (simp add: checkStringLength_def word_sless_alt)
  have fits: "unat ?len \<le> mem" if "\<not> 512 * 1024 * 1024 < sint i + int (length v)"
    using that nonneg assms(4) u by linarith
  have new: "sint (of_nat (length (write_at b ?n v (?n + length v))) :: u64) = int (length (write_at b ?n v (?n + length v)))"
    if "\<not> 512 * 1024 * 1024 < sint i + int (length v)" "length b \<le> 512 * 1024 * 1024" for b
  proof -
    have "length (write_at b ?n v (?n + length v)) \<le> 512 * 1024 * 1024"
      using that nonneg length_write_at [of ?n v "?n + length v" b] by simp
    then show ?thesis by (intro sint_of_nat) simp
  qed
  note defs = step_result_def setrangeCommand_def getLong_arg word_sless_alt error_reply_def Let_def
  show ?thesis
  proof (cases "db_dict (sdbs s d) k")
    case None
    consider "v = []" | "v \<noteq> []" "512 * 1024 * 1024 < sint i + int (length v)" | "v \<noteq> []" "\<not> 512 * 1024 * 1024 < sint i + int (length v)"
      by blast
    then show ?thesis
    proof cases
      case 1
      then show ?thesis using None nonneg D(5-10)
        by (simp add: defs smap_def [of s d k] opt_reply_simps int_reply_shared result_same [OF assms(1)])
    next
      case 2
      then show ?thesis using None nonneg D(5-10) chk
        by (simp add: defs smap_def [of s d k] opt_reply_simps result_same [OF assms(1)])
    next
      case 3
      have w: "write_at [] ?n v (?n + length v) = replicate ?n 0 @ v" by (simp add: write_at_ref)
      have "sint (of_nat (?n + length v) :: u64) = int (?n + length v)" using new [of "[]"] 3 by (simp add: w del: of_nat_add)
      then show ?thesis using None nonneg D(5-10) chk 3 u fits [OF 3(2)]
        by (simp add: defs dbAdd_def smap_def [of s d k] opt_reply_simps w
            result_change [OF assms(1), where v = "RawStr (replicate ?n 0 @ v)"])
    qed
  next
    case (Some w)
    note w = D(3) [OF Some] D(4) [OF Some]
    have lw: "length (obj_bytes w) \<le> 512 * 1024 * 1024" using obj_ok_length [OF w] .
    obtain t where t: "dbUnshareStringValue fill False s d k w = Some (t, obj_bytes w)" "cl t = cl s"
      "\<forall>w. (db_dict (sdbs t d))(k \<mapsto> w) = (db_dict (sdbs s d))(k \<mapsto> w)" "db_expires (sdbs t d) = db_expires (sdbs s d)"
      using unshare_plain [OF D(1) Some w, of fill] by blast
    consider "v = []" | "v \<noteq> []" "512 * 1024 * 1024 < sint i + int (length v)" | "v \<noteq> []" "\<not> 512 * 1024 * 1024 < sint i + int (length v)"
      by blast
    then show ?thesis
    proof cases
      case 1
      have "sint (of_nat (length (obj_bytes w)) :: u64) = int (length (obj_bytes w))"
        using lw by (intro sint_of_nat) simp
      then show ?thesis using 1 Some nonneg D(5-10) w stringObjectLen_ok [OF w, of fill]
        by (simp add: defs checkType_cases smap_def [of s d k] opt_reply_simps result_same [OF assms(1)])
    next
      case 2
      then show ?thesis using Some nonneg D(5-10) w stringObjectLen_ok [OF w, of fill] chk
        by (simp add: defs checkType_cases smap_def [of s d k] opt_reply_simps result_same [OF assms(1)])
    next
      case 3
      let ?w = "write_at (obj_bytes w) ?n v (?n + length v)"
      have ref: "string_ref (smap s d) (OSetrange k i v) = ((smap s d)(k \<mapsto> ?w), Some (int_reply (int (length ?w))))"
        using 3 nonneg Some by (simp add: write_at_ref smap_def [of s d k] opt_reply_simps Let_def)
      have "sint (of_nat (length ?w) :: u64) = int (length ?w)" using new [OF 3(2) lw] .
      then show ?thesis using Some nonneg D(5-10) w stringObjectLen_ok [OF w, of fill] chk 3 u fits [OF 3(2)] t
        by (simp add: defs checkType_cases ref result_change [OF assms(1), where v = "RawStr ?w"] del: string_ref.simps)
    qed
  qed
qed

subsection \<open>Sequences of commands\<close>

lemma step_ok:
  assumes "plain_start s c d op" "op_ok op" "512 * 1024 * 1024 \<le> mem"
  shows "step_result fill mem s c d op"
  using assms
  by (cases op)
    (simp_all add: get_step set_step setnx_step getset_step strlen_step append_step incrby_step getrange_step setrange_step)

lemma op_runs:
  assumes "srv_inv s" "c_argv (cl s c) = op_words op" "op_ok op" "512 * 1024 * 1024 \<le> mem"
  shows "\<exists>u. op_proc fill mem op s c = Some u \<and> srv_inv u"
proof -
  have r: "reaches UNIV s s" using reaches_refl [OF assms(1)] .
  have "\<exists>u. op_proc fill mem op s c = Some u \<and> reaches UNIV s u"
    using assms(2-4)
    by (cases op)
      (auto simp: get_ok [OF r] set_ok [OF r] setnx_ok [OF r] getset_ok [OF r] strlen_ok [OF r] append_ok [OF r] incrby_ok [OF r]
        getrange_ok [OF r] setrange_safe_def intro!: setrange_ok [OF r])
  then show ?thesis by (auto dest: reaches_inv)
qed

lemma op_args: "op_ok op \<Longrightarrow> list_all arg_ok (op_words op)"
  using order_trans [OF length_decimal_le, of "512 * 1024 * 1024"] by (cases op) (auto simp: arg_ok_def)

lemma exec_string_step:
  assumes "strings_inv s c d" "op_ok op" "512 * 1024 * 1024 \<le> mem"
  shows "strings_inv (fst (exec_string fill mem c s op)) c d
    \<and> (smap (fst (exec_string fill mem c s op)) d, snd (exec_string fill mem c s op)) = string_ref (smap s d) op"
proof -
  define s0 where "s0 = upd_client s c (\<lambda>cl. cl\<lparr>c_argv := op_words op, c_reply := []\<rparr>)"
  note E = exec_start [OF assms(1) op_args [OF assms(2)] s0_def]
  have start: "plain_start s0 c d op" using E by (auto simp: plain_start_def)
  obtain u where u: "op_proc fill mem op s0 c = Some u" "srv_inv u" using op_runs [OF E(1,2) assms(2,3)] by blast
  obtain m r where r: "string_ref (smap s0 d) op = (m, Some r)" "string_result c d m r (Some u)"
    using step_ok [OF start assms(2,3), of fill] u(1) by (auto simp: step_result_def)
  then show ?thesis using u E(6)
    by (auto simp: exec_string_def s0_def [symmetric] string_result_def strings_inv_def)
qed

text \<open>
  C10: The commands \<open>GET\<close>, \<open>SET\<close>, \<open>SETNX\<close>, \<open>GETSET\<close>, \<open>STRLEN\<close>, \<open>APPEND\<close>, \<open>INCRBY\<close>, \<open>GETRANGE\<close> and
  \<open>SETRANGE\<close>, run in any order by a client on a database of plain strings without expires, behave
  as the operations of a map from keys to byte strings: every reply, error replies included, is the
  one the map gives, no command aborts, and the state stays well formed.  How a value is encoded
  (raw, embedded or as an integer) shows nowhere.

  This holds for arguments as the request parser delivers them (at most 512 MB), when the allocator
  can grow a string to 512 MB, and for \<open>SETRANGE\<close> with an offset and a value whose sum stays below
  \<open>2 ^ 63\<close>.  Above that the map gives the size error and the code aborts: property
  \<open>setrange_overflow_aborts\<close> below.
\<close>

theorem string_commands_refine_map:
  assumes "strings_inv s c d" "\<forall>op\<in>set ops. op_ok op" "512 * 1024 * 1024 \<le> mem"
  shows "strings_inv (fst (run_ops (exec_string fill mem c) s ops)) c d
    \<and> (smap (fst (run_ops (exec_string fill mem c) s ops)) d, snd (run_ops (exec_string fill mem c) s ops))
      = run_ops string_ref (smap s d) ops"
  by (rule run_ops_simulation [where count = "\<lambda>_. 0" and cap = "length ops" and ok = op_ok])
    (use assms in \<open>simp_all add: exec_string_step\<close>)

text \<open>A number is stored, incremented, extended to a text and overwritten in the middle.\<close>

definition example_ops :: "string_op list" where
  "example_ops = [OSet (str ''k'') (str ''10''), OIncrby (str ''k'') 5, OAppend (str ''k'') (str ''x''),
     OIncrby (str ''k'') 1, OSetrange (str ''k'') 1 (str ''ab''), OGetrange (str ''k'') (- 2) (- 1), OGet (str ''none'')]"

lemma example_start: "strings_inv (createClient (initServer 16 0) 0) 0 0"
  using createClient_inv [OF initServer_inv, of 16 0 0]
  by (simp add: strings_inv_def) (simp add: createClient_def upd_client_def initServer_def)

lemma example_empty: "smap (createClient (initServer 16 0) 0) 0 = Map.empty"
  by (rule ext) (simp add: smap_def createClient_def initServer_def upd_client_def)

lemma example_ok: "\<forall>op\<in>set example_ops. op_ok op"
  by (simp add: example_ops_def arg_ok_def decimal_def dec_nat.simps)

lemma example_numbers:
  "ll_of_bytes [49, 48] = Some 10" "ll_of_bytes [49, 53, 120] = None"
  by code_simp+

lemma example_replies:
  "snd (run_ops string_ref Map.empty example_ops)
   = [Some (str ''+OK'' @ CRLF), Some (str '':15'' @ CRLF), Some (str '':3'' @ CRLF),
      Some (str ''-ERR value is not an integer or out of range'' @ CRLF), Some (str '':3'' @ CRLF),
      Some (str ''$2'' @ CRLF @ str ''ab'' @ CRLF), Some (str ''$-1'' @ CRLF)]"
  by (simp add: example_ops_def opt_reply_simps range_ref_def norm_index_def example_numbers
      int_reply_def error_reply_def shared_ok_def shared_nullbulk_def enc_arg_def decimal_def dec_nat.simps digit_def)

theorem string_commands_refine_map_witness:
  "snd (run_ops (exec_string 0 (512 * 1024 * 1024) 0) (createClient (initServer 16 0) 0) example_ops)
   = [Some (str ''+OK'' @ CRLF), Some (str '':15'' @ CRLF), Some (str '':3'' @ CRLF),
      Some (str ''-ERR value is not an integer or out of range'' @ CRLF), Some (str '':3'' @ CRLF),
      Some (str ''$2'' @ CRLF @ str ''ab'' @ CRLF), Some (str ''$-1'' @ CRLF)]"
  using arg_cong [OF conjunct2 [OF string_commands_refine_map [OF example_start example_ok order_refl]], where f = snd]
  unfolding example_empty example_replies [symmetric] by (rule subst [OF snd_conv])

subsection \<open>Overflow\<close>

lemma wrapped_length:
  assumes "0 \<le> sint (i :: u64)" "2 ^ 63 \<le> sint i + int n" "n \<le> 2 ^ 32"
  shows "sint (i + of_nat n) < 0" "2 ^ 63 \<le> unat (i + of_nat n)"
proof -
  have "sint i < 2 ^ 63" by (rule sint_range64)
  then have wrap: "sint (word_of_int (sint i + int n - 2 ^ 64) :: u64) = sint i + int n - 2 ^ 64"
    using assms by (intro sint_in_range) simp_all
  have "word_of_int (sint i + int n - 2 ^ 64) = (word_of_int (sint i + int n) :: u64)"
    unfolding word_of_int_eq_iff by (simp add: take_bit_eq_mod)
  also have "\<dots> = i + of_nat n" by simp
  finally have s: "sint (i + of_nat n) = sint i + int n - 2 ^ 64" using wrap by (simp only:)
  then show neg: "sint (i + of_nat n) < 0" using \<open>sint i < 2 ^ 63\<close> assms(3) by simp
  have "uint (i + of_nat n) = sint i + int n" using s neg uint_sint64 [of "i + of_nat n"] by simp
  then have "unat (i + of_nat n) = nat (sint i + int n)" by (simp only: unat_eq_nat_uint)
  then show "2 ^ 63 \<le> unat (i + of_nat n)" using assms(2) by simp
qed

text \<open>
  C30: \<open>SETRANGE\<close> with an offset so large that offset plus length leaves the range of
  \<open>long long\<close> is not refused: the sum reaches \<open>checkStringLength\<close> as a negative number, which
  passes, and the string is then grown to more than \<open>2 ^ 63\<close> bytes, so the allocation fails and
  the program aborts.
\<close>

theorem setrange_overflow_aborts:
  assumes "srv_inv s" "c_argv (cl s c) = [name, k, decimal (sint (i :: u64)), v]" "v \<noteq> []"
    "0 \<le> sint i" "2 ^ 63 \<le> sint i + int (length v)" "mem < 2 ^ 63"
    "\<forall>w. db_dict (sdbs s (c_db (cl s c))) k = Some w \<longrightarrow> is_string w"
    "db_expires (sdbs s (c_db (cl s c))) k = None"
  shows "setrangeCommand fill mem s c = None"
proof -
  let ?d = "c_db (cl s c)" and ?len = "i + of_nat (length v)"
  have "arg_ok v" using srv_inv_facts(8) [OF assms(1), of c] assms(2) by simp
  then have len: "length v \<le> 2 ^ 32" by (simp add: arg_ok_def)
  note neg = wrapped_length [OF assms(4,5) len]
  have chk: "checkStringLength t c ?len = (t, True)" for t :: "'a server"
    using neg(1) by (simp add: checkStringLength_def word_sless_alt)
  have big: "mem < unat ?len" using neg(2) assms(6) by linarith
  have look: "lookupKeyWrite s ?d k = Some (s, db_dict (sdbs s ?d) k)" using lookup_plain [OF assms(1,8)] .
  have start: "\<not> i <s 0" using assms(4) by (simp add: word_sless_alt)
  note r = reaches_refl [OF assms(1), of UNIV]
  show ?thesis
  proof (cases "db_dict (sdbs s ?d) k")
    case None
    then obtain u where "dbAdd s ?d k (RawStr []) = Some u"
      using dbAdd_ok [OF r, of "RawStr []" ?d k] by auto
    then show ?thesis using None look start big assms(2,3) chk [of s]
      by (simp add: setrangeCommand_def getLong_arg Let_def)
  next
    case (Some x)
    then have x: "is_string x" "obj_ok x" using assms(7) stored_value [OF r, of ?d k x] by auto
    obtain u where "dbUnshareStringValue fill False s ?d k x = Some (u, obj_bytes x)"
      using unshare_ok [OF r Some x(1), of fill False] by auto
    then show ?thesis using Some x look start big assms(2,3) chk [of s] stringObjectLen_ok [of x fill]
      by (simp add: setrangeCommand_def getLong_arg checkType_cases Let_def)
  qed
qed

definition overflow_server :: "'x server" where
  "overflow_server = upd_client (createClient (initServer 16 0) 0) 0
     (\<lambda>c. c\<lparr>c_argv := [str ''setrange'', str ''k'', decimal (2 ^ 63 - 1), str ''x'']\<rparr>)"

theorem setrange_overflow_aborts_witness:
  "setrangeCommand 0 (2 ^ 40) (overflow_server :: unit server) 0 = None"
proof (rule setrange_overflow_aborts [where name = "str ''setrange''" and k = "str ''k''" and i = LLONG_MAX and v = "str ''x''"])
  have "srv_inv (createClient (initServer 16 0) 0 :: unit server)"
    using createClient_inv [OF initServer_inv, of 16 0 0] by (simp add: initServer_def)
  then show "srv_inv (overflow_server :: unit server)"
    unfolding overflow_server_def by (rule inv_client) (simp_all add: arg_ok_def decimal_def dec_nat.simps createClient_def initServer_def upd_client_def)
qed (simp_all add: overflow_server_def LLONG_MAX_def createClient_def initServer_def upd_client_def)

end
