(* ===== verification/Multi.thy ===== *)
theory Multi
  imports Strings
begin

text \<open>
  Command dispatch (\<open>call\<close> and \<open>processCommand\<close> of \<open>redis.c\<close>) and the transactions of
  \<open>multi.c\<close>, for the commands on keys and strings.  What the dispatcher asks of parts that are
  not modelled is collected in a record \<open>env\<close>: the lookup function of the command dictionary and
  the conditions under which commands are refused.  \<open>None\<close> is an aborted or corrupted program.
\<close>

section \<open>The command table\<close>

definition cmd_has :: "redisCommand \<Rightarrow> char \<Rightarrow> bool" where
  "cmd_has cmd f \<longleftrightarrow> f \<in> set (cmd_sflags cmd)"

abbreviation (input) entry :: "string \<Rightarrow> command_proc \<Rightarrow> int \<Rightarrow> string \<Rightarrow> int \<Rightarrow> redisCommand" where
  "entry n p a f k \<equiv> \<lparr>cmd_name = str n, cmd_proc = p, cmd_arity = a, cmd_sflags = f, cmd_firstkey = k\<rparr>"

text \<open>The entries of the commands modelled here.\<close>

definition redisCommandTable :: "redisCommand list" where
  "redisCommandTable =
    [entry ''get'' GetCommand 2 ''rF'' 1, entry ''set'' SetCommand (- 3) ''wm'' 1,
     entry ''setnx'' SetnxCommand 3 ''wmF'' 1, entry ''setex'' SetexCommand 4 ''wm'' 1,
     entry ''psetex'' PsetexCommand 4 ''wm'' 1, entry ''append'' AppendCommand 3 ''wm'' 1,
     entry ''strlen'' StrlenCommand 2 ''rF'' 1, entry ''del'' DelCommand (- 2) ''w'' 1,
     entry ''exists'' ExistsCommand 2 ''rF'' 1, entry ''setrange'' SetrangeCommand 4 ''wm'' 1,
     entry ''getrange'' GetrangeCommand 4 ''r'' 1, entry ''substr'' GetrangeCommand 4 ''r'' 1,
     entry ''incr'' IncrCommand 2 ''wmF'' 1, entry ''decr'' DecrCommand 2 ''wmF'' 1,
     entry ''mget'' MgetCommand (- 2) ''r'' 1, entry ''incrby'' IncrbyCommand 3 ''wmF'' 1,
     entry ''decrby'' DecrbyCommand 3 ''wmF'' 1, entry ''getset'' GetsetCommand 3 ''wm'' 1,
     entry ''mset'' MsetCommand (- 3) ''wm'' 1, entry ''msetnx'' MsetnxCommand (- 3) ''wm'' 1,
     entry ''select'' SelectCommand 2 ''rlF'' 0, entry ''move'' MoveCommand 3 ''wF'' 1,
     entry ''rename'' RenameCommand 3 ''w'' 1, entry ''renamenx'' RenamenxCommand 3 ''wF'' 1,
     entry ''expire'' ExpireCommand 3 ''wF'' 1, entry ''expireat'' ExpireatCommand 3 ''wF'' 1,
     entry ''pexpire'' PexpireCommand 3 ''wF'' 1, entry ''pexpireat'' PexpireatCommand 3 ''wF'' 1,
     entry ''dbsize'' DbsizeCommand 1 ''rF'' 0, entry ''ping'' PingCommand (- 1) ''rtF'' 0,
     entry ''type'' TypeCommand 2 ''rF'' 1, entry ''multi'' MultiCommand 1 ''rsF'' 0,
     entry ''exec'' ExecCommand 1 ''sM'' 0, entry ''discard'' DiscardCommand 1 ''rsF'' 0,
     entry ''flushdb'' FlushdbCommand 1 ''w'' 0, entry ''flushall'' FlushallCommand 1 ''w'' 0,
     entry ''ttl'' TtlCommand 2 ''rF'' 1, entry ''pttl'' PttlCommand 2 ''rF'' 1,
     entry ''persist'' PersistCommand 2 ''wF'' 1, entry ''watch'' WatchCommand (- 2) ''rsF'' 1,
     entry ''unwatch'' UnwatchCommand 1 ''rsF'' 0]"

text \<open>The command dictionary at start: keys are compared without regard to case.\<close>

definition populateCommandTable :: "redisCommand list \<Rightarrow> bytes \<Rightarrow> redisCommand option" where
  "populateCommandTable tbl name = map_of (map (\<lambda>c. (cmd_name c, c)) tbl) (map tolower name)"

section \<open>Transactions\<close>

definition propagate :: "'x server \<Rightarrow> nat \<Rightarrow> bytes list \<Rightarrow> 'x server" where
  "propagate s db args = s\<lparr>propagated := propagated s @ [(aof_enabled s, True, db, args)]\<rparr>"

definition queueMultiCommand :: "'x server \<Rightarrow> nat \<Rightarrow> redisCommand \<Rightarrow> 'x server" where
  "queueMultiCommand s c cmd = upd_client s c (\<lambda>cl. cl\<lparr>c_mstate := c_mstate cl @ [(cmd, c_argv cl)]\<rparr>)"

definition flagTransaction :: "'x server \<Rightarrow> nat \<Rightarrow> 'x server" where
  "flagTransaction s c = upd_client s c (\<lambda>cl. if c_multi cl then cl\<lparr>c_dirty_exec := True\<rparr> else cl)"

text \<open>The client is in the list of every key it watches; \<open>listDelNode\<close> needs a node.\<close>

fun unwatch_loop :: "'x server \<Rightarrow> nat \<Rightarrow> (nat \<times> bytes) list \<Rightarrow> 'x server option" where
  "unwatch_loop s c [] = Some s"
| "unwatch_loop s c ((db, key) # wks) =
    (case db_watched (sdbs s db) key of
       None \<Rightarrow> None
     | Some clients \<Rightarrow>
         if c \<notin> set clients then None
         else
           (let clients = remove1 c clients;
                s = upd_db s db (\<lambda>d. d\<lparr>db_watched := (db_watched d)(key := if clients = [] then None else Some clients)\<rparr>);
                s = upd_client s c (\<lambda>cl. cl\<lparr>c_watched_keys := tl (c_watched_keys cl)\<rparr>)
            in unwatch_loop s c wks))"

definition unwatchAllKeys :: "'x server \<Rightarrow> nat \<Rightarrow> 'x server option" where
  "unwatchAllKeys s c = unwatch_loop s c (c_watched_keys (cl s c))"

definition discardTransaction :: "'x server \<Rightarrow> nat \<Rightarrow> 'x server option" where
  "discardTransaction s c =
    unwatchAllKeys
      (upd_client s c (\<lambda>cl. cl\<lparr>c_mstate := [], c_multi := False, c_dirty_cas := False, c_dirty_exec := False\<rparr>)) c"

definition multiCommand :: "'x server \<Rightarrow> nat \<Rightarrow> 'x server" where
  "multiCommand s c =
    (if c_multi (cl s c) then addReplyError s c (str ''MULTI calls can not be nested'')
     else addReply (upd_client s c (\<lambda>cl. cl\<lparr>c_multi := True\<rparr>)) c shared_ok)"

definition discardCommand :: "'x server \<Rightarrow> nat \<Rightarrow> 'x server option" where
  "discardCommand s c =
    (if \<not> c_multi (cl s c) then Some (addReplyError s c (str ''DISCARD without MULTI''))
     else do { s \<leftarrow> discardTransaction s c; Some (addReply s c shared_ok) })"

definition watchForKey :: "'x server \<Rightarrow> nat \<Rightarrow> bytes \<Rightarrow> 'x server" where
  "watchForKey s c key =
    (let db = c_db (cl s c)
     in if (db, key) \<in> set (c_watched_keys (cl s c)) then s
        else
          (let clients = (case db_watched (sdbs s db) key of None \<Rightarrow> [] | Some clients \<Rightarrow> clients);
               s = upd_db s db (\<lambda>d. d\<lparr>db_watched := (db_watched d)(key \<mapsto> clients @ [c])\<rparr>)
           in upd_client s c (\<lambda>cl. cl\<lparr>c_watched_keys := c_watched_keys cl @ [(db, key)]\<rparr>)))"

definition watchCommand :: "'x server \<Rightarrow> nat \<Rightarrow> 'x server" where
  "watchCommand s c =
    (if c_multi (cl s c) then addReplyError s c (str ''WATCH inside MULTI is not allowed'')
     else addReply (foldl (\<lambda>s key. watchForKey s c key) s (tl (c_argv (cl s c)))) c shared_ok)"

definition unwatchCommand :: "'x server \<Rightarrow> nat \<Rightarrow> 'x server option" where
  "unwatchCommand s c =
    do {
      s \<leftarrow> unwatchAllKeys s c;
      Some (addReply (upd_client s c (\<lambda>cl. cl\<lparr>c_dirty_cas := False\<rparr>)) c shared_ok)
    }"

section \<open>Calling a command\<close>

definition pingCommand :: "byte \<Rightarrow> 'x server \<Rightarrow> nat \<Rightarrow> 'x server option" where
  "pingCommand fill s c =
    (let args = c_argv (cl s c)
     in if 2 < length args then Some (addReplyError s c (str ''wrong number of arguments for 'ping' command''))
        else if c_pubsub (cl s c)
        then
          (let s = addReply s c (str ''*2'' @ CRLF); s = addReply s c (addReplyBulkCBuffer fill (str ''pong''))
           in if length args = 1 then Some (addReply s c (addReplyBulkCBuffer fill []))
              else do { r \<leftarrow> addReplyBulk fill (RawStr (argument s c 1) :: 'x robj); Some (addReply s c r) })
        else if length args = 1 then Some (addReply s c shared_pong)
        else do { r \<leftarrow> addReplyBulk fill (RawStr (argument s c 1) :: 'x robj); Some (addReply s c r) })"

text \<open>The functions of the table; \<open>EXEC\<close> follows below, since it calls the others.\<close>

fun command_run :: "byte \<Rightarrow> nat \<Rightarrow> command_proc \<Rightarrow> 'x server \<Rightarrow> nat \<Rightarrow> 'x server option" where
  "command_run fill mem GetCommand s c = getCommand fill s c"
| "command_run fill mem SetCommand s c = setCommand s c"
| "command_run fill mem SetnxCommand s c = setnxCommand s c"
| "command_run fill mem SetexCommand s c = setexCommand s c"
| "command_run fill mem PsetexCommand s c = psetexCommand s c"
| "command_run fill mem AppendCommand s c = appendCommand fill s c"
| "command_run fill mem StrlenCommand s c = strlenCommand fill s c"
| "command_run fill mem DelCommand s c = delCommand fill s c"
| "command_run fill mem ExistsCommand s c = existsCommand s c"
| "command_run fill mem SetrangeCommand s c = setrangeCommand fill mem s c"
| "command_run fill mem GetrangeCommand s c = getrangeCommand fill s c"
| "command_run fill mem IncrCommand s c = incrCommand fill s c"
| "command_run fill mem DecrCommand s c = decrCommand fill s c"
| "command_run fill mem MgetCommand s c = mgetCommand fill s c"
| "command_run fill mem IncrbyCommand s c = incrbyCommand fill s c"
| "command_run fill mem DecrbyCommand s c = decrbyCommand fill s c"
| "command_run fill mem GetsetCommand s c = getsetCommand fill s c"
| "command_run fill mem MsetCommand s c = msetCommand s c"
| "command_run fill mem MsetnxCommand s c = msetnxCommand s c"
| "command_run fill mem SelectCommand s c = selectCommand s c"
| "command_run fill mem MoveCommand s c = moveCommand s c"
| "command_run fill mem RenameCommand s c = renameCommand s c"
| "command_run fill mem RenamenxCommand s c = renamenxCommand s c"
| "command_run fill mem ExpireCommand s c = expireCommand s c"
| "command_run fill mem ExpireatCommand s c = expireatCommand s c"
| "command_run fill mem PexpireCommand s c = pexpireCommand s c"
| "command_run fill mem PexpireatCommand s c = pexpireatCommand s c"
| "command_run fill mem DbsizeCommand s c = Some (dbsizeCommand fill s c)"
| "command_run fill mem TypeCommand s c = typeCommand s c"
| "command_run fill mem TtlCommand s c = ttlCommand fill s c"
| "command_run fill mem PttlCommand s c = pttlCommand fill s c"
| "command_run fill mem PersistCommand s c = persistCommand s c"
| "command_run fill mem FlushdbCommand s c = Some (flushdbCommand s c)"
| "command_run fill mem FlushallCommand s c = Some (flushallCommand s c)"
| "command_run fill mem PingCommand s c = pingCommand fill s c"
| "command_run fill mem MultiCommand s c = Some (multiCommand s c)"
| "command_run fill mem DiscardCommand s c = discardCommand s c"
| "command_run fill mem WatchCommand s c = Some (watchCommand s c)"
| "command_run fill mem UnwatchCommand s c = unwatchCommand s c"
| "command_run fill mem ExecCommand s c = None"

text \<open>
  A call runs the function and propagates the command if it changed anything.  Monitors, the slow
  log, statistics and scripts are left out; no modelled command forces its propagation.
\<close>

definition call :: "(command_proc \<Rightarrow> 'x server \<Rightarrow> nat \<Rightarrow> 'x server option) \<Rightarrow> redisCommand \<Rightarrow> 'x server \<Rightarrow> nat \<Rightarrow> 'x server option" where
  "call run cmd s c =
    do {
      t \<leftarrow> run (cmd_proc cmd) s c;
      Some (if dirty t - dirty s > 0 then propagate t (c_db (cl t c)) (c_argv (cl t c)) else t)
    }"

definition execCommandPropagateMulti :: "'x server \<Rightarrow> nat \<Rightarrow> 'x server" where
  "execCommandPropagateMulti s c = propagate s (c_db (cl s c)) [str ''MULTI'']"

fun exec_loop ::
  "(command_proc \<Rightarrow> 'x server \<Rightarrow> nat \<Rightarrow> 'x server option) \<Rightarrow> (redisCommand \<times> bytes list) list \<Rightarrow> bool \<Rightarrow> 'x server \<Rightarrow> nat
    \<Rightarrow> ('x server \<times> bool) option" where
  "exec_loop run [] must_propagate s c = Some (s, must_propagate)"
| "exec_loop run ((cmd, args) # q) must_propagate s c =
    do {
      let s = upd_client s c (\<lambda>cl. cl\<lparr>c_argv := args\<rparr>);
      let (s, must_propagate) =
        (if \<not> must_propagate \<and> \<not> cmd_has cmd CHR ''r'' then (execCommandPropagateMulti s c, True)
         else (s, must_propagate));
      s \<leftarrow> call run cmd s c;
      exec_loop run q must_propagate s c
    }"

definition shared_execaborterr :: bytes where
  "shared_execaborterr = str ''-EXECABORT Transaction discarded because of previous errors.'' @ CRLF"

definition execCommand ::
  "byte \<Rightarrow> (command_proc \<Rightarrow> 'x server \<Rightarrow> nat \<Rightarrow> 'x server option) \<Rightarrow> 'x server \<Rightarrow> nat \<Rightarrow> 'x server option" where
  "execCommand fill run s c =
    (if \<not> c_multi (cl s c) then Some (addReplyError s c (str ''EXEC without MULTI''))
     else if c_dirty_cas (cl s c) \<or> c_dirty_exec (cl s c)
     then discardTransaction (addReply s c (if c_dirty_exec (cl s c) then shared_execaborterr else shared_nullmultibulk)) c
     else
       do {
         let orig_args = c_argv (cl s c);
         let q = c_mstate (cl s c);
         s \<leftarrow> unwatchAllKeys s c;
         let s = addReply s c (addReplyMultiBulkLen fill (length q));
         (s, must_propagate) \<leftarrow> exec_loop run q False s c;
         let s = upd_client s c (\<lambda>cl. cl\<lparr>c_argv := orig_args\<rparr>);
         s \<leftarrow> discardTransaction s c;
         Some (if must_propagate then s\<lparr>dirty := dirty s + 1\<rparr> else s)
       })"

definition proc_run :: "byte \<Rightarrow> nat \<Rightarrow> command_proc \<Rightarrow> 'x server \<Rightarrow> nat \<Rightarrow> 'x server option" where
  "proc_run fill mem p s c =
    (if p = ExecCommand then execCommand fill (command_run fill mem) s c else command_run fill mem p s c)"

section \<open>Dispatch\<close>

text \<open>
  What other parts decide: whether a password is set, the redirection the cluster answers with,
  the error for writes when the disk fails, too few slaves, a read only slave, a broken link
  without stale data and a script that runs too long.  \<open>maxmemory\<close> is not set.
\<close>

record env =
  commands :: "bytes \<Rightarrow> redisCommand option"
  requirepass :: bool
  redirect :: "redisCommand \<Rightarrow> bytes list \<Rightarrow> bytes option"
  disk_error :: "bytes option"
  few_slaves :: bool
  slave_ro :: bool
  link_down :: bool
  lua_timedout :: bool

definition shared_noautherr :: bytes where "shared_noautherr = str ''-NOAUTH Authentication required.'' @ CRLF"
definition shared_noreplicaserr :: bytes where "shared_noreplicaserr = str ''-NOREPLICAS Not enough good slaves to write.'' @ CRLF"
definition shared_roslaveerr :: bytes where "shared_roslaveerr = str ''-READONLY You can't write against a read only slave.'' @ CRLF"
definition shared_masterdownerr :: bytes where
  "shared_masterdownerr = str ''-MASTERDOWN Link with MASTER is down and slave-serve-stale-data is set to 'no'.'' @ CRLF"
definition shared_loadingerr :: bytes where "shared_loadingerr = str ''-LOADING Redis is loading the dataset in memory'' @ CRLF"
definition shared_slowscripterr :: bytes where
  "shared_slowscripterr = str ''-BUSY Redis is busy running a script. You can only call SCRIPT KILL or SHUTDOWN NOSAVE.'' @ CRLF"

text \<open>
  The line that is printed for every request, built in a buffer of 1024 bytes by way of another:
  \<open>sprintf\<close> and \<open>strcat\<close> do not check the size, and \<open>None\<close> is a write beyond the end.
\<close>

fun debug_line :: "bytes list \<Rightarrow> bytes \<Rightarrow> bytes option" where
  "debug_line [] sz = Some sz"
| "debug_line (a # args) sz =
    (let sz1 = str '' '' @ c_str a @ str '' ''
     in if 1024 < length sz1 + 1 \<or> 1024 < length sz + length sz1 + 1 then None
        else debug_line args (sz @ sz1))"

text \<open>An error with text of the client in it: ends of lines become blanks.\<close>

definition one_line :: "bytes \<Rightarrow> bytes" where
  "one_line s = map (\<lambda>b. if b = 13 \<or> b = 10 then ch CHR '' '' else b) s"

definition arity_wrong :: "redisCommand \<Rightarrow> nat \<Rightarrow> bool" where
  "arity_wrong cmd argc \<longleftrightarrow> cmd_arity cmd > 0 \<and> cmd_arity cmd \<noteq> int argc \<or> int argc < - cmd_arity cmd"

text \<open>
  The refusals, in the order of the code: whether the transaction is flagged, and the reply.
\<close>

definition refusal :: "env \<Rightarrow> 'x server \<Rightarrow> nat \<Rightarrow> redisCommand \<Rightarrow> (bool \<times> bytes) option" where
  "refusal e s c cmd =
    (let args = c_argv (cl s c); argc = length args
     in if arity_wrong cmd argc
        then Some (True, str ''-ERR '' @ one_line (str ''wrong number of arguments for '' @ [39] @ cmd_name cmd @ [39] @ str '' command'') @ CRLF)
        else if requirepass e \<and> \<not> c_authenticated (cl s c) then Some (True, shared_noautherr)
        else if cluster_enabled s \<and> \<not> c_master (cl s c) \<and> cmd_firstkey cmd \<noteq> 0 \<and> redirect e cmd args \<noteq> None
        then Some (True, the (redirect e cmd args))
        else if disk_error e \<noteq> None \<and> \<not> masterhost s \<and> (cmd_has cmd CHR ''w'' \<or> cmd_proc cmd = PingCommand)
        then Some (True, the (disk_error e))
        else if \<not> masterhost s \<and> few_slaves e \<and> cmd_has cmd CHR ''w'' then Some (True, shared_noreplicaserr)
        else if masterhost s \<and> slave_ro e \<and> \<not> c_master (cl s c) \<and> cmd_has cmd CHR ''w'' then Some (False, shared_roslaveerr)
        else if c_pubsub (cl s c) \<and> cmd_proc cmd \<noteq> PingCommand
        then Some (False, str ''-ERR only (P)SUBSCRIBE / (P)UNSUBSCRIBE / QUIT allowed in this context'' @ CRLF)
        else if masterhost s \<and> link_down e \<and> \<not> cmd_has cmd CHR ''t'' then Some (True, shared_masterdownerr)
        else if loading s \<and> \<not> cmd_has cmd CHR ''l'' then Some (False, shared_loadingerr)
        else if lua_timedout e then Some (True, shared_slowscripterr)
        else None)"

definition processCommand :: "byte \<Rightarrow> nat \<Rightarrow> env \<Rightarrow> 'x server \<Rightarrow> nat \<Rightarrow> 'x server option" where
  "processCommand fill mem e s c =
    (let args = c_argv (cl s c)
     in if map tolower (c_str (hd args)) = str ''quit''
        then Some (upd_client (addReply s c shared_ok) c (\<lambda>cl. cl\<lparr>c_close := True\<rparr>))
        else
          do {
            debug_line args [];
            case commands e (hd args) of
              None \<Rightarrow>
                Some (addReplyError (flagTransaction s c) c
                  (one_line (str ''unknown command '' @ [39] @ c_str (hd args) @ [39])))
            | Some cmd \<Rightarrow>
                (case refusal e s c cmd of
                   Some (flag, msg) \<Rightarrow> Some (addReply (if flag then flagTransaction s c else s) c msg)
                 | None \<Rightarrow>
                     if c_multi (cl s c) \<and> cmd_proc cmd \<notin> {ExecCommand, DiscardCommand, MultiCommand, WatchCommand}
                     then Some (addReply (queueMultiCommand s c cmd) c shared_queued)
                     else call (proc_run fill mem) cmd s c)
          })"

text \<open>A client that goes away, and a key that expires in the background.\<close>

definition freeClient :: "'x server \<Rightarrow> nat \<Rightarrow> 'x server option" where
  "freeClient s c =
    do {
      s \<leftarrow> unwatchAllKeys s c;
      if c \<notin> set (sclients s) then None
      else Some (upd_client (s\<lparr>sclients := remove1 c (sclients s)\<rparr>) c (\<lambda>cl. cl\<lparr>c_argv := [], c_reply := [], c_mstate := []\<rparr>))
    }"

definition activeExpireCycleTryExpire :: "'x server \<Rightarrow> nat \<Rightarrow> bytes \<Rightarrow> 'x server \<times> bool" where
  "activeExpireCycleTryExpire s db key =
    (case db_expires (sdbs s db) key of
       None \<Rightarrow> (s, False)
     | Some t \<Rightarrow>
         if t <s mstime s then (fst (dbDelete (propagateExpire s db key) db key), True) else (s, False))"

end
