(* ===== verification/Multi_Inv.thy ===== *)
theory Multi_Inv
  imports Multi
begin

text \<open>
  The server as a state machine: requests, connections, expiring keys and the clock are its steps.
  The invariant of the key space, of the watch lists and of the command queues holds in every
  state, no step aborts, and a key that a client watches cannot change without marking the client.
\<close>

section \<open>Commands\<close>

text \<open>The commands that change a transaction.\<close>

definition tx_procs :: "command_proc set" where
  "tx_procs = {ExecCommand, DiscardCommand, MultiCommand, WatchCommand, UnwatchCommand}"

text \<open>The arguments the functions rely on, and that the arities of the table provide them.\<close>

fun min_args :: "command_proc \<Rightarrow> int" where
  "min_args SetCommand = 3"
| "min_args SetnxCommand = 3"
| "min_args GetsetCommand = 3"
| "min_args AppendCommand = 3"
| "min_args SetexCommand = 4"
| "min_args PsetexCommand = 4"
| "min_args ExpireCommand = 3"
| "min_args ExpireatCommand = 3"
| "min_args PexpireCommand = 3"
| "min_args PexpireatCommand = 3"
| "min_args p = 1"

lemma table_arity: "list_all (\<lambda>cmd. min_args (cmd_proc cmd) \<le> \<bar>cmd_arity cmd\<bar>) redisCommandTable"
  by (simp add: redisCommandTable_def)

lemma proc_lengths:
  assumes "cmd \<in> set redisCommandTable" "\<not> arity_wrong cmd n"
  shows "min_args (cmd_proc cmd) \<le> int n" "0 < n"
proof -
  have "1 \<le> min_args p" for p by (cases p) simp_all
  moreover have "min_args (cmd_proc cmd) \<le> \<bar>cmd_arity cmd\<bar>" using table_arity assms(1) by (auto simp: list_all_iff)
  moreover have "\<bar>cmd_arity cmd\<bar> \<le> int n" using assms(2) by (auto simp: arity_wrong_def)
  ultimately show "min_args (cmd_proc cmd) \<le> int n" by linarith
  moreover have "1 \<le> min_args (cmd_proc cmd)" using \<open>\<And>p. 1 \<le> min_args p\<close> .
  ultimately show "0 < n" by linarith
qed

lemma ping_ok:
  assumes "reaches K s t" "0 < length (c_argv (cl t c))"
  shows "\<exists>u. pingCommand fill t c = Some u \<and> reaches K s u"
proof (cases "length (c_argv (cl t c)) = 2")
  case True
  then have "arg_ok (argument t c 1)" using key_of_arg [OF assms(1), of 1 c] by simp
  then have "addReplyBulk fill (RawStr (argument t c 1) :: 'a robj) = Some (enc_arg (argument t c 1))"
    by (subst addReplyBulk_ok) (simp_all add: arg_ok_def)
  then show ?thesis using assms(1) True by (simp add: pingCommand_def Let_def)
next
  case False
  then consider "length (c_argv (cl t c)) = 1" | "2 < length (c_argv (cl t c))" using assms(2) by linarith
  then show ?thesis using assms(1) by cases (auto simp: pingCommand_def Let_def)
qed

lemma base_ok:
  assumes "reaches K s t" "cmd \<in> set redisCommandTable" "\<not> arity_wrong cmd (length (c_argv (cl t c)))"
    "cmd_proc cmd \<notin> insert MoveCommand tx_procs"
    "cmd_proc cmd = SetrangeCommand \<longrightarrow> setrange_safe (argument t c 2) (argument t c 3)" "512 * 1024 * 1024 \<le> mem"
  shows "\<exists>u. command_run fill mem (cmd_proc cmd) t c = Some u \<and> reaches K s u"
proof -
  note len = proc_lengths [OF assms(2,3)]
  note r = assms(1)
  have rn: "\<exists>u. renameCommand t c = Some u \<and> reaches K s u" "\<exists>u. renamenxCommand t c = Some u \<and> reaches K s u"
    unfolding renameCommand_def renamenxCommand_def by (rule rename_ok [OF r])+
  have in_de: "\<exists>u. incrCommand fill t c = Some u \<and> reaches K s u" "\<exists>u. decrCommand fill t c = Some u \<and> reaches K s u"
    unfolding incrCommand_def decrCommand_def by (rule incrDecr_ok [OF r])+
  have ms: "\<exists>u. msetCommand t c = Some u \<and> reaches K s u" "\<exists>u. msetnxCommand t c = Some u \<and> reaches K s u"
    unfolding msetCommand_def msetnxCommand_def by (rule mset_ok [OF r])+
  have tt: "\<exists>u. ttlCommand fill t c = Some u \<and> reaches K s u" "\<exists>u. pttlCommand fill t c = Some u \<and> reaches K s u"
    unfolding ttlCommand_def pttlCommand_def by (rule ttl_ok [OF r])+
  have ex: "\<exists>u. expireGenericCommand t c b un = Some u \<and> reaches K s u" if "1 < length (c_argv (cl t c))" for b un
    by (rule expire_ok [OF r that])
  show ?thesis
    using assms(4-6) len
    by (cases "cmd_proc cmd")
      (simp_all add: tx_procs_def get_ok [OF r] set_ok [OF r] setnx_ok [OF r] setex_ok [OF r] psetex_ok [OF r]
        append_ok [OF r] strlen_ok [OF r] del_ok [OF r] exists_ok [OF r] setrange_ok [OF r] getrange_ok [OF r] in_de
        mget_ok [OF r] incrby_ok [OF r] decrby_ok [OF r] getset_ok [OF r] ms select_ok [OF r] rn expireCommand_def
        expireatCommand_def pexpireCommand_def pexpireatCommand_def ex dbsize_ok [OF r] type_ok [OF r] tt persist_ok [OF r]
        flushdb_ok [OF r] flushall_ok [OF r] ping_ok [OF r])
qed

section \<open>The invariant\<close>

text \<open>
  A queued command is one of the table with its arguments; \<open>mv\<close> allows \<open>MOVE\<close>, which does not
  tell the watchers.
\<close>

definition request_ok :: "bool \<Rightarrow> redisCommand \<Rightarrow> bytes list \<Rightarrow> bool" where
  "request_ok mv cmd args \<longleftrightarrow>
    cmd \<in> set redisCommandTable \<and> list_all arg_ok args
    \<and> (cmd_proc cmd = SetrangeCommand \<longrightarrow> setrange_safe (args ! 2) (args ! 3))
    \<and> (cmd_proc cmd = MoveCommand \<longrightarrow> mv)"

definition queued_ok :: "bool \<Rightarrow> redisCommand \<times> bytes list \<Rightarrow> bool" where
  "queued_ok mv = (\<lambda>(cmd, args). request_ok mv cmd args \<and> \<not> arity_wrong cmd (length args)
     \<and> cmd_proc cmd \<notin> {ExecCommand, DiscardCommand, MultiCommand, WatchCommand})"

definition tx_inv :: "bool \<Rightarrow> 'x server \<Rightarrow> bool" where
  "tx_inv mv s \<longleftrightarrow> srv_inv s \<and> (\<forall>c. list_all (queued_ok mv) (c_mstate (cl s c)))"

text \<open>Client \<open>c\<close> watches key \<open>k\<close>, and is marked unless the key still has value \<open>v\<close> and no time to live.\<close>

definition lock :: "nat \<Rightarrow> nat \<Rightarrow> bytes \<Rightarrow> 'x robj option \<Rightarrow> 'x server \<Rightarrow> bool" where
  "lock c d k v s \<longleftrightarrow> (d, k) \<in> set (c_watched_keys (cl s c))
    \<and> (c_dirty_cas (cl s c) \<or> db_dict (sdbs s d) k = v \<and> db_expires (sdbs s d) k = None)"

definition keeps :: "bool \<Rightarrow> nat set \<Rightarrow> 'x server \<Rightarrow> 'x server \<Rightarrow> bool" where
  "keeps mv C s t \<longleftrightarrow> tx_inv mv t \<and> (\<not> mv \<longrightarrow> (\<forall>c\<in>C. \<forall>d k v. lock c d k v s \<longrightarrow> lock c d k v t))"

lemma tx_inv_srv: "tx_inv mv s \<Longrightarrow> srv_inv s"
  by (simp add: tx_inv_def)

lemma keeps_inv: "keeps mv C s t \<Longrightarrow> tx_inv mv t"
  by (simp add: keeps_def)

lemma keeps_refl: "tx_inv mv s \<Longrightarrow> keeps mv C s s"
  by (simp add: keeps_def)

lemma keeps_trans: "keeps mv C s t \<Longrightarrow> keeps mv C t u \<Longrightarrow> keeps mv C s u"
  by (auto simp: keeps_def)

lemma keeps_mono: "keeps mv C s t \<Longrightarrow> D \<subseteq> C \<Longrightarrow> keeps mv D s t"
  by (auto simp: keeps_def)

lemma watching: "srv_inv s \<Longrightarrow> (d, k) \<in> set (c_watched_keys (cl s c)) \<longleftrightarrow> c \<in> set (watchers s d k)"
  by (simp add: srv_inv_def watch_inv_def)

text \<open>What every command on keys does; \<open>MOVE\<close> only keeps the invariant.\<close>

lemma reaches_keeps:
  assumes "tx_inv mv s" "reaches (if mv then UNIV else {}) s t"
  shows "keeps mv UNIV s t"
proof -
  have f: "frame_rel s t" "srv_inv t" using assms(2) by (simp_all add: reaches_def)
  then have inv: "tx_inv mv t" using assms(1) by (simp add: tx_inv_def frame_rel_def)
  have "lock c d k v t" if "lock c d k v s" "\<not> mv" for c d k v
  proof -
    have w: "(d, k) \<in> set (c_watched_keys (cl t c))" "c \<in> set (watchers s d k)"
      using that(1) f(1) watching [OF tx_inv_srv [OF assms(1)]] by (auto simp: lock_def frame_rel_def)
    have "key_rel s t d k" using assms(2) that(2) by (simp add: reaches_def)
    then show ?thesis using that(1) w f(1) by (auto simp: lock_def key_rel_def frame_rel_def)
  qed
  then show ?thesis using inv by (simp add: keeps_def)
qed

text \<open>Changes of one client that concern its transaction and nothing else.\<close>

lemma keeps_client:
  assumes "tx_inv mv s" "\<And>x. c_watched_keys (f x) = c_watched_keys x"
    "c_db (f (cl s c)) < dbnum s" "list_all arg_ok (c_argv (f (cl s c)))"
    "list_all (queued_ok mv) (c_mstate (f (cl s c)))"
    "c \<in> C \<Longrightarrow> c_dirty_cas (cl s c) \<Longrightarrow> c_dirty_cas (f (cl s c))"
  shows "keeps mv C s (upd_client s c f)"
proof -
  have "srv_inv (upd_client s c f)" using assms(1-4) by (intro inv_client) (simp_all add: tx_inv_def)
  moreover have "\<forall>c'. list_all (queued_ok mv) (c_mstate (cl (upd_client s c f) c'))"
    using assms(1,5) by (simp add: tx_inv_def upd_client_def)
  moreover have "lock c' d k v (upd_client s c f)" if "c' \<in> C" "lock c' d k v s" for c' d k v
    using that assms(2,6) by (auto simp: lock_def upd_client_def)
  ultimately show ?thesis by (simp add: keeps_def tx_inv_def)
qed

lemma client_facts:
  assumes "tx_inv mv s"
  shows "c_db (cl s c) < dbnum s" "list_all arg_ok (c_argv (cl s c))" "list_all (queued_ok mv) (c_mstate (cl s c))"
  using assms srv_inv_facts(6,8) [OF tx_inv_srv [OF assms], of c] by (simp_all add: tx_inv_def)

lemma keeps_addReply: "tx_inv mv s \<Longrightarrow> keeps mv C s (addReply s c r)"
  unfolding addReply_def by (rule keeps_client) (simp_all add: client_facts)

lemma keeps_addReplyError: "tx_inv mv s \<Longrightarrow> keeps mv C s (addReplyError s c r)"
  by (simp add: addReplyError_def keeps_addReply)

lemma lock_simps [simp]:
  "lock c d k v (propagate t d' args) = lock c d k v t" "tx_inv mv (propagate t d' args) = tx_inv mv t"
  "lock c d k v (t\<lparr>dirty := n\<rparr>) = lock c d k v t" "tx_inv mv (t\<lparr>dirty := n\<rparr>) = tx_inv mv t"
  by (simp_all add: propagate_def tx_inv_def lock_def)

lemma keeps_propagate: "keeps mv C s t \<Longrightarrow> keeps mv C s (propagate t d args)"
  by (simp add: keeps_def)

lemma keeps_dirty: "keeps mv C s t \<Longrightarrow> keeps mv C s (t\<lparr>dirty := n\<rparr>)"
  by (simp add: keeps_def)

section \<open>Watching\<close>

lemma watch_invD:
  assumes "srv_inv s"
  shows "distinct (c_watched_keys (cl s c))" "distinct (watchers s d k)" "db_watched (sdbs s d) k \<noteq> Some []"
    "c_watched_keys (cl s c) \<noteq> [] \<Longrightarrow> c \<in> set (sclients s)" "finite (dom (db_watched (sdbs s d)))"
    "db_watched (sdbs s d) k = (if watchers s d k = [] then None else Some (watchers s d k))"
  using assms by (auto simp: srv_inv_def watch_inv_def watchers_def split: option.split)

text \<open>Changing the two sides of the watch relation together.\<close>

lemma rewatch:
  assumes "srv_inv s" "c \<in> set (sclients s) \<or> wks = []" "distinct wks" "distinct ws"
    "t = upd_client (upd_db s d (\<lambda>x. x\<lparr>db_watched := (db_watched x)(k := if ws = [] then None else Some ws)\<rparr>)) c
      (\<lambda>cl. cl\<lparr>c_watched_keys := wks\<rparr>)"
    "\<And>c'. c' \<in> set ws \<longleftrightarrow> (if c' = c then (d, k) \<in> set wks else c' \<in> set (watchers s d k))"
    "\<And>wk. wk \<noteq> (d, k) \<Longrightarrow> wk \<in> set wks \<longleftrightarrow> wk \<in> set (c_watched_keys (cl s c))"
  shows "srv_inv t"
proof -
  have w: "watchers t d' k' = (if d' = d \<and> k' = k then ws else watchers s d' k')" for d' k'
    by (simp add: assms(5) watchers_def upd_client_def)
  have k: "c_watched_keys (cl t c') = (if c' = c then wks else c_watched_keys (cl s c'))" for c'
    by (simp add: assms(5) upd_client_def upd_db_def)
  have "(d', k') \<in> set (c_watched_keys (cl t c')) \<longleftrightarrow> c' \<in> set (watchers t d' k')" for c' d' k'
    using assms(6) [of c'] assms(7) [of "(d', k')"] watching [OF assms(1), of d' k' c'] by (auto simp: w k)
  moreover have "finite (dom (db_watched (sdbs t d')))" for d'
    using watch_invD(5) [OF assms(1)] by (simp add: assms(5) upd_client_def)
  moreover have "db_watched (sdbs t d') k' \<noteq> Some []" for d' k'
    using watch_invD(3) [OF assms(1)] by (simp add: assms(5) upd_client_def)
  moreover have "distinct (c_watched_keys (cl t c')) \<and> distinct (watchers t d' k')
      \<and> (c_watched_keys (cl t c') \<noteq> [] \<longrightarrow> c' \<in> set (sclients t))" for c' d' k'
    using watch_invD(1,2,4) [OF assms(1)] assms(2-4) by (auto simp: w k) (auto simp: assms(5) upd_client_def upd_db_def)
  ultimately have "watch_inv t" by (simp add: watch_inv_def)
  moreover have "keys_inv t" "clients_inv t"
    using assms(1) by (auto simp: srv_inv_def keys_inv_def clients_inv_def assms(5) upd_client_def upd_db_def)
  ultimately show ?thesis by (simp add: srv_inv_def)
qed

lemma unwatch_step:
  assumes "srv_inv s" "c_watched_keys (cl s c) = (d, k) # wks"
  defines "ws \<equiv> remove1 c (watchers s d k)"
  shows "db_watched (sdbs s d) k = Some (watchers s d k)" "c \<in> set (watchers s d k)"
    "srv_inv (upd_client (upd_db s d (\<lambda>x. x\<lparr>db_watched := (db_watched x)(k := if ws = [] then None else Some ws)\<rparr>)) c
      (\<lambda>cl. cl\<lparr>c_watched_keys := wks\<rparr>))"
proof -
  show c: "c \<in> set (watchers s d k)" using watching [OF assms(1), of d k c] assms(2) by simp
  then have ne: "watchers s d k \<noteq> []" by auto
  then show "db_watched (sdbs s d) k = Some (watchers s d k)" using watch_invD(6) [OF assms(1), of d k] by simp
  show "srv_inv (upd_client (upd_db s d (\<lambda>x. x\<lparr>db_watched := (db_watched x)(k := if ws = [] then None else Some ws)\<rparr>)) c
      (\<lambda>cl. cl\<lparr>c_watched_keys := wks\<rparr>))"
    using watch_invD(1,2) [OF assms(1)] watch_invD(4) [OF assms(1), of c] assms(2) watch_invD(1) [OF assms(1), of c]
    by (intro rewatch [OF assms(1) _ _ _ refl]) (auto simp: ws_def)
qed

definition unwatched :: "nat \<Rightarrow> 'x server \<Rightarrow> 'x server \<Rightarrow> bool" where
  "unwatched c s t \<longleftrightarrow> cl t = (cl s)(c := (cl s c)\<lparr>c_watched_keys := []\<rparr>)
    \<and> (\<forall>d. db_dict (sdbs t d) = db_dict (sdbs s d) \<and> db_expires (sdbs t d) = db_expires (sdbs s d))
    \<and> dbnum t = dbnum s \<and> sclients t = sclients s \<and> dirty t = dirty s \<and> mstime t = mstime s \<and> propagated t = propagated s
    \<and> loading t = loading s \<and> masterhost t = masterhost s \<and> cluster_enabled t = cluster_enabled s"

lemma unwatch_loop_ok:
  "srv_inv s \<Longrightarrow> c_watched_keys (cl s c) = wks \<Longrightarrow> \<exists>t. unwatch_loop s c wks = Some t \<and> srv_inv t \<and> unwatched c s t"
proof (induction wks arbitrary: s)
  case Nil
  then show ?case by (auto simp: unwatched_def fun_eq_iff)
next
  case (Cons wk wks)
  obtain d k where wk: "wk = (d, k)" by fastforce
  note S = unwatch_step [OF Cons.prems [unfolded wk]]
  let ?ws = "remove1 c (watchers s d k)"
  let ?t = "upd_client (upd_db s d (\<lambda>x. x\<lparr>db_watched := (db_watched x)(k := if ?ws = [] then None else Some ?ws)\<rparr>)) c
      (\<lambda>cl. cl\<lparr>c_watched_keys := wks\<rparr>)"
  obtain u where u: "unwatch_loop ?t c wks = Some u" "srv_inv u" "unwatched c ?t u"
    using Cons.IH [OF S(3)] by (auto simp: upd_client_def)
  have "upd_client (upd_db s d g) c (\<lambda>cl. cl\<lparr>c_watched_keys := tl (c_watched_keys cl)\<rparr>)
      = upd_client (upd_db s d g) c (\<lambda>cl. cl\<lparr>c_watched_keys := wks\<rparr>)" for g
    using Cons.prems(2) by (simp add: upd_client_def upd_db_def)
  then have "unwatch_loop s c (wk # wks) = Some u" using S(1,2) u(1) by (simp add: wk Let_def)
  moreover have "unwatched c s u" using u(3) by (auto simp: unwatched_def upd_client_def upd_db_def fun_eq_iff)
  ultimately show ?case using u(2) by blast
qed

lemma unwatch_ok:
  assumes "tx_inv mv s"
  obtains t where "unwatchAllKeys s c = Some t" "keeps mv (- {c}) s t" "unwatched c s t"
proof -
  obtain t where t: "unwatchAllKeys s c = Some t" "srv_inv t" "unwatched c s t"
    using unwatch_loop_ok [OF tx_inv_srv [OF assms] refl, of c] by (auto simp: unwatchAllKeys_def)
  have "keeps mv (- {c}) s t"
    using assms t(2,3) by (auto simp: keeps_def tx_inv_def lock_def unwatched_def)
  then show thesis using that t by blast
qed

lemma watchForKey_ok:
  assumes "tx_inv mv s" "c \<in> set (sclients s)"
  shows "keeps mv UNIV s (watchForKey s c k)" "sclients (watchForKey s c k) = sclients s"
proof -
  let ?d = "c_db (cl s c)"
  have "keeps mv UNIV s (watchForKey s c k) \<and> sclients (watchForKey s c k) = sclients s"
  proof (cases "(?d, k) \<in> set (c_watched_keys (cl s c))")
    case True
    then show ?thesis using assms(1) by (simp add: watchForKey_def keeps_refl)
  next
    case False
    note inv = tx_inv_srv [OF assms(1)]
    let ?ws = "watchers s ?d k @ [c]"
    let ?t = "upd_client (upd_db s ?d (\<lambda>x. x\<lparr>db_watched := (db_watched x)(k := if ?ws = [] then None else Some ?ws)\<rparr>)) c
      (\<lambda>x. x\<lparr>c_watched_keys := c_watched_keys (cl s c) @ [(?d, k)]\<rparr>)"
    have c: "c \<notin> set (watchers s ?d k)" using False watching [OF inv] by simp
    have "srv_inv ?t"
      using watch_invD(1,2) [OF inv] c False assms(2) by (intro rewatch [OF inv _ _ _ refl]) auto
    moreover have t: "watchForKey s c k = ?t"
      using False by (simp add: watchForKey_def watchers_def upd_client_def upd_db_def Let_def)
    ultimately show ?thesis
      using assms(1) by (auto simp: keeps_def tx_inv_def lock_def upd_client_def upd_db_def)
  qed
  then show "keeps mv UNIV s (watchForKey s c k)" "sclients (watchForKey s c k) = sclients s" by auto
qed

section \<open>Transactions\<close>

lemma multi_ok: "tx_inv mv s \<Longrightarrow> keeps mv C s (multiCommand s c)"
proof -
  assume inv: "tx_inv mv s"
  have m: "keeps mv C s (upd_client s c (\<lambda>x. x\<lparr>c_multi := True\<rparr>))"
    using inv by (intro keeps_client) (simp_all add: client_facts)
  show ?thesis using keeps_trans [OF m keeps_addReply [OF keeps_inv [OF m]]] inv
    by (simp add: multiCommand_def keeps_addReplyError)
qed

lemma discardTransaction_ok:
  assumes "tx_inv mv s"
  obtains t where "discardTransaction s c = Some t" "keeps mv (- {c}) s t"
    "unwatched c (upd_client s c (\<lambda>x. x\<lparr>c_mstate := [], c_multi := False, c_dirty_cas := False, c_dirty_exec := False\<rparr>)) t"
proof -
  let ?s = "upd_client s c (\<lambda>x. x\<lparr>c_mstate := [], c_multi := False, c_dirty_cas := False, c_dirty_exec := False\<rparr>)"
  have s: "keeps mv (- {c}) s ?s" using assms by (intro keeps_client) (simp_all add: client_facts)
  obtain t where t: "unwatchAllKeys ?s c = Some t" "keeps mv (- {c}) ?s t" "unwatched c ?s t"
    using unwatch_ok [OF keeps_inv [OF s]] by blast
  then show thesis using that keeps_trans [OF s t(2)] by (simp add: discardTransaction_def)
qed

lemma discard_ok:
  assumes "tx_inv mv s"
  shows "\<exists>t. discardCommand s c = Some t \<and> keeps mv (- {c}) s t"
proof -
  obtain t where t: "discardTransaction s c = Some t" "keeps mv (- {c}) s t" using discardTransaction_ok [OF assms] by blast
  then show ?thesis using keeps_trans [OF t(2) keeps_addReply [OF keeps_inv [OF t(2)]]] keeps_addReplyError [OF assms]
    by (simp add: discardCommand_def)
qed

lemma unwatchCommand_ok:
  assumes "tx_inv mv s"
  shows "\<exists>t. unwatchCommand s c = Some t \<and> keeps mv (- {c}) s t"
proof -
  obtain t where t: "unwatchAllKeys s c = Some t" "keeps mv (- {c}) s t" using unwatch_ok [OF assms] by blast
  have u: "keeps mv (- {c}) t (upd_client t c (\<lambda>x. x\<lparr>c_dirty_cas := False\<rparr>))"
    using keeps_inv [OF t(2)] by (intro keeps_client) (simp_all add: client_facts)
  show ?thesis using t(1) keeps_trans [OF keeps_trans [OF t(2) u] keeps_addReply [OF keeps_inv [OF u]]]
    by (simp add: unwatchCommand_def)
qed

lemma watch_ok:
  assumes "tx_inv mv s" "c \<in> set (sclients s)"
  shows "keeps mv UNIV s (watchCommand s c)"
proof -
  have loop: "keeps mv UNIV t (foldl (\<lambda>s k. watchForKey s c k) t ks)" if "tx_inv mv t" "c \<in> set (sclients t)" for ks t
    using that
  proof (induction ks arbitrary: t)
    case (Cons k ks)
    note w = watchForKey_ok [OF Cons.prems, of k]
    show ?case using keeps_trans [OF w(1) Cons.IH [OF keeps_inv [OF w(1)]]] w(2) Cons.prems(2) by simp
  qed (simp add: keeps_refl)
  show ?thesis
    using keeps_trans [OF loop [OF assms] keeps_addReply [OF keeps_inv [OF loop [OF assms]]]] keeps_addReplyError [OF assms(1)]
    by (simp add: watchCommand_def)
qed

text \<open>The clients whose locks a command keeps: all, or all others if it ends a transaction.\<close>

definition kept :: "command_proc \<Rightarrow> nat \<Rightarrow> nat set" where
  "kept p c = (if p \<in> {ExecCommand, DiscardCommand, UnwatchCommand} then - {c} else UNIV)"

lemma command_ok:
  assumes "tx_inv mv s" "cmd_proc cmd = WatchCommand \<longrightarrow> c \<in> set (sclients s)"
    "request_ok mv cmd (c_argv (cl s c))" "cmd_proc cmd \<noteq> ExecCommand"
    "\<not> arity_wrong cmd (length (c_argv (cl s c)))" "512 * 1024 * 1024 \<le> mem"
  shows "\<exists>t. command_run fill mem (cmd_proc cmd) s c = Some t \<and> keeps mv (kept (cmd_proc cmd) c) s t"
proof (cases "cmd_proc cmd \<in> insert MoveCommand tx_procs")
  case False
  have "\<exists>t. command_run fill mem (cmd_proc cmd) s c = Some t \<and> reaches (if mv then UNIV else {}) s t"
    using assms(3,5,6) False by (intro base_ok [OF reaches_refl [OF tx_inv_srv [OF assms(1)]]]) (simp_all add: request_ok_def)
  then show ?thesis using reaches_keeps [OF assms(1)] keeps_mono by blast
next
  case True
  note inv = assms(1)
  have "\<exists>t. moveCommand s c = Some t \<and> keeps mv UNIV s t" if mv
    using move_ok [OF reaches_refl [OF tx_inv_srv [OF inv], of UNIV], of c] reaches_keeps [OF inv] that by auto
  then show ?thesis
    using True assms(2-4) multi_ok [OF inv] discard_ok [OF inv] unwatchCommand_ok [OF inv] watch_ok [OF inv]
    by (auto simp: tx_procs_def kept_def request_ok_def)
qed

lemma call_ok:
  assumes "run (cmd_proc cmd) s c = Some t" "keeps mv C s t"
  shows "\<exists>t. call run cmd s c = Some t \<and> keeps mv C s t"
  using assms by (auto simp: call_def keeps_propagate)

lemma exec_loop_ok:
  assumes "tx_inv mv s" "list_all (queued_ok mv) q" "512 * 1024 * 1024 \<le> mem"
  shows "\<exists>t mp'. exec_loop (command_run fill mem) q mp s c = Some (t, mp') \<and> keeps mv (- {c}) s t"
  using assms(1,2)
proof (induction q arbitrary: s mp)
  case Nil
  then show ?case by (simp add: keeps_refl)
next
  case (Cons x q)
  obtain cmd args where x: "x = (cmd, args)" by fastforce
  have ok: "request_ok mv cmd args" "\<not> arity_wrong cmd (length args)" "cmd_proc cmd \<noteq> ExecCommand" "cmd_proc cmd \<noteq> WatchCommand"
    using Cons.prems(2) by (auto simp: x queued_ok_def)
  let ?s = "upd_client s c (\<lambda>x. x\<lparr>c_argv := args\<rparr>)"
  have s: "keeps mv (- {c}) s ?s"
    using Cons.prems(1) ok(1) by (intro keeps_client) (simp_all add: client_facts request_ok_def)
  define r where "r = (if \<not> mp \<and> \<not> cmd_has cmd CHR ''r'' then execCommandPropagateMulti ?s c else ?s)"
  have r: "keeps mv (- {c}) s r" using s by (simp add: r_def execCommandPropagateMulti_def keeps_propagate)
  have "c_argv (cl r c) = args" by (simp add: r_def execCommandPropagateMulti_def propagate_def upd_client_def)
  then obtain t where t: "command_run fill mem (cmd_proc cmd) r c = Some t" "keeps mv (kept (cmd_proc cmd) c) r t"
    using command_ok [OF keeps_inv [OF r], of cmd c mem fill] ok assms(3) by auto
  have "keeps mv (- {c}) r t" using t(2) by (rule keeps_mono) (auto simp: kept_def)
  then obtain u where u: "call (command_run fill mem) cmd r c = Some u" "keeps mv (- {c}) r u"
    using call_ok [where run = "command_run fill mem", OF t(1)] by blast
  note su = keeps_trans [OF r u(2)]
  have "exec_loop (command_run fill mem) (x # q) mp s c = exec_loop (command_run fill mem) q (mp \<or> \<not> cmd_has cmd CHR ''r'') u c"
    using u(1) by (auto simp: x r_def split: if_splits)
  moreover have "\<exists>v mp'. exec_loop (command_run fill mem) q (mp \<or> \<not> cmd_has cmd CHR ''r'') u c = Some (v, mp') \<and> keeps mv (- {c}) u v"
    using Cons.prems(2) by (intro Cons.IH [OF keeps_inv [OF su]]) simp
  ultimately show ?case using keeps_trans [OF su] by auto
qed

lemma exec_ok:
  assumes "tx_inv mv s" "512 * 1024 * 1024 \<le> mem"
  shows "\<exists>t. execCommand fill (command_run fill mem) s c = Some t \<and> keeps mv (- {c}) s t"
proof -
  consider "\<not> c_multi (cl s c)" | "c_multi (cl s c)" "c_dirty_cas (cl s c) \<or> c_dirty_exec (cl s c)"
    | "c_multi (cl s c)" "\<not> c_dirty_cas (cl s c)" "\<not> c_dirty_exec (cl s c)" by blast
  then show ?thesis
  proof cases
    case 1
    then show ?thesis using keeps_addReplyError [OF assms(1)] by (simp add: execCommand_def)
  next
    case 2
    define r where "r = (if c_dirty_exec (cl s c) then shared_execaborterr else shared_nullmultibulk)"
    have a: "keeps mv (- {c}) s (addReply s c r)" using keeps_addReply [OF assms(1)] .
    obtain t where "discardTransaction (addReply s c r) c = Some t" "keeps mv (- {c}) (addReply s c r) t"
      using discardTransaction_ok [OF keeps_inv [OF a]] by blast
    then show ?thesis using 2 keeps_trans [OF a] by (auto simp: execCommand_def r_def)
  next
    case 3
    let ?q = "c_mstate (cl s c)"
    obtain s1 where s1: "unwatchAllKeys s c = Some s1" "keeps mv (- {c}) s s1" using unwatch_ok [OF assms(1)] by blast
    note s2 = keeps_trans [OF s1(2) keeps_addReply [OF keeps_inv [OF s1(2)]]]
    obtain s3 mp where s3: "exec_loop (command_run fill mem) ?q False (addReply s1 c (addReplyMultiBulkLen fill (length ?q))) c = Some (s3, mp)"
      "keeps mv (- {c}) (addReply s1 c (addReplyMultiBulkLen fill (length ?q))) s3"
      using exec_loop_ok [OF keeps_inv [OF s2] client_facts(3) [OF assms(1)] assms(2)] by blast
    note s4 = keeps_trans [OF s2 s3(2)]
    have s5: "keeps mv (- {c}) s3 (upd_client s3 c (\<lambda>x. x\<lparr>c_argv := c_argv (cl s c)\<rparr>))"
      using keeps_inv [OF s4] client_facts(2) [OF assms(1)] by (intro keeps_client) (simp_all add: client_facts)
    note s6 = keeps_trans [OF s4 s5]
    obtain t where t: "discardTransaction (upd_client s3 c (\<lambda>x. x\<lparr>c_argv := c_argv (cl s c)\<rparr>)) c = Some t"
      "keeps mv (- {c}) (upd_client s3 c (\<lambda>x. x\<lparr>c_argv := c_argv (cl s c)\<rparr>)) t"
      using discardTransaction_ok [OF keeps_inv [OF s6]] by blast
    note final = keeps_trans [OF s6 t(2)]
    have "execCommand fill (command_run fill mem) s c = Some (if mp then t\<lparr>dirty := dirty t + 1\<rparr> else t)"
      using 3 s1(1) s3(1) t(1) by (simp add: execCommand_def Let_def)
    then show ?thesis using final keeps_dirty [OF final] by simp
  qed
qed

lemma proc_ok:
  assumes "tx_inv mv s" "cmd_proc cmd = WatchCommand \<longrightarrow> c \<in> set (sclients s)" "request_ok mv cmd (c_argv (cl s c))"
    "\<not> arity_wrong cmd (length (c_argv (cl s c)))" "512 * 1024 * 1024 \<le> mem"
  shows "\<exists>t. call (proc_run fill mem) cmd s c = Some t \<and> keeps mv (kept (cmd_proc cmd) c) s t"
proof -
  have "\<exists>t. proc_run fill mem (cmd_proc cmd) s c = Some t \<and> keeps mv (kept (cmd_proc cmd) c) s t"
    using exec_ok [OF assms(1,5), of fill c] command_ok [OF assms(1-3) _ assms(4,5), of fill]
    by (cases "cmd_proc cmd = ExecCommand") (simp_all add: proc_run_def kept_def)
  then show ?thesis using call_ok [where run = "proc_run fill mem"] by blast
qed

section \<open>Requests\<close>

text \<open>A request that takes its client's locks away.\<close>

definition releases :: "env \<Rightarrow> bytes list \<Rightarrow> bool" where
  "releases e args \<longleftrightarrow>
    (case commands e (hd args) of None \<Rightarrow> False
     | Some cmd \<Rightarrow> cmd_proc cmd \<in> {ExecCommand, DiscardCommand, UnwatchCommand})"

lemma flag_keeps: "tx_inv mv s \<Longrightarrow> keeps mv C s (flagTransaction s c)"
  unfolding flagTransaction_def by (rule keeps_client) (simp_all add: client_facts)

lemma flag_reply_keeps: "tx_inv mv s \<Longrightarrow> keeps mv C s (addReply (if b then flagTransaction s c else s) c r)"
  using keeps_trans [OF flag_keeps keeps_addReply [OF keeps_inv [OF flag_keeps]]] keeps_addReply by auto

lemma refusal_arity: "refusal e s c cmd = None \<Longrightarrow> \<not> arity_wrong cmd (length (c_argv (cl s c)))"
  by (auto simp: refusal_def Let_def)

lemma processCommand_ok:
  assumes "tx_inv mv s" "c \<in> set (sclients s)" "debug_line (c_argv (cl s c)) [] \<noteq> None" "512 * 1024 * 1024 \<le> mem"
    "\<And>cmd. commands e (hd (c_argv (cl s c))) = Some cmd \<Longrightarrow> request_ok mv cmd (c_argv (cl s c))"
  shows "\<exists>t. processCommand fill mem e s c = Some t \<and> keeps mv (if releases e (c_argv (cl s c)) then - {c} else UNIV) s t"
proof -
  let ?args = "c_argv (cl s c)" and ?C = "if releases e (c_argv (cl s c)) then - {c} else UNIV"
  note inv = assms(1)
  obtain line where line: "debug_line ?args [] = Some line" using assms(3) by blast
  show ?thesis
  proof (cases "map tolower (c_str (hd ?args)) = str ''quit''")
    case True
    have a: "keeps mv ?C s (addReply s c shared_ok)" using keeps_addReply [OF inv] .
    have "keeps mv ?C (addReply s c shared_ok) (upd_client (addReply s c shared_ok) c (\<lambda>x. x\<lparr>c_close := True\<rparr>))"
      using client_facts [OF keeps_inv [OF a], of c] by (intro keeps_client [OF keeps_inv [OF a]]) simp_all
    then show ?thesis using True keeps_trans [OF a] by (simp add: processCommand_def)
  next
    case noquit: False
    show ?thesis
    proof (cases "commands e (hd ?args)")
      case None
      then show ?thesis using noquit line flag_reply_keeps [OF inv, of ?C True c]
        by (simp add: processCommand_def addReplyError_def)
    next
      case (Some cmd)
      have ok: "request_ok mv cmd ?args" using assms(5) [OF Some] .
      show ?thesis
      proof (cases "refusal e s c cmd")
        case (Some r)
        then show ?thesis using noquit line \<open>commands e (hd ?args) = Some cmd\<close> flag_reply_keeps [OF inv, of ?C "fst r" c "snd r"]
          by (simp add: processCommand_def split_beta)
      next
        case none: None
        note ar = refusal_arity [OF none]
        show ?thesis
        proof (cases "c_multi (cl s c) \<and> cmd_proc cmd \<notin> {ExecCommand, DiscardCommand, MultiCommand, WatchCommand}")
          case True
          then have "queued_ok mv (cmd, ?args)" using ok ar by (simp add: queued_ok_def)
          then have "keeps mv ?C s (queueMultiCommand s c cmd)"
            unfolding queueMultiCommand_def using inv by (intro keeps_client) (simp_all add: client_facts)
          from keeps_trans [OF this keeps_addReply [OF keeps_inv [OF this]]]
          show ?thesis using noquit line Some none True by (simp add: processCommand_def)
        next
          case False
          obtain t where t: "call (proc_run fill mem) cmd s c = Some t" "keeps mv (kept (cmd_proc cmd) c) s t"
            using proc_ok [OF inv _ ok ar assms(4), of fill] assms(2) by blast
          have "keeps mv ?C s t" using t(2) by (rule keeps_mono) (auto simp: kept_def releases_def Some)
          moreover have "processCommand fill mem e s c = Some t"
            using noquit line Some none False t(1) by (auto simp: processCommand_def)
          ultimately show ?thesis by blast
        qed
      qed
    qed
  qed
qed

section \<open>The state machine\<close>

datatype event = Request env nat "bytes list" | Connect nat | Disconnect nat | ExpireKey nat bytes | Clock u64

text \<open>Requests come from connected clients that have not sent \<open>QUIT\<close>; times only grow.\<close>

inductive server_step :: "byte \<Rightarrow> nat \<Rightarrow> 'x server \<Rightarrow> event \<Rightarrow> 'x server \<Rightarrow> bool" for fill mem where
  request: "c \<in> set (sclients s) \<Longrightarrow> \<not> c_close (cl s c) \<Longrightarrow> list_all arg_ok args \<Longrightarrow>
    processCommand fill mem e (upd_client s c (\<lambda>x. x\<lparr>c_argv := args\<rparr>)) c = Some t \<Longrightarrow>
    server_step fill mem s (Request e c args) t"
| connect: "c \<notin> set (sclients s) \<Longrightarrow> server_step fill mem s (Connect c) (createClient s c)"
| disconnect: "freeClient s c = Some t \<Longrightarrow> server_step fill mem s (Disconnect c) t"
| expire: "server_step fill mem s (ExpireKey d k) (fst (activeExpireCycleTryExpire s d k))"
| clock: "mstime s \<le>s now \<Longrightarrow> server_step fill mem s (Clock now) (s\<lparr>mstime := now\<rparr>)"

inductive server_run :: "byte \<Rightarrow> nat \<Rightarrow> 'x server \<Rightarrow> event list \<Rightarrow> 'x server \<Rightarrow> bool" for fill mem where
  run_Nil: "server_run fill mem s [] s"
| run_Cons: "server_step fill mem s ev t \<Longrightarrow> server_run fill mem t evs u \<Longrightarrow> server_run fill mem s (ev # evs) u"

inductive_cases server_stepE [elim!]:
  "server_step fill mem s (Request e c args) t"
  "server_step fill mem s (Connect c) t"
  "server_step fill mem s (Disconnect c) t"
  "server_step fill mem s (ExpireKey d k) t"
  "server_step fill mem s (Clock now) t"

inductive_simps server_run_simps [simp]:
  "server_run fill mem s [] t"
  "server_run fill mem s (ev # evs) t"

text \<open>
  What is asked of a request: that the line printed for it fits the buffer, that its command is one
  of the table, that \<open>SETRANGE\<close> does not overflow, and, without \<open>mv\<close>, that it is not \<open>MOVE\<close>.
\<close>

fun event_ok :: "bool \<Rightarrow> event \<Rightarrow> bool" where
  "event_ok mv (Request e c args) \<longleftrightarrow>
    debug_line args [] \<noteq> None
    \<and> (case commands e (hd args) of None \<Rightarrow> True | Some cmd \<Rightarrow> request_ok mv cmd args)"
| "event_ok mv (Disconnect c) \<longleftrightarrow> True"
| "event_ok mv (Connect c) \<longleftrightarrow> True"
| "event_ok mv (ExpireKey d k) \<longleftrightarrow> True"
| "event_ok mv (Clock now) \<longleftrightarrow> True"

fun event_releases :: "event \<Rightarrow> nat set" where
  "event_releases (Request e c args) = (if releases e args then {c} else {})"
| "event_releases (Disconnect c) = {c}"
| "event_releases (Connect c) = {}"
| "event_releases (ExpireKey d k) = {}"
| "event_releases (Clock now) = {}"

lemma request_ok_step:
  assumes "tx_inv mv s" "c \<in> set (sclients s)" "list_all arg_ok args" "event_ok mv (Request e c args)" "512 * 1024 * 1024 \<le> mem"
  shows "\<exists>t. processCommand fill mem e (upd_client s c (\<lambda>x. x\<lparr>c_argv := args\<rparr>)) c = Some t
    \<and> keeps mv (- event_releases (Request e c args)) s t"
proof -
  let ?s = "upd_client s c (\<lambda>x. x\<lparr>c_argv := args\<rparr>)"
  have s: "keeps mv C s ?s" for C
    using assms(1,3) by (intro keeps_client) (simp_all add: client_facts)
  have a: "c_argv (cl ?s c) = args" "sclients ?s = sclients s" by (simp_all add: upd_client_def)
  have "\<exists>t. processCommand fill mem e ?s c = Some t \<and> keeps mv (if releases e args then - {c} else UNIV) ?s t"
    using assms(2,4,5) by (intro processCommand_ok [OF keeps_inv [OF s], of c mem e fill, unfolded a]) auto
  then obtain t where t: "processCommand fill mem e ?s c = Some t" "keeps mv (if releases e args then - {c} else UNIV) ?s t"
    by blast
  have "keeps mv (- event_releases (Request e c args)) ?s t" using t(2) by (rule keeps_mono) auto
  from keeps_trans [OF s this] show ?thesis using t(1) by blast
qed

lemma connect_ok:
  assumes "tx_inv mv s" "c \<notin> set (sclients s)"
  shows "keeps mv UNIV s (createClient s c)"
proof -
  have no: "c_watched_keys (cl s c) = []" using watch_invD(4) [OF tx_inv_srv [OF assms(1)]] assms(2) by blast
  then show ?thesis using assms(1) createClient_inv [OF tx_inv_srv [OF assms(1)] no]
    by (auto simp: keeps_def tx_inv_def lock_def createClient_def upd_client_def)
qed

lemma freeClient_ok:
  assumes "tx_inv mv s" "c \<in> set (sclients s)"
  shows "\<exists>t. freeClient s c = Some t \<and> keeps mv (- {c}) s t"
proof -
  obtain u where u: "unwatchAllKeys s c = Some u" "keeps mv (- {c}) s u" "unwatched c s u"
    using unwatch_ok [OF assms(1)] by blast
  define t where "t = upd_client (u\<lparr>sclients := remove1 c (sclients u)\<rparr>) c (\<lambda>x. x\<lparr>c_argv := [], c_reply := [], c_mstate := []\<rparr>)"
  have none: "c_watched_keys (cl u c) = []" using u(3) by (simp add: unwatched_def)
  have w: "watchers t d k = watchers u d k" "sdbs t = sdbs u" "dbnum t = dbnum u" for d k
    by (simp_all add: t_def watchers_def upd_client_def)
  have k: "c_watched_keys (cl t c') = c_watched_keys (cl u c')" "c_db (cl t c') = c_db (cl u c')"
    "c_dirty_cas (cl t c') = c_dirty_cas (cl u c')" "c' \<noteq> c \<Longrightarrow> c' \<in> set (sclients u) \<Longrightarrow> c' \<in> set (sclients t)"
    "list_all arg_ok (c_argv (cl u c')) \<Longrightarrow> list_all arg_ok (c_argv (cl t c'))"
    "list_all (queued_ok mv) (c_mstate (cl u c')) \<Longrightarrow> list_all (queued_ok mv) (c_mstate (cl t c'))" for c'
    by (auto simp: t_def upd_client_def)
  note inv = keeps_inv [OF u(2)]
  have "watch_inv t" using tx_inv_srv [OF inv] none k(4) unfolding srv_inv_def watch_inv_def w k by metis
  moreover have "keys_inv t" "clients_inv t" using tx_inv_srv [OF inv] k(5) by (simp_all add: srv_inv_def keys_inv_def clients_inv_def w k)
  ultimately have "srv_inv t" by (simp add: srv_inv_def)
  then have "keeps mv (- {c}) u t" using inv k(6) by (simp add: keeps_def tx_inv_def lock_def w k)
  then show ?thesis using keeps_trans [OF u(2)] u(1,3) assms(2) by (auto simp: freeClient_def t_def unwatched_def)
qed

lemma expire_step_ok:
  assumes "tx_inv mv s"
  shows "keeps mv UNIV s (fst (activeExpireCycleTryExpire s d k))"
proof (cases "db_expires (sdbs s d) k")
  case (Some t)
  let ?K = "if mv then UNIV else {}"
  have "reaches ?K s (propagateExpire s d k)" using reaches_refl [OF tx_inv_srv [OF assms]] by simp
  then have "reaches ?K s (fst (dbDelete (propagateExpire s d k) d k))"
    using Some by (intro reaches_dbDelete_expired) (simp_all add: propagateExpire_def)
  then show ?thesis using Some reaches_keeps [OF assms] keeps_refl [OF assms]
    by (auto simp: activeExpireCycleTryExpire_def)
qed (simp add: activeExpireCycleTryExpire_def keeps_refl assms)

lemma step_keeps:
  assumes "tx_inv mv s" "server_step fill mem s ev t" "event_ok mv ev" "512 * 1024 * 1024 \<le> mem"
  shows "keeps mv (- event_releases ev) s t"
  using assms(2)
proof cases
  case (request c args e)
  then show ?thesis using request_ok_step [OF assms(1), of c args e mem fill] assms(3,4) by auto
next
  case (connect c)
  then show ?thesis using keeps_mono [OF connect_ok [OF assms(1)]] by simp
next
  case (disconnect c)
  obtain u where "unwatchAllKeys s c = Some u" "unwatched c s u" using unwatch_ok [OF assms(1)] by blast
  then have "c \<in> set (sclients s)" using disconnect by (simp add: freeClient_def unwatched_def split: if_splits)
  then show ?thesis using disconnect freeClient_ok [OF assms(1), of c] by auto
next
  case (expire d k)
  then show ?thesis using keeps_mono [OF expire_step_ok [OF assms(1)]] by simp
next
  case (clock now)
  moreover have "srv_inv (s\<lparr>mstime := now\<rparr>) = srv_inv s"
    by (simp add: srv_inv_def keys_inv_def watch_inv_def clients_inv_def watchers_def)
  ultimately show ?thesis using assms(1) by (simp add: keeps_def tx_inv_def lock_def)
qed

lemma run_keeps:
  assumes "server_run fill mem s evs t" "tx_inv mv s" "list_all (event_ok mv) evs" "512 * 1024 * 1024 \<le> mem"
  shows "keeps mv (- (\<Union>ev\<in>set evs. event_releases ev)) s t"
  using assms(1-3)
proof (induction)
  case (run_Nil s)
  then show ?case by (simp add: keeps_refl)
next
  case (run_Cons s ev t evs u)
  let ?C = "- (\<Union>ev\<in>set (ev # evs). event_releases ev)"
  have "keeps mv (- event_releases ev) s t"
    using run_Cons.prems by (intro step_keeps [OF run_Cons.prems(1) run_Cons.hyps(1) _ assms(4)]) simp
  then have s: "keeps mv ?C s t" by (rule keeps_mono) auto
  have "keeps mv (- (\<Union>ev\<in>set evs. event_releases ev)) t u" using run_Cons keeps_inv [OF s] by simp
  then have "keeps mv ?C t u" by (rule keeps_mono) auto
  then show ?case by (rule keeps_trans [OF s])
qed

end
