(* ===== verification/Multi_Props.thy ===== *)
theory Multi_Props
  imports Multi_Inv
begin

text \<open>
  What transactions and dispatch guarantee, and where they do not.
\<close>

section \<open>Concrete requests\<close>

text \<open>A server that refuses nothing, with the command table of the program.\<close>

definition plain_env :: env where
  "plain_env = \<lparr>commands = populateCommandTable redisCommandTable, requirepass = False, redirect = \<lambda>_ _. None,
     disk_error = None, few_slaves = False, slave_ro = False, link_down = False, lua_timedout = False\<rparr>"

definition two_clients :: "'x server" where
  "two_clients = createClient (createClient (initServer 16 0) 0) 1"

definition request_of :: "nat \<Rightarrow> bytes list \<Rightarrow> event" where
  "request_of c args = Request plain_env c args"

text \<open>A sequence of requests.\<close>

fun serve :: "byte \<Rightarrow> nat \<Rightarrow> env \<Rightarrow> 'x server \<Rightarrow> (nat \<times> bytes list) list \<Rightarrow> 'x server option" where
  "serve fill mem e s [] = Some s"
| "serve fill mem e s ((c, args) # reqs) =
    do { t \<leftarrow> processCommand fill mem e (upd_client s c (\<lambda>x. x\<lparr>c_argv := args\<rparr>)) c; serve fill mem e t reqs }"

lemma commands_found:
  "commands plain_env (str ''watch'') = Some (entry ''watch'' WatchCommand (- 2) ''rsF'' 1)"
  "commands plain_env (str ''multi'') = Some (entry ''multi'' MultiCommand 1 ''rsF'' 0)"
  "commands plain_env (str ''exec'') = Some (entry ''exec'' ExecCommand 1 ''sM'' 0)"
  "commands plain_env (str ''set'') = Some (entry ''set'' SetCommand (- 3) ''wm'' 1)"
  "commands plain_env (str ''move'') = Some (entry ''move'' MoveCommand 3 ''wF'' 1)"
  "commands plain_env (str ''get'') = Some (entry ''get'' GetCommand 2 ''rF'' 1)"
  by (simp_all add: plain_env_def populateCommandTable_def redisCommandTable_def tolower_def)

lemma plain_process:
  assumes "c_argv (cl s c) = args" "map tolower (c_str (hd args)) \<noteq> str ''quit''" "debug_line args [] \<noteq> None"
    "commands plain_env (hd args) = Some cmd" "\<not> arity_wrong cmd (length args)"
    "\<not> masterhost s" "\<not> c_pubsub (cl s c)" "\<not> loading s" "\<not> cluster_enabled s"
  shows "processCommand fill mem plain_env s c =
    (if c_multi (cl s c) \<and> cmd_proc cmd \<notin> {ExecCommand, DiscardCommand, MultiCommand, WatchCommand}
     then Some (addReply (queueMultiCommand s c cmd) c shared_queued) else call (proc_run fill mem) cmd s c)"
proof -
  have "refusal plain_env s c cmd = None" using assms by (simp add: refusal_def Let_def) (simp add: plain_env_def)
  then show ?thesis using assms by (auto simp: processCommand_def)
qed


lemma map_sizes: "mapSize Map.empty = 0" "mapSize [k \<mapsto> v] = 1"
  by (simp_all add: mapSize_def)

lemma plain_value: "encoded_arg [118] = Some (EmbStr [118])" "encoded_arg [119] = Some (EmbStr [119])"
proof -
  have "string2l [118] = None" "string2l [119] = None" by code_simp+
  then show "encoded_arg [118] = Some (EmbStr [118])" "encoded_arg [119] = Some (EmbStr [119])"
    by (simp_all add: encoded_arg_def REDIS_ENCODING_EMBSTR_SIZE_LIMIT_def)
qed

lemma numbers_read: "ll_of_bytes [49] = Some 1" "\<not> (1 :: u64) <s 0" "\<not> (0 :: u64) <s 0"
  by (code_simp, simp_all add: word_sless_alt)

lemmas serve_simps = plain_process commands_found [simplified] c_str_def tolower_def arity_wrong_def createClient_def initServer_def
  upd_client_def upd_db_def addReply_def call_def proc_run_def setCommand_def plain_value setGenericCommand_def setKey_def
  lookupKeyRead_eq lookupKeyWrite_def expireIfNeeded_def getExpire_def map_sizes lookupKey_def dbAdd_def dbOverwrite_def
  removeExpire_def signalModifiedKey_def touchWatchedKey_def propagate_def watchCommand_def watchForKey_def moveCommand_def
  numbers_read selectDb_def word_sless_alt word_sle_eq dbDelete_def multiCommand_def queueMultiCommand_def execCommand_def unwatchAllKeys_def
  discardTransaction_def execCommandPropagateMulti_def getCommand_def getGenericCommand_def lookupKeyReadOrReply_def Let_def
  addReplyMultiBulkLen_def cmd_has_def fun_upd_twist

lemma step_simps [simp]:
  "server_step fill mem s (Request e c args) t \<longleftrightarrow> c \<in> set (sclients s) \<and> \<not> c_close (cl s c) \<and> list_all arg_ok args
     \<and> processCommand fill mem e (upd_client s c (\<lambda>x. x\<lparr>c_argv := args\<rparr>)) c = Some t"
  "server_step fill mem s (Connect c) t \<longleftrightarrow> c \<notin> set (sclients s) \<and> t = createClient s c"
  by (auto intro: server_step.intros)

text \<open>A key is watched, then set by another client; a transaction is being queued.\<close>

definition watch_setup :: "event list" where
  "watch_setup = [Connect 0, Connect 1, request_of 0 [str ''watch'', str ''k'']]"

definition watch_changes :: "event list" where
  "watch_changes = [request_of 1 [str ''set'', str ''k'', str ''v''], request_of 0 [str ''multi''], request_of 0 [str ''get'', str ''k'']]"

lemma plain_table: "commands plain_env n = Some cmd \<Longrightarrow> cmd \<in> set redisCommandTable"
  by (auto simp: plain_env_def populateCommandTable_def dest: map_of_SomeD)

lemma watch_run:
  "\<exists>s t :: unit server. server_run 0 (2 ^ 30) (initServer 16 0) watch_setup s \<and> server_run 0 (2 ^ 30) s watch_changes t
    \<and> sclients s = [0, 1] \<and> (0, str ''k'') \<in> set (c_watched_keys (cl s 0)) \<and> db_expires (sdbs s 0) (str ''k'') = None
    \<and> c_multi (cl t 0) \<and> db_dict (sdbs s 0) (str ''k'') = None \<and> db_dict (sdbs t 0) (str ''k'') \<noteq> None"
  by (simp add: watch_setup_def watch_changes_def request_of_def serve_simps arg_ok_def)

lemma watch_run_ok: "list_all (event_ok mv) watch_setup" "list_all (event_ok mv) watch_changes"
    "\<forall>ev\<in>set watch_changes. 0 \<notin> event_releases ev"
  using plain_table [OF commands_found(1), simplified] plain_table [OF commands_found(2), simplified]
    plain_table [OF commands_found(4), simplified] plain_table [OF commands_found(6), simplified]
  by (simp_all add: watch_setup_def watch_changes_def request_of_def commands_found [simplified] c_str_def arg_ok_def
      request_ok_def releases_def)

section \<open>Safety\<close>

text \<open>
  C3: From a fresh start, whatever clients connect, send and disconnect, whatever keys expire and
  however the clock moves, as long as every request is acceptable: in every state the server
  reaches, the key space, the watch lists of keys and clients and the command queues are
  consistent, no acceptable request of a connected client aborts the server, and no disconnection
  does.  A request is acceptable (\<open>event_ok True\<close>) when its debug line fits the buffer of 1024
  bytes, when it does not resolve to a command outside the modelled table, and when it is not a
  \<open>SETRANGE\<close> whose offset plus length reaches \<open>2 ^ 63\<close>.  The first and the last exclusion are
  needed: properties \<open>debug_line_overflow\<close> and \<open>setrange_overflow_aborts\<close> show that these requests
  do abort the server.  The allocator can serve strings of 512 MB.
\<close>

theorem server_never_aborts:
  assumes "server_run fill mem (initServer n now) evs s" "0 < n" "n < 2 ^ 31" "list_all (event_ok True) evs"
    "512 * 1024 * 1024 \<le> mem"
  shows "tx_inv True s
    \<and> (\<forall>c\<in>set (sclients s). freeClient s c \<noteq> None
        \<and> (\<forall>e args. list_all arg_ok args \<longrightarrow> event_ok True (Request e c args) \<longrightarrow>
             processCommand fill mem e (upd_client s c (\<lambda>x. x\<lparr>c_argv := args\<rparr>)) c \<noteq> None))"
proof -
  have "tx_inv True (initServer n now)"
    using initServer_inv [OF assms(2,3)] by (simp add: tx_inv_def) (simp add: initServer_def)
  from keeps_inv [OF run_keeps [OF assms(1) this assms(4,5)]] have inv: "tx_inv True s" .
  then show ?thesis using freeClient_ok [OF inv] request_ok_step [OF inv _ _ _ assms(5)] by fastforce
qed

theorem server_never_aborts_witness:
  "\<exists>s :: unit server. server_run 0 (2 ^ 30) (initServer 16 0) watch_setup s \<and> freeClient s 0 \<noteq> None"
proof -
  obtain s :: "unit server" where "server_run 0 (2 ^ 30) (initServer 16 0) watch_setup s" "sclients s = [0, 1]"
    using watch_run by blast
  then show ?thesis using server_never_aborts [OF \<open>server_run _ _ _ _ s\<close> _ _ watch_run_ok(1)] by auto
qed

text \<open>The state after an aborted \<open>EXEC\<close>.\<close>

lemma exec_blocked:
  assumes "tx_inv mv s" "c_multi (cl s c)" "c_dirty_cas (cl s c) \<or> c_dirty_exec (cl s c)"
  shows "\<exists>t r. execCommand fill run s c = Some t \<and> r \<in> {shared_nullmultibulk, shared_execaborterr}
    \<and> c_reply (cl t c) = c_reply (cl s c) @ r
    \<and> (\<forall>d. db_dict (sdbs t d) = db_dict (sdbs s d) \<and> db_expires (sdbs t d) = db_expires (sdbs s d))"
proof -
  define r where "r = (if c_dirty_exec (cl s c) then shared_execaborterr else shared_nullmultibulk)"
  obtain t where t: "discardTransaction (addReply s c r) c = Some t"
    "unwatched c (upd_client (addReply s c r) c
      (\<lambda>x. x\<lparr>c_mstate := [], c_multi := False, c_dirty_cas := False, c_dirty_exec := False\<rparr>)) t"
    using discardTransaction_ok [OF keeps_inv [OF keeps_addReply [OF assms(1)]]] by blast
  have "c_reply (cl t c) = c_reply (cl s c) @ r"
    "\<forall>d. db_dict (sdbs t d) = db_dict (sdbs s d) \<and> db_expires (sdbs t d) = db_expires (sdbs s d)"
    using t(2) by (simp_all add: unwatched_def addReply_def upd_client_def)
  moreover have "r \<in> {shared_nullmultibulk, shared_execaborterr}" by (simp add: r_def)
  moreover have "execCommand fill run s c = Some t" using assms(2,3) t(1) by (simp add: execCommand_def r_def)
  ultimately show ?thesis by blast
qed

text \<open>
  C1: Optimistic locking, for keys without a time to live and runs without \<open>MOVE\<close>.  From a fresh
  start the server has run through any acceptable events, and client \<open>c\<close> watches a key that has no
  expire.  Then any acceptable events follow, requests of other clients and their transactions
  included, in which \<open>c\<close> does not give its locks up (\<open>UNWATCH\<close>, \<open>EXEC\<close>, \<open>DISCARD\<close>, disconnecting).
  If \<open>c\<close> is inside \<open>MULTI\<close> at the end, then the key has the value it had and still no expire, or
  \<open>EXEC\<close> executes nothing and its reply says so.

  Acceptable (\<open>event_ok False\<close>) excludes four kinds of requests, of any client and in the whole run:
  those whose debug line does not fit 1024 bytes, commands outside the modelled table, \<open>SETRANGE\<close>
  with offset plus length of \<open>2 ^ 63\<close> or more, and \<open>MOVE\<close>.  The exclusions of \<open>MOVE\<close> and of keys
  with a time to live are needed: see \<open>move_not_noticed\<close> below, and an expired key is deleted
  without marking those who watch it.
\<close>

theorem watched_key_unchanged:
  assumes "server_run fill mem (initServer n now) pre s" "server_run fill mem s evs t"
    "list_all (event_ok False) (pre @ evs)" "0 < n" "n < 2 ^ 31" "512 * 1024 * 1024 \<le> mem"
    "(d, k) \<in> set (c_watched_keys (cl s c))" "db_expires (sdbs s d) k = None"
    "\<forall>ev\<in>set evs. c \<notin> event_releases ev" "c_multi (cl t c)"
  shows "db_dict (sdbs t d) k = db_dict (sdbs s d) k \<and> db_expires (sdbs t d) k = None
    \<or> (\<exists>u r. execCommand fill (command_run fill mem) t c = Some u \<and> r \<in> {shared_nullmultibulk, shared_execaborterr}
        \<and> c_reply (cl u c) = c_reply (cl t c) @ r
        \<and> (\<forall>d. db_dict (sdbs u d) = db_dict (sdbs t d) \<and> db_expires (sdbs u d) = db_expires (sdbs t d)))"
proof -
  have "tx_inv False (initServer n now)"
    using initServer_inv [OF assms(4,5)] by (simp add: tx_inv_def) (simp add: initServer_def)
  from keeps_inv [OF run_keeps [OF assms(1) this _ assms(6)]] have s: "tx_inv False s" using assms(3) by simp
  have st: "keeps False (- (\<Union>ev\<in>set evs. event_releases ev)) s t"
    using run_keeps [OF assms(2) s _ assms(6)] assms(3) by simp
  have "lock c d k (db_dict (sdbs s d) k) s" using assms(7,8) by (simp add: lock_def)
  then have "lock c d k (db_dict (sdbs s d) k) t" using st assms(9) by (simp add: keeps_def)
  then show ?thesis using exec_blocked [OF keeps_inv [OF st] assms(10)] by (auto simp: lock_def)
qed

theorem watched_key_unchanged_witness:
  "\<exists>(t :: unit server) u r. execCommand 0 (command_run 0 (2 ^ 30)) t 0 = Some u \<and> c_reply (cl u 0) = c_reply (cl t 0) @ r
    \<and> r \<in> {shared_nullmultibulk, shared_execaborterr} \<and> db_dict (sdbs t 0) (str ''k'') \<noteq> None"
proof -
  obtain s t :: "unit server" where run: "server_run 0 (2 ^ 30) (initServer 16 0) watch_setup s" "server_run 0 (2 ^ 30) s watch_changes t"
    and facts: "(0, str ''k'') \<in> set (c_watched_keys (cl s 0))" "db_expires (sdbs s 0) (str ''k'') = None"
      "c_multi (cl t 0)" "db_dict (sdbs s 0) (str ''k'') = None" "db_dict (sdbs t 0) (str ''k'') \<noteq> None"
    using watch_run by blast
  show ?thesis
    using watched_key_unchanged [OF run _ _ _ _ facts(1,2) watch_run_ok(3) facts(3)] watch_run_ok(1,2) facts(4,5) by auto
qed

text \<open>Choosing a database that exists.\<close>

lemma sint_of_nat32: "n < 2 ^ 31 \<Longrightarrow> sint (of_nat n :: u32) = int n"
  by (simp add: signed_of_nat signed_take_bit_int_eq_self)

lemma selectDb_index:
  assumes "d < dbnum s" "dbnum s < 2 ^ 31"
  shows "selectDb s c (of_nat d) = (upd_client s c (\<lambda>x. x\<lparr>c_db := d\<rparr>), True)"
proof -
  have "sint (of_nat d :: u32) = int d" using assms by (intro sint_of_nat32) simp
  then show ?thesis using assms by (simp add: selectDb_def word_sless_alt unat_of_nat_small)
qed

text \<open>
  C32: \<open>MOVE\<close> tells no watcher.  A \<open>MOVE\<close> that succeeds takes the key away from its database and
  puts the value into the other one, and it changes the record of no client, but for the reply to
  the client that sent it: whoever watches the key, in either of the two databases, is not marked,
  so a later \<open>EXEC\<close> runs as if the key had not been touched.
\<close>

theorem move_not_noticed:
  assumes "srv_inv s" "\<not> cluster_enabled s" "d = c_db (cl s m)" "k = argument s m 1"
    "ll_of_bytes (argument s m 2) = Some (of_nat d')" "d' < dbnum s" "d' \<noteq> d"
    "db_dict (sdbs s d) k = Some v" "db_expires (sdbs s d) k = None"
    "db_dict (sdbs s d') k = None"
  shows "\<exists>t. moveCommand s m = Some t
    \<and> db_dict (sdbs t d) k = None \<and> db_dict (sdbs t d') k = Some v
    \<and> cl t m = (cl s m)\<lparr>c_reply := c_reply (cl s m) @ shared_cone\<rparr>
    \<and> (\<forall>c. c \<noteq> m \<longrightarrow> cl t c = cl s c)"
proof -
  have range: "d < dbnum s" "dbnum s < 2 ^ 31" using srv_inv_facts(6,7) [OF assms(1)] assms(3) by simp_all
  have exp': "db_expires (sdbs s d') k = None" using srv_inv_facts(1) [OF assms(1)] assms(10) by blast
  let ?s = "upd_client s m (\<lambda>x. x\<lparr>c_db := d\<rparr>)"
  have same: "?s = s" by (auto simp: upd_client_def assms(3))
  have num: "sint (of_nat d' :: u64) = int d'" using range(2) assms(6) by (simp add: sint_of_nat)
  have narrow: "(ucast (of_nat d' :: u64) :: u32) = of_nat d'"
    using range(2) assms(6) by (simp add: unsigned_of_nat take_bit_nat_eq_self)
  have sel: "selectDb s m (of_nat d') = (upd_client s m (\<lambda>x. x\<lparr>c_db := d'\<rparr>), True)"
    using assms(6) range(2) by (rule selectDb_index)
  have return: "fst (selectDb (upd_client s m (\<lambda>x. x\<lparr>c_db := d'\<rparr>)) m (of_nat d)) = s"
    using selectDb_index [of d "upd_client s m (\<lambda>x. x\<lparr>c_db := d'\<rparr>)" m] range same
    by (simp add: upd_client_def)
  have look: "lookupKeyWrite s d k = Some (s, Some v)" "lookupKeyWrite s d' k = Some (s, None)"
    using lookupKeyWrite_ok [OF reaches_refl [OF assms(1)], of d k] lookupKeyWrite_ok [OF reaches_refl [OF assms(1)], of d' k]
      assms(8-10) exp' by auto
  let ?a = "upd_db s d' (\<lambda>x. x\<lparr>db_dict := (db_dict x)(k \<mapsto> v)\<rparr>)"
  have add: "dbAdd s d' k v = Some ?a" using assms(10) by (simp add: dbAdd_def)
  let ?t = "addReply ((fst (dbDelete ?a d k))\<lparr>dirty := dirty (fst (dbDelete ?a d k)) + 1\<rparr>) m shared_cone"
  have "moveCommand s m = Some ?t"
    using assms(2-7) range(2) num narrow sel return look add by (simp add: moveCommand_def upd_client_def Let_def)
  moreover have "db_dict (sdbs ?t d) k = None" "db_dict (sdbs ?t d') k = Some v"
    using assms(7) by (simp_all add: dbDelete_def upd_db_def addReply_def upd_client_def)
  moreover have "cl ?t m = (cl s m)\<lparr>c_reply := c_reply (cl s m) @ shared_cone\<rparr>" "\<forall>c. c \<noteq> m \<longrightarrow> cl ?t c = cl s c"
    by (simp_all add: dbDelete_def upd_db_def addReply_def upd_client_def)
  ultimately show ?thesis by blast
qed

text \<open>Client 1 sets a key, client 0 watches it, and client 1 is about to move it.\<close>

definition move_setup :: "event list" where
  "move_setup = [Connect 0, Connect 1, request_of 1 [str ''set'', str ''k'', str ''v''],
     request_of 0 [str ''watch'', str ''k'']]"

lemma move_setup_run:
  "\<exists>s :: unit server. server_run 0 (2 ^ 30) (initServer 16 0) move_setup s
    \<and> (0, str ''k'') \<in> set (c_watched_keys (cl s 0)) \<and> \<not> c_dirty_cas (cl s 0) \<and> c_db (cl s 1) = 0
    \<and> dbnum s = 16 \<and> \<not> cluster_enabled s \<and> db_dict (sdbs s 0) (str ''k'') = Some (EmbStr (str ''v''))
    \<and> db_expires (sdbs s 0) (str ''k'') = None \<and> db_dict (sdbs s 1) (str ''k'') = None"
  by (simp add: move_setup_def request_of_def serve_simps arg_ok_def)

lemma move_setup_ok: "list_all (event_ok True) move_setup"
  using plain_table [OF commands_found(1), simplified] plain_table [OF commands_found(4), simplified]
  by (simp add: move_setup_def request_of_def commands_found [simplified] c_str_def arg_ok_def request_ok_def releases_def)

theorem move_not_noticed_witness:
  "\<exists>s t :: unit server. (0, str ''k'') \<in> set (c_watched_keys (cl s 0)) \<and> db_dict (sdbs s 0) (str ''k'') \<noteq> None
    \<and> moveCommand s 1 = Some t \<and> db_dict (sdbs t 0) (str ''k'') = None \<and> \<not> c_dirty_cas (cl t 0)"
proof -
  obtain s :: "unit server" where run: "server_run 0 (2 ^ 30) (initServer 16 0) move_setup s"
    and facts: "(0, str ''k'') \<in> set (c_watched_keys (cl s 0))" "\<not> c_dirty_cas (cl s 0)" "c_db (cl s 1) = 0"
      "dbnum s = 16" "\<not> cluster_enabled s" "db_dict (sdbs s 0) (str ''k'') = Some (EmbStr (str ''v''))"
      "db_expires (sdbs s 0) (str ''k'') = None" "db_dict (sdbs s 1) (str ''k'') = None"
    using move_setup_run by blast
  have "tx_inv True (initServer 16 0 :: unit server)"
    using initServer_inv [of 16 0] by (simp add: tx_inv_def) (simp add: initServer_def)
  then have inv: "tx_inv True s" using keeps_inv [OF run_keeps [OF run _ move_setup_ok]] by simp
  define u where "u = upd_client s 1 (\<lambda>x. x\<lparr>c_argv := [str ''move'', str ''k'', str ''1'']\<rparr>)"
  have "keeps True {} s u"
    unfolding u_def by (rule keeps_client [OF inv]) (simp_all add: client_facts [OF inv] arg_ok_def)
  then have u: "srv_inv u" using tx_inv_srv [OF keeps_inv] by blast
  have same: "sdbs u = sdbs s" "cl u 0 = cl s 0" "c_db (cl u 1) = 0" "argument u 1 1 = str ''k''" "argument u 1 2 = str ''1''"
      "dbnum u = 16" "\<not> cluster_enabled u"
    using facts by (simp_all add: u_def upd_client_def)
  obtain t where "moveCommand u 1 = Some t" "db_dict (sdbs t 0) (str ''k'') = None" "cl t 0 = cl u 0"
    using move_not_noticed [of u 0 1 "str ''k''" 1] u same facts(6-8) numbers_read(1) by auto
  then show ?thesis using facts same by (metis option.distinct(1))
qed

text \<open>
  C31: A request inside a transaction is queued, or it is one of the four commands that run at
  once, or it is refused.  A refusal marks the transaction, so that \<open>EXEC\<close> will abort it, with three
  exceptions: writes on a read only slave, commands of a client that is subscribed to channels, and
  commands while the database is being loaded are refused without a mark.
\<close>

theorem refused_in_transaction:
  assumes "processCommand fill mem e s c = Some t" "c_multi (cl s c)" "map tolower (c_str (hd (c_argv (cl s c)))) \<noteq> str ''quit''"
  shows "(\<exists>cmd. commands e (hd (c_argv (cl s c))) = Some cmd
      \<and> (cmd_proc cmd \<in> {ExecCommand, DiscardCommand, MultiCommand, WatchCommand}
         \<or> c_mstate (cl t c) = c_mstate (cl s c) @ [(cmd, c_argv (cl s c))] \<and> c_reply (cl t c) = c_reply (cl s c) @ shared_queued))
    \<or> c_mstate (cl t c) = c_mstate (cl s c) \<and> sdbs t = sdbs s
      \<and> (c_dirty_exec (cl t c)
         \<or> (\<exists>r\<in>{shared_roslaveerr, shared_loadingerr,
                 str ''-ERR only (P)SUBSCRIBE / (P)UNSUBSCRIBE / QUIT allowed in this context'' @ CRLF}.
              t = addReply s c r))"
proof (cases "commands e (hd (c_argv (cl s c)))")
  case None
  then show ?thesis using assms
    by (auto simp: processCommand_def addReplyError_def addReply_def flagTransaction_def upd_client_def Let_def split: bind_splits)
next
  case (Some cmd)
  show ?thesis
  proof (cases "refusal e s c cmd")
    case None
    then show ?thesis using assms Some
      by (auto simp: processCommand_def queueMultiCommand_def addReply_def upd_client_def Let_def split: bind_splits if_splits)
  next
    case (Some r)
    then obtain flag msg where r: "refusal e s c cmd = Some (flag, msg)" by fastforce
    have t: "t = addReply (if flag then flagTransaction s c else s) c msg"
      using assms(1,3) r \<open>commands e (hd (c_argv (cl s c))) = Some cmd\<close> by (auto simp: processCommand_def Let_def split: bind_splits)
    have "msg \<in> {shared_roslaveerr, shared_loadingerr,
                 str ''-ERR only (P)SUBSCRIBE / (P)UNSUBSCRIBE / QUIT allowed in this context'' @ CRLF}" if "\<not> flag"
      using r that by (auto simp: refusal_def Let_def split: if_splits)
    then show ?thesis using t assms(2) by (auto simp: addReply_def flagTransaction_def upd_client_def)
  qed
qed

text \<open>A write on a read only slave, in a transaction that stays unmarked.\<close>

definition slave_session :: "unit server" where
  "slave_session = upd_client (two_clients\<lparr>masterhost := True\<rparr>) 0
     (\<lambda>x. x\<lparr>c_multi := True, c_argv := [str ''set'', str ''k'', str ''v'']\<rparr>)"

theorem refused_in_transaction_witness:
  "processCommand 0 0 (plain_env\<lparr>slave_ro := True\<rparr>) slave_session 0 = Some (addReply slave_session 0 shared_roslaveerr)
   \<and> \<not> c_dirty_exec (cl (addReply slave_session 0 shared_roslaveerr) 0)"
proof -
  have args: "c_argv (cl slave_session 0) = [str ''set'', str ''k'', str ''v'']" "c_multi (cl slave_session 0)"
    by (simp_all add: slave_session_def upd_client_def)
  have p: "processCommand 0 0 (plain_env\<lparr>slave_ro := True\<rparr>) slave_session 0 = Some (addReply slave_session 0 shared_roslaveerr)"
    using args commands_found(4)
    by (simp add: processCommand_def refusal_def arity_wrong_def cmd_has_def c_str_def tolower_def plain_env_def Let_def)
      (simp add: slave_session_def two_clients_def createClient_def initServer_def upd_client_def)
  have "\<not> c_dirty_exec (cl (addReply slave_session 0 shared_roslaveerr) 0)"
    by (simp add: addReply_def slave_session_def two_clients_def createClient_def initServer_def upd_client_def)
  moreover have "map tolower (c_str (hd (c_argv (cl slave_session 0)))) \<noteq> str ''quit''"
    by (simp add: args c_str_def tolower_def)
  ultimately show ?thesis using refused_in_transaction [OF p args(2)] p by blast
qed

text \<open>
  C33: The line printed for every request is built in a buffer of 1024 bytes: it overflows exactly
  when the arguments, with two blanks each, have 1024 bytes or more, and this happens before the
  command is looked up and before the client is authenticated.
\<close>

theorem debug_line_overflow:
  "(debug_line args [] = None \<longleftrightarrow> 1024 \<le> (\<Sum>a\<leftarrow>args. length (c_str a) + 2))
   \<and> (c_argv (cl s c) = args \<longrightarrow> map tolower (c_str (hd args)) \<noteq> str ''quit'' \<longrightarrow> debug_line args [] = None \<longrightarrow>
        processCommand fill mem e s c = None)"
proof -
  have "debug_line args sz = None \<longleftrightarrow> 1024 \<le> length sz + (\<Sum>a\<leftarrow>args. length (c_str a) + 2)" if "length sz < 1024" for sz
    using that
  proof (induction args arbitrary: sz)
    case (Cons a args)
    have mono: "(\<Sum>a\<leftarrow>a # args. length (c_str a) + 2) = length (c_str a) + 2 + (\<Sum>a\<leftarrow>args. length (c_str a) + 2)" by simp
    show ?case
    proof (cases "1024 < length sz + (length (c_str a) + 2) + 1")
      case True
      then show ?thesis by simp
    next
      case False
      then show ?thesis using Cons.IH [of "sz @ str '' '' @ c_str a @ str '' ''"] by (simp add: add.assoc)
    qed
  qed simp
  moreover have "processCommand fill mem e s c = None"
    if "c_argv (cl s c) = args" "map tolower (c_str (hd args)) \<noteq> str ''quit''" "debug_line args [] = None"
    using that by (simp add: processCommand_def)
  ultimately show ?thesis by simp
qed

theorem debug_line_overflow_witness:
  "processCommand 0 (2 ^ 30)
     (plain_env\<lparr>requirepass := True\<rparr>)
     (upd_client (two_clients :: unit server) 0 (\<lambda>x. x\<lparr>c_argv := [str ''get'', replicate 1017 1]\<rparr>)) 0 = None"
proof -
  let ?args = "[str ''get'', replicate 1017 (1 :: byte)]"
  have c: "c_str (replicate 1017 (1 :: byte)) = replicate 1017 1" by (rule c_str_clean) simp
  have "debug_line ?args [] = None"
    using debug_line_overflow [of ?args "two_clients :: unit server" 0 0 0 plain_env] c by (simp add: c_str_def)
  then show ?thesis
    using debug_line_overflow [of ?args "upd_client (two_clients :: unit server) 0 (\<lambda>x. x\<lparr>c_argv := ?args\<rparr>)" 0 0 "2 ^ 30"
        "plain_env\<lparr>requirepass := True\<rparr>"]
    by (simp add: upd_client_def c_str_def tolower_def)
qed

end
