(* ===== verification/Cluster.thy ===== *)
theory Cluster
  imports Object "HOL-Library.Monad_Syntax" "HOL-Library.AList"
begin

text \<open>
  The local view of the cluster (\<open>cluster.c\<close>, \<open>cluster.h\<close>): the nodes a server knows, which
  node serves which hash slot, and the operations that change this view.  Pointers to nodes are
  references into a store, so a pointer that outlives its node shows as a missing entry; an
  operation returns \<open>None\<close> where the code follows such a pointer or a null pointer, where an
  assertion fails, and where the debug output of \<open>clusterAddSlot\<close> leaves its buffer.
\<close>

section \<open>Data\<close>

type_synonym nref = nat

definition REDIS_CLUSTER_SLOTS :: nat where "REDIS_CLUSTER_SLOTS = 16384"
definition REDIS_CLUSTER_NAMELEN :: nat where "REDIS_CLUSTER_NAMELEN = 40"
definition REDIS_CLUSTER_PORT_INCR :: int where "REDIS_CLUSTER_PORT_INCR = 10000"

text \<open>The flag bits of a node as a set of flags.\<close>

datatype node_flag =
    REDIS_NODE_MASTER | REDIS_NODE_SLAVE | REDIS_NODE_PFAIL | REDIS_NODE_FAIL | REDIS_NODE_MYSELF
  | REDIS_NODE_HANDSHAKE | REDIS_NODE_NOADDR | REDIS_NODE_MEET | REDIS_NODE_PROMOTED

definition REDIS_NODE_NULL_NAME :: bytes where
  "REDIS_NODE_NULL_NAME = replicate 40 0"

record clusterLink =
  link_fd :: int
  link_ctime :: int

text \<open>\<open>fail_reports\<close> pairs the reporting node with the time of its report.\<close>

record clusterNode =
  ctime :: int
  node_name :: bytes
  node_flags :: "node_flag set"
  configEpoch :: u64
  node_slots :: bytes
  numslots :: int
  slaves :: "nref list"
  slaveof :: "nref option"
  ping_sent :: int
  pong_received :: int
  fail_time :: int
  voted_time :: int
  repl_offset_time :: int
  repl_offset :: int
  node_ip :: bytes
  node_port :: int
  node_link :: "clusterLink option"
  fail_reports :: "(nref \<times> int) list"

abbreviation nodeIsMaster :: "clusterNode \<Rightarrow> bool" where
  "nodeIsMaster n \<equiv> REDIS_NODE_MASTER \<in> node_flags n"
abbreviation nodeIsSlave :: "clusterNode \<Rightarrow> bool" where
  "nodeIsSlave n \<equiv> REDIS_NODE_SLAVE \<in> node_flags n"
abbreviation nodeInHandshake :: "clusterNode \<Rightarrow> bool" where
  "nodeInHandshake n \<equiv> REDIS_NODE_HANDSHAKE \<in> node_flags n"
abbreviation nodeTimedOut :: "clusterNode \<Rightarrow> bool" where
  "nodeTimedOut n \<equiv> REDIS_NODE_PFAIL \<in> node_flags n"
abbreviation nodeFailed :: "clusterNode \<Rightarrow> bool" where
  "nodeFailed n \<equiv> REDIS_NODE_FAIL \<in> node_flags n"

datatype cluster_health = REDIS_CLUSTER_OK | REDIS_CLUSTER_FAIL

datatype todo = TODO_HANDLE_FAILOVER | TODO_UPDATE_STATE | TODO_SAVE_CONFIG | TODO_FSYNC_CONFIG

datatype cant_failover = CANT_NONE | CANT_DATA_AGE | CANT_WAITING_DELAY | CANT_EXPIRED | CANT_WAITING_VOTES

text \<open>
  A message of the cluster bus in host byte order.  The union at its end is given by the fields
  of its members; the type says which of them a receiver reads.
\<close>

datatype msg_type =
    CLUSTERMSG_TYPE_PING | CLUSTERMSG_TYPE_PONG | CLUSTERMSG_TYPE_MEET | CLUSTERMSG_TYPE_FAIL
  | CLUSTERMSG_TYPE_PUBLISH | CLUSTERMSG_TYPE_FAILOVER_AUTH_REQUEST | CLUSTERMSG_TYPE_FAILOVER_AUTH_ACK
  | CLUSTERMSG_TYPE_UPDATE | CLUSTERMSG_TYPE_MFSTART | CLUSTERMSG_TYPE_OTHER

record clusterMsgDataGossip =
  g_nodename :: bytes
  g_ip :: bytes
  g_port :: int
  g_flags :: "node_flag set"

record clusterMsg =
  m_totlen :: u32
  m_ver :: u16
  m_type :: msg_type
  m_currentEpoch :: u64
  m_configEpoch :: u64
  m_offset :: int
  m_sender :: bytes
  m_myslots :: bytes
  m_slaveof :: bytes
  m_port :: int
  m_flags :: "node_flag set"
  m_state :: cluster_health
  m_paused :: bool
  m_forceack :: bool
  m_gossip :: "clusterMsgDataGossip list"
  m_about :: bytes
  m_channel_len :: u32
  m_message_len :: u32
  m_bulk :: bytes
  m_upd_epoch :: u64
  m_upd_name :: bytes
  m_upd_slots :: bytes

text \<open>
  What an event makes the server do outside its own view: a message queued on the link of a
  node, a ping or pong (whose gossip section is chosen at random and not modelled) for a node or
  for the link the event came from, a change of the replication, and so on.
\<close>

datatype bus_effect =
    Send nref clusterMsg
  | SendPing nref msg_type
  | SendPong
  | ReplicationSetMaster bytes int
  | ReplicationUnsetMaster
  | DelKeysInSlot nat
  | SaveConfig bool
  | PauseClients int
  | UnpauseClients
  | EmptyDb
  | PublishMessage bytes bytes

text \<open>
  The clock and the settings an event reads, and what the rest of the server tells it:
  replication offsets and states, the keys in a slot, random choices, the addresses of the link
  the event came from, the addresses the C library accepts (with their normal form), and the
  descriptors that new connections get (-1 for a failure).  The clock does not move during an
  event.
\<close>

record cluster_env =
  now :: int
  unixtime :: int
  cluster_node_timeout :: int
  require_full_coverage :: bool
  slave_validity_factor :: int
  repl_ping_slave_period :: int
  migration_barrier :: int
  repl_connected :: bool
  master_lastinteraction :: int
  repl_down_since :: int
  slave_offset :: int
  master_repl_offset :: int
  server_port :: int
  keys_in_slot :: "nat \<Rightarrow> nat"
  db_keys :: nat
  rnd :: int
  rnd_name :: "nref \<Rightarrow> bytes"
  peer_ip :: bytes
  sock_ip :: "bytes option"
  norm_ip :: "bytes \<Rightarrow> bytes option"
  has_subscribers :: bool
  clients_are_paused :: bool
  other_dbs_empty :: bool
  masterhost_set :: bool
  connect_fd :: "nref \<Rightarrow> int"
  random_nodes :: "nref list"

text \<open>
  \<open>cheap\<close> is the store of nodes and \<open>cnodes\<close> the table of known nodes by name, in the order of
  its iteration; \<open>next_ref\<close> is the next free reference.  The arrays over slots are functions
  that are used at slots only.  \<open>fd_ids\<close> are the used entries of the static array of
  \<open>clusterAddSlot\<close>, \<open>first_call_time\<close> and \<open>among_minority_time\<close> the static variables of
  \<open>clusterUpdateState\<close>, \<open>cron_iteration\<close> the one of \<open>clusterCron\<close>; \<open>effects\<close> collects what the event does outside.
\<close>

record clusterState =
  myself :: nref
  currentEpoch :: u64
  health :: cluster_health
  csize :: int
  cheap :: "nref \<Rightarrow> clusterNode option"
  cnodes :: "(bytes \<times> nref) list"
  next_ref :: nref
  black_list :: "(bytes \<times> int) list"
  migrating_slots_to :: "nat \<Rightarrow> nref option"
  importing_slots_from :: "nat \<Rightarrow> nref option"
  cslots :: "nat \<Rightarrow> nref option"
  failover_auth_time :: int
  failover_auth_count :: int
  failover_auth_sent :: bool
  failover_auth_rank :: int
  failover_auth_epoch :: u64
  cant_failover_reason :: cant_failover
  mf_end :: int
  mf_slave :: "nref option"
  mf_master_offset :: int
  mf_can_start :: bool
  lastVoteEpoch :: u64
  todo_before_sleep :: "todo set"
  fd_ids :: "int list"
  cron_iteration :: nat
  first_call_time :: int
  among_minority_time :: int
  effects :: "bus_effect list"

abbreviation set_node :: "clusterState \<Rightarrow> nref \<Rightarrow> clusterNode \<Rightarrow> clusterState" where
  "set_node s r n \<equiv> s\<lparr>cheap := (cheap s)(r \<mapsto> n)\<rparr>"

abbreviation emit :: "clusterState \<Rightarrow> bus_effect \<Rightarrow> clusterState" where
  "emit s e \<equiv> s\<lparr>effects := effects s @ [e]\<rparr>"

definition clusterDoBeforeSleep :: "clusterState \<Rightarrow> todo set \<Rightarrow> clusterState" where
  "clusterDoBeforeSleep s flags = s\<lparr>todo_before_sleep := todo_before_sleep s \<union> flags\<rparr>"

text \<open>
  Saving the configuration takes the request to do so back.  \<open>SaveConfig\<close> stands for the write of
  the file and says whether it is flushed to the disk; a write that fails ends the program.
\<close>

definition clusterSaveConfig :: "clusterState \<Rightarrow> bool \<Rightarrow> clusterState" where
  "clusterSaveConfig s do_fsync =
    emit (s\<lparr>todo_before_sleep := todo_before_sleep s - {TODO_SAVE_CONFIG} -
                                 (if do_fsync then {TODO_FSYNC_CONFIG} else {})\<rparr>) (SaveConfig do_fsync)"

text \<open>A loop whose body may fail.\<close>

fun loop :: "('a \<Rightarrow> 's \<Rightarrow> 's option) \<Rightarrow> 'a list \<Rightarrow> 's \<Rightarrow> 's option" where
  "loop f [] s = Some s"
| "loop f (x # xs) s = do { s \<leftarrow> f x s; loop f xs s }"

section \<open>Nodes\<close>

definition createClusterNode :: "int \<Rightarrow> bytes \<Rightarrow> node_flag set \<Rightarrow> clusterNode" where
  "createClusterNode t name flags =
    \<lparr>ctime = t, node_name = name, node_flags = flags, configEpoch = 0, node_slots = replicate 2048 0,
     numslots = 0, slaves = [], slaveof = None, ping_sent = 0, pong_received = 0, fail_time = 0,
     voted_time = 0, repl_offset_time = 0, repl_offset = 0, node_ip = [], node_port = 0,
     node_link = None, fail_reports = []\<rparr>"

definition new_node :: "clusterState \<Rightarrow> clusterNode \<Rightarrow> clusterState \<times> nref" where
  "new_node s n = (s\<lparr>cheap := (cheap s)(next_ref s \<mapsto> n), next_ref := next_ref s + 1\<rparr>, next_ref s)"

fun add_report :: "int \<Rightarrow> nref \<Rightarrow> (nref \<times> int) list \<Rightarrow> (nref \<times> int) list \<times> bool" where
  "add_report t sender [] = ([(sender, t)], True)"
| "add_report t sender ((r, u) # rs) =
    (if r = sender then ((r, t) # rs, False)
     else let (rs, new) = add_report t sender rs in ((r, u) # rs, new))"

definition clusterNodeAddFailureReport :: "cluster_env \<Rightarrow> clusterNode \<Rightarrow> nref \<Rightarrow> clusterNode \<times> bool" where
  "clusterNodeAddFailureReport E failing sender =
    (let (rs, new) = add_report (now E) sender (fail_reports failing)
     in (failing\<lparr>fail_reports := rs\<rparr>, new))"

definition clusterNodeCleanupFailureReports :: "cluster_env \<Rightarrow> clusterNode \<Rightarrow> clusterNode" where
  "clusterNodeCleanupFailureReports E n =
    (let maxtime = cluster_node_timeout E * 2
     in n\<lparr>fail_reports := filter (\<lambda>(r, t). \<not> now E - t > maxtime) (fail_reports n)\<rparr>)"

fun del_report :: "nref \<Rightarrow> (nref \<times> int) list \<Rightarrow> (nref \<times> int) list option" where
  "del_report sender [] = None"
| "del_report sender ((r, t) # rs) =
    (if r = sender then Some rs else map_option ((#) (r, t)) (del_report sender rs))"

definition clusterNodeDelFailureReport :: "cluster_env \<Rightarrow> clusterNode \<Rightarrow> nref \<Rightarrow> clusterNode \<times> bool" where
  "clusterNodeDelFailureReport E n sender =
    (case del_report sender (fail_reports n) of
       None \<Rightarrow> (n, False)
     | Some rs \<Rightarrow> (clusterNodeCleanupFailureReports E (n\<lparr>fail_reports := rs\<rparr>), True))"

definition clusterNodeFailureReportsCount :: "cluster_env \<Rightarrow> clusterNode \<Rightarrow> clusterNode \<times> int" where
  "clusterNodeFailureReportsCount E n =
    (let n = clusterNodeCleanupFailureReports E n in (n, int (length (fail_reports n))))"

definition clusterNodeRemoveSlave :: "clusterNode \<Rightarrow> nref \<Rightarrow> clusterNode \<times> bool" where
  "clusterNodeRemoveSlave master slave =
    (if slave \<in> set (slaves master) then (master\<lparr>slaves := remove1 slave (slaves master)\<rparr>, True)
     else (master, False))"

definition clusterNodeAddSlave :: "clusterNode \<Rightarrow> nref \<Rightarrow> clusterNode \<times> bool" where
  "clusterNodeAddSlave master slave =
    (if slave \<in> set (slaves master) then (master, False)
     else (master\<lparr>slaves := slaves master @ [slave]\<rparr>, True))"

definition clusterNodeResetSlaves :: "clusterNode \<Rightarrow> clusterNode" where
  "clusterNodeResetSlaves n = n\<lparr>slaves := []\<rparr>"

definition remove_slave :: "clusterState \<Rightarrow> nref \<Rightarrow> nref \<Rightarrow> clusterState option" where
  "remove_slave s m r =
    do { mn \<leftarrow> cheap s m; Some (set_node s m (fst (clusterNodeRemoveSlave mn r))) }"

definition add_slave :: "clusterState \<Rightarrow> nref \<Rightarrow> nref \<Rightarrow> clusterState option" where
  "add_slave s m r =
    do { mn \<leftarrow> cheap s m; Some (set_node s m (fst (clusterNodeAddSlave mn r))) }"

definition clusterCountNonFailingSlaves :: "clusterState \<Rightarrow> clusterNode \<Rightarrow> nat option" where
  "clusterCountNonFailingSlaves s n =
    loop (\<lambda>r k. do { sn \<leftarrow> cheap s r; Some (if \<not> nodeFailed sn then k + 1 else k) }) (slaves n) 0"

definition clusterAddNode :: "clusterState \<Rightarrow> nref \<Rightarrow> (clusterState \<times> bool) option" where
  "clusterAddNode s r =
    do {
      n \<leftarrow> cheap s r;
      Some (if node_name n \<in> fst ` set (cnodes s) then (s, False)
            else (s\<lparr>cnodes := cnodes s @ [(node_name n, r)]\<rparr>, True))
    }"

definition clusterLookupNode :: "clusterState \<Rightarrow> bytes \<Rightarrow> nref option" where
  "clusterLookupNode s name = map_of (cnodes s) name"

definition clusterRenameNode :: "clusterState \<Rightarrow> nref \<Rightarrow> bytes \<Rightarrow> clusterState option" where
  "clusterRenameNode s r newname =
    do {
      n \<leftarrow> cheap s r;
      if node_name n \<notin> fst ` set (cnodes s) then None
      else do {
        (s, ok) \<leftarrow> clusterAddNode
          (set_node s r (n\<lparr>node_name := newname\<rparr>)
             \<lparr>cnodes := filter (\<lambda>(nm, q). nm \<noteq> node_name n) (cnodes s)\<rparr>) r;
        Some s
      }
    }"

section \<open>Slots\<close>

definition bitmapTestBit :: "bytes \<Rightarrow> nat \<Rightarrow> bool" where
  "bitmapTestBit bitmap pos = (bitmap ! (pos div 8) AND push_bit (pos mod 8) 1 \<noteq> 0)"

definition bitmapSetBit :: "bytes \<Rightarrow> nat \<Rightarrow> bytes" where
  "bitmapSetBit bitmap pos = bitmap[pos div 8 := bitmap ! (pos div 8) OR push_bit (pos mod 8) 1]"

definition bitmapClearBit :: "bytes \<Rightarrow> nat \<Rightarrow> bytes" where
  "bitmapClearBit bitmap pos = bitmap[pos div 8 := bitmap ! (pos div 8) AND NOT (push_bit (pos mod 8) 1)]"

definition clusterNodeSetSlotBit :: "clusterNode \<Rightarrow> nat \<Rightarrow> clusterNode \<times> bool" where
  "clusterNodeSetSlotBit n slot =
    (let old = bitmapTestBit (node_slots n) slot;
         n = n\<lparr>node_slots := bitmapSetBit (node_slots n) slot\<rparr>
     in (if \<not> old then n\<lparr>numslots := numslots n + 1\<rparr> else n, old))"

definition clusterNodeClearSlotBit :: "clusterNode \<Rightarrow> nat \<Rightarrow> clusterNode \<times> bool" where
  "clusterNodeClearSlotBit n slot =
    (let old = bitmapTestBit (node_slots n) slot;
         n = n\<lparr>node_slots := bitmapClearBit (node_slots n) slot\<rparr>
     in (if old then n\<lparr>numslots := numslots n - 1\<rparr> else n, old))"

definition clusterNodeGetSlotBit :: "clusterNode \<Rightarrow> nat \<Rightarrow> bool" where
  "clusterNodeGetSlotBit n slot = bitmapTestBit (node_slots n) slot"

text \<open>
  The output added to \<open>clusterAddSlot\<close>: the descriptor of the link of the node is entered into a
  static array of 1024 entries, 0 marking a free entry, and when it is new all entries are
  printed into a buffer of 1024 bytes.
\<close>

definition int_dec :: "int \<Rightarrow> bytes" where
  "int_dec k = (if k < 0 then ch CHR ''-'' # dec_nat (nat (- k)) else dec_nat (nat k))"

definition fd_line :: "int list \<Rightarrow> bytes" where
  "fd_line ids = concat (map (\<lambda>fd. str '' (fd  '' @ int_dec fd @ str '') '') ids)"

definition note_fd :: "int list \<Rightarrow> int \<Rightarrow> int list option" where
  "note_fd ids fd =
    (if fd \<in> set ids \<or> fd = 0 \<or> length ids = 1024 then
       Some ids
     else if length (fd_line (ids @ [fd])) \<ge> 1024 then None
     else Some (ids @ [fd]))"

definition clusterAddSlot :: "clusterState \<Rightarrow> nref \<Rightarrow> nat \<Rightarrow> (clusterState \<times> bool) option" where
  "clusterAddSlot s r slot =
    (if cslots s slot \<noteq> None then Some (s, False)
     else do {
       n \<leftarrow> cheap s r;
       let s = (set_node s r (fst (clusterNodeSetSlotBit n slot)))\<lparr>cslots := (cslots s)(slot \<mapsto> r)\<rparr>;
       case node_link n of
         None \<Rightarrow> Some (s, True)
       | Some l \<Rightarrow> do {
           ids \<leftarrow> note_fd (fd_ids s) (link_fd l);
           Some (s\<lparr>fd_ids := ids\<rparr>, True)
         }
     })"

definition clusterDelSlot :: "clusterState \<Rightarrow> nat \<Rightarrow> (clusterState \<times> bool) option" where
  "clusterDelSlot s slot =
    (case cslots s slot of
       None \<Rightarrow> Some (s, False)
     | Some r \<Rightarrow> do {
         n \<leftarrow> cheap s r;
         let (n, old) = clusterNodeClearSlotBit n slot;
         if \<not> old then None
         else Some ((set_node s r n)\<lparr>cslots := (cslots s)(slot := None)\<rparr>, True)
       })"

definition del_slot :: "nat \<Rightarrow> clusterState \<Rightarrow> clusterState option" where
  "del_slot j s = map_option fst (clusterDelSlot s j)"

definition add_slot :: "nref \<Rightarrow> nat \<Rightarrow> clusterState \<Rightarrow> clusterState option" where
  "add_slot r j s = map_option fst (clusterAddSlot s r j)"

text \<open>The number it returns counts every slot, whether it was deleted or not.\<close>

definition del_node_slot :: "nref \<Rightarrow> nat \<Rightarrow> clusterState \<times> int \<Rightarrow> (clusterState \<times> int) option" where
  "del_node_slot r j = (\<lambda>(s, deleted). do {
      n \<leftarrow> cheap s r;
      s \<leftarrow> (if clusterNodeGetSlotBit n j then del_slot j s else Some s);
      Some (s, deleted + 1)
    })"

definition clusterDelNodeSlots :: "clusterState \<Rightarrow> nref \<Rightarrow> (clusterState \<times> int) option" where
  "clusterDelNodeSlots s r = loop (del_node_slot r) [0..<REDIS_CLUSTER_SLOTS] (s, 0)"

definition clusterCloseAllSlots :: "clusterState \<Rightarrow> clusterState" where
  "clusterCloseAllSlots s =
    s\<lparr>migrating_slots_to := (\<lambda>_. None), importing_slots_from := (\<lambda>_. None)\<rparr>"

section \<open>Removing nodes\<close>

definition orphan :: "nref \<Rightarrow> clusterState \<Rightarrow> clusterState option" where
  "orphan q s = do { qn \<leftarrow> cheap s q; Some (set_node s q (qn\<lparr>slaveof := None\<rparr>)) }"

definition detach_node :: "clusterState \<Rightarrow> nref \<Rightarrow> clusterState option" where
  "detach_node s r =
    do {
      n \<leftarrow> cheap s r;
      s \<leftarrow> (if nodeIsMaster n then loop orphan (slaves n) s else Some s);
      n \<leftarrow> cheap s r;
      case slaveof n of
        Some m \<Rightarrow> if nodeIsSlave n then remove_slave s m r else Some s
      | None \<Rightarrow> Some s
    }"

definition freeClusterNode :: "clusterState \<Rightarrow> nref \<Rightarrow> clusterState option" where
  "freeClusterNode s r =
    do {
      s \<leftarrow> detach_node s r;
      n \<leftarrow> cheap s r;
      if node_name n \<notin> fst ` set (cnodes s) then None
      else Some (s\<lparr>cnodes := filter (\<lambda>(nm, q). nm \<noteq> node_name n) (cnodes s), cheap := (cheap s)(r := None)\<rparr>)
    }"

definition unassign_slot :: "nref \<Rightarrow> nat \<Rightarrow> clusterState \<Rightarrow> clusterState option" where
  "unassign_slot delnode j s =
    do {
      let s = (if importing_slots_from s j = Some delnode
               then s\<lparr>importing_slots_from := (importing_slots_from s)(j := None)\<rparr> else s);
      let s = (if migrating_slots_to s j = Some delnode
               then s\<lparr>migrating_slots_to := (migrating_slots_to s)(j := None)\<rparr> else s);
      if cslots s j = Some delnode then del_slot j s else Some s
    }"

definition drop_reports :: "cluster_env \<Rightarrow> nref \<Rightarrow> bytes \<times> nref \<Rightarrow> clusterState \<Rightarrow> clusterState option" where
  "drop_reports E delnode = (\<lambda>(nm, r) s.
    if r = delnode then Some s
    else do { n \<leftarrow> cheap s r; Some (set_node s r (fst (clusterNodeDelFailureReport E n delnode))) })"

definition clusterDelNode :: "cluster_env \<Rightarrow> clusterState \<Rightarrow> nref \<Rightarrow> clusterState option" where
  "clusterDelNode E s delnode =
    do {
      s \<leftarrow> loop (unassign_slot delnode) [0..<REDIS_CLUSTER_SLOTS] s;
      s \<leftarrow> loop (drop_reports E delnode) (cnodes s) s;
      freeClusterNode s delnode
    }"

section \<open>Epochs\<close>

definition clusterGetMaxEpoch :: "clusterState \<Rightarrow> u64 option" where
  "clusterGetMaxEpoch s =
    do {
      m \<leftarrow> loop (\<lambda>(nm, r) m. do { n \<leftarrow> cheap s r; Some (if configEpoch n > m then configEpoch n else m) })
             (cnodes s) 0;
      Some (if m < currentEpoch s then currentEpoch s else m)
    }"

definition clusterBumpConfigEpochWithoutConsensus :: "clusterState \<Rightarrow> (clusterState \<times> bool) option" where
  "clusterBumpConfigEpochWithoutConsensus s =
    do {
      maxEpoch \<leftarrow> clusterGetMaxEpoch s;
      me \<leftarrow> cheap s (myself s);
      if configEpoch me = 0 \<or> configEpoch me \<noteq> maxEpoch then
        Some (clusterDoBeforeSleep
                ((set_node s (myself s) (me\<lparr>configEpoch := currentEpoch s + 1\<rparr>))
                   \<lparr>currentEpoch := currentEpoch s + 1\<rparr>)
                {TODO_SAVE_CONFIG, TODO_FSYNC_CONFIG}, True)
      else Some (s, False)
    }"

text \<open>\<open>memcmp\<close> of two node names: is the first one greater?\<close>

fun name_greater :: "bytes \<Rightarrow> bytes \<Rightarrow> bool" where
  "name_greater (a # as) (b # bs) = (a > b \<or> a = b \<and> name_greater as bs)"
| "name_greater _ _ = False"

definition clusterHandleConfigEpochCollision :: "clusterState \<Rightarrow> nref \<Rightarrow> clusterState option" where
  "clusterHandleConfigEpochCollision s sender =
    do {
      n \<leftarrow> cheap s sender;
      me \<leftarrow> cheap s (myself s);
      if configEpoch n \<noteq> configEpoch me \<or> \<not> nodeIsMaster n \<or> \<not> nodeIsMaster me then Some s
      else if \<not> name_greater (node_name n) (node_name me) then Some s
      else Some (clusterSaveConfig ((set_node s (myself s) (me\<lparr>configEpoch := currentEpoch s + 1\<rparr>))
                                      \<lparr>currentEpoch := currentEpoch s + 1\<rparr>) True)
    }"

section \<open>Blacklist\<close>

definition clusterBlacklistCleanup :: "cluster_env \<Rightarrow> clusterState \<Rightarrow> clusterState" where
  "clusterBlacklistCleanup E s =
    s\<lparr>black_list := filter (\<lambda>(nm, expire). \<not> expire < unixtime E) (black_list s)\<rparr>"

definition clusterBlacklistAddNode :: "cluster_env \<Rightarrow> clusterState \<Rightarrow> clusterNode \<Rightarrow> clusterState" where
  "clusterBlacklistAddNode E s n =
    (let s = clusterBlacklistCleanup E s
     in s\<lparr>black_list := AList.update (node_name n) (unixtime E + 60) (black_list s)\<rparr>)"

definition clusterBlacklistExists :: "cluster_env \<Rightarrow> clusterState \<Rightarrow> bytes \<Rightarrow> clusterState \<times> bool" where
  "clusterBlacklistExists E s nodeid =
    (let s = clusterBlacklistCleanup E s in (s, nodeid \<in> fst ` set (black_list s)))"

section \<open>Roles and slots\<close>

definition resetManualFailover :: "cluster_env \<Rightarrow> clusterState \<Rightarrow> clusterState" where
  "resetManualFailover E s =
    (let s = (if mf_end s \<noteq> 0 \<and> clients_are_paused E then emit s UnpauseClients else s)
     in s\<lparr>mf_end := 0, mf_can_start := False, mf_slave := None, mf_master_offset := 0\<rparr>)"

definition clusterSetNodeAsMaster :: "clusterState \<Rightarrow> nref \<Rightarrow> clusterState option" where
  "clusterSetNodeAsMaster s r =
    do {
      n \<leftarrow> cheap s r;
      if nodeIsMaster n then Some s
      else do {
        s \<leftarrow> (case slaveof n of Some m \<Rightarrow> remove_slave s m r | None \<Rightarrow> Some s);
        n \<leftarrow> cheap s r;
        Some (clusterDoBeforeSleep
          (set_node s r (n\<lparr>node_flags := node_flags n - {REDIS_NODE_SLAVE} \<union> {REDIS_NODE_MASTER},
                           slaveof := None\<rparr>))
          {TODO_SAVE_CONFIG, TODO_UPDATE_STATE})
      }
    }"

definition clusterSetMaster :: "cluster_env \<Rightarrow> clusterState \<Rightarrow> nref \<Rightarrow> clusterState option" where
  "clusterSetMaster E s r =
    (if r = myself s then None
     else do {
       me \<leftarrow> cheap s (myself s);
       if numslots me \<noteq> 0 then None
       else do {
         s \<leftarrow> (if nodeIsMaster me then
                 Some (clusterCloseAllSlots (set_node s (myself s)
                   (me\<lparr>node_flags := node_flags me - {REDIS_NODE_MASTER} \<union> {REDIS_NODE_SLAVE}\<rparr>)))
               else (case slaveof me of Some m \<Rightarrow> remove_slave s m (myself s) | None \<Rightarrow> Some s));
         me \<leftarrow> cheap s (myself s);
         s \<leftarrow> add_slave (set_node s (myself s) (me\<lparr>slaveof := Some r\<rparr>)) r (myself s);
         n \<leftarrow> cheap s r;
         Some (resetManualFailover E (emit s (ReplicationSetMaster (node_ip n) (node_port n))))
       }
     })"

text \<open>
  One round of the loop of \<open>clusterUpdateSlotsConfigWith\<close>, with the new master and the slots
  that were lost with keys in them as they are collected.
\<close>

definition rebind_slot ::
  "cluster_env \<Rightarrow> nref option \<Rightarrow> nref \<Rightarrow> u64 \<Rightarrow> bytes \<Rightarrow> nat \<Rightarrow> clusterState \<times> nref option \<times> nat list \<Rightarrow>
     (clusterState \<times> nref option \<times> nat list) option" where
  "rebind_slot E curmaster sender epoch bm j = (\<lambda>(s, newmaster, dirty).
    if \<not> bitmapTestBit bm j then Some (s, newmaster, dirty)
    else if cslots s j = Some sender then Some (s, newmaster, dirty)
    else if importing_slots_from s j \<noteq> None then Some (s, newmaster, dirty)
    else do {
      older \<leftarrow> (case cslots s j of
                 None \<Rightarrow> Some True
               | Some q \<Rightarrow> do { qn \<leftarrow> cheap s q; Some (configEpoch qn < epoch) });
      if \<not> older then Some (s, newmaster, dirty)
      else do {
        let dirty = (if cslots s j = Some (myself s) \<and> keys_in_slot E j \<noteq> 0 \<and> sender \<noteq> myself s
                     then dirty @ [j] else dirty);
        let newmaster = (if cslots s j = curmaster then Some sender else newmaster);
        s \<leftarrow> del_slot j s;
        s \<leftarrow> add_slot sender j s;
        Some (clusterDoBeforeSleep s {TODO_SAVE_CONFIG, TODO_UPDATE_STATE, TODO_FSYNC_CONFIG}, newmaster, dirty)
      }
    })"

definition clusterUpdateSlotsConfigWith ::
  "cluster_env \<Rightarrow> clusterState \<Rightarrow> nref \<Rightarrow> u64 \<Rightarrow> bytes \<Rightarrow> clusterState option" where
  "clusterUpdateSlotsConfigWith E s sender epoch bm =
    do {
      me \<leftarrow> cheap s (myself s);
      let curmaster = (if nodeIsMaster me then Some (myself s) else slaveof me);
      if sender = myself s then Some s
      else do {
        (s, newmaster, dirty) \<leftarrow>
          loop (rebind_slot E curmaster sender epoch bm) [0..<REDIS_CLUSTER_SLOTS] (s, None, []);
        demoted \<leftarrow> (if newmaster \<noteq> None then do { m \<leftarrow> curmaster; mn \<leftarrow> cheap s m; Some (numslots mn = 0) }
                   else Some False);
        if demoted then do {
          s \<leftarrow> clusterSetMaster E s sender;
          Some (clusterDoBeforeSleep s {TODO_SAVE_CONFIG, TODO_UPDATE_STATE, TODO_FSYNC_CONFIG})
        }
        else Some (s\<lparr>effects := effects s @ map DelKeysInSlot dirty\<rparr>)
      }
    }"

section \<open>The state of the cluster\<close>

fun uncovered :: "clusterState \<Rightarrow> nat list \<Rightarrow> bool option" where
  "uncovered s [] = Some False"
| "uncovered s (j # js) =
    (case cslots s j of
       None \<Rightarrow> Some True
     | Some r \<Rightarrow> do { n \<leftarrow> cheap s r; if nodeFailed n then Some True else uncovered s js })"

definition count_masters :: "clusterState \<Rightarrow> (int \<times> int) option" where
  "count_masters s =
    loop (\<lambda>(nm, r) (k, reachable). do {
        n \<leftarrow> cheap s r;
        Some (if nodeIsMaster n \<and> numslots n \<noteq> 0
              then (k + 1, if node_flags n \<inter> {REDIS_NODE_FAIL, REDIS_NODE_PFAIL} = {} then reachable + 1 else reachable)
              else (k, reachable))
      }) (cnodes s) (0, 0)"

definition clusterUpdateState :: "cluster_env \<Rightarrow> clusterState \<Rightarrow> clusterState option" where
  "clusterUpdateState E s =
    do {
      let s = s\<lparr>todo_before_sleep := todo_before_sleep s - {TODO_UPDATE_STATE}\<rparr>;
      let s = (if first_call_time s = 0 then s\<lparr>first_call_time := now E\<rparr> else s);
      me \<leftarrow> cheap s (myself s);
      if nodeIsMaster me \<and> health s = REDIS_CLUSTER_FAIL \<and> now E - first_call_time s < 2000 then Some s
      else do {
        bad \<leftarrow> (if require_full_coverage E then uncovered s [0..<REDIS_CLUSTER_SLOTS] else Some False);
        (k, reachable) \<leftarrow> count_masters s;
        let s = s\<lparr>csize := k\<rparr>;
        let minority = reachable < csize s div 2 + 1;
        let s = (if minority then s\<lparr>among_minority_time := now E\<rparr> else s);
        let new_state = (if bad \<or> minority then REDIS_CLUSTER_FAIL else REDIS_CLUSTER_OK);
        if new_state = health s then Some s
        else do {
          let rejoin_delay = (if cluster_node_timeout E > 5000 then 5000
                              else if cluster_node_timeout E < 500 then 500 else cluster_node_timeout E);
          if new_state = REDIS_CLUSTER_OK \<and> nodeIsMaster me \<and> now E - among_minority_time s < rejoin_delay
          then Some s
          else Some (s\<lparr>health := new_state\<rparr>)
        }
      }
    }"

definition verify_slot :: "cluster_env \<Rightarrow> nat \<Rightarrow> clusterState \<times> int \<Rightarrow> (clusterState \<times> int) option" where
  "verify_slot E j = (\<lambda>(s, update_config).
    if keys_in_slot E j = 0 then Some (s, update_config)
    else if cslots s j = Some (myself s) \<or> importing_slots_from s j \<noteq> None then Some (s, update_config)
    else if cslots s j = None then do { s \<leftarrow> add_slot (myself s) j s; Some (s, update_config + 1) }
    else Some (s\<lparr>importing_slots_from := (importing_slots_from s)(j := cslots s j)\<rparr>, update_config + 1))"

definition verifyClusterConfigWithData :: "cluster_env \<Rightarrow> clusterState \<Rightarrow> (clusterState \<times> bool) option" where
  "verifyClusterConfigWithData E s =
    do {
      me \<leftarrow> cheap s (myself s);
      if nodeIsSlave me then Some (s, True)
      else if \<not> other_dbs_empty E then Some (s, False)
      else do {
        (s, update_config) \<leftarrow> loop (verify_slot E) [0..<REDIS_CLUSTER_SLOTS] (s, 0);
        Some (if update_config \<noteq> 0 then clusterSaveConfig s True else s, True)
      }
    }"

end
