(* ===== verification/Cluster_Bus.thy ===== *)
theory Cluster_Bus
  imports Cluster
begin

text \<open>
  The messages of the cluster bus and the elections (\<open>cluster.c\<close>): what a server sends, how it
  treats a packet, how a master votes, how a slave asks for votes and takes over its master, and
  the timer.
\<close>

section \<open>Sending\<close>

definition clusterBuildMessageHdr :: "cluster_env \<Rightarrow> clusterState \<Rightarrow> msg_type \<Rightarrow> clusterMsg option" where
  "clusterBuildMessageHdr E s type =
    do {
      me \<leftarrow> cheap s (myself s);
      master \<leftarrow> (case slaveof me of Some m \<Rightarrow> if nodeIsSlave me then cheap s m else Some me | None \<Rightarrow> Some me);
      master_name \<leftarrow> (case slaveof me of
                       Some m \<Rightarrow> do { mn \<leftarrow> cheap s m; Some (node_name mn) }
                     | None \<Rightarrow> Some REDIS_NODE_NULL_NAME);
      Some \<lparr>m_totlen = (case type of
                          CLUSTERMSG_TYPE_FAIL \<Rightarrow> 2208 + 40
                        | CLUSTERMSG_TYPE_UPDATE \<Rightarrow> 2208 + 2096
                        | _ \<Rightarrow> 0),
            m_ver = 0, m_type = type, m_currentEpoch = currentEpoch s, m_configEpoch = configEpoch master,
            m_offset = (if nodeIsSlave me then slave_offset E else master_repl_offset E),
            m_sender = node_name me, m_myslots = node_slots master, m_slaveof = master_name,
            m_port = server_port E, m_flags = node_flags me, m_state = health s,
            m_paused = (nodeIsMaster me \<and> mf_end s \<noteq> 0), m_forceack = False, m_gossip = [],
            m_about = [], m_channel_len = 0, m_message_len = 0, m_bulk = [],
            m_upd_epoch = 0, m_upd_name = [], m_upd_slots = []\<rparr>
    }"

definition clusterBroadcastMessage :: "clusterState \<Rightarrow> clusterMsg \<Rightarrow> clusterState option" where
  "clusterBroadcastMessage s msg =
    loop (\<lambda>(nm, r) s. do {
        n \<leftarrow> cheap s r;
        Some (if node_link n = None \<or> node_flags n \<inter> {REDIS_NODE_MYSELF, REDIS_NODE_HANDSHAKE} \<noteq> {} then s
              else emit s (Send r msg))
      }) (cnodes s) s"

definition clusterSendPing :: "cluster_env \<Rightarrow> clusterState \<Rightarrow> nref \<Rightarrow> msg_type \<Rightarrow> clusterState option" where
  "clusterSendPing E s r type =
    do {
      n \<leftarrow> cheap s r;
      let s = (if type = CLUSTERMSG_TYPE_PING then set_node s r (n\<lparr>ping_sent := now E\<rparr>) else s);
      Some (emit s (SendPing r type))
    }"

definition clusterBroadcastPong :: "cluster_env \<Rightarrow> clusterState \<Rightarrow> bool \<Rightarrow> clusterState option" where
  "clusterBroadcastPong E s local_slaves =
    loop (\<lambda>(nm, r) s. do {
        n \<leftarrow> cheap s r;
        me \<leftarrow> cheap s (myself s);
        if node_link n = None \<or> r = myself s \<or> nodeInHandshake n then Some s
        else if local_slaves \<and>
                \<not> (nodeIsSlave n \<and> slaveof n \<noteq> None \<and> (slaveof n = Some (myself s) \<or> slaveof n = slaveof me))
        then Some s
        else clusterSendPing E s r CLUSTERMSG_TYPE_PONG
      }) (cnodes s) s"

definition clusterSendFail :: "cluster_env \<Rightarrow> clusterState \<Rightarrow> bytes \<Rightarrow> clusterState option" where
  "clusterSendFail E s name =
    do { hdr \<leftarrow> clusterBuildMessageHdr E s CLUSTERMSG_TYPE_FAIL; clusterBroadcastMessage s (hdr\<lparr>m_about := name\<rparr>) }"

definition clusterSendUpdate :: "cluster_env \<Rightarrow> clusterState \<Rightarrow> nref \<Rightarrow> nref \<Rightarrow> clusterState option" where
  "clusterSendUpdate E s dest r =
    do {
      d \<leftarrow> cheap s dest;
      n \<leftarrow> cheap s r;
      if node_link d = None then Some s
      else do {
        hdr \<leftarrow> clusterBuildMessageHdr E s CLUSTERMSG_TYPE_UPDATE;
        Some (emit s (Send dest (hdr\<lparr>m_upd_name := node_name n, m_upd_epoch := configEpoch n,
                                     m_upd_slots := node_slots n\<rparr>)))
      }
    }"

definition clusterRequestFailoverAuth :: "cluster_env \<Rightarrow> clusterState \<Rightarrow> clusterState option" where
  "clusterRequestFailoverAuth E s =
    do {
      hdr \<leftarrow> clusterBuildMessageHdr E s CLUSTERMSG_TYPE_FAILOVER_AUTH_REQUEST;
      clusterBroadcastMessage s (hdr\<lparr>m_forceack := (mf_end s \<noteq> 0), m_totlen := 2208\<rparr>)
    }"

definition clusterSendFailoverAuth :: "cluster_env \<Rightarrow> clusterState \<Rightarrow> nref \<Rightarrow> clusterState option" where
  "clusterSendFailoverAuth E s r =
    do {
      n \<leftarrow> cheap s r;
      if node_link n = None then Some s
      else do {
        hdr \<leftarrow> clusterBuildMessageHdr E s CLUSTERMSG_TYPE_FAILOVER_AUTH_ACK;
        Some (emit s (Send r (hdr\<lparr>m_totlen := 2208\<rparr>)))
      }
    }"

definition clusterSendMFStart :: "cluster_env \<Rightarrow> clusterState \<Rightarrow> nref \<Rightarrow> clusterState option" where
  "clusterSendMFStart E s r =
    do {
      n \<leftarrow> cheap s r;
      if node_link n = None then Some s
      else do {
        hdr \<leftarrow> clusterBuildMessageHdr E s CLUSTERMSG_TYPE_MFSTART;
        Some (emit s (Send r (hdr\<lparr>m_totlen := 2208\<rparr>)))
      }
    }"

section \<open>Elections\<close>

fun newer_slot :: "clusterState \<Rightarrow> u64 \<Rightarrow> bytes \<Rightarrow> nat list \<Rightarrow> bool option" where
  "newer_slot s epoch claimed [] = Some False"
| "newer_slot s epoch claimed (j # js) =
    (if \<not> bitmapTestBit claimed j then newer_slot s epoch claimed js
     else case cslots s j of
            None \<Rightarrow> newer_slot s epoch claimed js
          | Some r \<Rightarrow> do {
              n \<leftarrow> cheap s r;
              if configEpoch n \<le> epoch then newer_slot s epoch claimed js else Some True
            })"

definition clusterSendFailoverAuthIfNeeded ::
  "cluster_env \<Rightarrow> clusterState \<Rightarrow> nref \<Rightarrow> clusterMsg \<Rightarrow> clusterState option" where
  "clusterSendFailoverAuthIfNeeded E s r request =
    do {
      n \<leftarrow> cheap s r;
      me \<leftarrow> cheap s (myself s);
      if nodeIsSlave me \<or> numslots me = 0 then Some s
      else if m_currentEpoch request < currentEpoch s then Some s
      else if lastVoteEpoch s = currentEpoch s then Some s
      else if nodeIsMaster n then Some s
      else case slaveof n of
        None \<Rightarrow> Some s
      | Some m \<Rightarrow> do {
          mn \<leftarrow> cheap s m;
          if \<not> nodeFailed mn \<and> \<not> m_forceack request then Some s
          else if now E - voted_time mn < cluster_node_timeout E * 2 then Some s
          else do {
            newer \<leftarrow> newer_slot s (m_configEpoch request) (m_myslots request) [0..<REDIS_CLUSTER_SLOTS];
            if newer then Some s
            else do {
              s \<leftarrow> clusterSendFailoverAuth E s r;
              Some (set_node (s\<lparr>lastVoteEpoch := currentEpoch s\<rparr>) m (mn\<lparr>voted_time := now E\<rparr>))
            }
          }
        }
    }"

definition clusterGetSlaveRank :: "cluster_env \<Rightarrow> clusterState \<Rightarrow> int option" where
  "clusterGetSlaveRank E s =
    do {
      me \<leftarrow> cheap s (myself s);
      if \<not> nodeIsSlave me then None
      else case slaveof me of
        None \<Rightarrow> Some 0
      | Some m \<Rightarrow> do {
          mn \<leftarrow> cheap s m;
          loop (\<lambda>q rank. if q = myself s then Some rank
                         else do { qn \<leftarrow> cheap s q; Some (if repl_offset qn > slave_offset E then rank + 1 else rank) })
               (slaves mn) 0
        }
    }"

text \<open>Only the reason is kept; the log lines and their rate limit are not modelled.\<close>

definition clusterLogCantFailover :: "clusterState \<Rightarrow> cant_failover \<Rightarrow> clusterState" where
  "clusterLogCantFailover s reason = s\<lparr>cant_failover_reason := reason\<rparr>"

definition takeover_slot :: "nref \<Rightarrow> nat \<Rightarrow> clusterState \<Rightarrow> clusterState option" where
  "takeover_slot oldmaster j s =
    do {
      n \<leftarrow> cheap s oldmaster;
      if clusterNodeGetSlotBit n j then do { s \<leftarrow> del_slot j s; add_slot (myself s) j s }
      else Some s
    }"

definition clusterFailoverReplaceYourMaster :: "cluster_env \<Rightarrow> clusterState \<Rightarrow> clusterState option" where
  "clusterFailoverReplaceYourMaster E s =
    do {
      me \<leftarrow> cheap s (myself s);
      if nodeIsMaster me then Some s
      else case slaveof me of
        None \<Rightarrow> Some s
      | Some oldmaster \<Rightarrow> do {
          s \<leftarrow> clusterSetNodeAsMaster s (myself s);
          s \<leftarrow> loop (takeover_slot oldmaster) [0..<REDIS_CLUSTER_SLOTS] (emit s ReplicationUnsetMaster);
          s \<leftarrow> clusterUpdateState E s;
          s \<leftarrow> clusterBroadcastPong E (clusterSaveConfig s True) False;
          Some (resetManualFailover E s)
        }
    }"

text \<open>The steps of \<open>clusterHandleSlaveFailover\<close>: its preconditions, and what it does when they hold.\<close>

definition failover_needed :: "clusterState \<Rightarrow> bool option" where
  "failover_needed s =
    do {
      me \<leftarrow> cheap s (myself s);
      if nodeIsMaster me then Some False
      else case slaveof me of
        None \<Rightarrow> Some False
      | Some m \<Rightarrow> do {
          mn \<leftarrow> cheap s m;
          Some ((nodeFailed mn \<or> mf_end s \<noteq> 0 \<and> mf_can_start s) \<and> numslots mn \<noteq> 0)
        }
    }"

definition data_too_old :: "cluster_env \<Rightarrow> bool" where
  "data_too_old E =
    (let data_age = (if repl_connected E then (unixtime E - master_lastinteraction E) * 1000
                     else (unixtime E - repl_down_since E) * 1000);
         data_age = (if data_age > cluster_node_timeout E then data_age - cluster_node_timeout E else data_age)
     in slave_validity_factor E \<noteq> 0 \<and>
        data_age > repl_ping_slave_period E * 1000 + cluster_node_timeout E * slave_validity_factor E)"

definition schedule_election :: "cluster_env \<Rightarrow> clusterState \<Rightarrow> clusterState option" where
  "schedule_election E s =
    do {
      rank \<leftarrow> clusterGetSlaveRank E s;
      let s = s\<lparr>failover_auth_time := now E + 500 + rnd E mod 500 + rank * 1000, failover_auth_count := 0,
                failover_auth_sent := False, failover_auth_rank := rank\<rparr>;
      let s = (if mf_end s \<noteq> 0 then s\<lparr>failover_auth_time := now E, failover_auth_rank := 0\<rparr> else s);
      clusterBroadcastPong E s True
    }"

definition adjust_rank :: "cluster_env \<Rightarrow> clusterState \<Rightarrow> clusterState option" where
  "adjust_rank E s =
    (if \<not> failover_auth_sent s \<and> mf_end s = 0 then do {
       newrank \<leftarrow> clusterGetSlaveRank E s;
       Some (if newrank > failover_auth_rank s
             then s\<lparr>failover_auth_time := failover_auth_time s + (newrank - failover_auth_rank s) * 1000,
                    failover_auth_rank := newrank\<rparr>
             else s)
     } else Some s)"

definition start_election :: "cluster_env \<Rightarrow> clusterState \<Rightarrow> clusterState option" where
  "start_election E s =
    do {
      let s = s\<lparr>currentEpoch := currentEpoch s + 1, failover_auth_epoch := currentEpoch s + 1\<rparr>;
      s \<leftarrow> clusterRequestFailoverAuth E s;
      Some (clusterDoBeforeSleep (s\<lparr>failover_auth_sent := True\<rparr>)
              {TODO_SAVE_CONFIG, TODO_UPDATE_STATE, TODO_FSYNC_CONFIG})
    }"

definition win_election :: "cluster_env \<Rightarrow> clusterState \<Rightarrow> clusterState option" where
  "win_election E s =
    do {
      me \<leftarrow> cheap s (myself s);
      let s = (if configEpoch me < failover_auth_epoch s
               then set_node s (myself s) (me\<lparr>configEpoch := failover_auth_epoch s\<rparr>) else s);
      clusterFailoverReplaceYourMaster E s
    }"

definition clusterHandleSlaveFailover :: "cluster_env \<Rightarrow> clusterState \<Rightarrow> clusterState option" where
  "clusterHandleSlaveFailover E s =
    do {
      let auth_age = now E - failover_auth_time s;
      let needed_quorum = csize s div 2 + 1;
      let s = s\<lparr>todo_before_sleep := todo_before_sleep s - {TODO_HANDLE_FAILOVER}\<rparr>;
      let auth_timeout = (if cluster_node_timeout E * 2 < 2000 then 2000 else cluster_node_timeout E * 2);
      needed \<leftarrow> failover_needed s;
      if \<not> needed then Some (s\<lparr>cant_failover_reason := CANT_NONE\<rparr>)
      else if data_too_old E \<and> \<not> (mf_end s \<noteq> 0 \<and> mf_can_start s) then Some (clusterLogCantFailover s CANT_DATA_AGE)
      else if auth_age > auth_timeout * 2 then schedule_election E s
      else do {
        s \<leftarrow> adjust_rank E s;
        if now E < failover_auth_time s then Some (clusterLogCantFailover s CANT_WAITING_DELAY)
        else if auth_age > auth_timeout then Some (clusterLogCantFailover s CANT_EXPIRED)
        else if \<not> failover_auth_sent s then start_election E s
        else if failover_auth_count s \<ge> needed_quorum then win_election E s
        else Some (clusterLogCantFailover s CANT_WAITING_VOTES)
      }
    }"

section \<open>Manual failover and migration\<close>

definition manualFailoverCheckTimeout :: "cluster_env \<Rightarrow> clusterState \<Rightarrow> clusterState" where
  "manualFailoverCheckTimeout E s =
    (if mf_end s \<noteq> 0 \<and> mf_end s < now E then resetManualFailover E s else s)"

definition clusterHandleManualFailover :: "cluster_env \<Rightarrow> clusterState \<Rightarrow> clusterState" where
  "clusterHandleManualFailover E s =
    (if mf_end s = 0 then s
     else if mf_can_start s then s
     else if mf_master_offset s = 0 then s
     else if mf_master_offset s = slave_offset E then s\<lparr>mf_can_start := True\<rparr>
     else s)"

text \<open>The candidate so far and the target, as the loop over the nodes computes them.\<close>

definition smallest_slave :: "clusterState \<Rightarrow> clusterNode \<Rightarrow> nref \<Rightarrow> nref option" where
  "smallest_slave s n candidate =
    loop (\<lambda>q c. do { qn \<leftarrow> cheap s q; cn \<leftarrow> cheap s c;
                     Some (if name_greater (node_name cn) (node_name qn) then q else c) }) (slaves n) candidate"

definition clusterHandleSlaveMigration :: "cluster_env \<Rightarrow> clusterState \<Rightarrow> nat \<Rightarrow> clusterState option" where
  "clusterHandleSlaveMigration E s max_slaves =
    do {
      me \<leftarrow> cheap s (myself s);
      if health s \<noteq> REDIS_CLUSTER_OK then Some s
      else case slaveof me of
        None \<Rightarrow> Some s
      | Some m \<Rightarrow> do {
          mn \<leftarrow> cheap s m;
          okslaves \<leftarrow> loop (\<lambda>q k. do { qn \<leftarrow> cheap s q;
              Some (if \<not> nodeFailed qn \<and> \<not> nodeTimedOut qn then k + 1 else k) }) (slaves mn) (0 :: int);
          if okslaves \<le> migration_barrier E then Some s
          else do {
            (target, candidate) \<leftarrow> loop (\<lambda>(nm, r) (target, candidate). do {
                n \<leftarrow> cheap s r;
                if nodeIsSlave n \<or> nodeFailed n then Some (target, candidate)
                else if slaves n = [] then Some (target, candidate)
                else do {
                  ok \<leftarrow> clusterCountNonFailingSlaves s n;
                  let target = (if ok = 0 \<and> target = None \<and> numslots n > 0 then Some r else target);
                  candidate \<leftarrow> (if ok = max_slaves then smallest_slave s n candidate else Some candidate);
                  Some (target, candidate)
                }
              }) (cnodes s) (None, myself s);
            case target of
              None \<Rightarrow> Some s
            | Some t \<Rightarrow> if candidate = myself s then clusterSetMaster E s t else Some s
          }
        }
    }"

section \<open>Gossip\<close>

text \<open>\<open>strcasecmp\<close> of two address buffers.\<close>

definition same_ip :: "bytes \<Rightarrow> bytes \<Rightarrow> bool" where
  "same_ip a b = (map tolower (c_str a) = map tolower (c_str b))"

definition clusterHandshakeInProgress :: "clusterState \<Rightarrow> bytes \<Rightarrow> int \<Rightarrow> bool option" where
  "clusterHandshakeInProgress s ip port =
    loop (\<lambda>(nm, r) found.
        if found then Some True
        else do { n \<leftarrow> cheap s r; Some (nodeInHandshake n \<and> same_ip (node_ip n) ip \<and> node_port n = port) })
      (cnodes s) False"

datatype handshake = HS_STARTED | HS_EAGAIN | HS_EINVAL

definition clusterStartHandshake ::
  "cluster_env \<Rightarrow> clusterState \<Rightarrow> bytes \<Rightarrow> int \<Rightarrow> (clusterState \<times> handshake) option" where
  "clusterStartHandshake E s ip port =
    (case norm_ip E ip of
       None \<Rightarrow> Some (s, HS_EINVAL)
     | Some nip \<Rightarrow>
         if port \<le> 0 \<or> port > 65535 - REDIS_CLUSTER_PORT_INCR then Some (s, HS_EINVAL)
         else do {
           busy \<leftarrow> clusterHandshakeInProgress s nip port;
           if busy then Some (s, HS_EAGAIN)
           else do {
             let (s, r) = new_node s ((createClusterNode (now E) (rnd_name E (next_ref s))
                            {REDIS_NODE_HANDSHAKE, REDIS_NODE_MEET})\<lparr>node_ip := nip, node_port := port\<rparr>);
             (s, ok) \<leftarrow> clusterAddNode s r;
             Some (s, HS_STARTED)
           }
         })"

definition markNodeAsFailingIfNeeded :: "cluster_env \<Rightarrow> clusterState \<Rightarrow> nref \<Rightarrow> clusterState option" where
  "markNodeAsFailingIfNeeded E s r =
    do {
      let needed_quorum = csize s div 2 + 1;
      n \<leftarrow> cheap s r;
      if \<not> nodeTimedOut n then Some s
      else if nodeFailed n then Some s
      else do {
        let (n, failures) = clusterNodeFailureReportsCount E n;
        let s = set_node s r n;
        me \<leftarrow> cheap s (myself s);
        let failures = (if nodeIsMaster me then failures + 1 else failures);
        if failures < needed_quorum then Some s
        else do {
          let s = set_node s r (n\<lparr>node_flags := node_flags n - {REDIS_NODE_PFAIL} \<union> {REDIS_NODE_FAIL},
                                  fail_time := now E\<rparr>);
          me \<leftarrow> cheap s (myself s);
          s \<leftarrow> (if nodeIsMaster me then clusterSendFail E s (node_name n) else Some s);
          Some (clusterDoBeforeSleep s {TODO_UPDATE_STATE, TODO_SAVE_CONFIG})
        }
      }
    }"

definition clearNodeFailureIfNeeded :: "cluster_env \<Rightarrow> clusterState \<Rightarrow> nref \<Rightarrow> clusterState option" where
  "clearNodeFailureIfNeeded E s r =
    do {
      n \<leftarrow> cheap s r;
      if \<not> nodeFailed n then None
      else do {
        let s = (if nodeIsSlave n \<or> numslots n = 0
                 then clusterDoBeforeSleep (set_node s r (n\<lparr>node_flags := node_flags n - {REDIS_NODE_FAIL}\<rparr>))
                        {TODO_UPDATE_STATE, TODO_SAVE_CONFIG}
                 else s);
        n \<leftarrow> cheap s r;
        Some (if nodeIsMaster n \<and> numslots n > 0 \<and> now E - fail_time n > cluster_node_timeout E * 2
              then clusterDoBeforeSleep (set_node s r (n\<lparr>node_flags := node_flags n - {REDIS_NODE_FAIL}\<rparr>))
                     {TODO_UPDATE_STATE, TODO_SAVE_CONFIG}
              else s)
      }
    }"

definition gossip_entry ::
  "cluster_env \<Rightarrow> nref option \<Rightarrow> clusterMsgDataGossip \<Rightarrow> clusterState \<Rightarrow> clusterState option" where
  "gossip_entry E sender g s =
    (case clusterLookupNode s (g_nodename g) of
       Some r \<Rightarrow> do {
         master \<leftarrow> (case sender of None \<Rightarrow> Some False | Some q \<Rightarrow> do { qn \<leftarrow> cheap s q; Some (nodeIsMaster qn) });
         n \<leftarrow> cheap s r;
         s \<leftarrow> (case sender of
                Some q \<Rightarrow>
                  if master \<and> r \<noteq> myself s then
                    if g_flags g \<inter> {REDIS_NODE_FAIL, REDIS_NODE_PFAIL} \<noteq> {} then
                      markNodeAsFailingIfNeeded E (set_node s r (fst (clusterNodeAddFailureReport E n q))) r
                    else Some (set_node s r (fst (clusterNodeDelFailureReport E n q)))
                  else Some s
              | None \<Rightarrow> Some s);
         n \<leftarrow> cheap s r;
         if node_flags n \<inter> {REDIS_NODE_FAIL, REDIS_NODE_PFAIL} \<noteq> {} \<and>
            (\<not> same_ip (node_ip n) (g_ip g) \<or> node_port n \<noteq> g_port g)
         then map_option fst (clusterStartHandshake E s (g_ip g) (g_port g))
         else Some s
       }
     | None \<Rightarrow>
         if sender \<noteq> None \<and> REDIS_NODE_NOADDR \<notin> g_flags g then do {
           let (s, listed) = clusterBlacklistExists E s (g_nodename g);
           if \<not> listed then map_option fst (clusterStartHandshake E s (g_ip g) (g_port g)) else Some s
         }
         else Some s)"

definition clusterProcessGossipSection ::
  "cluster_env \<Rightarrow> clusterState \<Rightarrow> nref option \<Rightarrow> clusterMsg \<Rightarrow> clusterState option" where
  "clusterProcessGossipSection E s lnode hdr =
    (let sender = (case lnode of Some r \<Rightarrow> Some r | None \<Rightarrow> clusterLookupNode s (m_sender hdr))
     in loop (gossip_entry E sender) (m_gossip hdr) s)"

definition freeClusterLink :: "clusterState \<Rightarrow> nref \<Rightarrow> clusterState option" where
  "freeClusterLink s r = do { n \<leftarrow> cheap s r; Some (set_node s r (n\<lparr>node_link := None\<rparr>)) }"

text \<open>The link a packet came from is the link of the node exactly when it belongs to that node.\<close>

definition nodeUpdateAddressIfNeeded ::
  "cluster_env \<Rightarrow> clusterState \<Rightarrow> nref \<Rightarrow> nref option \<Rightarrow> int \<Rightarrow> (clusterState \<times> bool) option" where
  "nodeUpdateAddressIfNeeded E s r lnode port =
    do {
      n \<leftarrow> cheap s r;
      if lnode = Some r then Some (s, False)
      else if node_port n = port \<and> c_str (peer_ip E) = c_str (node_ip n) then Some (s, False)
      else do {
        let s = set_node s r (n\<lparr>node_ip := peer_ip E, node_port := port, node_link := None,
                               node_flags := node_flags n - {REDIS_NODE_NOADDR}\<rparr>);
        me \<leftarrow> cheap s (myself s);
        Some (if nodeIsSlave me \<and> slaveof me = Some r then emit s (ReplicationSetMaster (peer_ip E) port) else s, True)
      }
    }"

section \<open>Packets\<close>

text \<open>
  The length a packet must announce, as a 32-bit number; the header before the union has 2208
  bytes.  An unknown type has no expected length.
\<close>

definition explen :: "clusterMsg \<Rightarrow> u32 option" where
  "explen m =
    (case m_type m of
       CLUSTERMSG_TYPE_FAIL \<Rightarrow> Some (2208 + 40)
     | CLUSTERMSG_TYPE_PUBLISH \<Rightarrow> Some (2208 + 16 - 8 + m_channel_len m + m_message_len m)
     | CLUSTERMSG_TYPE_FAILOVER_AUTH_REQUEST \<Rightarrow> Some 2208
     | CLUSTERMSG_TYPE_FAILOVER_AUTH_ACK \<Rightarrow> Some 2208
     | CLUSTERMSG_TYPE_MFSTART \<Rightarrow> Some 2208
     | CLUSTERMSG_TYPE_UPDATE \<Rightarrow> Some (2208 + 2096)
     | CLUSTERMSG_TYPE_OTHER \<Rightarrow> None
     | _ \<Rightarrow> Some (2208 + 104 * of_nat (length (m_gossip m))))"

definition packet_sane :: "nat \<Rightarrow> clusterMsg \<Rightarrow> bool" where
  "packet_sane rcvlen m =
    (\<not> m_totlen m < 16 \<and> m_ver m = 0 \<and> \<not> unat (m_totlen m) > rcvlen \<and>
     (case explen m of None \<Rightarrow> True | Some l \<Rightarrow> m_totlen m = l))"

text \<open>What every packet of a known sender updates; the result has the epochs of the sender.\<close>

definition note_sender ::
  "cluster_env \<Rightarrow> clusterState \<Rightarrow> nref option \<Rightarrow> clusterMsg \<Rightarrow> (clusterState \<times> u64 \<times> u64) option" where
  "note_sender E s sender m =
    (case sender of
       None \<Rightarrow> Some (s, 0, 0)
     | Some r \<Rightarrow> do {
         n \<leftarrow> cheap s r;
         if nodeInHandshake n then Some (s, 0, 0)
         else do {
           let s = (if m_currentEpoch m > currentEpoch s then s\<lparr>currentEpoch := m_currentEpoch m\<rparr> else s);
           let s = (if m_configEpoch m > configEpoch n
                    then clusterDoBeforeSleep s {TODO_SAVE_CONFIG, TODO_FSYNC_CONFIG} else s);
           let s = set_node s r (n\<lparr>configEpoch := (if m_configEpoch m > configEpoch n then m_configEpoch m
                                                    else configEpoch n),
                                   repl_offset := m_offset m, repl_offset_time := now E\<rparr>);
           me \<leftarrow> cheap s (myself s);
           let s = (if mf_end s \<noteq> 0 \<and> nodeIsSlave me \<and> slaveof me = Some r \<and> m_paused m \<and> mf_master_offset s = 0
                    then s\<lparr>mf_master_offset := m_offset m\<rparr> else s);
           Some (s, m_currentEpoch m, m_configEpoch m)
         }
       })"

definition learn_address :: "cluster_env \<Rightarrow> clusterState \<Rightarrow> clusterMsg \<Rightarrow> clusterState option" where
  "learn_address E s m =
    do {
      me \<leftarrow> cheap s (myself s);
      if m_type m = CLUSTERMSG_TYPE_MEET \<or> c_str (node_ip me) = [] then
        (case sock_ip E of
           Some ip \<Rightarrow>
             if c_str ip \<noteq> c_str (node_ip me)
             then Some (clusterDoBeforeSleep (set_node s (myself s) (me\<lparr>node_ip := ip\<rparr>)) {TODO_SAVE_CONFIG})
             else Some s
         | None \<Rightarrow> Some s)
      else Some s
    }"

definition meet_sender :: "cluster_env \<Rightarrow> clusterState \<Rightarrow> nref option \<Rightarrow> clusterMsg \<Rightarrow> clusterState option" where
  "meet_sender E s lnode m =
    do {
      let (s, r) = new_node s ((createClusterNode (now E) (rnd_name E (next_ref s)) {REDIS_NODE_HANDSHAKE})
                     \<lparr>node_ip := peer_ip E, node_port := m_port m\<rparr>);
      (s, ok) \<leftarrow> clusterAddNode s r;
      clusterProcessGossipSection E (clusterDoBeforeSleep s {TODO_SAVE_CONFIG}) lnode m
    }"

definition process_ping_meet ::
  "cluster_env \<Rightarrow> clusterState \<Rightarrow> nref option \<Rightarrow> nref option \<Rightarrow> clusterMsg \<Rightarrow> clusterState option" where
  "process_ping_meet E s lnode sender m =
    do {
      s \<leftarrow> learn_address E s m;
      s \<leftarrow> (if sender = None \<and> m_type m = CLUSTERMSG_TYPE_MEET then meet_sender E s lnode m else Some s);
      Some (emit s SendPong)
    }"

text \<open>The handshake of the node of the link; the flag says whether the packet is processed further.\<close>

definition process_handshake ::
  "cluster_env \<Rightarrow> clusterState \<Rightarrow> nref option \<Rightarrow> nref option \<Rightarrow> clusterMsg \<Rightarrow> (clusterState \<times> bool) option" where
  "process_handshake E s lnode sender m =
    (case lnode of
       None \<Rightarrow> Some (s, True)
     | Some l \<Rightarrow> do {
         ln \<leftarrow> cheap s l;
         if nodeInHandshake ln then
           (case sender of
              Some r \<Rightarrow> do {
                (s, changed) \<leftarrow> nodeUpdateAddressIfNeeded E s r lnode (m_port m);
                let s = (if changed then clusterDoBeforeSleep s {TODO_SAVE_CONFIG, TODO_UPDATE_STATE} else s);
                s \<leftarrow> clusterDelNode E s l;
                Some (s, False)
              }
            | None \<Rightarrow> do {
                s \<leftarrow> clusterRenameNode s l (m_sender m);
                ln \<leftarrow> cheap s l;
                Some (clusterDoBeforeSleep
                        (set_node s l (ln\<lparr>node_flags := node_flags ln - {REDIS_NODE_HANDSHAKE} \<union>
                                         (m_flags m \<inter> {REDIS_NODE_MASTER, REDIS_NODE_SLAVE})\<rparr>))
                        {TODO_SAVE_CONFIG}, True)
              })
         else if node_name ln \<noteq> m_sender m then
           Some (clusterDoBeforeSleep
                   (set_node s l (ln\<lparr>node_flags := node_flags ln \<union> {REDIS_NODE_NOADDR}, node_ip := [],
                                    node_port := 0, node_link := None\<rparr>))
                   {TODO_SAVE_CONFIG}, False)
         else Some (s, True)
       })"

definition process_address ::
  "cluster_env \<Rightarrow> clusterState \<Rightarrow> nref option \<Rightarrow> nref option \<Rightarrow> clusterMsg \<Rightarrow> clusterState option" where
  "process_address E s lnode sender m =
    (case sender of
       Some r \<Rightarrow> if m_type m = CLUSTERMSG_TYPE_PING then do {
           n \<leftarrow> cheap s r;
           if nodeInHandshake n then Some s
           else do {
             (s, changed) \<leftarrow> nodeUpdateAddressIfNeeded E s r lnode (m_port m);
             Some (if changed then clusterDoBeforeSleep s {TODO_SAVE_CONFIG, TODO_UPDATE_STATE} else s)
           }
         } else Some s
     | None \<Rightarrow> Some s)"

definition process_pong ::
  "cluster_env \<Rightarrow> clusterState \<Rightarrow> nref option \<Rightarrow> clusterMsg \<Rightarrow> clusterState option" where
  "process_pong E s lnode m =
    (case lnode of
       Some l \<Rightarrow> if m_type m = CLUSTERMSG_TYPE_PONG then do {
           ln \<leftarrow> cheap s l;
           let ln = ln\<lparr>pong_received := now E, ping_sent := 0\<rparr>;
           let s = set_node s l ln;
           if nodeTimedOut ln then
             Some (clusterDoBeforeSleep (set_node s l (ln\<lparr>node_flags := node_flags ln - {REDIS_NODE_PFAIL}\<rparr>))
                     {TODO_SAVE_CONFIG, TODO_UPDATE_STATE})
           else if nodeFailed ln then clearNodeFailureIfNeeded E s l
           else Some s
         } else Some s
     | None \<Rightarrow> Some s)"

definition process_role :: "clusterState \<Rightarrow> nref \<Rightarrow> clusterMsg \<Rightarrow> clusterState option" where
  "process_role s r m =
    (if m_slaveof m = REDIS_NODE_NULL_NAME then clusterSetNodeAsMaster s r
     else do {
       let master = clusterLookupNode s (m_slaveof m);
       n \<leftarrow> cheap s r;
       s \<leftarrow> (if nodeIsMaster n then do {
               (s, deleted) \<leftarrow> clusterDelNodeSlots s r;
               n \<leftarrow> cheap s r;
               let n = n\<lparr>node_flags := node_flags n - {REDIS_NODE_MASTER} \<union> {REDIS_NODE_SLAVE}\<rparr>;
               Some (clusterDoBeforeSleep (set_node s r (clusterNodeResetSlaves n))
                       {TODO_SAVE_CONFIG, TODO_UPDATE_STATE})
             } else Some s);
       n \<leftarrow> cheap s r;
       case master of
         None \<Rightarrow> Some s
       | Some q \<Rightarrow>
           if slaveof n = Some q then Some s
           else do {
             s \<leftarrow> (case slaveof n of Some old \<Rightarrow> remove_slave s old r | None \<Rightarrow> Some s);
             s \<leftarrow> add_slave s q r;
             n \<leftarrow> cheap s r;
             Some (clusterDoBeforeSleep (set_node s r (n\<lparr>slaveof := Some q\<rparr>)) {TODO_SAVE_CONFIG})
           }
     })"

text \<open>The owner of the first claimed slot that is served under a newer configuration.\<close>

fun newer_owner :: "clusterState \<Rightarrow> nref \<Rightarrow> u64 \<Rightarrow> bytes \<Rightarrow> nat list \<Rightarrow> nref option option" where
  "newer_owner s sender epoch claimed [] = Some None"
| "newer_owner s sender epoch claimed (j # js) =
    (if \<not> bitmapTestBit claimed j then newer_owner s sender epoch claimed js
     else case cslots s j of
            None \<Rightarrow> newer_owner s sender epoch claimed js
          | Some r \<Rightarrow>
              if r = sender then newer_owner s sender epoch claimed js
              else do {
                n \<leftarrow> cheap s r;
                if configEpoch n > epoch then Some (Some r) else newer_owner s sender epoch claimed js
              })"

definition process_claims ::
  "cluster_env \<Rightarrow> clusterState \<Rightarrow> nref \<Rightarrow> u64 \<Rightarrow> clusterMsg \<Rightarrow> clusterState option" where
  "process_claims E s r senderConfigEpoch m =
    do {
      n \<leftarrow> cheap s r;
      dirty \<leftarrow> (case (if nodeIsMaster n then Some r else slaveof n) of
                 None \<Rightarrow> Some False
               | Some q \<Rightarrow> do { qn \<leftarrow> cheap s q; Some (node_slots qn \<noteq> m_myslots m) });
      s \<leftarrow> (if nodeIsMaster n \<and> dirty
            then clusterUpdateSlotsConfigWith E s r senderConfigEpoch (m_myslots m) else Some s);
      s \<leftarrow> (if dirty then do {
              owner \<leftarrow> newer_owner s r senderConfigEpoch (m_myslots m) [0..<REDIS_CLUSTER_SLOTS];
              case owner of None \<Rightarrow> Some s | Some q \<Rightarrow> clusterSendUpdate E s r q
            } else Some s);
      me \<leftarrow> cheap s (myself s);
      n \<leftarrow> cheap s r;
      if nodeIsMaster me \<and> nodeIsMaster n \<and> senderConfigEpoch = configEpoch me
      then clusterHandleConfigEpochCollision s r else Some s
    }"

definition process_ping_pong ::
  "cluster_env \<Rightarrow> clusterState \<Rightarrow> nref option \<Rightarrow> nref option \<Rightarrow> u64 \<Rightarrow> clusterMsg \<Rightarrow>
     (clusterState \<times> bool) option" where
  "process_ping_pong E s lnode sender senderConfigEpoch m =
    do {
      (s, go_on) \<leftarrow> process_handshake E s lnode sender m;
      if \<not> go_on then Some (s, False)
      else do {
        s \<leftarrow> process_address E s lnode sender m;
        s \<leftarrow> process_pong E s lnode m;
        case sender of
          None \<Rightarrow> Some (s, True)
        | Some r \<Rightarrow> do {
            s \<leftarrow> process_role s r m;
            s \<leftarrow> process_claims E s r senderConfigEpoch m;
            s \<leftarrow> clusterProcessGossipSection E s lnode m;
            Some (s, True)
          }
      }
    }"

definition process_fail ::
  "cluster_env \<Rightarrow> clusterState \<Rightarrow> nref option \<Rightarrow> clusterMsg \<Rightarrow> clusterState option" where
  "process_fail E s sender m =
    (case (sender, clusterLookupNode s (m_about m)) of
       (Some _, Some f) \<Rightarrow> do {
         n \<leftarrow> cheap s f;
         Some (if node_flags n \<inter> {REDIS_NODE_FAIL, REDIS_NODE_MYSELF} = {} then
                 clusterDoBeforeSleep
                   (set_node s f (n\<lparr>node_flags := node_flags n \<union> {REDIS_NODE_FAIL} - {REDIS_NODE_PFAIL},
                                    fail_time := now E\<rparr>))
                   {TODO_SAVE_CONFIG, TODO_UPDATE_STATE}
               else s)
       }
     | _ \<Rightarrow> Some s)"

text \<open>\<open>m_bulk\<close> are the bytes from \<open>bulk_data\<close> to the end of the buffer; reading past them has no result.\<close>

definition process_publish :: "cluster_env \<Rightarrow> clusterState \<Rightarrow> clusterMsg \<Rightarrow> clusterState option" where
  "process_publish E s m =
    (if \<not> has_subscribers E then Some s
     else if unat (m_channel_len m) + unat (m_message_len m) > length (m_bulk m) then None
     else Some (emit s (PublishMessage (take (unat (m_channel_len m)) (m_bulk m))
                          (take (unat (m_message_len m)) (drop (unat (m_channel_len m)) (m_bulk m))))))"

definition process_auth_ack ::
  "clusterState \<Rightarrow> nref option \<Rightarrow> u64 \<Rightarrow> clusterState option" where
  "process_auth_ack s sender senderCurrentEpoch =
    (case sender of
       None \<Rightarrow> Some s
     | Some r \<Rightarrow> do {
         n \<leftarrow> cheap s r;
         Some (if nodeIsMaster n \<and> numslots n > 0 \<and> senderCurrentEpoch \<ge> failover_auth_epoch s
               then clusterDoBeforeSleep (s\<lparr>failover_auth_count := failover_auth_count s + 1\<rparr>)
                      {TODO_HANDLE_FAILOVER}
               else s)
       })"

definition process_mfstart :: "cluster_env \<Rightarrow> clusterState \<Rightarrow> nref option \<Rightarrow> clusterState option" where
  "process_mfstart E s sender =
    (case sender of
       None \<Rightarrow> Some s
     | Some r \<Rightarrow> do {
         n \<leftarrow> cheap s r;
         Some (if slaveof n \<noteq> Some (myself s) then s
               else emit ((resetManualFailover E s)\<lparr>mf_end := now E + 5000, mf_slave := Some r\<rparr>)
                      (PauseClients (now E + 5000 * 2)))
       })"

definition process_update ::
  "cluster_env \<Rightarrow> clusterState \<Rightarrow> nref option \<Rightarrow> clusterMsg \<Rightarrow> clusterState option" where
  "process_update E s sender m =
    (case (sender, clusterLookupNode s (m_upd_name m)) of
       (Some _, Some q) \<Rightarrow> do {
         n \<leftarrow> cheap s q;
         if configEpoch n \<ge> m_upd_epoch m then Some s
         else do {
           s \<leftarrow> (if nodeIsSlave n then clusterSetNodeAsMaster s q else Some s);
           n \<leftarrow> cheap s q;
           clusterUpdateSlotsConfigWith E
             (clusterDoBeforeSleep (set_node s q (n\<lparr>configEpoch := m_upd_epoch m\<rparr>))
                {TODO_SAVE_CONFIG, TODO_FSYNC_CONFIG})
             q (m_upd_epoch m) (m_upd_slots m)
         }
       }
     | _ \<Rightarrow> Some s)"

text \<open>
  \<open>clusterProcessPacket\<close> for a packet on a link whose node is \<open>lnode\<close>, in a buffer of \<open>rcvlen\<close>
  bytes; the flag of the result is 0 when the link was freed.
\<close>

definition clusterProcessPacket ::
  "cluster_env \<Rightarrow> clusterState \<Rightarrow> nref option \<Rightarrow> nat \<Rightarrow> clusterMsg \<Rightarrow> (clusterState \<times> bool) option" where
  "clusterProcessPacket E s lnode rcvlen m =
    (if \<not> packet_sane rcvlen m then Some (s, True)
     else do {
       let sender = clusterLookupNode s (m_sender m);
       (s, senderCurrentEpoch, senderConfigEpoch) \<leftarrow> note_sender E s sender m;
       s \<leftarrow> (if m_type m = CLUSTERMSG_TYPE_PING \<or> m_type m = CLUSTERMSG_TYPE_MEET
             then process_ping_meet E s lnode sender m else Some s);
       case m_type m of
         CLUSTERMSG_TYPE_FAIL \<Rightarrow> map_option (\<lambda>s. (s, True)) (process_fail E s sender m)
       | CLUSTERMSG_TYPE_PUBLISH \<Rightarrow> map_option (\<lambda>s. (s, True)) (process_publish E s m)
       | CLUSTERMSG_TYPE_FAILOVER_AUTH_REQUEST \<Rightarrow>
           map_option (\<lambda>s. (s, True))
             (case sender of None \<Rightarrow> Some s | Some r \<Rightarrow> clusterSendFailoverAuthIfNeeded E s r m)
       | CLUSTERMSG_TYPE_FAILOVER_AUTH_ACK \<Rightarrow>
           map_option (\<lambda>s. (s, True)) (process_auth_ack s sender senderCurrentEpoch)
       | CLUSTERMSG_TYPE_MFSTART \<Rightarrow> map_option (\<lambda>s. (s, True)) (process_mfstart E s sender)
       | CLUSTERMSG_TYPE_UPDATE \<Rightarrow> map_option (\<lambda>s. (s, True)) (process_update E s sender m)
       | CLUSTERMSG_TYPE_OTHER \<Rightarrow> Some (s, True)
       | _ \<Rightarrow> process_ping_pong E s lnode sender senderConfigEpoch m
     })"

section \<open>The timer\<close>

text \<open>The first loop of \<open>clusterCron\<close>: stale handshakes are dropped and missing links opened.\<close>

definition cron_connect :: "cluster_env \<Rightarrow> nref \<Rightarrow> clusterState \<Rightarrow> clusterState option" where
  "cron_connect E r s =
    do {
      let handshake_timeout = (if cluster_node_timeout E < 1000 then 1000 else cluster_node_timeout E);
      n \<leftarrow> cheap s r;
      if node_flags n \<inter> {REDIS_NODE_MYSELF, REDIS_NODE_NOADDR} \<noteq> {} then Some s
      else if nodeInHandshake n \<and> now E - ctime n > handshake_timeout then clusterDelNode E s r
      else if node_link n \<noteq> None then Some s
      else if connect_fd E r = -1 then
        Some (if ping_sent n = 0 then set_node s r (n\<lparr>ping_sent := now E\<rparr>) else s)
      else do {
        let s = set_node s r (n\<lparr>node_link := Some \<lparr>link_fd = connect_fd E r, link_ctime = now E\<rparr>\<rparr>);
        s \<leftarrow> clusterSendPing E s r
               (if REDIS_NODE_MEET \<in> node_flags n then CLUSTERMSG_TYPE_MEET else CLUSTERMSG_TYPE_PING);
        n2 \<leftarrow> cheap s r;
        Some (set_node s r (n2\<lparr>ping_sent := (if ping_sent n \<noteq> 0 then ping_sent n else ping_sent n2),
                               node_flags := node_flags n2 - {REDIS_NODE_MEET}\<rparr>))
      }
    }"

text \<open>Of five random nodes, the one whose last pong is the oldest.\<close>

definition oldest_pong :: "clusterState \<Rightarrow> nref list \<Rightarrow> (int \<times> nref) option option" where
  "oldest_pong s rs =
    loop (\<lambda>r best. do {
        n \<leftarrow> cheap s r;
        Some (if node_link n = None \<or> ping_sent n \<noteq> 0 then best
              else if node_flags n \<inter> {REDIS_NODE_MYSELF, REDIS_NODE_HANDSHAKE} \<noteq> {} then best
              else case best of
                     None \<Rightarrow> Some (pong_received n, r)
                   | Some (t, q) \<Rightarrow> if t > pong_received n then Some (pong_received n, r) else best)
      }) rs None"

text \<open>What the second loop collects.\<close>

record cron_counts =
  orphaned_masters :: nat
  max_slaves :: nat
  this_slaves :: nat
  update_state :: bool

definition cron_count ::
  "clusterState \<Rightarrow> nref \<Rightarrow> clusterNode \<Rightarrow> cron_counts \<Rightarrow> cron_counts option" where
  "cron_count s r n k =
    do {
      me \<leftarrow> cheap s (myself s);
      if nodeIsSlave me \<and> nodeIsMaster n \<and> \<not> nodeFailed n then do {
        ok \<leftarrow> clusterCountNonFailingSlaves s n;
        let k = (if ok = 0 \<and> numslots n > 0 \<and> slaves n \<noteq> []
                 then k\<lparr>orphaned_masters := orphaned_masters k + 1\<rparr> else k);
        let k = (if ok > max_slaves k then k\<lparr>max_slaves := ok\<rparr> else k);
        Some (if slaveof me = Some r then k\<lparr>this_slaves := ok\<rparr> else k)
      }
      else Some k
    }"

definition cron_check ::
  "cluster_env \<Rightarrow> nref \<Rightarrow> clusterState \<times> cron_counts \<Rightarrow> (clusterState \<times> cron_counts) option" where
  "cron_check E r = (\<lambda>(s, k). do {
      n \<leftarrow> cheap s r;
      if node_flags n \<inter> {REDIS_NODE_MYSELF, REDIS_NODE_NOADDR, REDIS_NODE_HANDSHAKE} \<noteq> {} then Some (s, k)
      else do {
        k \<leftarrow> cron_count s r n k;
        me \<leftarrow> cheap s (myself s);
        let n = (case node_link n of
                   Some l \<Rightarrow>
                     if now E - link_ctime l > cluster_node_timeout E \<and> ping_sent n \<noteq> 0 \<and>
                        pong_received n < ping_sent n \<and> now E - ping_sent n > cluster_node_timeout E div 2
                     then n\<lparr>node_link := None\<rparr> else n
                 | None \<Rightarrow> n);
        let s = set_node s r n;
        if node_link n \<noteq> None \<and> ping_sent n = 0 \<and> now E - pong_received n > cluster_node_timeout E div 2 then
          map_option (\<lambda>s. (s, k)) (clusterSendPing E s r CLUSTERMSG_TYPE_PING)
        else if mf_end s \<noteq> 0 \<and> nodeIsMaster me \<and> mf_slave s = Some r \<and> node_link n \<noteq> None then
          map_option (\<lambda>s. (s, k)) (clusterSendPing E s r CLUSTERMSG_TYPE_PING)
        else if ping_sent n = 0 then Some (s, k)
        else if now E - ping_sent n > cluster_node_timeout E \<and>
                node_flags n \<inter> {REDIS_NODE_PFAIL, REDIS_NODE_FAIL} = {} then
          Some (set_node s r (n\<lparr>node_flags := node_flags n \<union> {REDIS_NODE_PFAIL}\<rparr>), k\<lparr>update_state := True\<rparr>)
        else Some (s, k)
      }
    })"

definition clusterCron :: "cluster_env \<Rightarrow> clusterState \<Rightarrow> clusterState option" where
  "clusterCron E s =
    do {
      let s = s\<lparr>cron_iteration := cron_iteration s + 1\<rparr>;
      s \<leftarrow> loop (\<lambda>(nm, r). cron_connect E r) (cnodes s) s;
      s \<leftarrow> (if cron_iteration s mod 10 = 0 then do {
              best \<leftarrow> oldest_pong s (take 5 (random_nodes E));
              case best of None \<Rightarrow> Some s | Some (t, q) \<Rightarrow> clusterSendPing E s q CLUSTERMSG_TYPE_PING
            } else Some s);
      (s, k) \<leftarrow> loop (\<lambda>(nm, r). cron_check E r) (cnodes s)
        (s, \<lparr>orphaned_masters = 0, max_slaves = 0, this_slaves = 0, update_state = False\<rparr>);
      me \<leftarrow> cheap s (myself s);
      s \<leftarrow> (case slaveof me of
             Some m \<Rightarrow>
               if nodeIsSlave me \<and> \<not> masterhost_set E then do {
                 mn \<leftarrow> cheap s m;
                 Some (if REDIS_NODE_NOADDR \<notin> node_flags mn
                       then emit s (ReplicationSetMaster (node_ip mn) (node_port mn)) else s)
               } else Some s
           | None \<Rightarrow> Some s);
      let s = manualFailoverCheckTimeout E s;
      s \<leftarrow> (if nodeIsSlave me then do {
              s \<leftarrow> clusterHandleSlaveFailover E (clusterHandleManualFailover E s);
              if orphaned_masters k \<noteq> 0 \<and> max_slaves k \<ge> 2 \<and> this_slaves k = max_slaves k
              then clusterHandleSlaveMigration E s (max_slaves k) else Some s
            } else Some s);
      if update_state k \<or> health s = REDIS_CLUSTER_FAIL then clusterUpdateState E s else Some s
    }"

definition clusterBeforeSleep :: "cluster_env \<Rightarrow> clusterState \<Rightarrow> clusterState option" where
  "clusterBeforeSleep E s =
    do {
      s \<leftarrow> (if TODO_HANDLE_FAILOVER \<in> todo_before_sleep s then clusterHandleSlaveFailover E s else Some s);
      s \<leftarrow> (if TODO_UPDATE_STATE \<in> todo_before_sleep s then clusterUpdateState E s else Some s);
      let s = (if TODO_SAVE_CONFIG \<in> todo_before_sleep s
               then clusterSaveConfig s (TODO_FSYNC_CONFIG \<in> todo_before_sleep s) else s);
      Some (s\<lparr>todo_before_sleep := {}\<rparr>)
    }"

end
