(* ===== verification/Cluster_Frame.thy ===== *)
theory Cluster_Frame
  imports Cluster_Bus
begin

text \<open>
  What the operations of the cluster leave alone.  \<open>frame\<close> is the part of the view that slot
  assignment, the node table and elections depend on; most operations keep it.
\<close>

named_theorems frame_rules

section \<open>Loops\<close>

lemma loop_induct:
  assumes "loop f xs s = Some s'" "P s" "\<And>x s s'. x \<in> set xs \<Longrightarrow> P s \<Longrightarrow> f x s = Some s' \<Longrightarrow> P s'"
  shows "P s'"
  using assms
proof (induction xs arbitrary: s)
  case Nil
  then show ?case by simp
next
  case (Cons x xs)
  from Cons.prems(1) obtain s1 where s1: "f x s = Some s1" "loop f xs s1 = Some s'"
    by (auto simp: bind_eq_Some_conv)
  show ?case
  proof (rule Cons.IH [OF s1(2)])
    show "P s1" using Cons.prems(2) Cons.prems(3) [OF _ _ s1(1)] by simp
    show "\<And>y u u'. y \<in> set xs \<Longrightarrow> P u \<Longrightarrow> f y u = Some u' \<Longrightarrow> P u'"
      by (rule Cons.prems(3)) simp_all
  qed
qed

lemma loop_some:
  assumes "P s" "\<And>x s. x \<in> set xs \<Longrightarrow> P s \<Longrightarrow> \<exists>s'. f x s = Some s' \<and> P s'"
  shows "\<exists>s'. loop f xs s = Some s' \<and> P s'"
  using assms
proof (induction xs arbitrary: s)
  case Nil
  then show ?case by simp
next
  case (Cons x xs)
  from Cons.prems(2) [of x s] Cons.prems(1) obtain s1 where "f x s = Some s1" "P s1" by auto
  with Cons.IH [of s1] Cons.prems(2) show ?case by simp
qed

lemma loop_append: "loop f (xs @ ys) s = do { s \<leftarrow> loop f xs s; loop f ys s }"
  by (induction xs arbitrary: s) (auto split: bind_splits)

section \<open>Postconditions\<close>

text \<open>
  \<open>post m P\<close>: if the operation has a result, the result satisfies \<open>P\<close>.  The rules walk through a
  body without copying the states it names.
\<close>

definition post :: "'a option \<Rightarrow> ('a \<Rightarrow> bool) \<Rightarrow> bool" where
  "post m P \<longleftrightarrow> (\<forall>x. m = Some x \<longrightarrow> P x)"

named_theorems vcg

lemma post_rules [vcg]:
  "P x \<Longrightarrow> post (Some x) P"
  "post None P"
  "post bm (\<lambda>x. post (bf x) P) \<Longrightarrow> post (Option.bind bm bf) P"
  "(b \<Longrightarrow> post m P) \<Longrightarrow> (\<not> b \<Longrightarrow> post n P) \<Longrightarrow> post (if b then m else n) P"
  "(\<And>x. x = e \<Longrightarrow> post (g x) P) \<Longrightarrow> post (Let e g) P"
  "(z = None \<Longrightarrow> post m P) \<Longrightarrow> (\<And>y. z = Some y \<Longrightarrow> post (h y) P) \<Longrightarrow>
     post (case z of None \<Rightarrow> m | Some y \<Rightarrow> h y) P"
  "(\<And>a b. p = (a, b) \<Longrightarrow> post (k a b) P) \<Longrightarrow> post (case p of (a, b) \<Rightarrow> k a b) P"
  "post m' (\<lambda>x. P (q x)) \<Longrightarrow> post (map_option q m') P"
  by (auto simp: post_def Let_def bind_eq_Some_conv split: option.splits prod.splits)

lemma post_any: "(\<And>x. m = Some x \<Longrightarrow> P x) \<Longrightarrow> post m P"
  by (simp add: post_def)

lemma post_use: "m = Some x \<Longrightarrow> post m P \<Longrightarrow> P x"
  by (simp add: post_def)

section \<open>The frame\<close>

fun is_vote :: "bus_effect \<Rightarrow> bool" where
  "is_vote (Send r m) \<longleftrightarrow> m_type m = CLUSTERMSG_TYPE_FAILOVER_AUTH_REQUEST \<or> m_type m = CLUSTERMSG_TYPE_FAILOVER_AUTH_ACK"
| "is_vote _ \<longleftrightarrow> False"

definition node_view :: "clusterState \<Rightarrow> nref \<Rightarrow> ((bytes \<times> bool) \<times> bytes \<times> int) option" where
  "node_view s r =
    map_option (\<lambda>n. ((node_name n, REDIS_NODE_MYSELF \<in> node_flags n), node_slots n, numslots n)) (cheap s r)"

definition election_view :: "clusterState \<Rightarrow> u64 \<times> u64 \<times> int \<times> bool \<times> u64 \<times> bus_effect list" where
  "election_view s =
    (currentEpoch s, lastVoteEpoch s, failover_auth_count s, failover_auth_sent s, failover_auth_epoch s,
     filter is_vote (effects s))"

definition table_view :: "clusterState \<Rightarrow> nref \<times> nref \<times> (bytes \<times> nref) list \<times> (nat \<Rightarrow> nref option)" where
  "table_view s = (myself s, next_ref s, cnodes s, cslots s)"

definition frame where
  "frame s = (table_view s, node_view s, election_view s)"

lemmas frame_defs = frame_def table_view_def node_view_def election_view_def fun_eq_iff

lemmas step_simps = bind_eq_Some_conv Let_def

lemma loop_frame:
  assumes "loop f xs s = Some s'" "\<And>x s s'. x \<in> set xs \<Longrightarrow> f x s = Some s' \<Longrightarrow> frame s' = frame s"
  shows "frame s' = frame s"
  using loop_induct [OF assms(1), of "\<lambda>t. frame t = frame s"] assms(2) by simp

lemma field_frames [simp]:
  "frame (s\<lparr>todo_before_sleep := td\<rparr>) = frame s"
  "frame (s\<lparr>health := h\<rparr>) = frame s"
  "frame (s\<lparr>csize := k\<rparr>) = frame s"
  "frame (s\<lparr>first_call_time := k\<rparr>) = frame s"
  "frame (s\<lparr>among_minority_time := k\<rparr>) = frame s"
  "frame (s\<lparr>failover_auth_time := k\<rparr>) = frame s"
  "frame (s\<lparr>failover_auth_rank := k\<rparr>) = frame s"
  "frame (s\<lparr>cant_failover_reason := c\<rparr>) = frame s"
  "frame (s\<lparr>mf_end := k\<rparr>) = frame s"
  "frame (s\<lparr>mf_slave := q\<rparr>) = frame s"
  "frame (s\<lparr>mf_master_offset := k\<rparr>) = frame s"
  "frame (s\<lparr>mf_can_start := b\<rparr>) = frame s"
  "frame (s\<lparr>black_list := bl\<rparr>) = frame s"
  "frame (s\<lparr>fd_ids := ids\<rparr>) = frame s"
  "frame (s\<lparr>cron_iteration := i\<rparr>) = frame s"
  "frame (s\<lparr>migrating_slots_to := f\<rparr>) = frame s"
  "frame (s\<lparr>importing_slots_from := f\<rparr>) = frame s"
  by (simp_all add: frame_defs)

lemma clusterDoBeforeSleep_frame [simp]: "frame (clusterDoBeforeSleep s t) = frame s"
  by (simp add: clusterDoBeforeSleep_def frame_defs)

lemma resetManualFailover_frame [simp]: "frame (resetManualFailover E s) = frame s"
  by (simp add: resetManualFailover_def frame_defs Let_def)

lemma manualFailoverCheckTimeout_frame [simp]: "frame (manualFailoverCheckTimeout E s) = frame s"
  by (simp add: manualFailoverCheckTimeout_def)

lemma clusterHandleManualFailover_frame [simp]: "frame (clusterHandleManualFailover E s) = frame s"
  by (simp add: clusterHandleManualFailover_def frame_defs)

lemma clusterCloseAllSlots_frame [simp]: "frame (clusterCloseAllSlots s) = frame s"
  by (simp add: clusterCloseAllSlots_def frame_defs)

lemma clusterLogCantFailover_frame [simp]: "frame (clusterLogCantFailover s t) = frame s"
  by (simp add: clusterLogCantFailover_def frame_defs)

lemma emit_frame [simp]:
  "\<not> is_vote e \<Longrightarrow> es = effects s \<Longrightarrow> frame (s\<lparr>effects := es @ [e]\<rparr>) = frame s"
  by (simp add: frame_defs)

lemma clusterSaveConfig_frame [simp]: "frame (clusterSaveConfig s b) = frame s"
  by (simp add: clusterSaveConfig_def)

lemma set_node_frame:
  "cheap s r = Some n \<Longrightarrow> node_name n' = node_name n \<Longrightarrow> node_slots n' = node_slots n \<Longrightarrow> numslots n' = numslots n \<Longrightarrow>
     (REDIS_NODE_MYSELF \<in> node_flags n') = (REDIS_NODE_MYSELF \<in> node_flags n) \<Longrightarrow>
     frame (set_node s r n') = frame s"
  by (simp add: frame_defs)

lemma node_op_simps [simp]:
  "node_name (fst (clusterNodeRemoveSlave n r)) = node_name n"
  "node_slots (fst (clusterNodeRemoveSlave n r)) = node_slots n"
  "numslots (fst (clusterNodeRemoveSlave n r)) = numslots n"
  "node_flags (fst (clusterNodeRemoveSlave n r)) = node_flags n"
  "node_name (fst (clusterNodeAddSlave n r)) = node_name n"
  "node_slots (fst (clusterNodeAddSlave n r)) = node_slots n"
  "numslots (fst (clusterNodeAddSlave n r)) = numslots n"
  "node_flags (fst (clusterNodeAddSlave n r)) = node_flags n"
  "node_name (clusterNodeResetSlaves n) = node_name n"
  "node_slots (clusterNodeResetSlaves n) = node_slots n"
  "numslots (clusterNodeResetSlaves n) = numslots n"
  "node_flags (clusterNodeResetSlaves n) = node_flags n"
  "node_name (clusterNodeCleanupFailureReports E n) = node_name n"
  "node_slots (clusterNodeCleanupFailureReports E n) = node_slots n"
  "numslots (clusterNodeCleanupFailureReports E n) = numslots n"
  "node_flags (clusterNodeCleanupFailureReports E n) = node_flags n"
  "node_name (fst (clusterNodeAddFailureReport E n q)) = node_name n"
  "node_slots (fst (clusterNodeAddFailureReport E n q)) = node_slots n"
  "numslots (fst (clusterNodeAddFailureReport E n q)) = numslots n"
  "node_flags (fst (clusterNodeAddFailureReport E n q)) = node_flags n"
  "node_name (fst (clusterNodeDelFailureReport E n q)) = node_name n"
  "node_slots (fst (clusterNodeDelFailureReport E n q)) = node_slots n"
  "numslots (fst (clusterNodeDelFailureReport E n q)) = numslots n"
  "node_flags (fst (clusterNodeDelFailureReport E n q)) = node_flags n"
  by (simp_all add: clusterNodeRemoveSlave_def clusterNodeAddSlave_def clusterNodeResetSlaves_def
      clusterNodeCleanupFailureReports_def clusterNodeAddFailureReport_def clusterNodeDelFailureReport_def
      Let_def split: prod.split option.split)

lemma remove_slave_frame [frame_rules]: "remove_slave s m r = Some s' \<Longrightarrow> frame s' = frame s"
  by (auto simp: remove_slave_def step_simps set_node_frame)

lemma add_slave_frame [frame_rules]: "add_slave s m r = Some s' \<Longrightarrow> frame s' = frame s"
  by (auto simp: add_slave_def step_simps set_node_frame)

lemma clusterSetNodeAsMaster_frame [frame_rules]:
  "clusterSetNodeAsMaster s r = Some s' \<Longrightarrow> frame s' = frame s"
  by (auto simp: clusterSetNodeAsMaster_def step_simps set_node_frame split: if_splits option.splits
      dest!: remove_slave_frame)

lemma clusterSetMaster_frame [frame_rules]:
  "clusterSetMaster E s r = Some s' \<Longrightarrow> frame s' = frame s"
  by (auto simp: clusterSetMaster_def step_simps set_node_frame split: if_splits option.splits
      dest!: remove_slave_frame add_slave_frame)

lemma clusterUpdateState_frame [frame_rules]:
  "clusterUpdateState E s = Some s' \<Longrightarrow> frame s' = frame s"
proof (erule post_use)
  show "post (clusterUpdateState E s) (\<lambda>s'. frame s' = frame s)"
    unfolding clusterUpdateState_def
    by (rule vcg | rule post_any | (auto simp: if_distrib [of frame] cong: if_cong)[1])+
qed

lemma clusterSendPing_frame [frame_rules]: "clusterSendPing E s r t = Some s' \<Longrightarrow> frame s' = frame s"
  by (auto simp: clusterSendPing_def step_simps set_node_frame split: if_splits)

lemma clusterBroadcastPong_frame [frame_rules]: "clusterBroadcastPong E s b = Some s' \<Longrightarrow> frame s' = frame s"
  unfolding clusterBroadcastPong_def
  by (erule loop_frame) (auto simp: step_simps split: if_splits dest: clusterSendPing_frame)

lemma clusterBuildMessageHdr_type: "clusterBuildMessageHdr E s t = Some m \<Longrightarrow> m_type m = t"
  by (auto simp: clusterBuildMessageHdr_def step_simps)

lemma clusterBroadcastMessage_frame:
  assumes "clusterBroadcastMessage s m = Some s'" "\<And>r. \<not> is_vote (Send r m)"
  shows "frame s' = frame s"
  using assms(1) unfolding clusterBroadcastMessage_def
  by (rule loop_frame) (use assms(2) in \<open>auto simp: step_simps split: if_splits\<close>)

lemma clusterSendFail_frame [frame_rules]: "clusterSendFail E s nm = Some s' \<Longrightarrow> frame s' = frame s"
  by (auto simp: clusterSendFail_def step_simps dest!: clusterBuildMessageHdr_type intro: clusterBroadcastMessage_frame)

lemma clusterSendUpdate_frame [frame_rules]: "clusterSendUpdate E s d r = Some s' \<Longrightarrow> frame s' = frame s"
  by (auto simp: clusterSendUpdate_def step_simps dest!: clusterBuildMessageHdr_type split: if_splits)

lemma clusterSendMFStart_frame [frame_rules]: "clusterSendMFStart E s r = Some s' \<Longrightarrow> frame s' = frame s"
  by (auto simp: clusterSendMFStart_def step_simps dest!: clusterBuildMessageHdr_type split: if_splits)

lemma freeClusterLink_frame [frame_rules]: "freeClusterLink s r = Some s' \<Longrightarrow> frame s' = frame s"
  by (auto simp: freeClusterLink_def step_simps set_node_frame)

lemma markNodeAsFailingIfNeeded_frame [frame_rules]:
  "markNodeAsFailingIfNeeded E s r = Some s' \<Longrightarrow> frame s' = frame s"
  by (auto simp: markNodeAsFailingIfNeeded_def step_simps clusterNodeFailureReportsCount_def set_node_frame
      split: if_splits dest!: clusterSendFail_frame)

lemma clearNodeFailureIfNeeded_frame [frame_rules]:
  "clearNodeFailureIfNeeded E s r = Some s' \<Longrightarrow> frame s' = frame s"
  by (auto simp: clearNodeFailureIfNeeded_def step_simps set_node_frame split: if_splits)

lemma nodeUpdateAddressIfNeeded_frame [frame_rules]:
  assumes "nodeUpdateAddressIfNeeded E s r l p = Some (s', b)"
  shows "frame s' = frame s"
proof -
  from assms obtain n where n: "cheap s r = Some n" by (auto simp: nodeUpdateAddressIfNeeded_def bind_eq_Some_conv)
  define n' where "n' = n\<lparr>node_ip := peer_ip E, node_port := p, node_link := None,
                           node_flags := node_flags n - {REDIS_NODE_NOADDR}\<rparr>"
  define s1 where "s1 = set_node s r n'"
  have s1: "frame s1 = frame s" using n by (simp add: s1_def set_node_frame n'_def)
  have "frame s' = frame s \<or> frame s' = frame s1"
    using assms n unfolding nodeUpdateAddressIfNeeded_def Let_def
    by (simp add: bind_eq_Some_conv n'_def [symmetric] s1_def [symmetric] split: if_splits) auto
  with s1 show ?thesis by auto
qed

lemma process_address_frame [frame_rules]:
  "process_address E s l q m = Some s' \<Longrightarrow> frame s' = frame s"
  by (auto simp: process_address_def step_simps split: option.splits if_splits dest!: nodeUpdateAddressIfNeeded_frame)

lemma process_pong_frame [frame_rules]: "process_pong E s l m = Some s' \<Longrightarrow> frame s' = frame s"
  by (auto simp: process_pong_def step_simps set_node_frame split: option.splits if_splits
      dest!: clearNodeFailureIfNeeded_frame)

lemma process_fail_frame [frame_rules]: "process_fail E s q m = Some s' \<Longrightarrow> frame s' = frame s"
  by (auto simp: process_fail_def step_simps set_node_frame split: option.splits if_splits)

lemma process_publish_frame [frame_rules]: "process_publish E s m = Some s' \<Longrightarrow> frame s' = frame s"
  by (auto simp: process_publish_def split: if_splits)

lemma process_mfstart_frame [frame_rules]: "process_mfstart E s q = Some s' \<Longrightarrow> frame s' = frame s"
  by (auto simp: process_mfstart_def step_simps split: option.splits)

lemma clusterHandleSlaveMigration_frame [frame_rules]:
  "clusterHandleSlaveMigration E s k = Some s' \<Longrightarrow> frame s' = frame s"
  by (auto simp: clusterHandleSlaveMigration_def step_simps split: option.splits if_splits prod.splits
      dest!: clusterSetMaster_frame)

lemma clusterBlacklistCleanup_frame [simp]: "frame (clusterBlacklistCleanup E s) = frame s"
  by (simp add: clusterBlacklistCleanup_def frame_defs)

lemma clusterBlacklistAddNode_frame [simp]: "frame (clusterBlacklistAddNode E s n) = frame s"
  by (simp add: clusterBlacklistAddNode_def Let_def clusterBlacklistCleanup_def frame_defs)

lemma clusterBlacklistExists_frame [simp]: "frame (fst (clusterBlacklistExists E s n)) = frame s"
  by (simp add: clusterBlacklistExists_def Let_def)

end
