(* ===== verification/Cluster_Slots.thy ===== *)
theory Cluster_Slots
  imports Cluster_Frame
begin

text \<open>
  The slot table, the bitmaps of the nodes and their slot counts describe the same assignment
  (\<open>cluster.c\<close>, slots management), and the table of nodes is consistent: the invariant, the
  operations that keep it, and the runs of a cluster node it holds in.
\<close>

section \<open>Bitmaps\<close>

lemma bitmapTestBit_bit: "bitmapTestBit bm j = bit (bm ! (j div 8)) (j mod 8)"
proof -
  have "(w AND push_bit n 1 \<noteq> 0) = bit w n" if "n < 8" for w :: byte and n
  proof
    assume "w AND push_bit n 1 \<noteq> 0"
    then obtain k where "bit (w AND push_bit n 1) k" by (auto simp: bit_eq_iff)
    then show "bit w n" using that by (auto simp: bit_simps)
  next
    assume "bit w n"
    then have "bit (w AND push_bit n 1) n" using that by (auto simp: bit_simps)
    then show "w AND push_bit n 1 \<noteq> 0" by auto
  qed
  then show ?thesis by (simp add: bitmapTestBit_def)
qed

lemma length_bitmap [simp]:
  "length (bitmapSetBit bm j) = length bm" "length (bitmapClearBit bm j) = length bm"
  by (simp_all add: bitmapSetBit_def bitmapClearBit_def)

lemma slot_eq: "(i :: nat) div 8 = j div 8 \<Longrightarrow> i mod 8 = j mod 8 \<Longrightarrow> i = j"
  by (metis div_mult_mod_eq)

lemma bitmapSetBit_test:
  "j div 8 < length bm \<Longrightarrow> bitmapTestBit (bitmapSetBit bm j) i = (i = j \<or> bitmapTestBit bm i)"
  using slot_eq [of i j] by (auto simp: bitmapTestBit_bit bitmapSetBit_def nth_list_update bit_simps)

lemma bitmapClearBit_test:
  "j div 8 < length bm \<Longrightarrow> bitmapTestBit (bitmapClearBit bm j) i = (i \<noteq> j \<and> bitmapTestBit bm i)"
  using slot_eq [of i j] by (auto simp: bitmapTestBit_bit bitmapClearBit_def nth_list_update bit_simps)

lemma bitmapTestBit_zeros [simp]: "j < 16384 \<Longrightarrow> \<not> bitmapTestBit (replicate 2048 0) j"
  by (simp add: bitmapTestBit_bit)

section \<open>The invariant\<close>

definition claimed :: "bytes \<Rightarrow> nat set" where
  "claimed bm = {j. j < REDIS_CLUSTER_SLOTS \<and> bitmapTestBit bm j}"

definition slots_inv :: "clusterState \<Rightarrow> bool" where
  "slots_inv s \<longleftrightarrow>
     (\<forall>j r. cslots s j = Some r \<longrightarrow> j < REDIS_CLUSTER_SLOTS \<and> (\<exists>nm bm k. node_view s r = Some (nm, bm, k))) \<and>
     (\<forall>r nm bm k. node_view s r = Some (nm, bm, k) \<longrightarrow>
        r < next_ref s \<and> length bm = 2048 \<and> k = int (card (claimed bm)) \<and>
        claimed bm = {j. cslots s j = Some r})"

definition nodes_inv :: "clusterState \<Rightarrow> bool" where
  "nodes_inv s \<longleftrightarrow>
     distinct (map fst (cnodes s)) \<and>
     (\<forall>(nm, r) \<in> set (cnodes s). \<exists>bm k. node_view s r = Some ((nm, r = myself s), bm, k)) \<and>
     myself s \<in> snd ` set (cnodes s)"

definition cluster_inv :: "clusterState \<Rightarrow> bool" where
  "cluster_inv s \<longleftrightarrow> slots_inv s \<and> nodes_inv s"

lemma slots_inv_frame: "frame s' = frame s \<Longrightarrow> slots_inv s' = slots_inv s"
  by (simp add: slots_inv_def frame_def table_view_def)

lemma nodes_inv_frame: "frame s' = frame s \<Longrightarrow> nodes_inv s' = nodes_inv s"
  by (simp add: nodes_inv_def frame_def table_view_def)

lemma cluster_inv_frame: "frame s' = frame s \<Longrightarrow> cluster_inv s' = cluster_inv s"
  using slots_inv_frame [of s' s] nodes_inv_frame [of s' s] by (simp add: cluster_inv_def)

lemma finite_claimed [simp]: "finite (claimed bm)"
  by (simp add: claimed_def)

lemma slots_inv_view:
  assumes "slots_inv s" "node_view s r = Some (nm, bm, k)"
  shows "r < next_ref s \<and> length bm = 2048 \<and> k = int (card (claimed bm)) \<and> claimed bm = {j. cslots s j = Some r}"
  using conjunct2 [OF assms(1) [unfolded slots_inv_def], rule_format, OF assms(2)] by (intro conjI) simp_all

lemma slots_inv_table:
  "slots_inv s \<Longrightarrow> cslots s j = Some r \<Longrightarrow> j < REDIS_CLUSTER_SLOTS \<and> (\<exists>nm bm k. node_view s r = Some (nm, bm, k))"
  unfolding slots_inv_def by metis

lemma slots_invD:
  assumes "slots_inv s" "cheap s r = Some n"
  shows "length (node_slots n) = 2048" "numslots n = int (card (claimed (node_slots n)))"
    "claimed (node_slots n) = {j. cslots s j = Some r}" "r < next_ref s"
  using slots_inv_view [OF assms(1), of r "(node_name n, REDIS_NODE_MYSELF \<in> node_flags n)" "node_slots n" "numslots n"] assms(2)
  by (simp_all add: node_view_def)

lemma slots_inv_owner:
  assumes "slots_inv s" "cslots s j = Some r"
  obtains n where "cheap s r = Some n" "j < REDIS_CLUSTER_SLOTS" "bitmapTestBit (node_slots n) j"
proof -
  from assms obtain nm bm k where "node_view s r = Some (nm, bm, k)" "j < REDIS_CLUSTER_SLOTS"
    using slots_inv_table by blast
  then obtain n where n: "cheap s r = Some n" by (auto simp: node_view_def)
  with slots_invD(3) [OF assms(1) n] assms(2) have "j \<in> claimed (node_slots n)" by auto
  with n that show ?thesis by (auto simp: claimed_def)
qed

text \<open>The bit of a node is set exactly for the slots the table gives to it.\<close>

lemma slot_bit:
  assumes "slots_inv s" "cheap s r = Some n" "j < REDIS_CLUSTER_SLOTS"
  shows "bitmapTestBit (node_slots n) j \<longleftrightarrow> cslots s j = Some r"
  using slots_invD(3) [OF assms(1,2)] assms(3) by (auto simp: claimed_def)

section \<open>Assigning slots\<close>

lemma slot_byte: "j < REDIS_CLUSTER_SLOTS \<Longrightarrow> length bm = 2048 \<Longrightarrow> j div 8 < length bm"
  by (simp add: REDIS_CLUSTER_SLOTS_def)

text \<open>Deleting a slot never fails its assertion.\<close>

lemma clusterDelSlot_ok:
  assumes "slots_inv s"
  obtains s' where "clusterDelSlot s j = Some (s', cslots s j \<noteq> None)" "slots_inv s'"
    "cslots s' = (cslots s)(j := None)" "cnodes s' = cnodes s" "myself s' = myself s" "next_ref s' = next_ref s"
    "election_view s' = election_view s"
    "\<And>r. map_option fst (node_view s' r) = map_option fst (node_view s r)"
proof (cases "cslots s j")
  case None
  then show ?thesis using that [of s] assms by (auto simp: clusterDelSlot_def fun_upd_idem)
next
  case (Some r)
  obtain n where n: "cheap s r = Some n" "j < REDIS_CLUSTER_SLOTS" "bitmapTestBit (node_slots n) j"
    by (rule slots_inv_owner [OF assms Some])
  note d = slots_invD [OF assms n(1)]
  define n' where "n' = n\<lparr>node_slots := bitmapClearBit (node_slots n) j, numslots := numslots n - 1\<rparr>"
  define s' where "s' = (set_node s r n')\<lparr>cslots := (cslots s)(j := None)\<rparr>"
  have del: "clusterDelSlot s j = Some (s', True)"
    using Some n by (simp add: clusterDelSlot_def clusterNodeClearSlotBit_def n'_def s'_def)
  have cl: "claimed (node_slots n') = claimed (node_slots n) - {j}"
    using slot_byte [OF n(2) d(1)] by (auto simp: claimed_def n'_def bitmapClearBit_test)
  have mem: "j \<in> claimed (node_slots n)" using n(2,3) by (simp add: claimed_def)
  have "card (claimed (node_slots n)) = Suc (card (claimed (node_slots n) - {j}))"
    by (rule card.remove [OF finite_claimed mem])
  then have card: "int (card (claimed (node_slots n) - {j})) = int (card (claimed (node_slots n))) - 1"
    by simp
  have other: "node_view s' q = node_view s q" if "q \<noteq> r" for q using that by (simp add: node_view_def s'_def)
  have inv: "slots_inv s'"
    unfolding slots_inv_def
  proof (intro conjI allI impI)
    fix i q assume "cslots s' i = Some q"
    then have q: "i \<noteq> j" "cslots s i = Some q" by (auto simp: s'_def split: if_splits)
    then obtain m where "cheap s q = Some m" "i < REDIS_CLUSTER_SLOTS" using slots_inv_owner [OF assms] by metis
    then show "i < REDIS_CLUSTER_SLOTS" "\<exists>nm bm k. node_view s' q = Some (nm, bm, k)"
      by (auto simp: node_view_def s'_def)
  next
    fix q nm bm k assume v: "node_view s' q = Some (nm, bm, k)"
    have *: "q < next_ref s \<and> length bm = 2048 \<and> k = int (card (claimed bm)) \<and> claimed bm = {i. cslots s' i = Some q}"
    proof (cases "q = r")
      case True
      with v have bm: "bm = node_slots n'" "k = numslots n'" by (auto simp: node_view_def s'_def)
      have "claimed bm = {i. cslots s' i = Some r}"
        unfolding bm cl d(3) by (auto simp: s'_def)
      then show ?thesis using True bm cl card d by (simp add: n'_def)
    next
      case False
      with v other have v: "node_view s q = Some (nm, bm, k)" by simp
      have "{i. cslots s' i = Some q} = {i. cslots s i = Some q}" using False Some by (auto simp: s'_def)
      with slots_inv_view [OF assms v] show ?thesis by simp
    qed
    then show "q < next_ref s'" "length bm = 2048" "k = int (card (claimed bm))"
      "claimed bm = {i. cslots s' i = Some q}" by (simp_all add: s'_def)
  qed
  show ?thesis
    by (rule that [of s']) (use del inv Some n in \<open>simp_all add: s'_def n'_def election_view_def node_view_def\<close>)
qed

lemma clusterAddSlot_ok:
  assumes "slots_inv s" "cslots s j = None" "j < REDIS_CLUSTER_SLOTS" "clusterAddSlot s r j = Some (s', b)"
  shows "slots_inv s'" "cslots s' = (cslots s)(j \<mapsto> r)" "cnodes s' = cnodes s" "myself s' = myself s"
    "next_ref s' = next_ref s" "election_view s' = election_view s"
    "map_option fst (node_view s' q) = map_option fst (node_view s q)"
proof -
  from assms(2,4) obtain n where n: "cheap s r = Some n" by (auto simp: clusterAddSlot_def bind_eq_Some_conv)
  note d = slots_invD [OF assms(1) n]
  have nb: "\<not> bitmapTestBit (node_slots n) j" using slot_bit [OF assms(1) n assms(3)] assms(2) by simp
  define n' where "n' = n\<lparr>node_slots := bitmapSetBit (node_slots n) j, numslots := numslots n + 1\<rparr>"
  define t where "t = (set_node s r n')\<lparr>cslots := (cslots s)(j \<mapsto> r)\<rparr>"
  obtain ids where s': "s' = t\<lparr>fd_ids := ids\<rparr> \<or> s' = t"
    using assms(2,4) n nb
    by (auto simp: clusterAddSlot_def bind_eq_Some_conv Let_def clusterNodeSetSlotBit_def n'_def [symmetric] t_def
        split: option.splits)
  then have ft: "frame s' = frame t" by auto
  have cl: "claimed (node_slots n') = insert j (claimed (node_slots n))"
    using slot_byte [OF assms(3) d(1)] assms(3) by (auto simp: claimed_def n'_def bitmapSetBit_test)
  have "j \<notin> claimed (node_slots n)" using nb by (simp add: claimed_def)
  then have card: "card (insert j (claimed (node_slots n))) = card (claimed (node_slots n)) + 1" by simp
  have inv: "slots_inv t"
    unfolding slots_inv_def
  proof (intro conjI allI impI)
    fix i q assume q: "cslots t i = Some q"
    show "i < REDIS_CLUSTER_SLOTS"
      using q assms(3) slots_inv_table [OF assms(1), of i] by (auto simp: t_def split: if_splits)
    show "\<exists>nm bm k. node_view t q = Some (nm, bm, k)"
    proof (cases "i = j")
      case True
      with q show ?thesis by (simp add: t_def node_view_def)
    next
      case False
      with q have "cslots s i = Some q" by (simp add: t_def)
      then obtain m where "cheap s q = Some m" using slots_inv_owner [OF assms(1)] by metis
      then show ?thesis by (auto simp: node_view_def t_def)
    qed
  next
    fix q nm bm k assume v: "node_view t q = Some (nm, bm, k)"
    have *: "q < next_ref s \<and> length bm = 2048 \<and> k = int (card (claimed bm)) \<and> claimed bm = {i. cslots t i = Some q}"
    proof (cases "q = r")
      case True
      with v have bm: "bm = node_slots n'" "k = numslots n'" by (auto simp: node_view_def t_def)
      have "claimed bm = {i. cslots t i = Some r}"
        unfolding bm cl d(3) by (auto simp: t_def)
      then show ?thesis using True bm cl card d by (simp add: n'_def)
    next
      case False
      with v have v: "node_view s q = Some (nm, bm, k)" by (simp add: node_view_def t_def)
      have "{i. cslots t i = Some q} = {i. cslots s i = Some q}" using False assms(2) by (auto simp: t_def)
      with slots_inv_view [OF assms(1) v] show ?thesis by simp
    qed
    then show "q < next_ref t" "length bm = 2048" "k = int (card (claimed bm))"
      "claimed bm = {i. cslots t i = Some q}" by (simp_all add: t_def)
  qed
  show "slots_inv s'" using inv slots_inv_frame [OF ft] by simp
  show "cslots s' = (cslots s)(j \<mapsto> r)" "cnodes s' = cnodes s" "myself s' = myself s"
    "next_ref s' = next_ref s" "election_view s' = election_view s"
    "map_option fst (node_view s' q) = map_option fst (node_view s q)"
    using s' n by (auto simp: t_def election_view_def node_view_def n'_def)
qed

lemma nodes_inv_view:
  assumes "nodes_inv s" "cnodes s' = cnodes s" "myself s' = myself s"
    "\<And>r. map_option fst (node_view s' r) = map_option fst (node_view s r)"
  shows "nodes_inv s'"
proof -
  have "\<exists>bm k. node_view s' r = Some ((nm, r = myself s), bm, k)" if "(nm, r) \<in> set (cnodes s)" for nm r
  proof -
    have "map_option fst (node_view s r) = Some (nm, r = myself s)" using that assms(1) by (auto simp: nodes_inv_def)
    then have "map_option fst (node_view s' r) = Some (nm, r = myself s)" using assms(4) [of r] by simp
    then show ?thesis by (cases "node_view s' r") auto
  qed
  with assms(1-3) show ?thesis by (auto simp: nodes_inv_def)
qed

text \<open>What the slot operations keep: the invariant, the table of nodes and the election.\<close>

definition slot_step :: "clusterState \<Rightarrow> clusterState \<Rightarrow> bool" where
  "slot_step s s' \<longleftrightarrow> (slots_inv s \<longrightarrow> slots_inv s') \<and> cnodes s' = cnodes s \<and> myself s' = myself s \<and>
     next_ref s' = next_ref s \<and> election_view s' = election_view s \<and>
     (\<forall>r. map_option fst (node_view s' r) = map_option fst (node_view s r))"

lemma slot_step_refl [simp]: "slot_step s s"
  by (simp add: slot_step_def)

lemma slot_step_trans: "slot_step s t \<Longrightarrow> slot_step t u \<Longrightarrow> slot_step s u"
  by (simp add: slot_step_def)

lemma slot_step_frame: "frame s' = frame s \<Longrightarrow> slot_step s s'"
  using slots_inv_frame [of s' s] by (simp add: slot_step_def frame_def table_view_def)

lemma slot_step_inv: "slot_step s s' \<Longrightarrow> cluster_inv s \<Longrightarrow> cluster_inv s'"
  using nodes_inv_view [of s s'] by (auto simp: slot_step_def cluster_inv_def)

lemma slot_step_election: "slot_step s s' \<Longrightarrow> election_view s' = election_view s"
  by (simp add: slot_step_def)

lemma loop_slot_step:
  assumes "loop f xs s = Some s'" "slots_inv (g s)"
    "\<And>x s s'. x \<in> set xs \<Longrightarrow> slots_inv (g s) \<Longrightarrow> f x s = Some s' \<Longrightarrow> slot_step (g s) (g s')"
  shows "slot_step (g s) (g s')"
proof -
  have "slot_step (g s) (g s') \<and> slots_inv (g s')"
  proof (rule loop_induct [OF assms(1)])
    show "slot_step (g s) (g s) \<and> slots_inv (g s)" using assms(2) by simp
  next
    fix x t t' assume "x \<in> set xs" "slot_step (g s) (g t) \<and> slots_inv (g t)" "f x t = Some t'"
    with assms(3) [of x t t'] slot_step_trans [of "g s" "g t" "g t'"]
    show "slot_step (g s) (g t') \<and> slots_inv (g t')" by (auto simp: slot_step_def)
  qed
  then show ?thesis ..
qed

lemma del_slot_step:
  assumes "slots_inv s"
  obtains s' where "del_slot j s = Some s'" "slot_step s s'" "cslots s' = (cslots s)(j := None)"
proof -
  obtain s' where *: "clusterDelSlot s j = Some (s', cslots s j \<noteq> None)" "slots_inv s'"
    "cslots s' = (cslots s)(j := None)" "cnodes s' = cnodes s" "myself s' = myself s" "next_ref s' = next_ref s"
    "election_view s' = election_view s" "\<And>r. map_option fst (node_view s' r) = map_option fst (node_view s r)"
    by (rule clusterDelSlot_ok [OF assms]) blast
  show ?thesis by (rule that [of s']) (use * in \<open>simp_all add: del_slot_def slot_step_def\<close>)
qed

lemma add_slot_step:
  assumes "slots_inv s" "j < REDIS_CLUSTER_SLOTS" "add_slot r j s = Some s'"
  shows "slot_step s s'" "cslots s j = None \<Longrightarrow> cslots s' = (cslots s)(j \<mapsto> r)"
proof -
  from assms(3) obtain b where b: "clusterAddSlot s r j = Some (s', b)" by (auto simp: add_slot_def)
  show "slot_step s s'"
  proof (cases "cslots s j")
    case None
    show ?thesis using clusterAddSlot_ok [OF assms(1) None assms(2) b] by (simp add: slot_step_def)
  next
    case (Some q)
    with b show ?thesis by (simp add: clusterAddSlot_def)
  qed
  show "cslots s' = (cslots s)(j \<mapsto> r)" if "cslots s j = None"
    using clusterAddSlot_ok(2) [OF assms(1) that assms(2) b] .
qed

text \<open>Taking a slot from its owner and giving it to another node.\<close>

lemma move_slot_step:
  assumes "slots_inv s" "j < REDIS_CLUSTER_SLOTS" "del_slot j s = Some t" "add_slot r j t = Some u"
  shows "slot_step s u" "cslots u = (cslots s)(j \<mapsto> r)"
proof -
  from del_slot_step [OF assms(1), of j] assms(3)
  have t: "slot_step s t" "cslots t = (cslots s)(j := None)" by auto
  with assms(1) have "slots_inv t" by (simp add: slot_step_def)
  note u = add_slot_step [OF this assms(2,4)]
  show "slot_step s u" by (rule slot_step_trans [OF t(1) u(1)])
  show "cslots u = (cslots s)(j \<mapsto> r)" using u(2) t(2) by simp
qed

section \<open>Operations on many slots\<close>

lemma del_node_slot_step:
  assumes "slots_inv s" "del_node_slot r j (s, k) = Some (s', k')"
  shows "slot_step s s'"
proof -
  obtain t where t: "del_slot j s = Some t" "slot_step s t" using del_slot_step [OF assms(1), of j] by metis
  with assms(2) show ?thesis by (auto simp: del_node_slot_def bind_eq_Some_conv split: if_splits)
qed

lemma clusterDelNodeSlots_step:
  assumes "slots_inv s" "clusterDelNodeSlots s r = Some (s', k)"
  shows "slot_step s s'"
  using loop_slot_step [where g = fst, OF assms(2) [unfolded clusterDelNodeSlots_def]] assms(1) del_node_slot_step
  by force

lemma rebind_slot_step:
  assumes "slots_inv s" "j < REDIS_CLUSTER_SLOTS" "rebind_slot E cm sender epoch bm j (s, nm, d) = Some (s', nm', d')"
  shows "slot_step s s'"
proof -
  have move: "slot_step s (clusterDoBeforeSleep u td)" if "del_slot j s = Some t" "add_slot sender j t = Some u" for t u td
    using slot_step_trans [OF move_slot_step(1) [OF assms(1,2) that] slot_step_frame] by simp
  show ?thesis
    using assms(3) by (auto simp: rebind_slot_def step_simps move split: if_splits)
qed

lemma clusterUpdateSlotsConfigWith_step:
  assumes "slots_inv s" "clusterUpdateSlotsConfigWith E s sender epoch bm = Some s'"
  shows "slot_step s s'"
proof (cases "sender = myself s")
  case True
  with assms(2) show ?thesis by (auto simp: clusterUpdateSlotsConfigWith_def step_simps)
next
  case False
  with assms(2) obtain cm t nm d demoted where t: "loop (rebind_slot E cm sender epoch bm) [0..<REDIS_CLUSTER_SLOTS] (s, None, []) = Some (t, nm, d)"
    and s': "(if demoted then do {
          s \<leftarrow> clusterSetMaster E t sender;
          Some (clusterDoBeforeSleep s {TODO_SAVE_CONFIG, TODO_UPDATE_STATE, TODO_FSYNC_CONFIG})
        } else Some (t\<lparr>effects := effects t @ map DelKeysInSlot d\<rparr>)) = Some s'"
    by (auto simp: clusterUpdateSlotsConfigWith_def step_simps split: prod.splits)
  have st: "slot_step (fst (s, None :: nref option, [] :: nat list)) (fst (t, nm, d))"
  proof (rule loop_slot_step [OF t])
    fix j and x y :: "clusterState \<times> nref option \<times> nat list"
    assume "j \<in> set [0..<REDIS_CLUSTER_SLOTS]" "slots_inv (fst x)" "rebind_slot E cm sender epoch bm j x = Some y"
    then show "slot_step (fst x) (fst y)"
      using rebind_slot_step [of "fst x" j E cm sender epoch bm "fst (snd x)" "snd (snd x)" "fst y" "fst (snd y)" "snd (snd y)"]
      by simp
  qed (use assms(1) in simp)
  have del: "frame (t\<lparr>effects := effects t @ map DelKeysInSlot d\<rparr>) = frame t"
    by (simp add: frame_defs filter_empty_conv)
  have "slot_step t s'"
    using s' by (auto simp: step_simps del split: if_splits intro!: slot_step_frame dest!: clusterSetMaster_frame)
  with st show ?thesis using slot_step_trans by simp
qed

lemma takeover_slot_step:
  assumes "slots_inv s" "j < REDIS_CLUSTER_SLOTS" "takeover_slot old j s = Some s'"
  shows "slot_step s s'"
  using assms(3) move_slot_step(1) [OF assms(1,2)]
  by (auto simp: takeover_slot_def bind_eq_Some_conv split: if_splits)

lemma clusterFailoverReplaceYourMaster_step:
  assumes "slots_inv s" "clusterFailoverReplaceYourMaster E s = Some s'"
  shows "slot_step s s'"
  using assms(2)
proof (rule post_use)
  have main: "slot_step s (resetManualFailover E x)"
    if u: "clusterSetNodeAsMaster s (myself s) = Some u"
      and v: "loop (takeover_slot old) [0..<REDIS_CLUSTER_SLOTS] (emit u ReplicationUnsetMaster) = Some v"
      and w: "clusterUpdateState E v = Some w"
      and x: "clusterBroadcastPong E (clusterSaveConfig w True) False = Some x" for u v w x old
  proof -
    have "frame (emit u ReplicationUnsetMaster) = frame s"
      using clusterSetNodeAsMaster_frame [OF u] by simp
    then have su: "slot_step s (emit u ReplicationUnsetMaster)" by (rule slot_step_frame)
    then have inv: "slots_inv (emit u ReplicationUnsetMaster)" using assms(1) by (simp add: slot_step_def)
    have sv: "slot_step (emit u ReplicationUnsetMaster) v"
      by (rule loop_slot_step [where g = "\<lambda>s. s", OF v inv]) (auto intro: takeover_slot_step)
    have fx: "frame (resetManualFailover E x) = frame v"
      using clusterUpdateState_frame [OF w] clusterBroadcastPong_frame [OF x] by simp
    show ?thesis by (rule slot_step_trans [OF su slot_step_trans [OF sv slot_step_frame [OF fx]]])
  qed
  show "post (clusterFailoverReplaceYourMaster E s) (slot_step s)"
    unfolding clusterFailoverReplaceYourMaster_def
    by (rule vcg | rule post_any | (auto intro: main)[1])+
qed

lemma verify_slot_step:
  assumes "slots_inv s" "j < REDIS_CLUSTER_SLOTS" "verify_slot E j (s, k) = Some (s', k')"
  shows "slot_step s s'"
  using assms(3) by (auto simp: verify_slot_def bind_eq_Some_conv split: if_splits
      intro: slot_step_frame add_slot_step(1) [OF assms(1,2)])

lemma verifyClusterConfigWithData_step:
  assumes "slots_inv s" "verifyClusterConfigWithData E s = Some (s', b)"
  shows "slot_step s s'"
proof -
  have main: "slot_step s t" if "loop (verify_slot E) [0..<REDIS_CLUSTER_SLOTS] (s, 0) = Some (t, k)" for t k
    using loop_slot_step [where g = fst, OF that] assms(1) verify_slot_step by force
  have "post (verifyClusterConfigWithData E s) (\<lambda>(t, b). slot_step s t)"
    unfolding verifyClusterConfigWithData_def
    by (rule vcg | rule post_any | (auto intro: main slot_step_trans [OF main slot_step_frame])[1])+
  from post_use [OF assms(2) this] show ?thesis by simp
qed

end
