(* ===== verification/Cluster_Inv.thy ===== *)
theory Cluster_Inv
  imports Cluster_Slots
begin

text \<open>
  The invariant of the cluster view through whole events: packets, the timer, the work before
  sleeping and administrative changes.
\<close>

section \<open>Nodes that come and go\<close>

text \<open>Steps that keep the invariant and the election, and only add nodes to the table.\<close>

definition quiet :: "clusterState \<Rightarrow> clusterState \<Rightarrow> bool" where
  "quiet s s' \<longleftrightarrow> (cluster_inv s \<longrightarrow> cluster_inv s') \<and> myself s' = myself s \<and>
     set (cnodes s) \<subseteq> set (cnodes s') \<and> election_view s' = election_view s"

lemma quiet_refl [simp]: "quiet s s"
  by (simp add: quiet_def)

lemma quiet_trans: "quiet s t \<Longrightarrow> quiet t u \<Longrightarrow> quiet s u"
  by (auto simp: quiet_def)

lemma slot_step_quiet: "slot_step s s' \<Longrightarrow> quiet s s'"
  using slot_step_inv [of s s'] by (auto simp: quiet_def slot_step_def)

lemma frame_quiet: "frame s' = frame s \<Longrightarrow> quiet s s'"
  by (rule slot_step_quiet [OF slot_step_frame])

lemma quiet_then_frame: "quiet s t \<Longrightarrow> frame u = frame t \<Longrightarrow> quiet s u"
  by (rule quiet_trans [OF _ frame_quiet])

lemma frame_then_quiet: "frame t = frame s \<Longrightarrow> quiet t u \<Longrightarrow> quiet s u"
  by (rule quiet_trans [OF frame_quiet])

lemma quiet_inv: "quiet s s' \<Longrightarrow> cluster_inv s \<Longrightarrow> cluster_inv s'"
  by (simp add: quiet_def)

lemma loop_quiet:
  assumes "loop f xs s = Some s'" "\<And>x s s'. x \<in> set xs \<Longrightarrow> f x s = Some s' \<Longrightarrow> quiet s s'"
  shows "quiet s s'"
  using loop_induct [OF assms(1), of "quiet s"] assms(2) quiet_trans by (metis quiet_refl)

lemma new_node_quiet:
  assumes "new_node s n = (t, r)" "clusterAddNode t r = Some (u, ok)"
    "node_slots n = replicate 2048 0" "numslots n = 0" "REDIS_NODE_MYSELF \<notin> node_flags n"
  shows "quiet s u"
proof -
  have r: "r = next_ref s" and t: "t = s\<lparr>cheap := (cheap s)(next_ref s \<mapsto> n), next_ref := next_ref s + 1\<rparr>"
    using assms(1) by (auto simp: new_node_def)
  have u: "u = t \<and> node_name n \<in> fst ` set (cnodes s) \<or>
      u = t\<lparr>cnodes := cnodes s @ [(node_name n, next_ref s)]\<rparr> \<and> node_name n \<notin> fst ` set (cnodes s)"
    using assms(2) by (auto simp: clusterAddNode_def r t split: if_splits)
  have view: "node_view u q = (if q = next_ref s then Some ((node_name n, False), replicate 2048 0, 0) else node_view s q)" for q
    using u assms(3-5) by (auto simp: node_view_def t)
  have same: "cslots u = cslots s" "next_ref u = next_ref s + 1" "myself u = myself s" "election_view u = election_view s"
    "set (cnodes s) \<subseteq> set (cnodes u)"
    using u by (auto simp: t election_view_def)
  have zeros: "claimed (replicate 2048 0) = {}" by (auto simp: claimed_def REDIS_CLUSTER_SLOTS_def)
  have "cluster_inv u" if inv: "cluster_inv s"
  proof -
    from inv have si: "slots_inv s" and ni: "nodes_inv s" by (simp_all add: cluster_inv_def)
    have fresh: "node_view s (next_ref s) = None"
    proof (cases "node_view s (next_ref s)")
      case (Some v)
      then show ?thesis using slots_inv_view [OF si, of "next_ref s" "fst v" "fst (snd v)" "snd (snd v)"] by simp
    qed
    then have unused: "cslots s j \<noteq> Some (next_ref s)" for j
      using slots_inv_table [OF si, of j "next_ref s"] by auto
    have "slots_inv u"
      unfolding slots_inv_def same
    proof (intro conjI allI impI)
      fix j q assume "cslots s j = Some q"
      with slots_inv_table [OF si this]
      show "j < REDIS_CLUSTER_SLOTS" "\<exists>nm bm k. node_view u q = Some (nm, bm, k)" by (auto simp: view)
    next
      fix q nm bm k assume "node_view u q = Some (nm, bm, k)"
      then have *: "q < next_ref s + 1 \<and> length bm = 2048 \<and> k = int (card (claimed bm)) \<and>
          claimed bm = {j. cslots s j = Some q}"
        using slots_inv_view [OF si, of q nm bm k] unused zeros by (auto simp: view split: if_splits)
      then show "q < next_ref s + 1" "length bm = 2048" "k = int (card (claimed bm))"
        "claimed bm = {j. cslots s j = Some q}" by simp_all
    qed
    moreover have "nodes_inv u"
    proof -
      have entry: "\<exists>bm k. node_view u q = Some ((nm, q = myself s), bm, k)" if "(nm, q) \<in> set (cnodes s)" for nm q
      proof -
        from that ni have "\<exists>bm k. node_view s q = Some ((nm, q = myself s), bm, k)" by (auto simp: nodes_inv_def)
        with fresh show ?thesis by (cases "q = next_ref s") (auto simp: view)
      qed
      from ni obtain mn where "(mn, myself s) \<in> set (cnodes s)" by (auto simp: nodes_inv_def)
      with ni obtain bm k where "node_view s (myself s) = Some ((mn, True), bm, k)" by (fastforce simp: nodes_inv_def)
      then have "node_view s (myself s) \<noteq> None" by simp
      with fresh have "next_ref s \<noteq> myself s" by metis
      then have new: "node_view u (next_ref s) = Some ((node_name n, next_ref s = myself s), replicate 2048 0, 0)"
        by (simp add: view)
      from ni have d: "distinct (map fst (cnodes s))" "myself s \<in> snd ` set (cnodes s)" by (auto simp: nodes_inv_def)
      from u show ?thesis
      proof
        assume "u = t \<and> node_name n \<in> fst ` set (cnodes s)"
        then show ?thesis using d entry by (auto simp: nodes_inv_def t)
      next
        assume c: "u = t\<lparr>cnodes := cnodes s @ [(node_name n, next_ref s)]\<rparr> \<and> node_name n \<notin> fst ` set (cnodes s)"
        then have "cnodes u = cnodes s @ [(node_name n, next_ref s)]" "myself u = myself s" by (simp_all add: t)
        then show ?thesis using d entry new c by (auto simp: nodes_inv_def)
      qed
    qed
    ultimately show ?thesis by (simp add: cluster_inv_def)
  qed
  with same show ?thesis by (simp add: quiet_def)
qed

lemma createClusterNode_fields [simp]:
  "node_slots (createClusterNode t nm fl) = replicate 2048 0"
  "numslots (createClusterNode t nm fl) = 0"
  "node_flags (createClusterNode t nm fl) = fl"
  by (simp_all add: createClusterNode_def)

lemma clusterStartHandshake_quiet:
  assumes "clusterStartHandshake E s ip port = Some (s', h)"
  shows "quiet s s'"
proof -
  have "post (clusterStartHandshake E s ip port) (\<lambda>(t, h). quiet s t)"
    unfolding clusterStartHandshake_def
    by (rule vcg | rule post_any | (auto intro: new_node_quiet [OF sym])[1])+
  from post_use [OF assms this] show ?thesis by simp
qed

lemma clusterBlacklistExists_state: "(t, b) = clusterBlacklistExists E s nm \<Longrightarrow> frame t = frame s"
  using clusterBlacklistExists_frame [of E s nm] by (metis fst_conv)

lemma report_frames:
  "cheap s r = Some n \<Longrightarrow> frame (set_node s r (fst (clusterNodeAddFailureReport E n q))) = frame s"
  "cheap s r = Some n \<Longrightarrow> frame (set_node s r (fst (clusterNodeDelFailureReport E n q))) = frame s"
  by (simp_all add: set_node_frame)

lemma gossip_entry_quiet: "gossip_entry E sender g s = Some s' \<Longrightarrow> quiet s s'"
proof (erule post_use)
  have start: "quiet s (fst t)" if "frame u = frame s" "clusterStartHandshake E u ip port = Some t" for t u ip port
    using frame_then_quiet [OF that(1) clusterStartHandshake_quiet [of E u ip port "fst t" "snd t"]] that(2) by simp
  have mark: "frame t = frame s" if "cheap s r = Some n"
      "markNodeAsFailingIfNeeded E (set_node s r (fst (clusterNodeAddFailureReport E n q))) r = Some t" for r n q t
    using markNodeAsFailingIfNeeded_frame [OF that(2)] report_frames(1) [OF that(1)] by simp
  show "post (gossip_entry E sender g s) (quiet s)"
    unfolding gossip_entry_def
    by (rule vcg | rule post_any |
        (auto intro: start frame_quiet mark report_frames dest: clusterBlacklistExists_state)[1])+
qed

lemma clusterProcessGossipSection_quiet:
  "clusterProcessGossipSection E s l m = Some s' \<Longrightarrow> quiet s s'"
  by (auto simp: clusterProcessGossipSection_def Let_def intro: loop_quiet gossip_entry_quiet)

lemma learn_address_frame: "learn_address E s m = Some s' \<Longrightarrow> frame s' = frame s"
  by (auto simp: learn_address_def step_simps set_node_frame split: if_splits option.splits)

lemma meet_sender_quiet:
  assumes "meet_sender E s l m = Some s'"
  shows "quiet s s'"
proof -
  obtain t r u ok where new: "new_node s (createClusterNode (now E) (rnd_name E (next_ref s)) {REDIS_NODE_HANDSHAKE}
        \<lparr>node_ip := peer_ip E, node_port := m_port m\<rparr>) = (t, r)"
    and add: "clusterAddNode t r = Some (u, ok)"
    and gossip: "clusterProcessGossipSection E (clusterDoBeforeSleep u {TODO_SAVE_CONFIG}) l m = Some s'"
    using assms by (auto simp: meet_sender_def bind_eq_Some_conv split: prod.splits)
  have "quiet s u" by (rule new_node_quiet [OF new add]) simp_all
  then have "quiet s (clusterDoBeforeSleep u {TODO_SAVE_CONFIG})" by (rule quiet_then_frame) simp
  from quiet_trans [OF this clusterProcessGossipSection_quiet [OF gossip]] show ?thesis .
qed

lemma process_ping_meet_quiet:
  assumes "process_ping_meet E s l sender m = Some s'"
  shows "quiet s s'"
proof -
  obtain t u where t: "learn_address E s m = Some t"
    and u: "(if sender = None \<and> m_type m = CLUSTERMSG_TYPE_MEET then meet_sender E t l m else Some t) = Some u"
    and s': "s' = emit u SendPong"
    using assms by (auto simp: process_ping_meet_def bind_eq_Some_conv)
  from u have "quiet t u" by (auto split: if_splits intro: meet_sender_quiet)
  then have "quiet s u" by (rule frame_then_quiet [OF learn_address_frame [OF t]])
  then show ?thesis unfolding s' by (rule quiet_then_frame) simp
qed

text \<open>Removing a node of the table other than the server itself.\<close>

lemma orphan_frame: "orphan q s = Some s' \<Longrightarrow> frame s' = frame s"
  by (auto simp: orphan_def step_simps set_node_frame)

lemma detach_node_frame: "detach_node s r = Some s' \<Longrightarrow> frame s' = frame s"
proof -
  have "frame t = frame s" if "(if b then loop orphan qs s else Some s) = Some t" for b qs t
    using that by (auto split: if_splits intro: loop_frame orphan_frame)
  then show "detach_node s r = Some s' \<Longrightarrow> frame s' = frame s"
    by (fastforce simp: detach_node_def bind_eq_Some_conv split: option.splits if_splits dest: remove_slave_frame)
qed

lemma drop_reports_frame: "drop_reports E d p s = Some s' \<Longrightarrow> frame s' = frame s"
  by (cases p) (auto simp: drop_reports_def step_simps report_frames split: if_splits)

text \<open>What a removal keeps.\<close>

definition shrinks :: "nref \<Rightarrow> clusterState \<Rightarrow> clusterState \<Rightarrow> bool" where
  "shrinks r s s' \<longleftrightarrow> (cluster_inv s \<longrightarrow> cluster_inv s') \<and> myself s' = myself s \<and>
     cnodes s' = filter (\<lambda>(nm, q). q \<noteq> r) (cnodes s) \<and> election_view s' = election_view s"

lemma freeClusterNode_shrinks:
  assumes "cluster_inv s" "freeClusterNode s r = Some s'" "r \<noteq> myself s" "r \<in> snd ` set (cnodes s)"
    "\<And>j. cslots s j \<noteq> Some r"
  shows "shrinks r s s'"
proof -
  from assms(2) obtain u n where u: "detach_node s r = Some u" "cheap u r = Some n"
    and s': "s' = u\<lparr>cnodes := filter (\<lambda>(nm, q). nm \<noteq> node_name n) (cnodes u), cheap := (cheap u)(r := None)\<rparr>"
    by (auto simp: freeClusterNode_def bind_eq_Some_conv split: if_splits)
  have fu: "frame u = frame s" by (rule detach_node_frame [OF u(1)])
  then have same: "cnodes u = cnodes s" "myself u = myself s" "cslots u = cslots s" "next_ref u = next_ref s"
    "node_view u = node_view s" "election_view u = election_view s"
    by (simp_all add: frame_def table_view_def)
  from assms(1) have si: "slots_inv s" and ni: "nodes_inv s" by (simp_all add: cluster_inv_def)
  have only: "nm = node_name n \<longleftrightarrow> q = r" if "(nm, q) \<in> set (cnodes s)" for nm q
  proof -
    have name: "map_option (fst \<circ> fst) (node_view s p) = Some mm" if "(mm, p) \<in> set (cnodes s)" for mm p
      using that ni by (fastforce simp: nodes_inv_def)
    have rn: "map_option (fst \<circ> fst) (node_view s r) = Some (node_name n)"
    proof -
      have "node_view s r = node_view u r" using same(5) by simp
      then show ?thesis using u(2) by (auto simp: node_view_def)
    qed
    obtain rm where rm: "(rm, r) \<in> set (cnodes s)" using assms(4) by auto
    with name [OF rm] rn have "rm = node_name n" by simp
    have d: "distinct (map fst (cnodes s))" using ni by (simp add: nodes_inv_def)
    show ?thesis
    proof
      assume "nm = node_name n"
      with \<open>rm = node_name n\<close> rm that show "q = r" using eq_key_imp_eq_value [OF d] by metis
    next
      assume "q = r"
      with name [OF that] rn show "nm = node_name n" by simp
    qed
  qed
  then have cn: "cnodes s' = filter (\<lambda>(nm, q). q \<noteq> r) (cnodes s)"
    by (auto simp: s' same intro!: filter_cong)
  have view: "node_view s' q = (if q = r then None else node_view s q)" for q
    using same(5) by (auto simp: s' node_view_def fun_eq_iff)
  have "slots_inv s'"
    unfolding slots_inv_def
  proof (intro conjI allI impI)
    fix j q assume "cslots s' j = Some q"
    then have q: "cslots s j = Some q" by (simp add: s' same)
    then have "q \<noteq> r" using assms(5) by auto
    with slots_inv_table [OF si q] show "j < REDIS_CLUSTER_SLOTS" "\<exists>nm bm k. node_view s' q = Some (nm, bm, k)"
      by (simp_all add: view)
  next
    fix q nm bm k assume "node_view s' q = Some (nm, bm, k)"
    then have "node_view s q = Some (nm, bm, k)" by (simp add: view split: if_splits)
    from slots_inv_view [OF si this]
    show "q < next_ref s'" "length bm = 2048" "k = int (card (claimed bm))" "claimed bm = {j. cslots s' j = Some q}"
      by (simp_all add: s' same)
  qed
  moreover have ms: "myself s' = myself s" by (simp add: s' same)
  have "nodes_inv s'"
    unfolding nodes_inv_def cn ms
  proof (intro conjI)
    show "distinct (map fst (filter (\<lambda>(nm, q). q \<noteq> r) (cnodes s)))"
      using ni by (auto simp: nodes_inv_def intro: distinct_map_filter)
    show "\<forall>(nm, q) \<in> set (filter (\<lambda>(nm, q). q \<noteq> r) (cnodes s)). \<exists>bm k. node_view s' q = Some ((nm, q = myself s), bm, k)"
      using ni by (auto simp: nodes_inv_def view)
    show "myself s \<in> snd ` set (filter (\<lambda>(nm, q). q \<noteq> r) (cnodes s))"
      using ni assms(3) by (force simp: nodes_inv_def)
  qed
  moreover have "election_view s' = election_view s" using same(6) by (simp add: s' election_view_def)
  ultimately show ?thesis using cn ms by (simp add: shrinks_def cluster_inv_def)
qed

lemma unassign_slot_step:
  assumes "slots_inv s" "unassign_slot r j s = Some s'"
  shows "slot_step s s'" "cslots s' = (if cslots s j = Some r then (cslots s)(j := None) else cslots s)"
proof -
  define t where "t = (if importing_slots_from s j = Some r
               then s\<lparr>importing_slots_from := (importing_slots_from s)(j := None)\<rparr> else s)"
  define u where "u = (if migrating_slots_to t j = Some r
               then t\<lparr>migrating_slots_to := (migrating_slots_to t)(j := None)\<rparr> else t)"
  have f: "frame u = frame s" by (simp add: u_def t_def)
  then have su: "slot_step s u" and cu: "cslots u = cslots s"
    by (simp_all add: slot_step_frame) (simp add: frame_def table_view_def)
  have inv: "slots_inv u" using su assms(1) by (simp add: slot_step_def)
  have s': "(if cslots u j = Some r then del_slot j u else Some u) = Some s'"
    using assms(2) unfolding unassign_slot_def Let_def t_def u_def .
  obtain v where v: "del_slot j u = Some v" "slot_step u v" "cslots v = (cslots u)(j := None)"
    using del_slot_step [OF inv, of j] by metis
  from s' v su show "slot_step s s'" by (auto split: if_splits intro: slot_step_trans)
  from s' v cu show "cslots s' = (if cslots s j = Some r then (cslots s)(j := None) else cslots s)"
    by (auto split: if_splits)
qed

lemma unassign_loop:
  assumes "slots_inv s" "loop (unassign_slot r) js s = Some s'"
  shows "slot_step s s' \<and> (\<forall>i. cslots s' i = Some r \<longrightarrow> i \<notin> set js \<and> cslots s i = Some r)"
  using assms
proof (induction js arbitrary: s)
  case Nil
  then show ?case by simp
next
  case (Cons j js)
  from Cons.prems(2) obtain t where t: "unassign_slot r j s = Some t" "loop (unassign_slot r) js t = Some s'"
    by (auto simp: bind_eq_Some_conv)
  note st = unassign_slot_step [OF Cons.prems(1) t(1)]
  then have "slots_inv t" using Cons.prems(1) by (simp add: slot_step_def)
  from Cons.IH [OF this t(2)] st show ?case by (auto intro: slot_step_trans split: if_splits)
qed

lemma clusterDelNode_shrinks:
  assumes "clusterDelNode E s r = Some s'" "cluster_inv s" "r \<noteq> myself s" "r \<in> snd ` set (cnodes s)"
  shows "shrinks r s s'"
proof -
  from assms(1) obtain t u where t: "loop (unassign_slot r) [0..<REDIS_CLUSTER_SLOTS] s = Some t"
    and u: "loop (drop_reports E r) (cnodes t) t = Some u" and f: "freeClusterNode u r = Some s'"
    by (auto simp: clusterDelNode_def bind_eq_Some_conv)
  have si: "slots_inv s" using assms(2) by (simp add: cluster_inv_def)
  note ut = unassign_loop [OF si t]
  have fu: "frame u = frame t" by (rule loop_frame [OF u drop_reports_frame])
  have qu: "quiet s u" by (rule quiet_then_frame [OF slot_step_quiet fu]) (use ut in blast)
  then have inv: "cluster_inv u" "myself u = myself s" using assms(2) by (simp_all add: quiet_def)
  have cn: "cnodes u = cnodes s" using ut fu by (simp add: slot_step_def frame_def table_view_def)
  have none: "cslots u j \<noteq> Some r" for j
  proof
    assume "cslots u j = Some r"
    then have c: "cslots t j = Some r" using fu by (simp add: frame_def table_view_def)
    with ut have "j \<ge> REDIS_CLUSTER_SLOTS" "cslots s j = Some r" by auto
    with slots_inv_table [OF si, of j r] show False by simp
  qed
  have "shrinks r u s'" by (rule freeClusterNode_shrinks [OF inv(1) f _ _ none]) (use assms inv cn in simp_all)
  with qu cn show ?thesis by (auto simp: shrinks_def quiet_def)
qed

text \<open>A handshake that ends gives the node its name.\<close>

lemma clusterRenameNode_inv:
  assumes "clusterRenameNode s r nm = Some s'" "cluster_inv s" "r \<noteq> myself s" "(old, r) \<in> set (cnodes s)"
  shows "cluster_inv s'" "myself s' = myself s" "election_view s' = election_view s"
    "(mine, myself s) \<in> set (cnodes s) \<Longrightarrow> (mine, myself s) \<in> set (cnodes s')"
proof -
  from assms(2) have si: "slots_inv s" and ni: "nodes_inv s" by (simp_all add: cluster_inv_def)
  from assms(1) obtain n where n: "cheap s r = Some n" by (auto simp: clusterRenameNode_def bind_eq_Some_conv)
  define t where "t = set_node s r (n\<lparr>node_name := nm\<rparr>)\<lparr>cnodes := filter (\<lambda>(m, q). m \<noteq> node_name n) (cnodes s)\<rparr>"
  from ni assms(4) n have name: "node_name n = old" "REDIS_NODE_MYSELF \<notin> node_flags n"
    using assms(3) by (fastforce simp: nodes_inv_def node_view_def)+
  have d: "distinct (map fst (cnodes s))" using ni by (simp add: nodes_inv_def)
  have only: "q = r" if "(old, q) \<in> set (cnodes s)" for q
    using eq_key_imp_eq_value [OF d that assms(4)] .
  have others: "q \<noteq> r" if "(m, q) \<in> set (cnodes s)" "m \<noteq> old" for m q
  proof
    assume "q = r"
    with that(1) ni n name show False using that(2) by (fastforce simp: nodes_inv_def node_view_def)
  qed
  have s': "s' = t \<and> nm \<in> fst ` set (cnodes t) \<or> s' = t\<lparr>cnodes := cnodes t @ [(nm, r)]\<rparr> \<and> nm \<notin> fst ` set (cnodes t)"
    using assms(1) n by (auto simp: clusterRenameNode_def clusterAddNode_def t_def bind_eq_Some_conv split: if_splits)
  have view: "node_view s' q = (if q = r then Some ((nm, False), node_slots n, numslots n) else node_view s q)" for q
    using s' name by (auto simp: node_view_def t_def)
  have same: "cslots s' = cslots s" "next_ref s' = next_ref s" "myself s' = myself s" "election_view s' = election_view s"
    using s' by (auto simp: t_def election_view_def)
  show "myself s' = myself s" "election_view s' = election_view s" by (rule same)+
  show "(mine, myself s) \<in> set (cnodes s')" if "(mine, myself s) \<in> set (cnodes s)"
  proof -
    have "mine \<noteq> old" using that only assms(3) by auto
    with that s' name show ?thesis by (auto simp: t_def)
  qed
  have vr: "node_view s r = Some ((old, False), node_slots n, numslots n)"
    using n name by (simp add: node_view_def)
  have "slots_inv s'"
    unfolding slots_inv_def same
  proof (intro conjI allI impI)
    fix j q assume "cslots s j = Some q"
    with slots_inv_table [OF si this]
    show "j < REDIS_CLUSTER_SLOTS" "\<exists>nm bm k. node_view s' q = Some (nm, bm, k)" by (auto simp: view)
  next
    fix q m bm k assume v: "node_view s' q = Some (m, bm, k)"
    have "\<exists>m'. node_view s q = Some (m', bm, k)"
      using v vr by (auto simp: view split: if_splits)
    then obtain m' where "node_view s q = Some (m', bm, k)" ..
    from slots_inv_view [OF si this]
    show "q < next_ref s" "length bm = 2048" "k = int (card (claimed bm))" "claimed bm = {j. cslots s j = Some q}"
      by simp_all
  qed
  moreover have "nodes_inv s'"
  proof -
    have ct: "cnodes t = filter (\<lambda>(m, q). m \<noteq> old) (cnodes s)" by (simp add: t_def name)
    have dt: "distinct (map fst (cnodes t))" unfolding ct using d by (auto intro: distinct_map_filter)
    have mt: "myself s \<in> snd ` set (cnodes t)"
    proof -
      from ni obtain mm where mm: "(mm, myself s) \<in> set (cnodes s)" by (auto simp: nodes_inv_def)
      with only assms(3) have "mm \<noteq> old" by auto
      with mm show ?thesis by (force simp: ct)
    qed
    have et: "\<exists>bm k. node_view s' q = Some ((m, q = myself s), bm, k)" if "(m, q) \<in> set (cnodes t)" for m q
    proof -
      from that have mq: "(m, q) \<in> set (cnodes s)" "m \<noteq> old" by (auto simp: ct)
      with ni have "\<exists>bm k. node_view s q = Some ((m, q = myself s), bm, k)" by (auto simp: nodes_inv_def)
      with others [OF mq] show ?thesis by (simp add: view)
    qed
    have er: "node_view s' r = Some ((nm, r = myself s), node_slots n, numslots n)" using assms(3) by (simp add: view)
    from s' show ?thesis
    proof
      assume "s' = t \<and> nm \<in> fst ` set (cnodes t)"
      then show ?thesis using dt mt et same by (auto simp: nodes_inv_def)
    next
      assume a: "s' = t\<lparr>cnodes := cnodes t @ [(nm, r)]\<rparr> \<and> nm \<notin> fst ` set (cnodes t)"
      then have "cnodes s' = cnodes t @ [(nm, r)]" by simp
      then show ?thesis using dt mt et er same a by (auto simp: nodes_inv_def)
    qed
  qed
  ultimately show "cluster_inv s'" by (simp add: cluster_inv_def)
qed

section \<open>Packets\<close>

text \<open>
  Events that do not take part in an election: the epoch may grow (it is 0 when it wraps around),
  the rest of the election stays.
\<close>

definition own_entry :: "clusterState \<Rightarrow> (bytes \<times> nref) set" where
  "own_entry s = {p \<in> set (cnodes s). snd p = myself s}"

definition calm :: "clusterState \<Rightarrow> clusterState \<Rightarrow> bool" where
  "calm s s' \<longleftrightarrow> cluster_inv s' \<and> myself s' = myself s \<and> snd (election_view s') = snd (election_view s) \<and>
     own_entry s \<subseteq> own_entry s' \<and> (currentEpoch s \<le> currentEpoch s' \<or> currentEpoch s' = 0)"

lemma quiet_own: "quiet s s' \<Longrightarrow> own_entry s \<subseteq> own_entry s'"
  by (auto simp: quiet_def own_entry_def)

lemma quiet_calm: "quiet s s' \<Longrightarrow> cluster_inv s \<Longrightarrow> calm s s'"
  using quiet_own [of s s'] by (simp add: quiet_def calm_def election_view_def)

lemma calm_quiet: "calm s t \<Longrightarrow> quiet t u \<Longrightarrow> calm s u"
  using quiet_own [of t u] by (auto simp: quiet_def calm_def election_view_def)

lemma raise_calm:
  "currentEpoch s \<le> currentEpoch t \<Longrightarrow> snd (election_view t) = snd (election_view s) \<Longrightarrow> myself t = myself s \<Longrightarrow>
     cnodes t = cnodes s \<Longrightarrow> calm t u \<Longrightarrow> calm s u"
  by (auto simp: calm_def own_entry_def)

text \<open>The server has one entry, under its own name.\<close>

lemma own_entry_name:
  assumes "cluster_inv s" "cheap s (myself s) = Some me"
  shows "own_entry s = {(node_name me, myself s)}"
proof -
  from assms(1) have ni: "nodes_inv s" by (simp add: cluster_inv_def)
  have name: "nm = node_name me" if "(nm, myself s) \<in> set (cnodes s)" for nm
    using that ni assms(2) by (fastforce simp: nodes_inv_def node_view_def)
  obtain nm where nm: "(nm, myself s) \<in> set (cnodes s)" using ni by (auto simp: nodes_inv_def)
  with name [OF nm] have "(node_name me, myself s) \<in> set (cnodes s)" by simp
  then show ?thesis by (auto simp: own_entry_def dest: name)
qed

lemma cluster_inv_me:
  assumes "cluster_inv s"
  obtains me where "cheap s (myself s) = Some me" "REDIS_NODE_MYSELF \<in> node_flags me"
  using assms by (force simp: cluster_inv_def nodes_inv_def node_view_def)

lemma quiet_election:
  "quiet s s' \<Longrightarrow> currentEpoch s' = currentEpoch s \<and> snd (election_view s') = snd (election_view s) \<and> myself s' = myself s"
  by (simp add: quiet_def election_view_def)

lemma clusterDoBeforeSleep_fields [simp]:
  "cheap (clusterDoBeforeSleep s t) = cheap s" "myself (clusterDoBeforeSleep s t) = myself s"
  "cnodes (clusterDoBeforeSleep s t) = cnodes s" "cslots (clusterDoBeforeSleep s t) = cslots s"
  "mf_end (clusterDoBeforeSleep s t) = mf_end s" "mf_master_offset (clusterDoBeforeSleep s t) = mf_master_offset s"
  by (simp_all add: clusterDoBeforeSleep_def)

text \<open>Raising the epoch and noting the epoch and offset of a node.\<close>

lemma set_epoch_inv: "cluster_inv (s\<lparr>currentEpoch := e\<rparr>) = cluster_inv s"
  by (simp add: cluster_inv_def slots_inv_def nodes_inv_def node_view_def)

lemma note_sender_raise:
  assumes "note_sender E s sender m = Some (s', ce, fe)"
  shows "cluster_inv s \<Longrightarrow> cluster_inv s'" "currentEpoch s \<le> currentEpoch s'" "myself s' = myself s"
    "snd (election_view s') = snd (election_view s)" "cnodes s' = cnodes s"
    "ce = 0 \<or> ce = m_currentEpoch m"
proof -
  define raised where "raised = (if m_currentEpoch m > currentEpoch s then s\<lparr>currentEpoch := m_currentEpoch m\<rparr> else s)"
  have raised: "cluster_inv raised = cluster_inv s" "currentEpoch s \<le> currentEpoch raised" "myself raised = myself s"
    "snd (election_view raised) = snd (election_view s)" "cnodes raised = cnodes s" "cheap raised = cheap s"
    by (auto simp: raised_def set_epoch_inv election_view_def)
  have "post (note_sender E s sender m) (\<lambda>(t, ce, fe). (t = s \<or> frame t = frame raised) \<and> (ce = 0 \<or> ce = m_currentEpoch m))"
    unfolding note_sender_def raised_def [symmetric]
    by (rule vcg | rule post_any | (auto simp: set_node_frame raised if_distrib [of frame] cong: if_cong)[1])+
  from post_use [OF assms this] have c: "s' = s \<or> frame s' = frame raised" and e: "ce = 0 \<or> ce = m_currentEpoch m" by auto
  from e show "ce = 0 \<or> ce = m_currentEpoch m" .
  from c have "(cluster_inv s \<longrightarrow> cluster_inv s') \<and> currentEpoch s \<le> currentEpoch s' \<and> myself s' = myself s \<and>
      snd (election_view s') = snd (election_view s) \<and> cnodes s' = cnodes s"
  proof
    assume f: "frame s' = frame raised"
    with cluster_inv_frame [OF f] raised show ?thesis by (simp add: frame_def table_view_def election_view_def)
  qed simp
  then show "cluster_inv s \<Longrightarrow> cluster_inv s'" "currentEpoch s \<le> currentEpoch s'" "myself s' = myself s"
    "snd (election_view s') = snd (election_view s)" "cnodes s' = cnodes s" by simp_all
qed

text \<open>A link a packet comes from belongs to a known node other than the server itself, or to none.\<close>

definition link_ok :: "clusterState \<Rightarrow> nref option \<Rightarrow> bool" where
  "link_ok s l \<longleftrightarrow> (case l of None \<Rightarrow> True | Some r \<Rightarrow> r \<noteq> myself s \<and> r \<in> snd ` set (cnodes s))"

lemma link_ok_mono: "link_ok s l \<Longrightarrow> myself s' = myself s \<Longrightarrow> set (cnodes s) \<subseteq> set (cnodes s') \<Longrightarrow> link_ok s' l"
  by (auto simp: link_ok_def split: option.splits)

lemma process_handshake_inv:
  assumes "process_handshake E s l sender m = Some (s', b)" "cluster_inv s" "link_ok s l"
  shows "cluster_inv s' \<and> myself s' = myself s \<and> election_view s' = election_view s \<and> own_entry s \<subseteq> own_entry s'"
proof (cases l)
  case None
  with assms show ?thesis by (simp add: process_handshake_def)
next
  case (Some r)
  with assms(3) obtain nm where r: "r \<noteq> myself s" "(nm, r) \<in> set (cnodes s)" by (auto simp: link_ok_def)
  have del: "cluster_inv t \<and> myself t = myself s \<and> election_view t = election_view s \<and> own_entry s \<subseteq> own_entry t"
    if "frame u = frame s" "clusterDelNode E u r = Some t" for u t
  proof -
    have "quiet s u" by (rule frame_quiet [OF that(1)])
    then have u: "cluster_inv u" "r \<noteq> myself u" "r \<in> snd ` set (cnodes u)" "myself u = myself s" "election_view u = election_view s"
      using assms(2) r by (force simp: quiet_def)+
    have "own_entry s \<subseteq> own_entry u" by (rule quiet_own [OF \<open>quiet s u\<close>])
    with clusterDelNode_shrinks [OF that(2) u(1-3)] u show ?thesis by (auto simp: shrinks_def own_entry_def)
  qed
  have addr: "frame t = frame s" if "nodeUpdateAddressIfNeeded E s q l p = Some (t, c)" for t q p c
    by (rule nodeUpdateAddressIfNeeded_frame [OF that])
  have ren: "cluster_inv t \<and> myself t = myself s \<and> election_view t = election_view s \<and> own_entry s \<subseteq> own_entry t"
    if "clusterRenameNode s r (m_sender m) = Some u" "cheap u r = Some ln"
      "t = clusterDoBeforeSleep (set_node u r (ln\<lparr>node_flags := node_flags ln - {REDIS_NODE_HANDSHAKE} \<union>
                                         (m_flags m \<inter> {REDIS_NODE_MASTER, REDIS_NODE_SLAVE})\<rparr>)) td" for u ln t td
  proof -
    have "frame t = frame u" by (simp add: that(3) set_node_frame [OF that(2)])
    then have "quiet u t" by (rule frame_quiet)
    with clusterRenameNode_inv [OF that(1) assms(2) r] show ?thesis
      by (auto simp: quiet_def own_entry_def)
  qed
  have mism: "cluster_inv t \<and> myself t = myself s \<and> election_view t = election_view s \<and> own_entry s \<subseteq> own_entry t"
    if "cheap s r = Some ln" "t = clusterDoBeforeSleep
                   (set_node s r (ln\<lparr>node_flags := node_flags ln \<union> {REDIS_NODE_NOADDR}, node_ip := [],
                                    node_port := 0, node_link := None\<rparr>)) td" for ln t td
  proof -
    have "frame t = frame s" by (simp add: that(2) set_node_frame [OF that(1)])
    then have "quiet s t" by (rule frame_quiet)
    with assms(2) quiet_own [OF this] show ?thesis by (simp add: quiet_def)
  qed
  from assms(1) Some obtain ln where ln: "cheap s r = Some ln"
    by (auto simp: process_handshake_def bind_eq_Some_conv)
  consider "nodeInHandshake ln" "sender = None" | q where "nodeInHandshake ln" "sender = Some q"
    | "\<not> nodeInHandshake ln" "node_name ln \<noteq> m_sender m" | "\<not> nodeInHandshake ln" "node_name ln = m_sender m"
    by blast
  then show ?thesis
  proof cases
    case 1
    with assms(1) Some ln obtain u ln2 where "clusterRenameNode s r (m_sender m) = Some u" "cheap u r = Some ln2"
      "s' = clusterDoBeforeSleep (set_node u r (ln2\<lparr>node_flags := node_flags ln2 - {REDIS_NODE_HANDSHAKE} \<union>
              (m_flags m \<inter> {REDIS_NODE_MASTER, REDIS_NODE_SLAVE})\<rparr>)) {TODO_SAVE_CONFIG}"
      unfolding process_handshake_def by (simp add: bind_eq_Some_conv) metis
    then show ?thesis by (rule ren)
  next
    case 2
    with assms(1) Some ln obtain t c where t: "nodeUpdateAddressIfNeeded E s q l (m_port m) = Some (t, c)"
      and s': "clusterDelNode E (if c then clusterDoBeforeSleep t {TODO_SAVE_CONFIG, TODO_UPDATE_STATE} else t) r = Some s'"
      unfolding process_handshake_def by (auto simp: bind_eq_Some_conv Let_def)
    have "frame (if c then clusterDoBeforeSleep t {TODO_SAVE_CONFIG, TODO_UPDATE_STATE} else t) = frame s"
      using addr [OF t] by simp
    then show ?thesis by (rule del) (rule s')
  next
    case 3
    with assms(1) Some ln have "s' = clusterDoBeforeSleep
                   (set_node s r (ln\<lparr>node_flags := node_flags ln \<union> {REDIS_NODE_NOADDR}, node_ip := [],
                                    node_port := 0, node_link := None\<rparr>)) {TODO_SAVE_CONFIG}"
      unfolding process_handshake_def by simp
    then show ?thesis by (rule mism [OF ln])
  next
    case 4
    with assms Some ln show ?thesis by (simp add: process_handshake_def)
  qed
qed

lemma clusterDelNodeSlots_quiet: "clusterDelNodeSlots s r = Some (s', k) \<Longrightarrow> cluster_inv s \<Longrightarrow> quiet s s'"
  by (rule slot_step_quiet) (simp add: clusterDelNodeSlots_step cluster_inv_def)

lemma clusterUpdateSlotsConfigWith_quiet:
  "clusterUpdateSlotsConfigWith E s r e bm = Some s' \<Longrightarrow> cluster_inv s \<Longrightarrow> quiet s s'"
  by (rule slot_step_quiet) (simp add: clusterUpdateSlotsConfigWith_step cluster_inv_def)

lemma process_role_quiet:
  assumes "process_role s r m = Some s'" "cluster_inv s"
  shows "quiet s s'"
proof (cases "m_slaveof m = REDIS_NODE_NULL_NAME")
  case True
  with assms(1) show ?thesis by (auto simp: process_role_def intro!: frame_quiet dest: clusterSetNodeAsMaster_frame)
next
  case False
  with assms(1) obtain n t n2 where n: "cheap s r = Some n"
    and t: "(if nodeIsMaster n then do {
               (s, deleted) \<leftarrow> clusterDelNodeSlots s r;
               n \<leftarrow> cheap s r;
               let n = n\<lparr>node_flags := node_flags n - {REDIS_NODE_MASTER} \<union> {REDIS_NODE_SLAVE}\<rparr>;
               Some (clusterDoBeforeSleep (set_node s r (clusterNodeResetSlaves n))
                       {TODO_SAVE_CONFIG, TODO_UPDATE_STATE})
             } else Some s) = Some t"
    and n2: "cheap t r = Some n2"
    and s': "(case clusterLookupNode s (m_slaveof m) of
         None \<Rightarrow> Some t
       | Some q \<Rightarrow>
           if slaveof n2 = Some q then Some t
           else do {
             s \<leftarrow> (case slaveof n2 of Some old \<Rightarrow> remove_slave t old r | None \<Rightarrow> Some t);
             s \<leftarrow> add_slave s q r;
             n \<leftarrow> cheap s r;
             Some (clusterDoBeforeSleep (set_node s r (n\<lparr>slaveof := Some q\<rparr>)) {TODO_SAVE_CONFIG})
           }) = Some s'"
    unfolding process_role_def Let_def by (auto simp: bind_eq_Some_conv)
  have "quiet s t"
  proof (cases "nodeIsMaster n")
    case True
    with t obtain u k n3 where u: "clusterDelNodeSlots s r = Some (u, k)" "cheap u r = Some n3"
      and t: "t = clusterDoBeforeSleep (set_node u r (clusterNodeResetSlaves
            (n3\<lparr>node_flags := node_flags n3 - {REDIS_NODE_MASTER} \<union> {REDIS_NODE_SLAVE}\<rparr>)))
            {TODO_SAVE_CONFIG, TODO_UPDATE_STATE}"
      by (auto simp: bind_eq_Some_conv Let_def)
    show ?thesis
      by (rule quiet_then_frame [OF clusterDelNodeSlots_quiet [OF u(1) assms(2)]])
        (simp add: t set_node_frame [OF u(2)])
  next
    case False
    with t show ?thesis by simp
  qed
  moreover have "frame s' = frame t"
    using s' by (auto simp: step_simps set_node_frame split: option.splits if_splits dest!: remove_slave_frame add_slave_frame)
  ultimately show ?thesis by (rule quiet_then_frame)
qed

text \<open>Taking a new epoch without asking.\<close>

lemma word_succ_ge: "w \<le> w + 1 \<or> w + 1 = (0 :: 'a::len word)"
proof (cases "1 + w = 0")
  case True
  then show ?thesis by (simp add: add.commute)
next
  case False
  from unatSuc [OF False] show ?thesis by (simp add: word_le_nat_alt add.commute)
qed

lemma own_epoch_calm:
  assumes "cheap s (myself s) = Some me" "cluster_inv s"
  shows "calm s ((set_node s (myself s) (me\<lparr>configEpoch := e\<rparr>))\<lparr>currentEpoch := currentEpoch s + 1\<rparr>)"
    (is "calm s ?t")
proof -
  have f: "frame (set_node s (myself s) (me\<lparr>configEpoch := e\<rparr>)) = frame s" by (simp add: set_node_frame [OF assms(1)])
  have "cluster_inv (set_node s (myself s) (me\<lparr>configEpoch := e\<rparr>))" using cluster_inv_frame [OF f] assms(2) by simp
  then have "cluster_inv ?t" using set_epoch_inv [where s = "set_node s (myself s) (me\<lparr>configEpoch := e\<rparr>)"] by simp
  moreover have "currentEpoch s \<le> currentEpoch s + 1 \<or> currentEpoch s + 1 = 0"
    by (rule word_succ_ge)
  ultimately show ?thesis by (simp add: calm_def election_view_def own_entry_def)
qed

lemma clusterHandleConfigEpochCollision_calm:
  assumes "clusterHandleConfigEpochCollision s r = Some s'" "cluster_inv s"
  shows "calm s s'"
proof -
  from assms(1) obtain me where me: "cheap s (myself s) = Some me"
    and s': "s' = s \<or> s' = clusterSaveConfig ((set_node s (myself s) (me\<lparr>configEpoch := currentEpoch s + 1\<rparr>))
                         \<lparr>currentEpoch := currentEpoch s + 1\<rparr>) True"
    by (auto simp: clusterHandleConfigEpochCollision_def bind_eq_Some_conv split: if_splits)
  from s' show ?thesis
  proof
    assume "s' = s"
    then show ?thesis using quiet_calm [OF quiet_refl assms(2)] by simp
  next
    assume "s' = clusterSaveConfig ((set_node s (myself s) (me\<lparr>configEpoch := currentEpoch s + 1\<rparr>))
                         \<lparr>currentEpoch := currentEpoch s + 1\<rparr>) True"
    then show ?thesis
      by (simp only:) (rule calm_quiet [OF own_epoch_calm [OF me assms(2)] frame_quiet], rule clusterSaveConfig_frame)
  qed
qed

lemma calm_trans_quiet: "quiet s t \<Longrightarrow> calm t u \<Longrightarrow> calm s u"
  using quiet_own [of s t] by (auto simp: calm_def dest!: quiet_election)

lemma process_claims_calm:
  assumes "process_claims E s r fe m = Some s'" "cluster_inv s"
  shows "calm s s'"
proof -
  from assms(1) obtain n dirty t u me n2 where
      t: "(if nodeIsMaster n \<and> dirty then clusterUpdateSlotsConfigWith E s r fe (m_myslots m) else Some s) = Some t"
    and u: "(if dirty then do {
              owner \<leftarrow> newer_owner t r fe (m_myslots m) [0..<REDIS_CLUSTER_SLOTS];
              case owner of None \<Rightarrow> Some t | Some q \<Rightarrow> clusterSendUpdate E t r q
            } else Some t) = Some u"
    and s': "(if nodeIsMaster me \<and> nodeIsMaster n2 \<and> fe = configEpoch me
      then clusterHandleConfigEpochCollision u r else Some u) = Some s'"
    unfolding process_claims_def by (auto simp: bind_eq_Some_conv)
  have "quiet s t" using t assms(2) by (auto split: if_splits intro: clusterUpdateSlotsConfigWith_quiet)
  moreover have "frame u = frame t"
    using u by (auto simp: bind_eq_Some_conv split: if_splits option.splits dest: clusterSendUpdate_frame)
  ultimately have q: "quiet s u" by (rule quiet_then_frame)
  then have inv: "cluster_inv u" using assms(2) by (rule quiet_inv)
  have "calm u s'" using s' inv
    by (auto split: if_splits intro: clusterHandleConfigEpochCollision_calm quiet_calm)
  with q show ?thesis by (rule calm_trans_quiet)
qed

lemma process_ping_pong_calm:
  assumes "process_ping_pong E s l sender fe m = Some (s', b)" "cluster_inv s" "link_ok s l"
  shows "calm s s'"
proof -
  from assms(1) obtain t go_on where t: "process_handshake E s l sender m = Some (t, go_on)"
    and rest: "(if \<not> go_on then Some (t, False)
      else do {
        s \<leftarrow> process_address E t l sender m;
        s \<leftarrow> process_pong E s l m;
        case sender of
          None \<Rightarrow> Some (s, True)
        | Some r \<Rightarrow> do {
            s \<leftarrow> process_role s r m;
            s \<leftarrow> process_claims E s r fe m;
            s \<leftarrow> clusterProcessGossipSection E s l m;
            Some (s, True)
          }
      }) = Some (s', b)"
    unfolding process_ping_pong_def by (auto simp: bind_eq_Some_conv)
  note hs = process_handshake_inv [OF t assms(2,3)]
  then have ct: "calm s t" by (simp add: calm_def election_view_def)
  show ?thesis
  proof (cases go_on)
    case False
    with rest ct show ?thesis by simp
  next
    case True
    with rest obtain u v where u: "process_address E t l sender m = Some u" "process_pong E u l m = Some v"
      and s': "(case sender of
          None \<Rightarrow> Some (v, True)
        | Some r \<Rightarrow> do {
            s \<leftarrow> process_role v r m;
            s \<leftarrow> process_claims E s r fe m;
            s \<leftarrow> clusterProcessGossipSection E s l m;
            Some (s, True)
          }) = Some (s', b)"
      by (auto simp: bind_eq_Some_conv)
    have fv: "frame v = frame t" using process_address_frame [OF u(1)] process_pong_frame [OF u(2)] by simp
    have cv: "calm s v" by (rule calm_quiet [OF ct frame_quiet [OF fv]])
    show ?thesis
    proof (cases sender)
      case None
      with s' cv show ?thesis by simp
    next
      case (Some r)
      with s' obtain w x where w: "process_role v r m = Some w" "process_claims E w r fe m = Some x"
        "clusterProcessGossipSection E x l m = Some s'"
        by (auto simp: bind_eq_Some_conv)
      from cv have iv: "cluster_inv v" by (simp add: calm_def)
      have qw: "quiet v w" by (rule process_role_quiet [OF w(1) iv])
      then have iw: "cluster_inv w" using iv by (rule quiet_inv)
      have "quiet t w" using quiet_trans [OF frame_quiet [OF fv] qw] .
      then have "calm t x" by (rule calm_trans_quiet) (rule process_claims_calm [OF w(2) iw])
      then have "calm t s'" by (rule calm_quiet) (rule clusterProcessGossipSection_quiet [OF w(3)])
      with hs show ?thesis by (auto simp: calm_def election_view_def)
    qed
  qed
qed

lemma process_update_quiet:
  assumes "process_update E s sender m = Some s'" "cluster_inv s"
  shows "quiet s s'"
proof (cases sender)
  case None
  with assms show ?thesis by (simp add: process_update_def)
next
  case (Some r)
  show ?thesis
  proof (cases "clusterLookupNode s (m_upd_name m)")
    case None
    with Some assms show ?thesis by (simp add: process_update_def)
  next
    case (Some q)
    with assms \<open>sender = Some r\<close> consider "s' = s" | t n2 where
      "t = s \<or> clusterSetNodeAsMaster s q = Some t" "cheap t q = Some n2"
      "clusterUpdateSlotsConfigWith E
             (clusterDoBeforeSleep (set_node t q (n2\<lparr>configEpoch := m_upd_epoch m\<rparr>))
                {TODO_SAVE_CONFIG, TODO_FSYNC_CONFIG})
             q (m_upd_epoch m) (m_upd_slots m) = Some s'"
      by (auto simp: process_update_def bind_eq_Some_conv split: if_splits)
    then show ?thesis
    proof cases
      case 1
      then show ?thesis by simp
    next
      case 2
      have "frame t = frame s" using 2(1) by (auto dest: clusterSetNodeAsMaster_frame)
      then have f: "frame (clusterDoBeforeSleep (set_node t q (n2\<lparr>configEpoch := m_upd_epoch m\<rparr>))
                {TODO_SAVE_CONFIG, TODO_FSYNC_CONFIG}) = frame s"
        by (simp add: set_node_frame [OF 2(2)])
      show ?thesis
        by (rule frame_then_quiet [OF f clusterUpdateSlotsConfigWith_quiet [OF 2(3)]])
          (use cluster_inv_frame [OF f] assms(2) in simp)
    qed
  qed
qed

text \<open>A whole packet, by its type.\<close>

lemma clusterProcessPacket_split:
  assumes "clusterProcessPacket E s l len m = Some (s', b)"
  obtains "s' = s"
  | t ce fe u where "note_sender E s (clusterLookupNode s (m_sender m)) m = Some (t, ce, fe)"
      "(if m_type m = CLUSTERMSG_TYPE_PING \<or> m_type m = CLUSTERMSG_TYPE_MEET
        then process_ping_meet E t l (clusterLookupNode s (m_sender m)) m else Some t) = Some u"
      "(case m_type m of
         CLUSTERMSG_TYPE_FAIL \<Rightarrow> map_option (\<lambda>s. (s, True)) (process_fail E u (clusterLookupNode s (m_sender m)) m)
       | CLUSTERMSG_TYPE_PUBLISH \<Rightarrow> map_option (\<lambda>s. (s, True)) (process_publish E u m)
       | CLUSTERMSG_TYPE_FAILOVER_AUTH_REQUEST \<Rightarrow>
           map_option (\<lambda>s. (s, True))
             (case clusterLookupNode s (m_sender m) of None \<Rightarrow> Some u | Some r \<Rightarrow> clusterSendFailoverAuthIfNeeded E u r m)
       | CLUSTERMSG_TYPE_FAILOVER_AUTH_ACK \<Rightarrow>
           map_option (\<lambda>s. (s, True)) (process_auth_ack u (clusterLookupNode s (m_sender m)) ce)
       | CLUSTERMSG_TYPE_MFSTART \<Rightarrow> map_option (\<lambda>s. (s, True)) (process_mfstart E u (clusterLookupNode s (m_sender m)))
       | CLUSTERMSG_TYPE_UPDATE \<Rightarrow> map_option (\<lambda>s. (s, True)) (process_update E u (clusterLookupNode s (m_sender m)) m)
       | CLUSTERMSG_TYPE_OTHER \<Rightarrow> Some (u, True)
       | _ \<Rightarrow> process_ping_pong E u l (clusterLookupNode s (m_sender m)) fe m) = Some (s', b)"
proof (cases "packet_sane len m")
  case False
  then show thesis using assms that(1) by (simp add: clusterProcessPacket_def)
next
  case True
  obtain t ce fe where t: "note_sender E s (clusterLookupNode s (m_sender m)) m = Some (t, ce, fe)"
    using assms True unfolding clusterProcessPacket_def Let_def
    by (cases "note_sender E s (clusterLookupNode s (m_sender m)) m") auto
  show thesis
    using assms unfolding clusterProcessPacket_def Let_def t
    by (simp only: True not_True_eq_False if_False bind.bind_lunit prod.case bind_eq_Some_conv)
      (blast intro: that(2) [OF t])
qed

abbreviation is_election :: "clusterMsg \<Rightarrow> bool" where
  "is_election m \<equiv> m_type m = CLUSTERMSG_TYPE_FAILOVER_AUTH_REQUEST \<or> m_type m = CLUSTERMSG_TYPE_FAILOVER_AUTH_ACK"

lemma clusterProcessPacket_calm:
  assumes "clusterProcessPacket E s l len m = Some (s', b)" "cluster_inv s" "link_ok s l" "\<not> is_election m"
  shows "calm s s'"
  using assms(1)
proof (cases rule: clusterProcessPacket_split)
  case 1
  then show ?thesis using quiet_calm [OF quiet_refl assms(2)] by simp
next
  case (2 t ce fe u)
  note raise = note_sender_raise [OF 2(1)]
  have t: "cluster_inv t" using raise(1) assms(2) by simp
  have tu: "quiet t u" using 2(2) by (auto split: if_splits intro: process_ping_meet_quiet)
  then have u: "cluster_inv u" using t by (rule quiet_inv)
  have lu: "link_ok u l"
    using link_ok_mono [OF assms(3), of u] tu raise(3,5) by (simp add: quiet_def)
  have "calm u s'"
  proof (cases "m_type m")
    case CLUSTERMSG_TYPE_FAIL
    with 2(3) have "frame s' = frame u" by (auto dest: process_fail_frame)
    then show ?thesis using u by (intro quiet_calm frame_quiet)
  next
    case CLUSTERMSG_TYPE_PUBLISH
    with 2(3) have "frame s' = frame u" by (auto dest: process_publish_frame)
    then show ?thesis using u by (intro quiet_calm frame_quiet)
  next
    case CLUSTERMSG_TYPE_MFSTART
    with 2(3) have "frame s' = frame u" by (auto dest: process_mfstart_frame)
    then show ?thesis using u by (intro quiet_calm frame_quiet)
  next
    case CLUSTERMSG_TYPE_UPDATE
    with 2(3) have "quiet u s'" using u by (auto intro: process_update_quiet)
    then show ?thesis using u by (rule quiet_calm)
  next
    case CLUSTERMSG_TYPE_OTHER
    with 2(3) show ?thesis using quiet_calm [OF quiet_refl u] by simp
  qed (use 2(3) assms(4) process_ping_pong_calm [OF _ u lu] in auto)
  then have "calm t s'" by (rule calm_trans_quiet [OF tu])
  then show ?thesis by (rule raise_calm [OF raise(2,4,3,5)])
qed

section \<open>The timer\<close>

text \<open>A step of the first loop only sends packets, or drops a node.\<close>

lemma cron_connect_cases:
  assumes "cron_connect E r s = Some s'" "cheap s r = Some n"
  shows "frame s' = frame s \<or> clusterDelNode E s r = Some s' \<and> REDIS_NODE_MYSELF \<notin> node_flags n"
proof -
  have link: "frame (set_node v r (n2\<lparr>ping_sent := k, node_flags := node_flags n2 - {REDIS_NODE_MEET}\<rparr>)) = frame s"
     "frame (set_node v r (n2\<lparr>node_flags := node_flags n2 - {REDIS_NODE_MEET}\<rparr>)) = frame s"
    if "clusterSendPing E (set_node s r (n\<lparr>node_link := lk\<rparr>)) r ty = Some v" "cheap v r = Some n2" for v n2 k lk ty
    using clusterSendPing_frame [OF that(1)] by (simp_all add: set_node_frame [OF assms(2)] set_node_frame [OF that(2)])
  have ping: "frame (set_node s r (n\<lparr>ping_sent := k\<rparr>)) = frame s" for k
    by (simp add: set_node_frame [OF assms(2)])
  show ?thesis
    using assms(1) unfolding cron_connect_def Let_def assms(2) bind.bind_lunit
    by (auto simp: bind_eq_Some_conv ping split: if_split_asm dest: link)
qed

text \<open>It keeps the entries of the nodes it does not visit.\<close>

lemma cron_connect_step:
  assumes "cron_connect E r s = Some s'" "cluster_inv s" "(nm, r) \<in> set (cnodes s)"
  shows "cluster_inv s' \<and> myself s' = myself s \<and> election_view s' = election_view s \<and>
     own_entry s \<subseteq> own_entry s' \<and> (\<forall>p \<in> set (cnodes s). snd p \<noteq> r \<longrightarrow> p \<in> set (cnodes s'))"
proof -
  obtain n where n: "cheap s r = Some n" using assms(1) by (auto simp: cron_connect_def bind_eq_Some_conv)
  show ?thesis
    using cron_connect_cases [OF assms(1) n]
  proof
    assume f: "frame s' = frame s"
    then show ?thesis
      using quiet_inv [OF frame_quiet [OF f] assms(2)] by (simp add: frame_def table_view_def own_entry_def)
  next
    assume d: "clusterDelNode E s r = Some s' \<and> REDIS_NODE_MYSELF \<notin> node_flags n"
    then have "r \<noteq> myself s" using n cluster_inv_me [OF assms(2)] by force
    with clusterDelNode_shrinks [OF conjunct1 [OF d] assms(2)] assms(2,3) show ?thesis
      by (force simp: shrinks_def own_entry_def)
  qed
qed

end
