(* ===== verification/Cluster_Vote.thy ===== *)
theory Cluster_Vote
  imports Cluster_Inv
begin

text \<open>
  The steps of an election at one server: what voting, counting a vote and the failover handler
  change.
\<close>

section \<open>Messages that are sent\<close>

lemma broadcast_votes:
  assumes "clusterBroadcastMessage s m = Some s'"
  shows "\<exists>rs. s' = s\<lparr>effects := effects s @ map (\<lambda>r. Send r m) rs\<rparr>"
proof (rule loop_induct [OF assms [unfolded clusterBroadcastMessage_def],
      of "\<lambda>t. \<exists>rs. t = s\<lparr>effects := effects s @ map (\<lambda>r. Send r m) rs\<rparr>"])
  show "\<exists>rs. s = s\<lparr>effects := effects s @ map (\<lambda>r. Send r m) rs\<rparr>"
    by (rule exI [of _ "[]"]) simp
next
  fix x :: "bytes \<times> nref" and t t'
  assume p: "\<exists>rs. t = s\<lparr>effects := effects s @ map (\<lambda>r. Send r m) rs\<rparr>"
    and st: "(case x of (nm, r) \<Rightarrow> \<lambda>s. do {
        n \<leftarrow> cheap s r;
        Some (if node_link n = None \<or> node_flags n \<inter> {REDIS_NODE_MYSELF, REDIS_NODE_HANDSHAKE} \<noteq> {} then s
              else emit s (Send r m)) }) t = Some t'"
  from p obtain rs where rs: "t = s\<lparr>effects := effects s @ map (\<lambda>r. Send r m) rs\<rparr>" by blast
  obtain nm r where x: "x = (nm, r)" by (cases x)
  from st consider "t' = t" | "t' = emit t (Send r m)" by (auto simp: x bind_eq_Some_conv split: if_splits)
  then show "\<exists>rs. t' = s\<lparr>effects := effects s @ map (\<lambda>r. Send r m) rs\<rparr>"
  proof cases
    case 1
    with p show ?thesis by simp
  next
    case 2
    show ?thesis by (rule exI [of _ "rs @ [r]"]) (simp add: 2 rs)
  qed
qed

lemma build_hdr:
  assumes "clusterBuildMessageHdr E s t = Some m" "cheap s (myself s) = Some me"
  shows "m_type m = t" "m_currentEpoch m = currentEpoch s" "m_sender m = node_name me"
  using assms by (auto simp: clusterBuildMessageHdr_def step_simps)

abbreviation votes :: "clusterState \<Rightarrow> bus_effect list" where
  "votes s \<equiv> filter is_vote (effects s)"

section \<open>Voting\<close>

lemma clusterSendFailoverAuthIfNeeded_votes:
  assumes "clusterSendFailoverAuthIfNeeded E s r m = Some s'" "cheap s (myself s) = Some me"
  shows "frame s' = frame s \<or>
    lastVoteEpoch s \<noteq> currentEpoch s \<and> currentEpoch s \<le> m_currentEpoch m \<and>
    frame (s'\<lparr>lastVoteEpoch := lastVoteEpoch s, effects := effects s\<rparr>) = frame s \<and>
    lastVoteEpoch s' = currentEpoch s \<and>
    (votes s' = votes s \<or>
     (\<exists>ack. votes s' = votes s @ [Send r ack] \<and> m_type ack = CLUSTERMSG_TYPE_FAILOVER_AUTH_ACK \<and>
        m_currentEpoch ack = currentEpoch s \<and> m_sender ack = node_name me))"
proof -
  from assms(1) consider "s' = s"
    | mn q t where "lastVoteEpoch s \<noteq> currentEpoch s" "\<not> m_currentEpoch m < currentEpoch s" "cheap s q = Some mn"
        "clusterSendFailoverAuth E s r = Some t"
        "s' = set_node (t\<lparr>lastVoteEpoch := currentEpoch t\<rparr>) q (mn\<lparr>voted_time := now E\<rparr>)"
    by (auto simp: clusterSendFailoverAuthIfNeeded_def bind_eq_Some_conv split: if_splits option.splits)
  then show ?thesis
  proof cases
    case 1
    then show ?thesis by simp
  next
    case 2
    from 2(4) consider "t = s" | ack where "t = emit s (Send r ack)" "m_type ack = CLUSTERMSG_TYPE_FAILOVER_AUTH_ACK"
        "m_currentEpoch ack = currentEpoch s" "m_sender ack = node_name me"
      using build_hdr [OF _ assms(2)]
      by (fastforce simp: clusterSendFailoverAuth_def bind_eq_Some_conv split: if_splits)
    then show ?thesis
      by cases (use 2 in \<open>auto simp: frame_defs not_less\<close>)
  qed
qed

section \<open>The failover handler\<close>

lemma schedule_election_result:
  assumes "schedule_election E s = Some s'"
  shows "frame (s'\<lparr>failover_auth_count := failover_auth_count s, failover_auth_sent := failover_auth_sent s\<rparr>) = frame s"
    "failover_auth_count s' = 0" "\<not> failover_auth_sent s'" "cheap s' = cheap s"
proof -
  define u where "u rk = s\<lparr>failover_auth_time := now E + 500 + rnd E mod 500 + rk * 1000, failover_auth_count := 0,
                failover_auth_sent := False, failover_auth_rank := rk\<rparr>" for rk
  define t where "t rk = (if mf_end (u rk) \<noteq> 0 then u rk\<lparr>failover_auth_time := now E, failover_auth_rank := 0\<rparr> else u rk)" for rk
  obtain rk where s': "clusterBroadcastPong E (t rk) True = Some s'"
    using assms unfolding schedule_election_def Let_def bind_eq_Some_conv u_def t_def by blast
  have f: "frame s' = frame (t rk)" by (rule clusterBroadcastPong_frame [OF s'])
  have t: "failover_auth_count (t rk) = 0" "\<not> failover_auth_sent (t rk)" "frame (t rk) = frame (u rk)"
      "cheap (t rk) = cheap s"
    by (simp_all add: t_def) (simp_all add: u_def)
  have "cheap s' = cheap (t rk)"
    using s' unfolding clusterBroadcastPong_def
    by (rule loop_induct) (auto simp: bind_eq_Some_conv clusterSendPing_def Let_def split: if_splits)
  then show "cheap s' = cheap s" using t(4) by simp
  from f t show "failover_auth_count s' = 0" "\<not> failover_auth_sent s'" by (simp_all add: frame_def election_view_def)
  have "frame s' = frame (u rk)" using f t(3) by simp
  then show "frame (s'\<lparr>failover_auth_count := failover_auth_count s, failover_auth_sent := failover_auth_sent s\<rparr>) = frame s"
    by (auto simp: frame_defs u_def)
qed

lemma adjust_rank_frame: "adjust_rank E s = Some s' \<Longrightarrow> frame s' = frame s \<and> cheap s' = cheap s"
  by (auto simp: adjust_rank_def step_simps split: if_splits)

lemma start_election_result:
  assumes "start_election E s = Some s'" "cheap s (myself s) = Some me"
  shows "\<exists>req rs. votes s' = votes s @ map (\<lambda>r. Send r req) rs \<and>
       m_type req = CLUSTERMSG_TYPE_FAILOVER_AUTH_REQUEST \<and> m_currentEpoch req = currentEpoch s + 1 \<and>
       m_sender req = node_name me"
    "currentEpoch s' = currentEpoch s + 1" "failover_auth_epoch s' = currentEpoch s + 1" "failover_auth_sent s'"
    "failover_auth_count s' = failover_auth_count s" "lastVoteEpoch s' = lastVoteEpoch s"
    "table_view s' = table_view s" "node_view s' = node_view s" "cheap s' = cheap s"
proof -
  define t where "t = s\<lparr>currentEpoch := currentEpoch s + 1, failover_auth_epoch := currentEpoch s + 1\<rparr>"
  from assms(1) obtain u where u: "clusterRequestFailoverAuth E t = Some u"
    and s': "s' = clusterDoBeforeSleep (u\<lparr>failover_auth_sent := True\<rparr>)
              {TODO_SAVE_CONFIG, TODO_UPDATE_STATE, TODO_FSYNC_CONFIG}"
    by (auto simp: start_election_def step_simps t_def)
  have me: "cheap t (myself t) = Some me" using assms(2) by (simp add: t_def)
  from u obtain hdr where hdr: "clusterBuildMessageHdr E t CLUSTERMSG_TYPE_FAILOVER_AUTH_REQUEST = Some hdr"
    and b: "clusterBroadcastMessage t (hdr\<lparr>m_forceack := (mf_end t \<noteq> 0), m_totlen := 2208\<rparr>) = Some u"
    by (auto simp: clusterRequestFailoverAuth_def bind_eq_Some_conv)
  define req where "req = hdr\<lparr>m_forceack := (mf_end t \<noteq> 0), m_totlen := 2208\<rparr>"
  from broadcast_votes [OF b] obtain rs where rs: "u = t\<lparr>effects := effects t @ map (\<lambda>r. Send r req) rs\<rparr>"
    by (auto simp: req_def)
  have req: "m_type req = CLUSTERMSG_TYPE_FAILOVER_AUTH_REQUEST" "m_currentEpoch req = currentEpoch s + 1" "m_sender req = node_name me"
    using build_hdr [OF hdr me] by (simp_all add: req_def t_def)
  have "filter is_vote (map (\<lambda>r. Send r req) rs) = map (\<lambda>r. Send r req) rs" by (simp add: req(1) filter_id_conv)
  then show "\<exists>req rs. votes s' = votes s @ map (\<lambda>r. Send r req) rs \<and>
       m_type req = CLUSTERMSG_TYPE_FAILOVER_AUTH_REQUEST \<and> m_currentEpoch req = currentEpoch s + 1 \<and>
       m_sender req = node_name me"
    using req by (auto simp: s' clusterDoBeforeSleep_def rs t_def)
  show "currentEpoch s' = currentEpoch s + 1" "failover_auth_epoch s' = currentEpoch s + 1" "failover_auth_sent s'"
    "failover_auth_count s' = failover_auth_count s" "lastVoteEpoch s' = lastVoteEpoch s"
    "table_view s' = table_view s" "node_view s' = node_view s" "cheap s' = cheap s"
    by (simp_all add: s' clusterDoBeforeSleep_def rs t_def table_view_def node_view_def fun_eq_iff)
qed

lemma cluster_inv_views:
  "table_view s' = table_view s \<Longrightarrow> node_view s' = node_view s \<Longrightarrow> cluster_inv s' = cluster_inv s"
  by (simp add: cluster_inv_def slots_inv_def nodes_inv_def table_view_def)

lemma win_election_result:
  assumes "win_election E s = Some s'" "slots_inv s"
  shows "slot_step s s'"
proof -
  obtain t where t: "frame t = frame s" "clusterFailoverReplaceYourMaster E t = Some s'"
  proof -
    from assms(1) obtain me where me: "cheap s (myself s) = Some me"
      and r: "clusterFailoverReplaceYourMaster E (if configEpoch me < failover_auth_epoch s
               then set_node s (myself s) (me\<lparr>configEpoch := failover_auth_epoch s\<rparr>) else s) = Some s'"
      unfolding win_election_def Let_def bind_eq_Some_conv by blast
    show thesis by (rule that [OF _ r]) (simp add: set_node_frame [OF me])
  qed
  have "slots_inv t" using slots_inv_frame [OF t(1)] assms(2) by simp
  from clusterFailoverReplaceYourMaster_step [OF this t(2)] show ?thesis
    by (rule slot_step_trans [OF slot_step_frame [OF t(1)]])
qed

text \<open>
  What one run of the handler does: nothing, give up the old attempt and schedule a new one, start
  an election, or take over after a majority of votes.
\<close>

definition quorum :: "clusterState \<Rightarrow> int" where
  "quorum s = csize s div 2 + 1"

lemma clusterHandleSlaveFailover_cases:
  assumes "clusterHandleSlaveFailover E s = Some s'"
  obtains (idle) "frame s' = frame s" "cheap s' = cheap s"
  | (schedule) t where "frame t = frame s" "cheap t = cheap s" "schedule_election E t = Some s'"
  | (start) t where "frame t = frame s" "cheap t = cheap s" "\<not> failover_auth_sent t" "start_election E t = Some s'"
  | (win) t where "frame t = frame s" "failover_auth_sent t" "failover_auth_count t \<ge> quorum s" "win_election E t = Some s'"
proof -
  define s0 where "s0 = s\<lparr>todo_before_sleep := todo_before_sleep s - {TODO_HANDLE_FAILOVER}\<rparr>"
  have f0: "frame s0 = frame s" "cheap s0 = cheap s" by (simp_all add: s0_def)
  have "post (clusterHandleSlaveFailover E s) (\<lambda>s'. frame s' = frame s \<and> cheap s' = cheap s \<or>
      (\<exists>t. frame t = frame s \<and> cheap t = cheap s \<and> schedule_election E t = Some s') \<or>
      (\<exists>t. frame t = frame s \<and> cheap t = cheap s \<and> \<not> failover_auth_sent t \<and> start_election E t = Some s') \<or>
      (\<exists>t. frame t = frame s \<and> failover_auth_sent t \<and> failover_auth_count t \<ge> quorum s \<and> win_election E t = Some s'))"
    unfolding clusterHandleSlaveFailover_def s0_def [symmetric] quorum_def
    by (rule vcg | rule post_any |
        (use f0 in \<open>auto simp: clusterLogCantFailover_def dest!: adjust_rank_frame\<close>)[1])+
  from post_use [OF assms this] show ?thesis using that by blast
qed

lemma clusterHandleSlaveFailover_inv:
  assumes "clusterHandleSlaveFailover E s = Some s'" "cluster_inv s"
  shows "cluster_inv s'" "myself s' = myself s"
proof -
  have "cluster_inv s' \<and> myself s' = myself s"
    using assms(1)
  proof (cases rule: clusterHandleSlaveFailover_cases)
    case idle
    from quiet_inv [OF frame_quiet [OF idle(1)] assms(2)] show ?thesis using idle(1) by (simp add: frame_def table_view_def)
  next
    case (schedule t)
    note r = schedule_election_result [OF schedule(3)]
    have "cluster_inv t" using quiet_inv [OF frame_quiet [OF schedule(1)] assms(2)] .
    then have "cluster_inv (s'\<lparr>failover_auth_count := failover_auth_count t, failover_auth_sent := failover_auth_sent t\<rparr>)"
      using quiet_inv [OF frame_quiet [OF r(1)]] by simp
    then have "cluster_inv s'"
      by (rule iffD1 [OF cluster_inv_views, rotated 2]) (simp_all add: table_view_def node_view_def fun_eq_iff)
    with r(1) schedule(1) show ?thesis by (simp add: frame_def table_view_def)
  next
    case (start t)
    have t: "cluster_inv t" using quiet_inv [OF frame_quiet [OF start(1)] assms(2)] .
    then obtain me where "cheap t (myself t) = Some me"
      by (force simp: cluster_inv_def nodes_inv_def node_view_def)
    note r = start_election_result [OF start(4) this]
    have "cluster_inv s'" using cluster_inv_views [OF r(7,8)] t by simp
    with r(7) start(1) show ?thesis by (simp add: frame_def table_view_def)
  next
    case (win t)
    have t: "cluster_inv t" using quiet_inv [OF frame_quiet [OF win(1)] assms(2)] .
    then have "slot_step t s'" by (intro win_election_result [OF win(4)]) (simp add: cluster_inv_def)
    then have "quiet t s'" by (rule slot_step_quiet)
    with t win(1) show ?thesis by (simp add: quiet_def frame_def table_view_def)
  qed
  then show "cluster_inv s'" "myself s' = myself s" by simp_all
qed

section \<open>Counting a vote\<close>

lemma process_auth_ack_cases:
  assumes "process_auth_ack s sender e = Some s'"
  obtains "frame s' = frame s"
  | r n where "sender = Some r" "cheap s r = Some n" "nodeIsMaster n" "numslots n > 0" "e \<ge> failover_auth_epoch s"
      "failover_auth_count s' = failover_auth_count s + 1"
      "frame (s'\<lparr>failover_auth_count := failover_auth_count s\<rparr>) = frame s"
proof (cases sender)
  case None
  with assms that(1) show ?thesis by (simp add: process_auth_ack_def)
next
  case (Some r)
  with assms obtain n where n: "cheap s r = Some n"
    and s': "s' = (if nodeIsMaster n \<and> numslots n > 0 \<and> e \<ge> failover_auth_epoch s
               then clusterDoBeforeSleep (s\<lparr>failover_auth_count := failover_auth_count s + 1\<rparr>) {TODO_HANDLE_FAILOVER}
               else s)"
    by (auto simp: process_auth_ack_def bind_eq_Some_conv)
  show ?thesis
  proof (cases "nodeIsMaster n \<and> numslots n > 0 \<and> e \<ge> failover_auth_epoch s")
    case True
    then show ?thesis using s' by (intro that(2) [OF Some n]) (simp_all add: clusterDoBeforeSleep_def frame_defs)
  next
    case False
    with s' that(1) show ?thesis by simp
  qed
qed

end
