(* ===== verification/Cluster_Timer.thy ===== *)
theory Cluster_Timer
  imports Cluster_Vote
begin

text \<open>
  The timer and the hook before the event loop sleeps: they keep the invariant of the cluster state,
  and outside \<open>clusterHandleSlaveFailover\<close> they leave elections alone.
\<close>

section \<open>The loops of the timer\<close>

text \<open>What the timer does to the table without touching elections; it may forget nodes.\<close>

definition hushed :: "clusterState \<Rightarrow> clusterState \<Rightarrow> bool" where
  "hushed s s' \<longleftrightarrow> cluster_inv s' \<and> myself s' = myself s \<and> election_view s' = election_view s \<and>
     own_entry s \<subseteq> own_entry s'"

lemma hushed_refl: "cluster_inv s \<Longrightarrow> hushed s s"
  by (simp add: hushed_def)

lemma hushed_trans: "hushed s t \<Longrightarrow> hushed t u \<Longrightarrow> hushed s u"
  by (auto simp: hushed_def)

lemma hushed_inv: "hushed s t \<Longrightarrow> cluster_inv t"
  by (simp add: hushed_def)

lemma frame_hushed: "frame t = frame s \<Longrightarrow> cluster_inv s \<Longrightarrow> hushed s t"
  using cluster_inv_frame [of t s] by (simp add: hushed_def frame_def table_view_def own_entry_def)

lemma hushed_then_frame: "hushed s t \<Longrightarrow> frame u = frame t \<Longrightarrow> hushed s u"
  using hushed_trans frame_hushed hushed_inv by blast

lemma frame_then_hushed: "frame t = frame s \<Longrightarrow> cluster_inv s \<Longrightarrow> hushed t u \<Longrightarrow> hushed s u"
  by (rule hushed_trans [OF frame_hushed])

lemma hushed_calm: "hushed s t \<Longrightarrow> calm s t"
  by (simp add: hushed_def calm_def election_view_def)

lemma quiet_hushed: "quiet s t \<Longrightarrow> cluster_inv s \<Longrightarrow> hushed s t"
  using quiet_own [of s t] by (simp add: quiet_def hushed_def)

text \<open>The table of nodes names no reference twice.\<close>

lemma cnodes_distinct:
  assumes "cluster_inv s"
  shows "distinct (map snd (cnodes s))"
proof -
  have name: "\<exists>b k. node_view s r = Some ((nm, r = myself s), b, k)" if "(nm, r) \<in> set (cnodes s)" for nm r
    using assms that by (fastforce simp: cluster_inv_def nodes_inv_def)
  have d: "distinct (map fst (cnodes s))" using assms by (simp add: cluster_inv_def nodes_inv_def)
  have "inj_on snd (set (cnodes s))"
  proof (rule inj_onI)
    fix x y
    assume "x \<in> set (cnodes s)" "y \<in> set (cnodes s)" "snd x = snd y"
    then show "x = y" using name [of "fst x" "snd x"] name [of "fst y" "snd y"] by (cases x; cases y; auto)
  qed
  then show ?thesis using d by (simp add: distinct_map)
qed

lemma cron_connect_loop:
  assumes "loop (\<lambda>(nm, r). cron_connect E r) ps s = Some s'" "cluster_inv s"
    "set ps \<subseteq> set (cnodes s)" "distinct (map snd ps)"
  shows "hushed s s'"
  using assms
proof (induction ps arbitrary: s)
  case Nil
  then show ?case by (simp add: hushed_refl)
next
  case (Cons p ps)
  obtain nm r where p: "p = (nm, r)" by (cases p)
  from Cons.prems(1) obtain t where t: "cron_connect E r s = Some t"
      "loop (\<lambda>(nm, r). cron_connect E r) ps t = Some s'"
    by (auto simp: p bind_eq_Some_conv)
  have "(nm, r) \<in> set (cnodes s)" using Cons.prems(3) by (simp add: p)
  note step = cron_connect_step [OF t(1) Cons.prems(2) this]
  have "set ps \<subseteq> set (cnodes t)"
  proof
    fix x
    assume "x \<in> set ps"
    then have "x \<in> set (cnodes s)" "snd x \<noteq> r"
      using Cons.prems(3,4) by (auto simp: p image_iff)
    with step show "x \<in> set (cnodes t)" by blast
  qed
  then have "hushed t s'" using Cons.IH [OF t(2)] step Cons.prems(4) by simp
  moreover have "hushed s t" using step by (simp add: hushed_def)
  ultimately show ?case by (rule hushed_trans [rotated])
qed

lemma cron_check_frame:
  assumes "cron_check E r (s, k) = Some (s', k')"
  shows "frame s' = frame s"
proof -
  have "post (cron_check E r (s, k)) (\<lambda>p. frame (fst p) = frame s)"
    unfolding cron_check_def prod.case
    by (rule vcg | rule post_any |
        (auto simp: set_node_frame if_distrib [of frame] cong: if_cong split: option.splits
          dest!: clusterSendPing_frame)[1])+
  from post_use [OF assms this] show ?thesis by simp
qed

lemma cron_check_loop:
  assumes "loop (\<lambda>(nm :: bytes, r). cron_check E r) ps (s, k) = Some (s', k')"
  shows "frame s' = frame s"
proof -
  have "frame (fst (s', k')) = frame s"
  proof (rule loop_induct [OF assms, of "\<lambda>p. frame (fst p) = frame s"])
    fix x :: "bytes \<times> nref" and p p' :: "clusterState \<times> cron_counts"
    assume "frame (fst p) = frame s" "(case x of (nm, r) \<Rightarrow> cron_check E r) p = Some p'"
    then show "frame (fst p') = frame s"
      by (auto simp: cron_check_frame split: prod.splits) (metis cron_check_frame prod.collapse)
  qed simp
  then show ?thesis by simp
qed

section \<open>The timer in phases\<close>

definition cron_ping :: "cluster_env \<Rightarrow> clusterState \<Rightarrow> clusterState option" where
  "cron_ping E s =
    (if cron_iteration s mod 10 = 0 then do {
       best \<leftarrow> oldest_pong s (take 5 (random_nodes E));
       case best of None \<Rightarrow> Some s | Some (t, q) \<Rightarrow> clusterSendPing E s q CLUSTERMSG_TYPE_PING
     } else Some s)"

definition cron_replicate :: "cluster_env \<Rightarrow> clusterNode \<Rightarrow> clusterState \<Rightarrow> clusterState option" where
  "cron_replicate E me s =
    (case slaveof me of
       Some m \<Rightarrow>
         if nodeIsSlave me \<and> \<not> masterhost_set E then do {
           mn \<leftarrow> cheap s m;
           Some (if REDIS_NODE_NOADDR \<notin> node_flags mn
                 then emit s (ReplicationSetMaster (node_ip mn) (node_port mn)) else s)
         } else Some s
     | None \<Rightarrow> Some s)"

definition cron_migrate :: "cluster_env \<Rightarrow> cron_counts \<Rightarrow> clusterState \<Rightarrow> clusterState option" where
  "cron_migrate E k s =
    (if orphaned_masters k \<noteq> 0 \<and> max_slaves k \<ge> 2 \<and> this_slaves k = max_slaves k
     then clusterHandleSlaveMigration E s (max_slaves k) else Some s)"

definition cron_end :: "cluster_env \<Rightarrow> cron_counts \<Rightarrow> clusterState \<Rightarrow> clusterState option" where
  "cron_end E k s = (if update_state k \<or> health s = REDIS_CLUSTER_FAIL then clusterUpdateState E s else Some s)"

lemma clusterCron_alt:
  "clusterCron E s =
    do {
      s \<leftarrow> loop (\<lambda>(nm, r). cron_connect E r) (cnodes s) (s\<lparr>cron_iteration := cron_iteration s + 1\<rparr>);
      s \<leftarrow> cron_ping E s;
      (s, k) \<leftarrow> loop (\<lambda>(nm, r). cron_check E r) (cnodes s)
        (s, \<lparr>orphaned_masters = 0, max_slaves = 0, this_slaves = 0, update_state = False\<rparr>);
      me \<leftarrow> cheap s (myself s);
      s \<leftarrow> cron_replicate E me s;
      s \<leftarrow> (if nodeIsSlave me
            then do { s \<leftarrow> clusterHandleSlaveFailover E (clusterHandleManualFailover E (manualFailoverCheckTimeout E s));
                      cron_migrate E k s }
            else Some (manualFailoverCheckTimeout E s));
      cron_end E k s
    }"
  unfolding clusterCron_def cron_ping_def cron_replicate_def cron_migrate_def cron_end_def Let_def by simp

lemma cron_ping_frame: "cron_ping E s = Some s' \<Longrightarrow> frame s' = frame s"
  by (auto simp: cron_ping_def bind_eq_Some_conv split: if_splits option.splits dest: clusterSendPing_frame)

lemma cron_replicate_frame:
  assumes "cron_replicate E me s = Some s'"
  shows "frame s' = frame s"
proof -
  have "post (cron_replicate E me s) (\<lambda>s'. frame s' = frame s)"
    unfolding cron_replicate_def by (rule vcg | rule post_any | simp add: if_distrib [of frame])+
  from post_use [OF assms this] show ?thesis .
qed

lemma cron_migrate_frame: "cron_migrate E k s = Some s' \<Longrightarrow> frame s' = frame s"
  by (auto simp: cron_migrate_def split: if_splits dest: clusterHandleSlaveMigration_frame)

lemma cron_end_frame: "cron_end E k s = Some s' \<Longrightarrow> frame s' = frame s"
  by (auto simp: cron_end_def split: if_splits dest: clusterUpdateState_frame)

lemma clusterCron_phases:
  assumes "clusterCron E s = Some s'" "cluster_inv s"
  obtains t where "hushed s t" "frame s' = frame t"
    | t u where "hushed s t" "clusterHandleSlaveFailover E t = Some u" "frame s' = frame u"
proof -
  define s0 where "s0 = s\<lparr>cron_iteration := cron_iteration s + 1\<rparr>"
  have f0: "frame s0 = frame s" "cnodes s0 = cnodes s" by (simp_all add: s0_def)
  have i0: "cluster_inv s0" using cluster_inv_frame [OF f0(1)] assms(2) by simp
  from assms(1) obtain s1 s2 s3 k me s4 s5 where
      s1: "loop (\<lambda>(nm, r). cron_connect E r) (cnodes s0) s0 = Some s1"
    and s2: "cron_ping E s1 = Some s2"
    and s3: "loop (\<lambda>(nm, r). cron_check E r) (cnodes s2)
        (s2, \<lparr>orphaned_masters = 0, max_slaves = 0, this_slaves = 0, update_state = False\<rparr>) = Some (s3, k)"
    and s4: "cron_replicate E me s3 = Some s4"
    and s5: "(if nodeIsSlave me
            then do { s \<leftarrow> clusterHandleSlaveFailover E (clusterHandleManualFailover E (manualFailoverCheckTimeout E s4));
                      cron_migrate E k s }
            else Some (manualFailoverCheckTimeout E s4)) = Some s5"
    and s': "cron_end E k s5 = Some s'"
    unfolding clusterCron_alt s0_def bind_eq_Some_conv by (auto simp: bind_eq_Some_conv)
  define t where "t = clusterHandleManualFailover E (manualFailoverCheckTimeout E s4)"
  have h1: "hushed s s1"
    by (rule frame_then_hushed [OF f0(1) assms(2)])
      (use cron_connect_loop [OF s1 i0 _ cnodes_distinct [OF i0]] f0(2) in simp)
  have f: "frame t = frame s1" "frame (manualFailoverCheckTimeout E s4) = frame s1"
    using cron_ping_frame [OF s2] cron_check_loop [OF s3] cron_replicate_frame [OF s4] by (simp_all add: t_def)
  show thesis
  proof (cases "nodeIsSlave me")
    case False
    with s5 have "s5 = manualFailoverCheckTimeout E s4" by simp
    with cron_end_frame [OF s'] f(2) have "frame s' = frame s1" by simp
    then show thesis by (rule that(1) [OF h1])
  next
    case True
    with s5 obtain u where u: "clusterHandleSlaveFailover E t = Some u" "cron_migrate E k u = Some s5"
      by (auto simp: bind_eq_Some_conv t_def)
    have "frame s' = frame u" using cron_end_frame [OF s'] cron_migrate_frame [OF u(2)] by simp
    then show thesis by (rule that(2) [OF hushed_then_frame [OF h1 f(1)] u(1)])
  qed
qed

end
