(* ===== verification/Cluster_Cmd.thy ===== *)
theory Cluster_Cmd
  imports Cluster_Bus Crc
begin

text \<open>
  The CLUSTER command (\<open>clusterCommand\<close> of \<open>cluster.c\<close>): each subcommand with its checks, its
  effect on the view and the bytes of its reply.  Arguments are the strings of the request.  An
  operation returns \<open>None\<close> where the program aborts or reads outside of an object, as the other
  theories of the cluster have it.
\<close>

section \<open>Replies\<close>

definition reply_ok :: bytes where "reply_ok = str ''+OK'' @ CRLF"
definition reply_syntax :: bytes where "reply_syntax = str ''-ERR syntax error'' @ CRLF"
definition reply_error :: "bytes \<Rightarrow> bytes" where "reply_error msg = str ''-ERR '' @ msg @ CRLF"

text \<open>The formatted text is a C string whose line breaks become spaces.\<close>

definition reply_errorf :: "bytes \<Rightarrow> bytes" where
  "reply_errorf msg = reply_error (map (\<lambda>b. if b = 13 \<or> b = 10 then ch CHR '' '' else b) msg)"

definition reply_int :: "int \<Rightarrow> bytes" where "reply_int k = ch CHR '':'' # int_dec k @ CRLF"
definition reply_bulk :: "bytes \<Rightarrow> bytes" where
  "reply_bulk b = ch CHR ''$'' # dec_nat (length b) @ CRLF @ b @ CRLF"
definition reply_multi :: "nat \<Rightarrow> bytes" where "reply_multi n = ch CHR ''*'' # dec_nat n @ CRLF"

section \<open>Text of a node\<close>

definition redisNodeFlagsTable :: "(node_flag \<times> bytes) list" where
  "redisNodeFlagsTable =
    [(REDIS_NODE_MYSELF, str ''myself,''), (REDIS_NODE_MASTER, str ''master,''),
     (REDIS_NODE_SLAVE, str ''slave,''), (REDIS_NODE_PFAIL, str ''fail?,''), (REDIS_NODE_FAIL, str ''fail,''),
     (REDIS_NODE_HANDSHAKE, str ''handshake,''), (REDIS_NODE_NOADDR, str ''noaddr,'')]"

text \<open>The last byte of the text is removed, whatever it is.\<close>

definition representRedisNodeFlags :: "bytes \<Rightarrow> node_flag set \<Rightarrow> bytes" where
  "representRedisNodeFlags ci flags =
    butlast (if flags = {} then ci @ str ''noflags,''
             else ci @ concat (map snd (filter (\<lambda>(f, name). f \<in> flags) redisNodeFlagsTable)))"

text \<open>The ranges of slots of a bitmap, as the loop over the slots finds them.\<close>

fun slot_ranges :: "(nat \<Rightarrow> bool) \<Rightarrow> nat option \<Rightarrow> nat list \<Rightarrow> (nat \<times> nat) list" where
  "slot_ranges has start [] = []"
| "slot_ranges has start (j # js) =
    (let start = (if has j \<and> start = None then Some j else start)
     in case start of
          None \<Rightarrow> slot_ranges has None js
        | Some b \<Rightarrow>
            if \<not> has j \<or> js = []
            then (b, if has j \<and> js = [] then j else j - 1) # slot_ranges has None js
            else slot_ranges has start js)"

definition range_text :: "nat \<times> nat \<Rightarrow> bytes" where
  "range_text = (\<lambda>(b, e). ch CHR '' '' # (if b = e then dec_nat b else dec_nat b @ ch CHR ''-'' # dec_nat e))"

definition open_slot_text :: "clusterState \<Rightarrow> nat \<Rightarrow> bytes option" where
  "open_slot_text s j =
    (case migrating_slots_to s j of
       Some r \<Rightarrow> do { n \<leftarrow> cheap s r;
                     Some (str '' ['' @ dec_nat j @ str ''->-'' @ c_str (node_name n) @ str '']'') }
     | None \<Rightarrow>
         (case importing_slots_from s j of
            Some r \<Rightarrow> do { n \<leftarrow> cheap s r;
                          Some (str '' ['' @ dec_nat j @ str ''-<-'' @ c_str (node_name n) @ str '']'') }
          | None \<Rightarrow> Some []))"

definition clusterGenNodeDescription :: "clusterState \<Rightarrow> clusterNode \<Rightarrow> bytes option" where
  "clusterGenNodeDescription s n =
    do {
      let ci = c_str (node_name n) @ str '' '' @ c_str (node_ip n) @ str '':'' @ int_dec (node_port n) @ str '' '';
      let ci = representRedisNodeFlags ci (node_flags n);
      master \<leftarrow> (case slaveof n of
                   Some m \<Rightarrow> do { mn \<leftarrow> cheap s m; Some (str '' '' @ c_str (node_name mn) @ str '' '') }
                 | None \<Rightarrow> Some (str '' - ''));
      let ci = ci @ master;
      let ci = ci @ int_dec (ping_sent n) @ str '' '' @ int_dec (pong_received n) @ str '' ''
                  @ dec_nat (unat (configEpoch n)) @ str '' ''
                  @ (if node_link n \<noteq> None \<or> REDIS_NODE_MYSELF \<in> node_flags n then str ''connected''
                     else str ''disconnected'');
      let ci = ci @ concat (map range_text (slot_ranges (clusterNodeGetSlotBit n) None [0..<REDIS_CLUSTER_SLOTS]));
      if REDIS_NODE_MYSELF \<in> node_flags n then
        loop (\<lambda>j ci. map_option (\<lambda>t. ci @ t) (open_slot_text s j)) [0..<REDIS_CLUSTER_SLOTS] ci
      else Some ci
    }"

definition clusterGenNodesDescription :: "clusterState \<Rightarrow> node_flag set \<Rightarrow> bytes option" where
  "clusterGenNodesDescription s filt =
    loop (\<lambda>(nm, r) ci. do {
        n \<leftarrow> cheap s r;
        if node_flags n \<inter> filt \<noteq> {} then Some ci
        else do { ni \<leftarrow> clusterGenNodeDescription s n; Some (ci @ ni @ [10]) }
      }) (cnodes s) []"

text \<open>What \<open>clusterSaveConfig\<close> writes, before the padding with empty lines.\<close>

definition clusterConfigText :: "clusterState \<Rightarrow> bytes option" where
  "clusterConfigText s =
    map_option (\<lambda>ci. ci @ str ''vars currentEpoch '' @ dec_nat (unat (currentEpoch s)) @
                     str '' lastVoteEpoch '' @ dec_nat (unat (lastVoteEpoch s)) @ [10])
      (clusterGenNodesDescription s {REDIS_NODE_HANDSHAKE})"

text \<open>One range of a master in the reply of CLUSTER SLOTS.\<close>

definition reply_address :: "clusterNode \<Rightarrow> bytes" where
  "reply_address n = reply_multi 2 @ reply_bulk (c_str (node_ip n)) @ reply_int (node_port n)"

definition reply_range :: "clusterState \<Rightarrow> clusterNode \<Rightarrow> nat \<times> nat \<Rightarrow> bytes option" where
  "reply_range s n = (\<lambda>(b, e). do {
      (k, replicas) \<leftarrow> loop (\<lambda>q (k, out). do {
          qn \<leftarrow> cheap s q;
          Some (if nodeFailed qn then (k, out) else (k + 1, out @ reply_address qn))
        }) (slaves n) (3, []);
      Some (reply_multi k @ reply_int (int b) @ reply_int (int e) @ reply_address n @ replicas)
    })"

definition clusterReplyMultiBulkSlots :: "clusterState \<Rightarrow> bytes option" where
  "clusterReplyMultiBulkSlots s =
    do {
      (num_masters, out) \<leftarrow> loop (\<lambda>(nm, r) (k, out). do {
          n \<leftarrow> cheap s r;
          if \<not> nodeIsMaster n \<or> numslots n = 0 then Some (k, out)
          else loop (\<lambda>rg (k, out). do { t \<leftarrow> reply_range s n rg; Some (k + 1, out @ t) })
                 (slot_ranges (clusterNodeGetSlotBit n) None [0..<REDIS_CLUSTER_SLOTS]) (k, out)
        }) (cnodes s) (0, []);
      Some (reply_multi num_masters @ out)
    }"


section \<open>Subcommands\<close>

text \<open>
  The parts of the server that the command reads besides the view: how many messages the bus has
  carried, the keys of a slot (at most a given number of them), and whether the configuration
  file could be written (else with the text of the error).
\<close>

record command_env = cluster_env +
  stats_bus_messages_sent :: int
  stats_bus_messages_received :: int
  getKeysInSlot :: "nat \<Rightarrow> u32 \<Rightarrow> bytes list"
  save_error :: "bytes option"

definition REDIS_CLUSTER_MF_TIMEOUT :: int where "REDIS_CLUSTER_MF_TIMEOUT = 5000"

definition caseq :: "bytes \<Rightarrow> string \<Rightarrow> bool" where
  "caseq a w = (map tolower (c_str a) = str w)"

text \<open>
  A node is looked up by the first 40 bytes of the argument, which are read whatever its length;
  an argument has its bytes and one zero byte.
\<close>

definition lookup_arg :: "clusterState \<Rightarrow> bytes \<Rightarrow> nref option option" where
  "lookup_arg s a =
    (if length a + 1 < REDIS_CLUSTER_NAMELEN then None
     else Some (clusterLookupNode s (take REDIS_CLUSTER_NAMELEN (a @ [0]))))"

definition getSlotOrReply :: "bytes \<Rightarrow> nat + bytes" where
  "getSlotOrReply a =
    (case ll_of_bytes a of
       Some slot \<Rightarrow> if slot <s 0 \<or> 16384 \<le>s slot then Inr (reply_error (str ''Invalid or out of range slot''))
                    else Inl (unat slot)
     | None \<Rightarrow> Inr (reply_error (str ''Invalid or out of range slot'')))"

type_synonym answer = "(clusterState \<times> bytes) option"

definition not_integer :: bytes where
  "not_integer = reply_error (str ''value is not an integer or out of range'')"

definition meet_command :: "cluster_env \<Rightarrow> clusterState \<Rightarrow> bytes \<Rightarrow> bytes \<Rightarrow> answer" where
  "meet_command E s ip p =
    (case ll_of_bytes p of
       None \<Rightarrow> Some (s, reply_errorf (str ''Invalid TCP port specified: '' @ c_str p))
     | Some port \<Rightarrow> do {
         (s, h) \<leftarrow> clusterStartHandshake E s (c_str ip) (sint (ucast port :: u32));
         Some (s, if h = HS_EINVAL
                  then reply_errorf (str ''Invalid node address specified: '' @ c_str ip @ str '':'' @ c_str p)
                  else reply_ok)
       })"

definition flushslots_command :: "cluster_env \<Rightarrow> clusterState \<Rightarrow> answer" where
  "flushslots_command E s =
    (if db_keys E \<noteq> 0 then Some (s, reply_error (str ''DB must be empty to perform CLUSTER FLUSHSLOTS.''))
     else do {
       (s, k) \<leftarrow> clusterDelNodeSlots s (myself s);
       Some (clusterDoBeforeSleep s {TODO_UPDATE_STATE, TODO_SAVE_CONFIG}, reply_ok)
     })"

text \<open>The check of all arguments of ADDSLOTS and DELSLOTS before anything is changed.\<close>

fun check_slots :: "clusterState \<Rightarrow> bool \<Rightarrow> bytes list \<Rightarrow> nat list \<Rightarrow> nat list + bytes" where
  "check_slots s del [] seen = Inl seen"
| "check_slots s del (a # as) seen =
    (case getSlotOrReply a of
       Inr e \<Rightarrow> Inr e
     | Inl slot \<Rightarrow>
         if del \<and> cslots s slot = None then
           Inr (reply_errorf (str ''Slot '' @ dec_nat slot @ str '' is already unassigned''))
         else if \<not> del \<and> cslots s slot \<noteq> None then
           Inr (reply_errorf (str ''Slot '' @ dec_nat slot @ str '' is already busy''))
         else if slot \<in> set seen then
           Inr (reply_errorf (str ''Slot '' @ dec_nat slot @ str '' specified multiple times''))
         else check_slots s del as (slot # seen))"

definition change_slot :: "bool \<Rightarrow> nat \<Rightarrow> clusterState \<Rightarrow> clusterState option" where
  "change_slot del j s =
    do {
      let s = s\<lparr>importing_slots_from := (importing_slots_from s)(j := None)\<rparr>;
      (s, ok) \<leftarrow> (if del then clusterDelSlot s j else clusterAddSlot s (myself s) j);
      if ok then Some s else None
    }"

definition addslots_command :: "clusterState \<Rightarrow> bool \<Rightarrow> bytes list \<Rightarrow> answer" where
  "addslots_command s del as =
    (case check_slots s del as [] of
       Inr e \<Rightarrow> Some (s, e)
     | Inl js \<Rightarrow> do {
         s \<leftarrow> loop (\<lambda>j s. if j \<in> set js then change_slot del j s else Some s) [0..<REDIS_CLUSTER_SLOTS] s;
         Some (clusterDoBeforeSleep s {TODO_UPDATE_STATE, TODO_SAVE_CONFIG}, reply_ok)
       })"

text \<open>The four forms of SETSLOT; the error of IMPORTING shows the word of the action, not the node.\<close>

definition setslot_done :: "clusterState \<Rightarrow> answer" where
  "setslot_done s = Some (clusterDoBeforeSleep s {TODO_SAVE_CONFIG, TODO_UPDATE_STATE}, reply_ok)"

definition setslot_node :: "cluster_env \<Rightarrow> clusterState \<Rightarrow> nat \<Rightarrow> nref \<Rightarrow> answer" where
  "setslot_node E s slot n =
    (if cslots s slot = Some (myself s) \<and> n \<noteq> myself s \<and> keys_in_slot E slot \<noteq> 0 then
       Some (s, reply_errorf (str ''Can'' @ [39] @ str ''t assign hashslot '' @ dec_nat slot @
         str '' to a different node while I still hold keys for this hash slot.''))
     else do {
       let s = (if keys_in_slot E slot = 0 \<and> migrating_slots_to s slot \<noteq> None
                then s\<lparr>migrating_slots_to := (migrating_slots_to s)(slot := None)\<rparr> else s);
       s \<leftarrow> (if n = myself s \<and> importing_slots_from s slot \<noteq> None then do {
               (s, bumped) \<leftarrow> clusterBumpConfigEpochWithoutConsensus s;
               Some (s\<lparr>importing_slots_from := (importing_slots_from s)(slot := None)\<rparr>)
             } else Some s);
       s \<leftarrow> del_slot slot s;
       s \<leftarrow> add_slot n slot s;
       setslot_done s
     })"

definition setslot_command :: "cluster_env \<Rightarrow> clusterState \<Rightarrow> bytes list \<Rightarrow> answer" where
  "setslot_command E s args =
    (case getSlotOrReply (args ! 2) of
       Inr e \<Rightarrow> Some (s, e)
     | Inl slot \<Rightarrow>
         if caseq (args ! 3) ''migrating'' \<and> length args = 5 then
           if cslots s slot \<noteq> Some (myself s) then
             Some (s, reply_errorf (str ''I'' @ [39] @ str ''m not the owner of hash slot '' @ dec_nat slot))
           else do {
             n \<leftarrow> lookup_arg s (args ! 4);
             case n of
               None \<Rightarrow> Some (s, reply_errorf (str ''I don'' @ [39] @ str ''t know about node '' @ c_str (args ! 4)))
             | Some r \<Rightarrow> setslot_done (s\<lparr>migrating_slots_to := (migrating_slots_to s)(slot \<mapsto> r)\<rparr>)
           }
         else if caseq (args ! 3) ''importing'' \<and> length args = 5 then
           if cslots s slot = Some (myself s) then
             Some (s, reply_errorf (str ''I'' @ [39] @ str ''m already the owner of hash slot '' @ dec_nat slot))
           else do {
             n \<leftarrow> lookup_arg s (args ! 4);
             case n of
               None \<Rightarrow> Some (s, reply_errorf (str ''I don'' @ [39] @ str ''t know about node '' @ c_str (args ! 3)))
             | Some r \<Rightarrow> setslot_done (s\<lparr>importing_slots_from := (importing_slots_from s)(slot \<mapsto> r)\<rparr>)
           }
         else if caseq (args ! 3) ''stable'' \<and> length args = 4 then
           setslot_done (s\<lparr>importing_slots_from := (importing_slots_from s)(slot := None),
                           migrating_slots_to := (migrating_slots_to s)(slot := None)\<rparr>)
         else if caseq (args ! 3) ''node'' \<and> length args = 5 then do {
           n \<leftarrow> lookup_arg s (args ! 4);
           case n of
             None \<Rightarrow> Some (s, reply_errorf (str ''Unknown node '' @ c_str (args ! 4)))
           | Some r \<Rightarrow> setslot_node E s slot r
         }
         else Some (s, reply_error (str ''Invalid CLUSTER SETSLOT action or number of arguments'')))"

definition known_node :: "clusterState \<Rightarrow> bytes \<Rightarrow> (nref \<Rightarrow> answer) \<Rightarrow> answer" where
  "known_node s a act =
    do {
      n \<leftarrow> lookup_arg s a;
      case n of
        None \<Rightarrow> Some (s, reply_errorf (str ''Unknown node '' @ c_str a))
      | Some r \<Rightarrow> act r
    }"

definition forget_command :: "cluster_env \<Rightarrow> clusterState \<Rightarrow> bytes \<Rightarrow> answer" where
  "forget_command E s a = known_node s a (\<lambda>r. do {
      me \<leftarrow> cheap s (myself s);
      if r = myself s then
        Some (s, reply_error (str ''I tried hard but I can'' @ [39] @ str ''t forget myself...''))
      else if nodeIsSlave me \<and> slaveof me = Some r then
        Some (s, reply_error (str ''Can'' @ [39] @ str ''t forget my master!''))
      else do {
        n \<leftarrow> cheap s r;
        s \<leftarrow> clusterDelNode E (clusterBlacklistAddNode E s n) r;
        Some (clusterDoBeforeSleep s {TODO_UPDATE_STATE, TODO_SAVE_CONFIG}, reply_ok)
      }
    })"

definition replicate_command :: "cluster_env \<Rightarrow> clusterState \<Rightarrow> bytes \<Rightarrow> answer" where
  "replicate_command E s a = known_node s a (\<lambda>r. do {
      n \<leftarrow> cheap s r;
      me \<leftarrow> cheap s (myself s);
      if r = myself s then Some (s, reply_error (str ''Can'' @ [39] @ str ''t replicate myself''))
      else if nodeIsSlave n then
        Some (s, reply_error (str ''I can only replicate a master, not a slave.''))
      else if nodeIsMaster me \<and> (numslots me \<noteq> 0 \<or> db_keys E \<noteq> 0) then
        Some (s, reply_error (str ''To set a master the node must be empty and without assigned slots.''))
      else do {
        s \<leftarrow> clusterSetMaster E s r;
        Some (clusterDoBeforeSleep s {TODO_UPDATE_STATE, TODO_SAVE_CONFIG}, reply_ok)
      }
    })"

definition slaves_command :: "clusterState \<Rightarrow> bytes \<Rightarrow> answer" where
  "slaves_command s a = known_node s a (\<lambda>r. do {
      n \<leftarrow> cheap s r;
      if nodeIsSlave n then Some (s, reply_error (str ''The specified node is not a master''))
      else do {
        out \<leftarrow> loop (\<lambda>q out. do { qn \<leftarrow> cheap s q; ni \<leftarrow> clusterGenNodeDescription s qn;
                                 Some (out @ reply_bulk (c_str ni)) })
                 (slaves n) (reply_multi (length (slaves n)));
        Some (s, out)
      }
    })"

definition count_reports_command :: "cluster_env \<Rightarrow> clusterState \<Rightarrow> bytes \<Rightarrow> answer" where
  "count_reports_command E s a = known_node s a (\<lambda>r. do {
      n \<leftarrow> cheap s r;
      let (n, k) = clusterNodeFailureReportsCount E n;
      Some (set_node s r n, reply_int k)
    })"

text \<open>FAILOVER, with its option if there is one.\<close>

definition failover_command :: "cluster_env \<Rightarrow> clusterState \<Rightarrow> bytes option \<Rightarrow> answer" where
  "failover_command E s opt =
    do {
      me \<leftarrow> cheap s (myself s);
      let takeover = (case opt of None \<Rightarrow> False | Some a \<Rightarrow> caseq a ''takeover'');
      let force = (case opt of None \<Rightarrow> False | Some a \<Rightarrow> caseq a ''force'' \<or> caseq a ''takeover'');
      if opt \<noteq> None \<and> \<not> force then Some (s, reply_syntax)
      else if nodeIsMaster me then
        Some (s, reply_error (str ''You should send CLUSTER FAILOVER to a slave''))
      else case slaveof me of
        None \<Rightarrow> Some (s, reply_error (str ''I'' @ [39] @ str ''m a slave but my master is unknown to me''))
      | Some m \<Rightarrow> do {
          mn \<leftarrow> cheap s m;
          if \<not> force \<and> (nodeFailed mn \<or> node_link mn = None) then
            Some (s, reply_error (str ''Master is down or failed, please use CLUSTER FAILOVER FORCE''))
          else do {
            let s = (resetManualFailover E s)\<lparr>mf_end := now E + REDIS_CLUSTER_MF_TIMEOUT\<rparr>;
            s \<leftarrow> (if takeover then do {
                    (s, bumped) \<leftarrow> clusterBumpConfigEpochWithoutConsensus s;
                    clusterFailoverReplaceYourMaster E s
                  }
                  else if force then Some (s\<lparr>mf_can_start := True\<rparr>)
                  else clusterSendMFStart E s m);
            Some (s, reply_ok)
          }
        }
    }"

definition set_config_epoch_command :: "clusterState \<Rightarrow> bytes \<Rightarrow> answer" where
  "set_config_epoch_command s a =
    (case ll_of_bytes a of
       None \<Rightarrow> Some (s, not_integer)
     | Some epoch \<Rightarrow> do {
         me \<leftarrow> cheap s (myself s);
         if epoch <s 0 then
           Some (s, reply_errorf (str ''Invalid config epoch specified: '' @ int_dec (sint epoch)))
         else if length (cnodes s) > 1 then
           Some (s, reply_error (str ''The user can assign a config epoch only when the node does not know any other node.''))
         else if configEpoch me \<noteq> 0 then
           Some (s, reply_error (str ''Node config epoch is already non-zero''))
         else do {
           let s = set_node s (myself s) (me\<lparr>configEpoch := epoch\<rparr>);
           let s = (if currentEpoch s < epoch then s\<lparr>currentEpoch := epoch\<rparr> else s);
           Some (clusterDoBeforeSleep s {TODO_UPDATE_STATE, TODO_SAVE_CONFIG}, reply_ok)
         }
       })"

text \<open>\<open>clusterReset\<close>; a hard reset gives the server a new random name.\<close>

definition forget_others :: "cluster_env \<Rightarrow> bytes \<times> nref \<Rightarrow> clusterState \<Rightarrow> clusterState option" where
  "forget_others E = (\<lambda>(nm, r) s. if r = myself s then Some s else clusterDelNode E s r)"

definition rename_self :: "cluster_env \<Rightarrow> clusterState \<Rightarrow> clusterState option" where
  "rename_self E s =
    do {
      me \<leftarrow> cheap s (myself s);
      let s = (set_node s (myself s) (me\<lparr>configEpoch := 0, node_name := rnd_name E (myself s)\<rparr>))
                \<lparr>currentEpoch := 0, lastVoteEpoch := 0,
                 cnodes := filter (\<lambda>(nm, q). nm \<noteq> node_name me) (cnodes s)\<rparr>;
      (s, ok) \<leftarrow> clusterAddNode s (myself s);
      Some s
    }"

definition clusterReset :: "cluster_env \<Rightarrow> clusterState \<Rightarrow> bool \<Rightarrow> clusterState option" where
  "clusterReset E s hard =
    do {
      me \<leftarrow> cheap s (myself s);
      s \<leftarrow> (if nodeIsSlave me then do {
              s \<leftarrow> clusterSetNodeAsMaster s (myself s);
              Some (emit (emit s ReplicationUnsetMaster) EmptyDb)
            } else Some s);
      let s = resetManualFailover E (clusterCloseAllSlots s);
      s \<leftarrow> loop del_slot [0..<REDIS_CLUSTER_SLOTS] s;
      s \<leftarrow> loop (forget_others E) (cnodes s) s;
      s \<leftarrow> (if hard then rename_self E s else Some s);
      Some (clusterDoBeforeSleep s {TODO_SAVE_CONFIG, TODO_UPDATE_STATE, TODO_FSYNC_CONFIG})
    }"

definition reset_command :: "cluster_env \<Rightarrow> clusterState \<Rightarrow> bytes option \<Rightarrow> answer" where
  "reset_command E s opt =
    do {
      me \<leftarrow> cheap s (myself s);
      let hard = (case opt of None \<Rightarrow> False | Some a \<Rightarrow> caseq a ''hard'');
      if (case opt of None \<Rightarrow> False | Some a \<Rightarrow> \<not> caseq a ''hard'' \<and> \<not> caseq a ''soft'') then Some (s, reply_syntax)
      else if nodeIsMaster me \<and> db_keys E \<noteq> 0 then
        Some (s, reply_error (str ''CLUSTER RESET can'' @ [39] @ str ''t be called with master nodes containing keys''))
      else map_option (\<lambda>s. (s, reply_ok)) (clusterReset E s hard)
    }"

text \<open>The counters of INFO over the slots: assigned, fine, maybe failing, failing.\<close>

definition info_slot :: "clusterState \<Rightarrow> nat \<Rightarrow> nat \<times> nat \<times> nat \<times> nat \<Rightarrow> (nat \<times> nat \<times> nat \<times> nat) option" where
  "info_slot s j = (\<lambda>(assigned, fine, pfail, failing).
    case cslots s j of
      None \<Rightarrow> Some (assigned, fine, pfail, failing)
    | Some r \<Rightarrow> do {
        n \<leftarrow> cheap s r;
        Some (if nodeFailed n then (assigned + 1, fine, pfail, failing + 1)
              else if nodeTimedOut n then (assigned + 1, fine, pfail + 1, failing)
              else (assigned + 1, fine + 1, pfail, failing))
      })"

definition info_command :: "command_env \<Rightarrow> clusterState \<Rightarrow> bytes option" where
  "info_command E s =
    do {
      (assigned, fine, pfail, failing) \<leftarrow> loop (info_slot s) [0..<REDIS_CLUSTER_SLOTS] (0, 0, 0, 0);
      me \<leftarrow> cheap s (myself s);
      myepoch \<leftarrow> (case slaveof me of
                    Some m \<Rightarrow> if nodeIsSlave me then do { mn \<leftarrow> cheap s m; Some (configEpoch mn) }
                              else Some (configEpoch me)
                  | None \<Rightarrow> Some (configEpoch me));
      Some (reply_bulk
        (str ''cluster_state:'' @ (case health s of REDIS_CLUSTER_OK \<Rightarrow> str ''ok'' | _ \<Rightarrow> str ''fail'') @ CRLF @
         str ''cluster_slots_assigned:'' @ dec_nat assigned @ CRLF @
         str ''cluster_slots_ok:'' @ dec_nat fine @ CRLF @
         str ''cluster_slots_pfail:'' @ dec_nat pfail @ CRLF @
         str ''cluster_slots_fail:'' @ dec_nat failing @ CRLF @
         str ''cluster_known_nodes:'' @ dec_nat (length (cnodes s)) @ CRLF @
         str ''cluster_size:'' @ int_dec (csize s) @ CRLF @
         str ''cluster_current_epoch:'' @ dec_nat (unat (currentEpoch s)) @ CRLF @
         str ''cluster_my_epoch:'' @ dec_nat (unat myepoch) @ CRLF @
         str ''cluster_stats_messages_sent:'' @ int_dec (stats_bus_messages_sent E) @ CRLF @
         str ''cluster_stats_messages_received:'' @ int_dec (stats_bus_messages_received E) @ CRLF))
    }"

definition slot_number :: "bytes \<Rightarrow> bytes \<Rightarrow> (nat \<Rightarrow> bytes) \<Rightarrow> bytes" where
  "slot_number a msg act =
    (case ll_of_bytes a of
       None \<Rightarrow> not_integer
     | Some slot \<Rightarrow> if slot <s 0 \<or> 16384 \<le>s slot then reply_error msg else act (unat slot))"

text \<open>
  GETKEYSINSLOT: the limit is cut to 32 bits by the call.  The arguments are read before any of
  the values is checked.
\<close>

definition getkeysinslot_command :: "command_env \<Rightarrow> bytes \<Rightarrow> bytes \<Rightarrow> bytes" where
  "getkeysinslot_command E a b =
    (case (ll_of_bytes a, ll_of_bytes b) of
       (Some slot, Some maxkeys) \<Rightarrow>
         if slot <s 0 \<or> 16384 \<le>s slot \<or> maxkeys <s 0 then reply_error (str ''Invalid slot or number of keys'')
         else let ks = getKeysInSlot E (unat slot) (ucast maxkeys)
              in reply_multi (length ks) @ concat (map reply_bulk ks)
     | _ \<Rightarrow> not_integer)"

section \<open>The command\<close>

text \<open>
  \<open>clusterCommand\<close> for a request with at least one argument after the name of the command (the
  command table demands it), in the order of its tests.
\<close>

definition clusterCommand :: "command_env \<Rightarrow> clusterState \<Rightarrow> bytes list \<Rightarrow> answer" where
  "clusterCommand CE s args =
    (let E = cluster_env.truncate CE; argc = length args; is = caseq (args ! 1)
     in if is ''meet'' \<and> argc = 4 then meet_command E s (args ! 2) (args ! 3)
        else if is ''nodes'' \<and> argc = 2 then
          map_option (\<lambda>ci. (s, reply_bulk ci)) (clusterGenNodesDescription s {})
        else if is ''myid'' \<and> argc = 2 then
          map_option (\<lambda>me. (s, reply_bulk (node_name me))) (cheap s (myself s))
        else if is ''slots'' \<and> argc = 2 then map_option (\<lambda>r. (s, r)) (clusterReplyMultiBulkSlots s)
        else if is ''flushslots'' \<and> argc = 2 then flushslots_command E s
        else if (is ''addslots'' \<or> is ''delslots'') \<and> argc \<ge> 3 then
          addslots_command s (is ''delslots'') (drop 2 args)
        else if is ''setslot'' \<and> argc \<ge> 4 then setslot_command E s args
        else if is ''info'' \<and> argc = 2 then map_option (\<lambda>r. (s, r)) (info_command CE s)
        else if is ''saveconfig'' \<and> argc = 2 then
          Some (case save_error CE of
                  None \<Rightarrow> (clusterSaveConfig s True, reply_ok)
                | Some e \<Rightarrow> (s\<lparr>todo_before_sleep := todo_before_sleep s - {TODO_SAVE_CONFIG}\<rparr>,
                             reply_errorf (str ''error saving the cluster node config: '' @ e)))
        else if is ''keyslot'' \<and> argc = 3 then
          Some (s, reply_int (uint (keyHashSlot (args ! 2))))
        else if is ''countkeysinslot'' \<and> argc = 3 then
          Some (s, slot_number (args ! 2) (str ''Invalid slot'') (\<lambda>j. reply_int (int (keys_in_slot E j))))
        else if is ''getkeysinslot'' \<and> argc = 4 then Some (s, getkeysinslot_command CE (args ! 2) (args ! 3))
        else if is ''forget'' \<and> argc = 3 then forget_command E s (args ! 2)
        else if is ''replicate'' \<and> argc = 3 then replicate_command E s (args ! 2)
        else if is ''slaves'' \<and> argc = 3 then slaves_command s (args ! 2)
        else if is ''count-failure-reports'' \<and> argc = 3 then count_reports_command E s (args ! 2)
        else if is ''failover'' \<and> (argc = 2 \<or> argc = 3) then
          failover_command E s (if argc = 3 then Some (args ! 2) else None)
        else if is ''set-config-epoch'' \<and> argc = 3 then set_config_epoch_command s (args ! 2)
        else if is ''reset'' \<and> (argc = 2 \<or> argc = 3) then
          reset_command E s (if argc = 3 then Some (args ! 2) else None)
        else Some (s, reply_error (str ''Wrong CLUSTER subcommand or number of arguments'')))"

end
