(* ===== verification/Cluster_Run.thy ===== *)
theory Cluster_Run
  imports Cluster_Timer Cluster_Cmd
begin

text \<open>
  Runs of one server of the cluster: packets, the timer, the hook before the event loop sleeps and
  the subcommands of CLUSTER, in any order.  In every state of a run the table of slots, the
  bitmaps of the nodes and their counters agree.
\<close>

section \<open>Subcommands\<close>

lemma calm_refl: "cluster_inv s \<Longrightarrow> calm s s"
  by (simp add: calm_def)

lemma calm_frame: "frame t = frame s \<Longrightarrow> cluster_inv s \<Longrightarrow> calm s t"
  by (intro quiet_calm frame_quiet)

lemma calm_inv: "calm s t \<Longrightarrow> cluster_inv t"
  by (simp add: calm_def)

lemma calm_then_frame: "calm s t \<Longrightarrow> frame u = frame t \<Longrightarrow> calm s u"
  by (rule calm_quiet [OF _ frame_quiet])

lemma frame_then_calm: "frame t = frame s \<Longrightarrow> calm t u \<Longrightarrow> calm s u"
  by (rule calm_trans_quiet [OF frame_quiet])

lemma slots_of_cluster: "cluster_inv s \<Longrightarrow> slots_inv s"
  by (simp add: cluster_inv_def)

lemma meet_command_calm: "meet_command E s ip p = Some (s', out) \<Longrightarrow> cluster_inv s \<Longrightarrow> calm s s'"
  by (auto simp: meet_command_def bind_eq_Some_conv calm_refl split: option.splits if_splits
      intro: quiet_calm clusterStartHandshake_quiet)

lemma flushslots_command_calm: "flushslots_command E s = Some (s', out) \<Longrightarrow> cluster_inv s \<Longrightarrow> calm s s'"
  by (auto simp: flushslots_command_def bind_eq_Some_conv calm_refl split: if_splits
      intro!: calm_then_frame [OF quiet_calm [OF clusterDelNodeSlots_quiet]])

lemma change_slot_step:
  assumes "slots_inv s" "j < REDIS_CLUSTER_SLOTS" "change_slot del j s = Some s'"
  shows "slot_step s s'"
proof -
  define t where "t = s\<lparr>importing_slots_from := (importing_slots_from s)(j := None)\<rparr>"
  have st: "slot_step s t" by (rule slot_step_frame) (simp add: t_def)
  then have inv: "slots_inv t" using assms(1) by (simp add: slot_step_def)
  have "slot_step t s'"
  proof (cases del)
    case True
    obtain u where "del_slot j t = Some u" "slot_step t u" using del_slot_step [OF inv, of j] by metis
    with assms(3) True show ?thesis
      by (auto simp: change_slot_def del_slot_def bind_eq_Some_conv t_def [symmetric] split: if_splits)
  next
    case False
    with assms(3) have "add_slot (myself t) j t = Some s'"
      by (auto simp: change_slot_def add_slot_def bind_eq_Some_conv t_def [symmetric] split: if_splits)
    then show ?thesis by (rule add_slot_step(1) [OF inv assms(2)])
  qed
  with st show ?thesis by (rule slot_step_trans)
qed

lemma addslots_command_calm:
  assumes "addslots_command s del as = Some (s', out)" "cluster_inv s"
  shows "calm s s'"
proof (cases "check_slots s del as []")
  case (Inr e)
  with assms show ?thesis by (simp add: addslots_command_def calm_refl)
next
  case (Inl js)
  with assms(1) obtain t where t:
      "loop (\<lambda>j s. if j \<in> set js then change_slot del j s else Some s) [0..<REDIS_CLUSTER_SLOTS] s = Some t"
    and s': "s' = clusterDoBeforeSleep t {TODO_UPDATE_STATE, TODO_SAVE_CONFIG}"
    by (auto simp: addslots_command_def bind_eq_Some_conv)
  have "slot_step s t"
    by (rule loop_slot_step [where g = "\<lambda>s. s", OF t slots_of_cluster [OF assms(2)]])
      (auto split: if_splits intro: change_slot_step)
  from quiet_calm [OF slot_step_quiet [OF this] assms(2)] show ?thesis
    unfolding s' by (rule calm_then_frame) simp
qed

lemma clusterBump_calm:
  assumes "clusterBumpConfigEpochWithoutConsensus s = Some (s', b)" "cluster_inv s"
  shows "calm s s'"
proof -
  from assms(1) obtain me where me: "cheap s (myself s) = Some me" and "s' = s \<or>
      s' = clusterDoBeforeSleep ((set_node s (myself s) (me\<lparr>configEpoch := currentEpoch s + 1\<rparr>))
                   \<lparr>currentEpoch := currentEpoch s + 1\<rparr>) {TODO_SAVE_CONFIG, TODO_FSYNC_CONFIG}"
    by (auto simp: clusterBumpConfigEpochWithoutConsensus_def bind_eq_Some_conv split: if_splits)
  then show ?thesis
    using calm_refl [OF assms(2)]
      calm_then_frame [OF own_epoch_calm [OF me assms(2)] clusterDoBeforeSleep_frame] by metis
qed

lemma setslot_node_calm:
  assumes "setslot_node E s slot n = Some (s', out)" "cluster_inv s" "slot < REDIS_CLUSTER_SLOTS"
  shows "calm s s'"
proof (cases "cslots s slot = Some (myself s) \<and> n \<noteq> myself s \<and> keys_in_slot E slot \<noteq> 0")
  case True
  with assms(1,2) show ?thesis by (simp add: setslot_node_def calm_refl)
next
  case False
  define t where "t = (if keys_in_slot E slot = 0 \<and> migrating_slots_to s slot \<noteq> None
                then s\<lparr>migrating_slots_to := (migrating_slots_to s)(slot := None)\<rparr> else s)"
  have ft: "frame t = frame s" by (simp add: t_def)
  have it: "cluster_inv t" using cluster_inv_frame [OF ft] assms(2) by simp
  from assms(1) False obtain u v w where
      u: "(if n = myself t \<and> importing_slots_from t slot \<noteq> None then do {
               (s, bumped) \<leftarrow> clusterBumpConfigEpochWithoutConsensus t;
               Some (s\<lparr>importing_slots_from := (importing_slots_from s)(slot := None)\<rparr>)
             } else Some t) = Some u"
    and v: "del_slot slot u = Some v" and w: "add_slot n slot v = Some w" and s': "setslot_done w = Some (s', out)"
    unfolding setslot_node_def if_not_P [OF False] Let_def t_def bind_eq_Some_conv by blast
  have tu: "calm t u"
  proof (cases "n = myself t \<and> importing_slots_from t slot \<noteq> None")
    case True
    with u obtain x b where x: "clusterBumpConfigEpochWithoutConsensus t = Some (x, b)"
        "u = x\<lparr>importing_slots_from := (importing_slots_from x)(slot := None)\<rparr>"
      by (auto simp: bind_eq_Some_conv)
    show ?thesis by (rule calm_then_frame [OF clusterBump_calm [OF x(1) it]]) (simp add: x(2))
  qed (use u it calm_refl in auto)
  have "slot_step u w"
    by (rule move_slot_step(1) [OF slots_of_cluster [OF calm_inv [OF tu]] assms(3) v w])
  then have "calm t w" by (rule calm_quiet [OF tu slot_step_quiet])
  moreover have "frame s' = frame w" using s' by (auto simp: setslot_done_def)
  ultimately show ?thesis by (rule frame_then_calm [OF ft calm_then_frame])
qed

lemma getSlotOrReply_range:
  assumes "getSlotOrReply a = Inl slot"
  shows "slot < REDIS_CLUSTER_SLOTS"
proof -
  from assms obtain v where v: "ll_of_bytes a = Some v" by (cases "ll_of_bytes a") (auto simp: getSlotOrReply_def)
  with assms have "slot = unat v" "0 \<le> sint v" "sint v < 16384"
    by (auto simp: getSlotOrReply_def word_sless_alt word_sle_eq not_le not_less split: if_splits)
  then show ?thesis using nat_sint [of v] by (simp add: REDIS_CLUSTER_SLOTS_def)
qed

lemma setslot_command_calm:
  assumes "setslot_command E s args = Some (s', out)" "cluster_inv s"
  shows "calm s s'"
proof (cases "getSlotOrReply (args ! 2)")
  case (Inr e)
  with assms show ?thesis by (simp add: setslot_command_def calm_refl)
next
  case (Inl slot)
  have fr: "calm s (fst r)" if "setslot_done t = Some r" "frame t = frame s" for r t
    using that assms(2) by (auto simp: setslot_done_def intro: calm_frame)
  have "post (setslot_command E s args) (\<lambda>r. calm s (fst r))"
    unfolding setslot_command_def Inl sum.case
    by (rule vcg | rule post_any | (simp add: assms(2) calm_refl)[1] |
        (auto intro: fr setslot_node_calm [OF _ assms(2) getSlotOrReply_range [OF Inl]])[1])+
  from post_use [OF assms(1) this] show ?thesis by simp
qed

text \<open>The subcommands about a known node.\<close>

lemma known_node_cases:
  assumes "known_node s a act = Some (s', out)"
  obtains "s' = s" | nm r where "(nm, r) \<in> set (cnodes s)" "act r = Some (s', out)"
  using assms
  by (auto simp: known_node_def lookup_arg_def clusterLookupNode_def bind_eq_Some_conv split: if_splits option.splits
      dest: map_of_SomeD)

lemma shrinks_hushed:
  assumes "shrinks r s t" "cluster_inv s" "r \<noteq> myself s"
  shows "hushed s t"
  using assms by (auto simp: shrinks_def hushed_def own_entry_def)

lemma clusterDelNode_hushed:
  "clusterDelNode E s r = Some s' \<Longrightarrow> cluster_inv s \<Longrightarrow> r \<noteq> myself s \<Longrightarrow> r \<in> snd ` set (cnodes s) \<Longrightarrow> hushed s s'"
  by (rule shrinks_hushed [OF clusterDelNode_shrinks])

lemma forget_command_calm:
  assumes "forget_command E s a = Some (s', out)" "cluster_inv s"
  shows "calm s s'"
  using assms(1) unfolding forget_command_def
proof (cases rule: known_node_cases)
  case 1
  then show ?thesis using calm_refl [OF assms(2)] by simp
next
  case (2 nm r)
  from 2(2) consider "s' = s" | n u where "r \<noteq> myself s" "clusterDelNode E (clusterBlacklistAddNode E s n) r = Some u"
      "s' = clusterDoBeforeSleep u {TODO_UPDATE_STATE, TODO_SAVE_CONFIG}"
    by (auto simp: bind_eq_Some_conv split: if_splits)
  then show ?thesis
  proof cases
    case 1
    then show ?thesis using calm_refl [OF assms(2)] by simp
  next
    case (2 n u)
    define t where "t = clusterBlacklistAddNode E s n"
    have f: "frame t = frame s" by (simp add: t_def)
    then have same: "myself t = myself s" "cnodes t = cnodes s" by (simp_all add: frame_def table_view_def)
    have it: "cluster_inv t" using cluster_inv_frame [OF f] assms(2) by simp
    have "r \<in> snd ` set (cnodes t)" using same \<open>(nm, r) \<in> set (cnodes s)\<close> by force
    then have "hushed t u"
      using clusterDelNode_hushed [OF 2(2) [folded t_def] it] 2(1) same by simp
    from calm_then_frame [OF hushed_calm [OF this]] show ?thesis
      by (intro frame_then_calm [OF f]) (simp add: 2(3))
  qed
qed

lemma replicate_command_calm:
  assumes "replicate_command E s a = Some (s', out)" "cluster_inv s"
  shows "calm s s'"
  using assms(1) unfolding replicate_command_def
proof (cases rule: known_node_cases)
  case (2 nm r)
  then have "frame s' = frame s"
    by (auto simp: bind_eq_Some_conv split: if_splits dest: clusterSetMaster_frame)
  then show ?thesis using assms(2) by (rule calm_frame)
qed (use calm_refl [OF assms(2)] in simp)

lemma slaves_command_calm: "slaves_command s a = Some (s', out) \<Longrightarrow> cluster_inv s \<Longrightarrow> calm s s'"
  unfolding slaves_command_def
  by (erule known_node_cases) (auto simp: bind_eq_Some_conv calm_refl split: if_splits)

lemma count_reports_command_calm:
  "count_reports_command E s a = Some (s', out) \<Longrightarrow> cluster_inv s \<Longrightarrow> calm s s'"
  unfolding count_reports_command_def
  by (erule known_node_cases)
    (auto simp: bind_eq_Some_conv calm_refl clusterNodeFailureReportsCount_def clusterNodeCleanupFailureReports_def
      Let_def set_node_frame intro!: calm_frame)

lemma failover_command_calm:
  assumes "failover_command E s opt = Some (s', out)" "cluster_inv s"
  shows "calm s s'"
proof -
  have main: "calm s t"
    if "(if tk then do {
            (s, bumped) \<leftarrow> clusterBumpConfigEpochWithoutConsensus v;
            clusterFailoverReplaceYourMaster E s
          } else if fc then Some (v\<lparr>mf_can_start := True\<rparr>) else clusterSendMFStart E v m) = Some t"
      "v = (resetManualFailover E s)\<lparr>mf_end := k\<rparr>" for t v tk fc m k
  proof -
    have f: "frame v = frame s" by (simp add: that(2))
    have iv: "cluster_inv v" using cluster_inv_frame [OF f] assms(2) by simp
    have "calm v t"
    proof (cases tk)
      case True
      with that(1) obtain u b where u: "clusterBumpConfigEpochWithoutConsensus v = Some (u, b)"
          "clusterFailoverReplaceYourMaster E u = Some t" by (auto simp: bind_eq_Some_conv)
      note cu = clusterBump_calm [OF u(1) iv]
      show ?thesis
        by (rule calm_quiet [OF cu slot_step_quiet])
          (rule clusterFailoverReplaceYourMaster_step [OF slots_of_cluster [OF calm_inv [OF cu]] u(2)])
    next
      case False
      with that(1) have "frame t = frame v" by (auto split: if_splits dest: clusterSendMFStart_frame)
      then show ?thesis using iv by (rule calm_frame)
    qed
    then show ?thesis by (rule frame_then_calm [OF f])
  qed
  have "post (failover_command E s opt) (\<lambda>r. calm s (fst r))"
    unfolding failover_command_def
    by (rule post_rules(1,4,5,6) | rule post_rules(3), rule post_any | (simp add: assms(2) calm_refl)[1] |
        (auto intro: main)[1])+
  from post_use [OF assms(1) this] show ?thesis by simp
qed

lemma set_config_epoch_command_calm:
  assumes "set_config_epoch_command s a = Some (s', out)" "cluster_inv s"
  shows "calm s s'"
proof -
  have main: "calm s (clusterDoBeforeSleep u td)"
    if "cheap s (myself s) = Some me" "t = set_node s (myself s) (me\<lparr>configEpoch := e\<rparr>)"
      "u = (if currentEpoch t < e then t\<lparr>currentEpoch := e\<rparr> else t)" for me t e u td
  proof -
    have f: "frame t = frame s" using set_node_frame [OF that(1)] by (simp add: that(2))
    have it: "cluster_inv t" using cluster_inv_frame [OF f] assms(2) by simp
    have "calm t u"
      using it set_epoch_inv [where s = t and e = e] by (auto simp: that(3) calm_def election_view_def own_entry_def)
    from calm_then_frame [OF this] show ?thesis by (intro frame_then_calm [OF f]) simp
  qed
  have "post (set_config_epoch_command s a) (\<lambda>r. calm s (fst r))"
    unfolding set_config_epoch_command_def
    by (rule vcg | rule post_any | (unfold fst_conv, erule (2) main)[1] | (simp add: assms(2) calm_refl)[1])+
  from post_use [OF assms(1) this] show ?thesis by simp
qed

text \<open>A reset also gives up the epochs and, when it is hard, the name.\<close>

lemma forget_others_loop:
  assumes "loop (forget_others E) ps s = Some s'" "cluster_inv s" "set ps \<subseteq> set (cnodes s)" "distinct (map snd ps)"
  shows "hushed s s'"
  using assms
proof (induction ps arbitrary: s)
  case Nil
  then show ?case by (simp add: hushed_refl)
next
  case (Cons p ps)
  obtain nm r where p: "p = (nm, r)" by (cases p)
  from Cons.prems(1) obtain t where t: "forget_others E (nm, r) s = Some t" "loop (forget_others E) ps t = Some s'"
    by (auto simp: p bind_eq_Some_conv)
  show ?case
  proof (cases "r = myself s")
    case True
    with t(1) have "t = s" by (simp add: forget_others_def)
    with Cons.IH [OF t(2)] Cons.prems show ?thesis by simp
  next
    case False
    have r: "r \<in> snd ` set (cnodes s)" using Cons.prems(3) by (force simp: p)
    have sh: "shrinks r s t" using t(1) False clusterDelNode_shrinks [OF _ Cons.prems(2) False r]
      by (simp add: forget_others_def)
    then have h: "hushed s t" by (rule shrinks_hushed [OF _ Cons.prems(2) False])
    have "set ps \<subseteq> set (cnodes t)"
      using Cons.prems(3,4) sh by (auto simp: p shrinks_def image_iff)
    with Cons.IH [OF t(2) hushed_inv [OF h]] Cons.prems(4) have "hushed t s'" by simp
    with h show ?thesis by (rule hushed_trans)
  qed
qed

lemma forget_others_alone:
  assumes "loop (forget_others E) (cnodes s) s = Some s'" "cluster_inv s"
  shows "set (cnodes s') \<subseteq> own_entry s'"
proof -
  have "set (cnodes s') \<subseteq> set (cnodes s) - set (filter (\<lambda>p. snd p \<noteq> myself s) ps) \<and> myself s' = myself s"
    if "loop (forget_others E) ps s = Some s'" "cluster_inv s" "set ps \<subseteq> set (cnodes s)" "distinct (map snd ps)" for ps s
    using that
  proof (induction ps arbitrary: s)
    case Nil
    then show ?case by simp
  next
    case (Cons p ps)
    obtain nm r where p: "p = (nm, r)" by (cases p)
    from Cons.prems(1) obtain t where t: "forget_others E (nm, r) s = Some t" "loop (forget_others E) ps t = Some s'"
      by (auto simp: p bind_eq_Some_conv)
    show ?case
    proof (cases "r = myself s")
      case True
      with t(1) have "t = s" by (simp add: forget_others_def)
      with Cons.IH [OF t(2)] Cons.prems True show ?thesis by (auto simp: p)
    next
      case False
      have r: "r \<in> snd ` set (cnodes s)" using Cons.prems(3) by (force simp: p)
      have sh: "shrinks r s t" using t(1) False clusterDelNode_shrinks [OF _ Cons.prems(2) False r]
        by (simp add: forget_others_def)
      have "set ps \<subseteq> set (cnodes t)"
        using Cons.prems(3,4) sh by (auto simp: p shrinks_def image_iff)
      from Cons.IH [OF t(2) hushed_inv [OF shrinks_hushed [OF sh Cons.prems(2) False]] this] Cons.prems(4)
      show ?thesis using sh False by (auto simp: p shrinks_def)
    qed
  qed
  from this [OF assms subset_refl cnodes_distinct [OF assms(2)]] show ?thesis
    by (auto simp: own_entry_def)
qed

lemma slots_inv_counts:
  assumes "\<And>r. map_option snd (node_view t r) = map_option snd (node_view s r)" "cslots t = cslots s"
    "next_ref t = next_ref s"
  shows "slots_inv t = slots_inv s"
proof -
  have alt: "slots_inv u \<longleftrightarrow>
     (\<forall>j r. cslots u j = Some r \<longrightarrow> j < REDIS_CLUSTER_SLOTS \<and> map_option snd (node_view u r) \<noteq> None) \<and>
     (\<forall>r bm k. map_option snd (node_view u r) = Some (bm, k) \<longrightarrow>
        r < next_ref u \<and> length bm = 2048 \<and> k = int (card (claimed bm)) \<and>
        claimed bm = {j. cslots u j = Some r})" for u
    by (fastforce simp: slots_inv_def)
  show ?thesis unfolding alt using assms by simp
qed

lemma rename_self_inv:
  assumes "rename_self E s = Some s'" "cluster_inv s" "set (cnodes s) \<subseteq> own_entry s"
  shows "cluster_inv s' \<and> myself s' = myself s"
proof -
  obtain me where me: "cheap s (myself s) = Some me" using assms(2) by (rule cluster_inv_me)
  define nm where "nm = rnd_name E (myself s)"
  have own: "own_entry s = {(node_name me, myself s)}" by (rule own_entry_name [OF assms(2) me])
  then have none: "filter (\<lambda>(x, q). x \<noteq> node_name me) (cnodes s) = []"
    using assms(3) by (auto simp: filter_empty_conv)
  define t where "t = (set_node s (myself s) (me\<lparr>configEpoch := 0, node_name := nm\<rparr>))
       \<lparr>currentEpoch := 0, lastVoteEpoch := 0, cnodes := []\<rparr>"
  have "clusterAddNode t (myself s) = Some (t\<lparr>cnodes := [(nm, myself s)]\<rparr>, True)"
    by (simp add: clusterAddNode_def t_def)
  then have s': "s' = t\<lparr>cnodes := [(nm, myself s)]\<rparr>"
    using assms(1) unfolding rename_self_def Let_def me bind.bind_lunit none nm_def [symmetric] t_def by simp
  have mine: "REDIS_NODE_MYSELF \<in> node_flags me"
    using cluster_inv_me [OF assms(2)] me by auto
  have nv: "map_option snd (node_view s' r) = map_option snd (node_view s r)" for r
    using me by (simp add: s' t_def node_view_def)
  have "slots_inv s' = slots_inv s"
    by (rule slots_inv_counts [OF nv]) (simp_all add: s' t_def)
  with slots_of_cluster [OF assms(2)] have si: "slots_inv s'" by simp
  have "nodes_inv s'"
    using mine by (simp add: nodes_inv_def node_view_def s' t_def)
  with si show ?thesis by (simp add: cluster_inv_def s' t_def)
qed

lemma clusterReset_inv:
  assumes "clusterReset E s hard = Some s'" "cluster_inv s"
  shows "cluster_inv s' \<and> myself s' = myself s"
proof -
  obtain me where me: "cheap s (myself s) = Some me" using assms(2) by (rule cluster_inv_me)
  from assms(1) me obtain t u v w where
      t: "(if nodeIsSlave me then do { s \<leftarrow> clusterSetNodeAsMaster s (myself s);
              Some (emit (emit s ReplicationUnsetMaster) EmptyDb) } else Some s) = Some t"
    and u: "loop del_slot [0..<REDIS_CLUSTER_SLOTS] (resetManualFailover E (clusterCloseAllSlots t)) = Some u"
    and v: "loop (forget_others E) (cnodes u) u = Some v"
    and w: "(if hard then rename_self E v else Some v) = Some w"
    and s': "s' = clusterDoBeforeSleep w {TODO_SAVE_CONFIG, TODO_UPDATE_STATE, TODO_FSYNC_CONFIG}"
    unfolding clusterReset_def Let_def bind_eq_Some_conv by auto
  have two: "frame (y\<lparr>effects := effects y @ [ReplicationUnsetMaster, EmptyDb]\<rparr>) = frame y" for y
    by (simp add: frame_defs)
  have "frame t = frame s"
    using t by (auto simp: bind_eq_Some_conv two split: if_splits dest!: clusterSetNodeAsMaster_frame)
  then have ft: "frame (resetManualFailover E (clusterCloseAllSlots t)) = frame s" by simp
  have it: "cluster_inv (resetManualFailover E (clusterCloseAllSlots t))" using cluster_inv_frame [OF ft] assms(2) by simp
  have "slot_step (resetManualFailover E (clusterCloseAllSlots t)) u"
    by (rule loop_slot_step [where g = "\<lambda>s. s", OF u slots_of_cluster [OF it]]) (metis del_slot_step option.inject)
  from quiet_inv [OF slot_step_quiet [OF this] it] this ft have iu: "cluster_inv u" "myself u = myself s"
    by (simp_all add: slot_step_def frame_def table_view_def)
  have h: "hushed u v" by (rule forget_others_loop [OF v iu(1) subset_refl cnodes_distinct [OF iu(1)]])
  have "cluster_inv w \<and> myself w = myself s"
  proof (cases hard)
    case True
    have "set (cnodes v) \<subseteq> own_entry v" by (rule forget_others_alone [OF v iu(1)])
    with rename_self_inv [OF _ hushed_inv [OF h]] w True h iu(2) show ?thesis by (simp add: hushed_def)
  qed (use w h iu(2) in \<open>simp add: hushed_def\<close>)
  then show ?thesis
    using cluster_inv_frame [of s' w] by (simp add: s')
qed

section \<open>The command\<close>

definition is_reset :: "bytes list \<Rightarrow> bool" where
  "is_reset args \<longleftrightarrow> caseq (args ! 1) ''reset''"

lemma clusterCommand_calm:
  assumes "clusterCommand E s args = Some (s', out)" "cluster_inv s" "\<not> is_reset args"
  shows "calm s s'"
  using assms unfolding clusterCommand_def Let_def is_reset_def
  by (auto split: if_split_asm option.splits simp: calm_refl
      intro: meet_command_calm flushslots_command_calm addslots_command_calm setslot_command_calm forget_command_calm
        replicate_command_calm slaves_command_calm count_reports_command_calm failover_command_calm
        set_config_epoch_command_calm calm_frame)

lemma clusterCommand_inv:
  assumes "clusterCommand E s args = Some (s', out)" "cluster_inv s"
  shows "cluster_inv s'" "myself s' = myself s"
proof -
  have "cluster_inv s' \<and> myself s' = myself s"
  proof (cases "is_reset args")
    case False
    with clusterCommand_calm [OF assms] show ?thesis by (simp add: calm_def)
  next
    case True
    then have "map tolower (c_str (args ! 1)) = str ''reset''" by (simp add: is_reset_def caseq_def)
    then have "clusterCommand E s args =
        (if length args = 2 \<or> length args = 3
         then reset_command (cluster_env.truncate E) s (if length args = 3 then Some (args ! 2) else None)
         else Some (s, reply_error (str ''Wrong CLUSTER subcommand or number of arguments'')))"
      by (simp add: clusterCommand_def caseq_def)
    with assms show ?thesis
      by (auto simp: reset_command_def bind_eq_Some_conv Let_def split: if_split_asm dest: clusterReset_inv)
  qed
  then show "cluster_inv s'" "myself s' = myself s" by simp_all
qed

section \<open>Runs\<close>

lemma clusterCron_inv:
  assumes "clusterCron E s = Some s'" "cluster_inv s"
  shows "cluster_inv s' \<and> myself s' = myself s"
  using assms
proof (cases rule: clusterCron_phases)
  case (1 t)
  then have "hushed s s'" by (rule hushed_then_frame)
  then show ?thesis by (simp add: hushed_def)
next
  case (2 t u)
  note iu = clusterHandleSlaveFailover_inv [OF 2(2) hushed_inv [OF 2(1)]]
  with frame_hushed [OF 2(3)] 2(1) show ?thesis by (simp add: hushed_def)
qed

lemma clusterBeforeSleep_inv:
  assumes "clusterBeforeSleep E s = Some s'" "cluster_inv s"
  shows "cluster_inv s' \<and> myself s' = myself s"
proof -
  from assms(1) obtain t u where
      t: "(if TODO_HANDLE_FAILOVER \<in> todo_before_sleep s then clusterHandleSlaveFailover E s else Some s) = Some t"
    and u: "(if TODO_UPDATE_STATE \<in> todo_before_sleep t then clusterUpdateState E t else Some t) = Some u"
    and s': "s' = (if TODO_SAVE_CONFIG \<in> todo_before_sleep u
               then clusterSaveConfig u (TODO_FSYNC_CONFIG \<in> todo_before_sleep u) else u)\<lparr>todo_before_sleep := {}\<rparr>"
    unfolding clusterBeforeSleep_def Let_def bind_eq_Some_conv by blast
  have it: "cluster_inv t \<and> myself t = myself s"
    using t assms(2) clusterHandleSlaveFailover_inv by (auto split: if_splits)
  have "frame s' = frame t"
    using u by (auto simp: s' split: if_splits dest: clusterUpdateState_frame)
  from frame_hushed [OF this] it show ?thesis by (simp add: hushed_def)
qed

text \<open>
  The state \<open>clusterInit\<close> makes when there is no configuration file: the server knows itself under a
  random name.  \<open>failover_auth_sent\<close> is not set and has the value the allocated memory had.
\<close>

definition clusterInit :: "cluster_env \<Rightarrow> bytes \<Rightarrow> bool \<Rightarrow> clusterState" where
  "clusterInit E name garbage =
    clusterSaveConfig
      \<lparr>myself = 0, currentEpoch = 0, health = REDIS_CLUSTER_FAIL, csize = 1,
       cheap = [0 \<mapsto> (createClusterNode (now E) name {REDIS_NODE_MYSELF, REDIS_NODE_MASTER})
                       \<lparr>node_port := server_port E\<rparr>],
       cnodes = [(name, 0)], next_ref = 1, black_list = [], migrating_slots_to = (\<lambda>_. None),
       importing_slots_from = (\<lambda>_. None), cslots = (\<lambda>_. None), failover_auth_time = 0,
       failover_auth_count = 0, failover_auth_sent = garbage, failover_auth_rank = 0, failover_auth_epoch = 0,
       cant_failover_reason = CANT_NONE, mf_end = 0, mf_slave = None, mf_master_offset = 0,
       mf_can_start = False, lastVoteEpoch = 0, todo_before_sleep = {}, fd_ids = [], cron_iteration = 0,
       first_call_time = 0, among_minority_time = 0, effects = []\<rparr> True"

text \<open>
  What can happen to a server.  A packet comes over a link that an unknown server has opened, or
  over the link of a node of the table: a node that is forgotten takes its link along.
\<close>

datatype cluster_event =
    Packet cluster_env "nref option" nat clusterMsg
  | Timer cluster_env
  | BeforeSleep cluster_env
  | Startup cluster_env
  | Command command_env "bytes list"

fun cluster_step :: "cluster_event \<Rightarrow> clusterState \<Rightarrow> clusterState option" where
  "cluster_step (Packet E l len m) s = (if link_ok s l then map_option fst (clusterProcessPacket E s l len m) else Some s)"
| "cluster_step (Timer E) s = clusterCron E s"
| "cluster_step (BeforeSleep E) s = clusterBeforeSleep E s"
| "cluster_step (Startup E) s = map_option fst (verifyClusterConfigWithData E s)"
| "cluster_step (Command E args) s = map_option fst (clusterCommand E s args)"

definition cluster_run :: "cluster_event list \<Rightarrow> clusterState \<Rightarrow> clusterState option" where
  "cluster_run es s = loop cluster_step es s"

text \<open>A packet of an election changes only the state of the election.\<close>

lemma election_packet:
  assumes "clusterProcessPacket E s l len m = Some (s', b)" "is_election m"
  obtains "s' = s"
  | t ce fe where "note_sender E s (clusterLookupNode s (m_sender m)) m = Some (t, ce, fe)"
      "m_type m = CLUSTERMSG_TYPE_FAILOVER_AUTH_REQUEST"
      "(case clusterLookupNode s (m_sender m) of None \<Rightarrow> Some t | Some r \<Rightarrow> clusterSendFailoverAuthIfNeeded E t r m) = Some s'"
  | t ce fe where "note_sender E s (clusterLookupNode s (m_sender m)) m = Some (t, ce, fe)"
      "m_type m = CLUSTERMSG_TYPE_FAILOVER_AUTH_ACK" "process_auth_ack t (clusterLookupNode s (m_sender m)) ce = Some s'"
  using assms(1)
proof (cases rule: clusterProcessPacket_split)
  case (2 t ce fe u)
  from 2(2) assms(2) have "u = t" by auto
  with 2 assms(2) that(2,3) show thesis by auto
qed (rule that(1))

lemma clusterProcessPacket_inv:
  assumes "clusterProcessPacket E s l len m = Some (s', b)" "cluster_inv s" "link_ok s l"
  shows "cluster_inv s' \<and> myself s' = myself s"
proof (cases "is_election m")
  case False
  with clusterProcessPacket_calm [OF assms] show ?thesis by (simp add: calm_def)
next
  case True
  have views: ?thesis if "cluster_inv t" "myself t = myself s" "table_view s' = table_view t" "node_view s' = node_view t" for t
    using that cluster_inv_views [of s' t] by (simp add: table_view_def)
  from assms(1) True show ?thesis
  proof (cases rule: election_packet)
    case 1
    with assms(2) show ?thesis by simp
  next
    case (2 t ce fe)
    note raise = note_sender_raise [OF 2(1)]
    have it: "cluster_inv t" using raise(1) assms(2) by simp
    show ?thesis
    proof (cases "clusterLookupNode s (m_sender m)")
      case None
      with 2(3) it raise(3) show ?thesis by simp
    next
      case (Some r)
      obtain me where "cheap t (myself t) = Some me" using it by (rule cluster_inv_me)
      from clusterSendFailoverAuthIfNeeded_votes [OF _ this] 2(3) Some
      show ?thesis by (intro views [OF it raise(3)]) (fastforce simp: frame_defs)+
    qed
  next
    case (3 t ce fe)
    note raise = note_sender_raise [OF 3(1)]
    have it: "cluster_inv t" using raise(1) assms(2) by simp
    from 3(3) have "table_view s' = table_view t \<and> node_view s' = node_view t"
      by (cases rule: process_auth_ack_cases) (auto simp: frame_defs)
    then show ?thesis by (intro views [OF it raise(3)]) simp_all
  qed
qed

lemma verify_inv:
  assumes "verifyClusterConfigWithData E s = Some (s', b)" "cluster_inv s"
  shows "cluster_inv s' \<and> myself s' = myself s"
  using verifyClusterConfigWithData_step [OF slots_of_cluster [OF assms(2)] assms(1)] assms(2)
  by (simp add: slot_step_inv) (simp add: slot_step_def)

lemma cluster_step_inv:
  assumes "cluster_step e s = Some s'" "cluster_inv s"
  shows "cluster_inv s' \<and> myself s' = myself s"
  using assms
  by (cases e) (auto split: if_splits dest: clusterProcessPacket_inv clusterCron_inv clusterBeforeSleep_inv
      verify_inv clusterCommand_inv)

lemma clusterInit_inv: "cluster_inv (clusterInit E name g)"
proof -
  have bit: "\<not> bitmapTestBit (replicate 2048 0) j" if "j < 16384" for j
    using that by (simp add: bitmapTestBit_def)
  then have none: "claimed (replicate 2048 0) = {}" by (auto simp: claimed_def REDIS_CLUSTER_SLOTS_def)
  show ?thesis
    by (auto simp: cluster_inv_def slots_inv_def nodes_inv_def node_view_def clusterInit_def clusterSaveConfig_def
        createClusterNode_def none split: if_splits)
qed

lemma cluster_run_inv:
  assumes "cluster_run es (clusterInit E name g) = Some s"
  shows "cluster_inv s \<and> myself s = 0"
proof (rule loop_induct [OF assms [unfolded cluster_run_def], of "\<lambda>s. cluster_inv s \<and> myself s = 0"])
  show "cluster_inv (clusterInit E name g) \<and> myself (clusterInit E name g) = 0"
    using clusterInit_inv by (simp add: clusterInit_def clusterSaveConfig_def)
qed (use cluster_step_inv in auto)

section \<open>A concrete server\<close>

text \<open>A server that has just started and is given slot 5.\<close>

definition quiet_env :: command_env where
  "quiet_env =
    \<lparr>now = 100000, unixtime = 100, cluster_node_timeout = 15000, require_full_coverage = True,
     slave_validity_factor = 10, repl_ping_slave_period = 10, migration_barrier = 1, repl_connected = False,
     master_lastinteraction = 0, repl_down_since = 0, slave_offset = 0, master_repl_offset = 0,
     server_port = 7000, keys_in_slot = (\<lambda>_. 0), db_keys = 0, rnd = 0, rnd_name = (\<lambda>r. replicate 40 (of_nat r)),
     peer_ip = str ''127.0.0.1'', sock_ip = None, norm_ip = Some, has_subscribers = False,
     clients_are_paused = False, other_dbs_empty = True, masterhost_set = False, connect_fd = (\<lambda>_. -1),
     random_nodes = [], stats_bus_messages_sent = 0, stats_bus_messages_received = 0,
     getKeysInSlot = (\<lambda>_ _. []), save_error = None\<rparr>"

definition node_id :: "nat \<Rightarrow> bytes" where "node_id k = replicate 40 (of_nat (48 + k))"

abbreviation new_server :: clusterState where
  "new_server \<equiv> clusterInit (cluster_env.truncate quiet_env) (node_id 0) False"

definition addslots_5 :: "bytes list" where "addslots_5 = [str ''cluster'', str ''addslots'', str ''5'']"

lemma loop_idle: "(\<And>x. x \<in> set xs \<Longrightarrow> f x s = Some s) \<Longrightarrow> loop f xs s = Some s"
  by (induction xs) auto

lemma addslots_5_words:
  "caseq (addslots_5 ! 1) ''meet'' = False" "caseq (addslots_5 ! 1) ''nodes'' = False"
  "caseq (addslots_5 ! 1) ''myid'' = False" "caseq (addslots_5 ! 1) ''slots'' = False"
  "caseq (addslots_5 ! 1) ''flushslots'' = False" "caseq (addslots_5 ! 1) ''addslots'' = True"
  "caseq (addslots_5 ! 1) ''delslots'' = False" "getSlotOrReply (drop 2 addslots_5 ! 0) = Inl 5" "length addslots_5 = 3"
  by code_simp+

lemma serve_slot_5:
  obtains s where "cluster_run [Command quiet_env addslots_5] new_server = Some s" "cslots s 5 = Some 0"
    "clusterLookupNode s (node_id 0) = Some 0"
proof -
  have args: "drop 2 addslots_5 = [addslots_5 ! 2]" "getSlotOrReply (addslots_5 ! 2) = Inl 5"
    using addslots_5_words(8) by (simp_all add: addslots_5_def)
  have split: "[0..<REDIS_CLUSTER_SLOTS] = [0..<5] @ 5 # [6..<REDIS_CLUSTER_SLOTS]"
  proof -
    have "[0..<REDIS_CLUSTER_SLOTS] = [0..<5] @ [5..<REDIS_CLUSTER_SLOTS]"
      using upt_add_eq_append [of 0 5 "REDIS_CLUSTER_SLOTS - 5"]
      by (simp only: REDIS_CLUSTER_SLOTS_def) (simp del: upt_rec_numeral)
    moreover have "[5..<REDIS_CLUSTER_SLOTS] = 5 # [6..<REDIS_CLUSTER_SLOTS]"
      using upt_conv_Cons [of 5 REDIS_CLUSTER_SLOTS] by (simp only: REDIS_CLUSTER_SLOTS_def) (simp del: upt_rec_numeral)
    ultimately show ?thesis by simp
  qed
  have idle: "loop (\<lambda>j s. if j = 5 then change_slot False j s else Some s) xs t = Some t" if "5 \<notin> set xs" for xs t
    using that by (intro loop_idle) auto
  obtain t where t: "change_slot False 5 new_server = Some t" "cslots t 5 = Some 0" "cnodes t = cnodes new_server"
    by (simp add: change_slot_def clusterInit_def clusterSaveConfig_def createClusterNode_def clusterAddSlot_def Let_def)
  have "clusterCommand quiet_env new_server addslots_5 = addslots_command new_server False (drop 2 addslots_5)"
    unfolding clusterCommand_def Let_def addslots_5_words by simp
  also have "\<dots> = Some (clusterDoBeforeSleep t {TODO_UPDATE_STATE, TODO_SAVE_CONFIG}, reply_ok)"
    unfolding addslots_command_def args split
    by (simp add: args loop_append idle t(1)) (simp add: clusterInit_def clusterSaveConfig_def)
  finally show thesis
    by (intro that [of "clusterDoBeforeSleep t {TODO_UPDATE_STATE, TODO_SAVE_CONFIG}"])
      (simp_all add: cluster_run_def t clusterLookupNode_def clusterInit_def clusterSaveConfig_def)
qed

section \<open>The tables of a run\<close>

text \<open>
  C4: in every state of a run of a server from its start, the table of slots agrees with the nodes.
  A slot is assigned to a node exactly when the bit of the slot is set in the bitmap of a node that
  exists (so no slot is set in the bitmaps of two nodes), the counter of a node is the number of
  slots assigned to it, and the assertion of \<open>clusterDelSlot\<close> holds for every slot.  A run starts
  without a configuration file, and no event of it aborts the server.
\<close>

theorem cluster_slot_table:
  assumes "cluster_run es (clusterInit E name g) = Some s"
  shows "(\<forall>j r. (cslots s j = Some r) =
            (j < REDIS_CLUSTER_SLOTS \<and> (\<exists>n. cheap s r = Some n \<and> clusterNodeGetSlotBit n j)))
       \<and> (\<forall>r n. cheap s r = Some n \<longrightarrow> numslots n = int (card {j. cslots s j = Some r}))
       \<and> (\<forall>j. clusterDelSlot s j \<noteq> None)"
proof -
  have inv: "slots_inv s" using cluster_run_inv [OF assms] by (simp add: cluster_inv_def)
  have node: "claimed (node_slots n) = {j. cslots s j = Some r}" "numslots n = int (card (claimed (node_slots n)))"
    if "cheap s r = Some n" for r n
    using slots_inv_view [OF inv, of r "(node_name n, REDIS_NODE_MYSELF \<in> node_flags n)" "node_slots n" "numslots n"] that
    by (auto simp: node_view_def)
  have some: "j < REDIS_CLUSTER_SLOTS \<and> cheap s r \<noteq> None" if "cslots s j = Some r" for j r
    using inv that by (fastforce simp: slots_inv_def node_view_def)
  have "(cslots s j = Some r) = (j < REDIS_CLUSTER_SLOTS \<and> (\<exists>n. cheap s r = Some n \<and> clusterNodeGetSlotBit n j))" for j r
    using node(1) [of r] some [of j r] by (auto simp: claimed_def clusterNodeGetSlotBit_def set_eq_iff)
  moreover have "clusterDelSlot s j \<noteq> None" for j
    using clusterDelSlot_ok [OF inv, of j] by (metis option.distinct(1))
  ultimately show ?thesis using node by simp
qed

lemma cluster_slot_table_witness:
  "\<exists>s n. cluster_run [Command quiet_env addslots_5] new_server = Some s \<and> cheap s 0 = Some n \<and>
     clusterNodeGetSlotBit n 5 \<and> numslots n = int (card {j. cslots s j = Some 0})"
proof -
  obtain s where s: "cluster_run [Command quiet_env addslots_5] new_server = Some s" "cslots s 5 = Some 0"
    by (rule serve_slot_5)
  from cluster_slot_table [OF s(1)] s show ?thesis by blast
qed

text \<open>
  C12: the table of nodes is well formed in every state of a run.  A name that \<open>clusterLookupNode\<close>
  finds belongs to a node that exists and has this name, exactly one entry of the table is marked
  as the server itself, and it is the one \<open>myself\<close> points to.  Runs are those of the theorem above.
\<close>

theorem cluster_node_table_typed:
  assumes "cluster_run es (clusterInit E name g) = Some s"
  shows "(\<forall>nm r. clusterLookupNode s nm = Some r \<longrightarrow>
            (\<exists>n. cheap s r = Some n \<and> node_name n = nm \<and> (REDIS_NODE_MYSELF \<in> node_flags n) = (r = myself s)))
       \<and> (\<exists>me. cheap s (myself s) = Some me \<and> clusterLookupNode s (node_name me) = Some (myself s))"
proof -
  have inv: "cluster_inv s" using cluster_run_inv [OF assms] by simp
  then have ni: "nodes_inv s" by (simp add: cluster_inv_def)
  have look: "(clusterLookupNode s nm = Some r) = ((nm, r) \<in> set (cnodes s))" for nm r
    using ni by (simp add: clusterLookupNode_def nodes_inv_def map_of_eq_Some_iff)
  obtain me where me: "cheap s (myself s) = Some me" using inv by (rule cluster_inv_me)
  have "(node_name me, myself s) \<in> set (cnodes s)"
    using own_entry_name [OF inv me] by (auto simp: own_entry_def)
  moreover have "\<exists>n. cheap s r = Some n \<and> node_name n = nm \<and> (REDIS_NODE_MYSELF \<in> node_flags n) = (r = myself s)"
    if "(nm, r) \<in> set (cnodes s)" for nm r
    using that ni by (fastforce simp: nodes_inv_def node_view_def)
  ultimately show ?thesis using me by (simp add: look)
qed

lemma cluster_node_table_typed_witness:
  "\<exists>s n. cluster_run [Command quiet_env addslots_5] new_server = Some s \<and> cheap s 0 = Some n \<and>
     node_name n = node_id 0"
proof -
  obtain s where s: "cluster_run [Command quiet_env addslots_5] new_server = Some s"
      "clusterLookupNode s (node_id 0) = Some 0"
    by (rule serve_slot_5)
  from cluster_node_table_typed [OF s(1)] s show ?thesis by blast
qed

end
