(* ===== verification/Cluster_Net.thy ===== *)
theory Cluster_Net
  imports Cluster_Run "HOL-Library.Multiset"
begin

text \<open>
  Elections among the servers of a cluster.  The servers exchange requests for votes and votes over
  a network that may delay, reorder and lose them; everything else that happens to a server is any
  event of a run.  The votes that two candidates of one epoch count never exceed the electorate.
\<close>

section \<open>What an event does to an election\<close>

definition still :: "clusterState \<Rightarrow> clusterState \<Rightarrow> bool" where
  "still s s' \<longleftrightarrow> snd (election_view s') = snd (election_view s) \<and>
     (currentEpoch s \<le> currentEpoch s' \<or> currentEpoch s' = 0)"

definition scheduled :: "clusterState \<Rightarrow> clusterState \<Rightarrow> bool" where
  "scheduled s s' \<longleftrightarrow> currentEpoch s' = currentEpoch s \<and> lastVoteEpoch s' = lastVoteEpoch s \<and>
     failover_auth_epoch s' = failover_auth_epoch s \<and> failover_auth_count s' = 0 \<and> \<not> failover_auth_sent s' \<and>
     votes s' = votes s"

definition started :: "bytes \<Rightarrow> clusterState \<Rightarrow> clusterState \<Rightarrow> bool" where
  "started nm s s' \<longleftrightarrow> \<not> failover_auth_sent s \<and> currentEpoch s' = currentEpoch s + 1 \<and>
     failover_auth_epoch s' = currentEpoch s + 1 \<and> failover_auth_sent s' \<and>
     failover_auth_count s' = failover_auth_count s \<and> lastVoteEpoch s' = lastVoteEpoch s \<and>
     (\<exists>req rs. votes s' = votes s @ map (\<lambda>r. Send r req) rs \<and>
        m_type req = CLUSTERMSG_TYPE_FAILOVER_AUTH_REQUEST \<and> m_currentEpoch req = currentEpoch s + 1 \<and>
        m_sender req = nm)"

definition outcome :: "bytes \<Rightarrow> clusterState \<Rightarrow> clusterState \<Rightarrow> bool" where
  "outcome nm s s' \<longleftrightarrow> cluster_inv s' \<and> myself s' = myself s \<and> own_entry s \<subseteq> own_entry s' \<and>
     (still s s' \<or> scheduled s s' \<or> started nm s s')"

lemma outcome_cong:
  assumes "outcome nm t s'" "election_view t = election_view s" "myself t = myself s" "own_entry s \<subseteq> own_entry t"
  shows "outcome nm s s'"
proof -
  have "currentEpoch t = currentEpoch s" "lastVoteEpoch t = lastVoteEpoch s" "failover_auth_count t = failover_auth_count s"
    "failover_auth_sent t = failover_auth_sent s" "failover_auth_epoch t = failover_auth_epoch s" "votes t = votes s"
    using assms(2) by (simp_all add: election_view_def)
  with assms show ?thesis by (auto simp: outcome_def still_def scheduled_def started_def)
qed

lemma outcome_frame:
  assumes "outcome nm s t" "frame s' = frame t"
  shows "outcome nm s s'"
proof -
  have ev: "election_view s' = election_view t" and tv: "table_view s' = table_view t"
    using assms(2) by (simp_all add: frame_def)
  have "currentEpoch s' = currentEpoch t" "lastVoteEpoch s' = lastVoteEpoch t" "failover_auth_count s' = failover_auth_count t"
    "failover_auth_sent s' = failover_auth_sent t" "failover_auth_epoch s' = failover_auth_epoch t" "votes s' = votes t"
    using ev by (simp_all add: election_view_def)
  moreover have "cluster_inv s' = cluster_inv t" by (rule cluster_inv_frame [OF assms(2)])
  moreover have "own_entry s' = own_entry t" "myself s' = myself t" using tv by (simp_all add: own_entry_def table_view_def)
  ultimately show ?thesis using assms(1) ev by (auto simp: outcome_def still_def scheduled_def started_def)
qed

lemma calm_outcome: "calm s s' \<Longrightarrow> outcome nm s s'"
  by (simp add: calm_def outcome_def still_def)

lemma hushed_then_outcome: "hushed s t \<Longrightarrow> outcome nm t s' \<Longrightarrow> outcome nm s s'"
  by (rule outcome_cong [where t = t]) (simp_all add: hushed_def)

lemma handler_outcome:
  assumes "clusterHandleSlaveFailover E s = Some s'" "cluster_inv s" "(nm, myself s) \<in> own_entry s"
  shows "outcome nm s s'"
proof -
  note inv = clusterHandleSlaveFailover_inv [OF assms(1,2)]
  have same: "outcome nm s s'" if "frame t = frame s" "cnodes s' = cnodes t"
      "still t s' \<or> scheduled t s' \<or> started nm t s'" for t
  proof (rule outcome_cong [where t = t])
    have "own_entry t = own_entry s'" "myself t = myself s"
      using that(1,2) inv(2) by (simp_all add: own_entry_def frame_def table_view_def)
    then show "outcome nm t s'" using that(3) inv by (simp add: outcome_def)
  qed (use that(1) in \<open>simp_all add: frame_def table_view_def own_entry_def\<close>)
  from assms(1) show ?thesis
  proof (cases rule: clusterHandleSlaveFailover_cases)
    case idle
    show ?thesis
      by (rule same [of s]) (use idle(1) in \<open>simp_all add: still_def frame_def table_view_def election_view_def\<close>)
  next
    case (schedule t)
    note r = schedule_election_result [OF schedule(3)]
    show ?thesis
      by (rule same [OF schedule(1)])
        (use r(1-3) in \<open>simp_all add: scheduled_def frame_def table_view_def election_view_def\<close>)
  next
    case (start t)
    have it: "cluster_inv t" using quiet_inv [OF frame_quiet [OF start(1)] assms(2)] .
    then obtain me where me: "cheap t (myself t) = Some me" by (rule cluster_inv_me)
    have "(nm, myself t) \<in> own_entry t" using assms(3) start(1) by (simp add: own_entry_def frame_def table_view_def)
    then have nm: "nm = node_name me" using own_entry_name [OF it me] by simp
    note r = start_election_result [OF start(4) me]
    show ?thesis
      by (rule same [OF start(1)]) (use r(1-7) start(3) in \<open>auto simp: started_def table_view_def nm\<close>)
  next
    case (win t)
    have "cluster_inv t" using quiet_inv [OF frame_quiet [OF win(1)] assms(2)] .
    then have st: "slot_step t s'" by (rule win_election_result [OF win(4) slots_of_cluster])
    show ?thesis
      by (rule same [OF win(1)]) (use st in \<open>simp_all add: slot_step_def still_def election_view_def\<close>)
  qed
qed

text \<open>Every event but an election packet and a reset has one of the three outcomes.\<close>

fun ordinary :: "cluster_event \<Rightarrow> bool" where
  "ordinary (Packet E l len m) \<longleftrightarrow> \<not> is_election m"
| "ordinary (Command E args) \<longleftrightarrow> \<not> is_reset args"
| "ordinary _ \<longleftrightarrow> True"

lemma cluster_step_outcome:
  assumes "cluster_step e s = Some s'" "ordinary e" "cluster_inv s" "(nm, myself s) \<in> own_entry s"
  shows "outcome nm s s'"
proof (cases e)
  case (Packet E l len m)
  then show ?thesis
    using assms(1-3) calm_outcome [OF calm_refl [OF assms(3)]]
    by (auto split: if_splits intro: calm_outcome clusterProcessPacket_calm)
next
  case (Timer E)
  then have "clusterCron E s = Some s'" using assms(1) by simp
  then show ?thesis
    using assms(3)
  proof (cases rule: clusterCron_phases)
    case (1 t)
    then show ?thesis by (intro calm_outcome hushed_calm) (rule hushed_then_frame)
  next
    case (2 t u)
    have "(nm, myself t) \<in> own_entry t" using 2(1) assms(4) by (auto simp: hushed_def)
    from hushed_then_outcome [OF 2(1) handler_outcome [OF 2(2) hushed_inv [OF 2(1)] this]]
    show ?thesis using 2(3) by (rule outcome_frame)
  qed
next
  case (BeforeSleep E)
  then have "clusterBeforeSleep E s = Some s'" using assms(1) by simp
  then obtain t u where
      t: "(if TODO_HANDLE_FAILOVER \<in> todo_before_sleep s then clusterHandleSlaveFailover E s else Some s) = Some t"
    and u: "(if TODO_UPDATE_STATE \<in> todo_before_sleep t then clusterUpdateState E t else Some t) = Some u"
    and s': "s' = (if TODO_SAVE_CONFIG \<in> todo_before_sleep u
               then clusterSaveConfig u (TODO_FSYNC_CONFIG \<in> todo_before_sleep u) else u)\<lparr>todo_before_sleep := {}\<rparr>"
    unfolding clusterBeforeSleep_def Let_def bind_eq_Some_conv by blast
  have "outcome nm s t"
    using t handler_outcome [OF _ assms(3,4)] calm_outcome [OF calm_refl [OF assms(3)]] by (auto split: if_splits)
  moreover have "frame s' = frame t"
    using u by (auto simp: s' split: if_splits dest: clusterUpdateState_frame)
  ultimately show ?thesis by (rule outcome_frame)
next
  case (Startup E)
  with assms(1) obtain b where "verifyClusterConfigWithData E s = Some (s', b)" by auto
  then have "slot_step s s'" by (rule verifyClusterConfigWithData_step [OF slots_of_cluster [OF assms(3)]])
  from quiet_calm [OF slot_step_quiet [OF this] assms(3)] show ?thesis by (rule calm_outcome)
next
  case (Command E args)
  with assms(1,2) clusterCommand_calm [OF _ assms(3)] show ?thesis by (auto intro: calm_outcome)
qed

section \<open>What an election packet does\<close>

lemma named_node:
  assumes "cluster_inv s" "(nm, r) \<in> set (cnodes s)"
  obtains n where "cheap s r = Some n" "node_name n = nm"
  using assms by (fastforce simp: cluster_inv_def nodes_inv_def node_view_def)

definition unmoved :: "clusterState \<Rightarrow> clusterState \<Rightarrow> bool" where
  "unmoved s s' \<longleftrightarrow> cluster_inv s' \<and> myself s' = myself s \<and> own_entry s \<subseteq> own_entry s' \<and>
     currentEpoch s \<le> currentEpoch s' \<and> failover_auth_sent s' = failover_auth_sent s \<and>
     failover_auth_epoch s' = failover_auth_epoch s"

lemma unmoved_views:
  assumes "note_sender E s q m = Some (t, ce, fe)" "cluster_inv s" "table_view s' = table_view t" "node_view s' = node_view t"
    "currentEpoch s' = currentEpoch t" "failover_auth_sent s' = failover_auth_sent t"
    "failover_auth_epoch s' = failover_auth_epoch t"
  shows "unmoved s s'"
  using note_sender_raise [OF assms(1)] assms(2-) cluster_inv_views [OF assms(3,4)]
  by (simp add: unmoved_def own_entry_def table_view_def election_view_def)

lemma views_of_update:
  "table_view (s\<lparr>lastVoteEpoch := e, effects := es\<rparr>) = table_view s"
  "node_view (s\<lparr>lastVoteEpoch := e, effects := es\<rparr>) = node_view s"
  "table_view (s\<lparr>failover_auth_count := k\<rparr>) = table_view s"
  "node_view (s\<lparr>failover_auth_count := k\<rparr>) = node_view s"
  by (simp_all add: table_view_def node_view_def fun_eq_iff)

lemma request_outcome:
  assumes "clusterProcessPacket E s l len m = Some (s', b)" "m_type m = CLUSTERMSG_TYPE_FAILOVER_AUTH_REQUEST"
    "cluster_inv s" "(nm, myself s) \<in> own_entry s"
  shows "unmoved s s' \<and> failover_auth_count s' = failover_auth_count s \<and>
    (lastVoteEpoch s' = lastVoteEpoch s \<and> votes s' = votes s \<or>
     lastVoteEpoch s \<noteq> currentEpoch s' \<and> lastVoteEpoch s' = currentEpoch s' \<and> currentEpoch s' \<le> m_currentEpoch m \<and>
     (votes s' = votes s \<or>
      (\<exists>ack r n. votes s' = votes s @ [Send r ack] \<and> m_type ack = CLUSTERMSG_TYPE_FAILOVER_AUTH_ACK \<and>
         m_currentEpoch ack = currentEpoch s' \<and> m_sender ack = nm \<and>
         cheap s' r = Some n \<and> node_name n = m_sender m)))"
proof -
  have el: "is_election m" using assms(2) by simp
  from assms(1) el show ?thesis
  proof (cases rule: election_packet)
    case 1
    with assms(3) show ?thesis by (simp add: unmoved_def)
  next
    case (2 t ce fe)
    note raise = note_sender_raise [OF 2(1)]
    have ev: "lastVoteEpoch t = lastVoteEpoch s" "failover_auth_count t = failover_auth_count s" "votes t = votes s"
      using raise(4) by (simp_all add: election_view_def)
    show ?thesis
    proof (cases "clusterLookupNode s (m_sender m)")
      case None
      with 2(3) ev show ?thesis using unmoved_views [OF 2(1) assms(3), of s'] by simp
    next
      case (Some r)
      with 2(3) have vote: "clusterSendFailoverAuthIfNeeded E t r m = Some s'" by simp
      have it: "cluster_inv t" using raise(1) assms(3) by simp
      then obtain me where me: "cheap t (myself t) = Some me" by (rule cluster_inv_me)
      have "(nm, myself t) \<in> own_entry t" using assms(4) raise(3,5) by (simp add: own_entry_def)
      then have nm: "nm = node_name me" using own_entry_name [OF it me] by simp
      from clusterSendFailoverAuthIfNeeded_votes [OF vote me] show ?thesis
      proof
        assume f: "frame s' = frame t"
        then have "unmoved s s'"
          by (intro unmoved_views [OF 2(1) assms(3)]) (simp_all add: frame_def election_view_def)
        then show ?thesis using f ev by (simp add: frame_def election_view_def)
      next
        assume v: "lastVoteEpoch t \<noteq> currentEpoch t \<and> currentEpoch t \<le> m_currentEpoch m \<and>
          frame (s'\<lparr>lastVoteEpoch := lastVoteEpoch t, effects := effects t\<rparr>) = frame t \<and> lastVoteEpoch s' = currentEpoch t \<and>
          (votes s' = votes t \<or> (\<exists>ack. votes s' = votes t @ [Send r ack] \<and> m_type ack = CLUSTERMSG_TYPE_FAILOVER_AUTH_ACK \<and>
             m_currentEpoch ack = currentEpoch t \<and> m_sender ack = node_name me))"
        then have views: "table_view s' = table_view t" "node_view s' = node_view t" "currentEpoch s' = currentEpoch t"
            "failover_auth_sent s' = failover_auth_sent t" "failover_auth_epoch s' = failover_auth_epoch t"
            "failover_auth_count s' = failover_auth_count t"
          by (simp_all add: frame_def election_view_def views_of_update)
        have um: "unmoved s s'" by (rule unmoved_views [OF 2(1) assms(3) views(1-5)])
        have "(m_sender m, r) \<in> set (cnodes s')"
          using Some raise(5) views(1) by (auto simp: clusterLookupNode_def table_view_def dest: map_of_SomeD)
        moreover have "cluster_inv s'" using um by (simp add: unmoved_def)
        ultimately obtain n where n: "cheap s' r = Some n" "node_name n = m_sender m" using named_node by blast
        have last: "lastVoteEpoch s \<noteq> currentEpoch s'" "lastVoteEpoch s' = currentEpoch s'" "currentEpoch s' \<le> m_currentEpoch m"
          using v views(3) ev(1) by simp_all
        have "votes s' = votes s \<or> (\<exists>ack r n. votes s' = votes s @ [Send r ack] \<and>
            m_type ack = CLUSTERMSG_TYPE_FAILOVER_AUTH_ACK \<and> m_currentEpoch ack = currentEpoch s' \<and> m_sender ack = nm \<and>
            cheap s' r = Some n \<and> node_name n = m_sender m)"
          using v n unfolding views(3) ev(3) nm by blast
        with um last views(6) ev(2) show ?thesis by simp
      qed
    qed
  next
    case 3
    with assms(2) show ?thesis by simp
  qed
qed

lemma ack_outcome:
  assumes "clusterProcessPacket E s l len m = Some (s', b)" "m_type m = CLUSTERMSG_TYPE_FAILOVER_AUTH_ACK" "cluster_inv s"
  shows "unmoved s s' \<and> lastVoteEpoch s' = lastVoteEpoch s \<and> votes s' = votes s \<and>
    (failover_auth_count s' = failover_auth_count s \<or>
     failover_auth_count s' = failover_auth_count s + 1 \<and>
       (failover_auth_epoch s \<le> m_currentEpoch m \<or> failover_auth_epoch s = 0))"
proof -
  have el: "is_election m" using assms(2) by simp
  from assms(1) el show ?thesis
  proof (cases rule: election_packet)
    case 1
    with assms(3) show ?thesis by (simp add: unmoved_def)
  next
    case 2
    with assms(2) show ?thesis by simp
  next
    case (3 t ce fe)
    note raise = note_sender_raise [OF 3(1)]
    have ev: "lastVoteEpoch t = lastVoteEpoch s" "failover_auth_count t = failover_auth_count s" "votes t = votes s"
        "failover_auth_epoch t = failover_auth_epoch s"
      using raise(4) by (simp_all add: election_view_def)
    from 3(3) show ?thesis
    proof (cases rule: process_auth_ack_cases)
      case 1
      then have "unmoved s s'"
        by (intro unmoved_views [OF 3(1) assms(3)]) (simp_all add: frame_def election_view_def)
      then show ?thesis using 1 ev by (simp add: frame_def election_view_def)
    next
      case (2 r n)
      then have views: "table_view s' = table_view t" "node_view s' = node_view t" "currentEpoch s' = currentEpoch t"
            "failover_auth_sent s' = failover_auth_sent t" "failover_auth_epoch s' = failover_auth_epoch t"
            "lastVoteEpoch s' = lastVoteEpoch t" "votes s' = votes t"
        by (simp_all add: frame_def election_view_def views_of_update)
      have "unmoved s s'" by (rule unmoved_views [OF 3(1) assms(3) views(1-5)])
      then show ?thesis using views 2(5,6) ev raise(6) by auto
    qed
  qed
qed

section \<open>The network\<close>

text \<open>
  The servers by name, and the election packets on their way with the name of the node they were
  sent to.  Two histories are kept along: \<open>cast\<close> has every vote a server has sent (voter, epoch,
  candidate), \<open>tally\<close> every number of votes a candidate has stood at in an epoch it has asked
  for votes in.
\<close>

record net =
  inst :: "bytes \<Rightarrow> clusterState option"
  pool :: "(bytes \<times> clusterMsg) multiset"
  cast :: "(bytes \<times> u64 \<times> bytes) set"
  tally :: "(bytes \<times> u64 \<times> int) set"

definition fresh :: "clusterState \<Rightarrow> clusterState" where
  "fresh s = s\<lparr>effects := []\<rparr>"

definition addressed :: "clusterState \<Rightarrow> bus_effect \<Rightarrow> (bytes \<times> clusterMsg) option" where
  "addressed s e =
    (case e of Send r m \<Rightarrow> map_option (\<lambda>n. (node_name n, m)) (cheap s r) | _ \<Rightarrow> None)"

text \<open>The election packets an event has sent.\<close>

definition outbox :: "clusterState \<Rightarrow> (bytes \<times> clusterMsg) list" where
  "outbox s = List.map_filter (addressed s) (votes s)"

fun ballot_of :: "bytes \<times> clusterMsg \<Rightarrow> bytes \<times> u64 \<times> bytes" where
  "ballot_of (c, m) = (m_sender m, m_currentEpoch m, c)"

abbreviation is_ack :: "bytes \<times> clusterMsg \<Rightarrow> bool" where
  "is_ack p \<equiv> m_type (snd p) = CLUSTERMSG_TYPE_FAILOVER_AUTH_ACK"

definition after_event :: "net \<Rightarrow> bytes \<Rightarrow> clusterState \<Rightarrow> (bytes \<times> clusterMsg) multiset \<Rightarrow> net" where
  "after_event N d s P =
    N\<lparr>inst := (inst N)(d \<mapsto> s), pool := P + mset (outbox s),
      cast := cast N \<union> ballot_of ` {p \<in> set (outbox s). is_ack p},
      tally := tally N \<union> (if failover_auth_sent s then {(d, failover_auth_epoch s, failover_auth_count s)} else {})\<rparr>"

text \<open>
  A server handles an event of its own or a packet that is not part of an election, whatever the
  packet says; it gets a request for its vote; it gets a vote; or a packet is lost.  The electorate
  \<open>V\<close> has the servers that vote.  No epoch wraps around.  A vote does not arrive while its receiver
  has scheduled the next election but not started it yet, unless it is older than the last one: the
  code would count such a vote for the next election.
\<close>

inductive net_step :: "bytes set \<Rightarrow> net \<Rightarrow> net \<Rightarrow> bool" for V where
  event: "net_step V N (after_event N d s' (pool N))"
    if "inst N d = Some s" "cluster_step e (fresh s) = Some s'" "ordinary e" "currentEpoch s \<le> currentEpoch s'"
| request: "net_step V N (after_event N d s' (pool N - {#(d, m)#}))"
    if "(d, m) \<in># pool N" "m_type m = CLUSTERMSG_TYPE_FAILOVER_AUTH_REQUEST" "inst N d = Some s"
      "cluster_step (Packet E l len m) (fresh s) = Some s'" "outbox s' \<noteq> [] \<Longrightarrow> d \<in> V"
| vote: "net_step V N (after_event N d s' (pool N - {#(d, m)#}))"
    if "(d, m) \<in># pool N" "m_type m = CLUSTERMSG_TYPE_FAILOVER_AUTH_ACK" "inst N d = Some s"
      "failover_auth_sent s \<or> m_currentEpoch m < failover_auth_epoch s"
      "cluster_step (Packet E l len m) (fresh s) = Some s'"
| lose: "net_step V N (N\<lparr>pool := pool N - {#p#}\<rparr>)"

text \<open>
  The servers start in well-formed states in which no vote has been counted, such as the state of a
  new server.
\<close>

definition server_ok :: "bytes \<Rightarrow> clusterState \<Rightarrow> bool" where
  "server_ok d s \<longleftrightarrow> cluster_inv s \<and> (d, myself s) \<in> own_entry s \<and>
     lastVoteEpoch s \<le> currentEpoch s \<and> failover_auth_epoch s \<le> currentEpoch s"

definition net_start :: "net \<Rightarrow> bool" where
  "net_start N \<longleftrightarrow> pool N = {#} \<and> cast N = {} \<and> tally N = {} \<and>
     (\<forall>d s. inst N d = Some s \<longrightarrow> server_ok d s \<and> failover_auth_count s \<le> 0)"

lemma clusterInit_ok: "server_ok d (clusterInit E d g)" "failover_auth_count (clusterInit E d g) = 0"
  using clusterInit_inv [of E d g]
  by (simp_all add: server_ok_def) (simp_all add: clusterInit_def clusterSaveConfig_def own_entry_def)

inductive net_reach :: "bytes set \<Rightarrow> net \<Rightarrow> net \<Rightarrow> bool" for V where
  start: "net_reach V N N"
| step: "net_reach V N P \<Longrightarrow> net_step V P Q \<Longrightarrow> net_reach V N Q"

section \<open>The invariant of the network\<close>

definition ack_keys :: "(bytes \<times> clusterMsg) multiset \<Rightarrow> (bytes \<times> u64 \<times> bytes) multiset" where
  "ack_keys P = image_mset ballot_of (filter_mset is_ack P)"

definition backing :: "(bytes \<times> u64 \<times> bytes) set \<Rightarrow> u64 \<Rightarrow> bytes \<Rightarrow> bytes set" where
  "backing B e c = {v. (v, e, c) \<in> B}"

text \<open>\<open>C\<close> are the votes that have been counted; a vote on its way is cast and not counted.\<close>

definition net_inv :: "bytes set \<Rightarrow> (bytes \<times> u64 \<times> bytes) set \<Rightarrow> net \<Rightarrow> bool" where
  "net_inv V C N \<longleftrightarrow>
     finite (cast N) \<and> C \<subseteq> cast N \<and> ack_keys (pool N) \<subseteq># mset_set (cast N - C) \<and>
     (\<forall>d s. inst N d = Some s \<longrightarrow> server_ok d s \<and>
        failover_auth_count s \<le> (if failover_auth_sent s then int (card (backing C (failover_auth_epoch s) d)) else 0)) \<and>
     (\<forall>d m s. (d, m) \<in># pool N \<longrightarrow> m_type m = CLUSTERMSG_TYPE_FAILOVER_AUTH_REQUEST \<longrightarrow>
        inst N (m_sender m) = Some s \<longrightarrow> m_currentEpoch m \<le> failover_auth_epoch s) \<and>
     (\<forall>v e c c'. (v, e, c) \<in> cast N \<longrightarrow> (v, e, c') \<in> cast N \<longrightarrow> c = c') \<and>
     (\<forall>v e c. (v, e, c) \<in> cast N \<longrightarrow> v \<in> V \<and> (\<exists>s. inst N v = Some s \<and> e \<le> lastVoteEpoch s)) \<and>
     (\<forall>v e c s. (v, e, c) \<in> cast N \<longrightarrow> inst N c = Some s \<longrightarrow> e \<le> failover_auth_epoch s) \<and>
     (\<forall>c e k. (c, e, k) \<in> tally N \<longrightarrow> k \<le> int (card (backing C e c)))"

lemma net_invD:
  assumes "net_inv V C N"
  shows "finite (cast N)" "C \<subseteq> cast N" "ack_keys (pool N) \<subseteq># mset_set (cast N - C)"
    "inst N d = Some s \<Longrightarrow> server_ok d s"
    "inst N d = Some s \<Longrightarrow>
      failover_auth_count s \<le> (if failover_auth_sent s then int (card (backing C (failover_auth_epoch s) d)) else 0)"
    "(d, m) \<in># pool N \<Longrightarrow> m_type m = CLUSTERMSG_TYPE_FAILOVER_AUTH_REQUEST \<Longrightarrow>
        inst N (m_sender m) = Some s \<Longrightarrow> m_currentEpoch m \<le> failover_auth_epoch s"
    "(v, e, c) \<in> cast N \<Longrightarrow> (v, e, c') \<in> cast N \<Longrightarrow> c = c'"
    "(v, e, c) \<in> cast N \<Longrightarrow> v \<in> V" "(v, e, c) \<in> cast N \<Longrightarrow> \<exists>s. inst N v = Some s \<and> e \<le> lastVoteEpoch s"
    "(v, e, c) \<in> cast N \<Longrightarrow> inst N c = Some s \<Longrightarrow> e \<le> failover_auth_epoch s"
    "(c, e, k) \<in> tally N \<Longrightarrow> k \<le> int (card (backing C e c))"
  using assms unfolding net_inv_def by blast+

lemma finite_backing: "finite B \<Longrightarrow> finite (backing B e c)"
  by (rule finite_subset [of _ "fst ` B"]) (force simp: backing_def)+

lemma backing_mono: "finite B \<Longrightarrow> A \<subseteq> B \<Longrightarrow> card (backing A e c) \<le> card (backing B e c)"
  by (rule card_mono [OF finite_backing]) (auto simp: backing_def)

text \<open>
  One server moves on: its epochs grow, at most one vote of a new epoch is cast by it, and at most
  the votes of \<open>C'\<close> are counted.
\<close>

lemma net_inv_step:
  assumes inv: "net_inv V C N" and d: "inst N d = Some s" and ok: "server_ok d s'"
    and mono: "lastVoteEpoch s \<le> lastVoteEpoch s'" "failover_auth_epoch s \<le> failover_auth_epoch s'"
    and cast': "B = cast N \<or> (\<exists>e c. B = insert (d, e, c) (cast N) \<and> d \<in> V \<and> lastVoteEpoch s < e \<and> e \<le> lastVoteEpoch s' \<and>
            (\<forall>sc. inst N c = Some sc \<longrightarrow> e \<le> failover_auth_epoch sc))"
    and C': "C \<subseteq> C'" "C' \<subseteq> B"
    and pool: "\<And>x m. (x, m) \<in># P \<Longrightarrow> m_type m = CLUSTERMSG_TYPE_FAILOVER_AUTH_REQUEST \<Longrightarrow>
            (x, m) \<in># pool N \<or> m_sender m = d \<and> m_currentEpoch m \<le> failover_auth_epoch s'"
    and acks: "ack_keys P \<subseteq># mset_set (B - C')"
    and count: "failover_auth_count s' \<le>
            (if failover_auth_sent s' then int (card (backing C' (failover_auth_epoch s') d)) else 0)"
    and T: "T = tally N \<union> (if failover_auth_sent s' then {(d, failover_auth_epoch s', failover_auth_count s')} else {})"
  shows "net_inv V C' (N\<lparr>inst := (inst N)(d \<mapsto> s'), pool := P, cast := B, tally := T\<rparr>)"
proof -
  note I = net_invD [OF inv]
  have fin: "finite B" using cast' I(1) by auto
  have sub: "cast N \<subseteq> B" using cast' by blast
  have more: "card (backing C e c) \<le> card (backing C' e c)" for e c
    using backing_mono [OF finite_subset [OF C'(2) fin] C'(1)] .
  have new: "p \<in> cast N \<or> p = (d, e, c) \<and> d \<in> V \<and> lastVoteEpoch s < e \<and> e \<le> lastVoteEpoch s' \<and>
      (\<forall>sc. inst N c = Some sc \<longrightarrow> e \<le> failover_auth_epoch sc)" if "p \<in> B" "p = (v, e, c)" for p v e c
    using cast' that by auto
  have voted: "e \<le> lastVoteEpoch s" if "(d, e, c) \<in> cast N" for e c using I(9) [OF that] d by simp
  have server: "server_ok x t \<and> failover_auth_count t \<le>
      (if failover_auth_sent t then int (card (backing C' (failover_auth_epoch t) x)) else 0)"
    if "((inst N)(d \<mapsto> s')) x = Some t" for x t
  proof (cases "x = d")
    case True
    with that have "t = s'" by simp
    show ?thesis unfolding \<open>t = s'\<close> True using ok count by blast
  next
    case False
    then have "inst N x = Some t" using that by simp
    from I(4,5) [OF this] more [of "failover_auth_epoch t" x] show ?thesis by (auto split: if_splits)
  qed
  have req: "m_currentEpoch m \<le> failover_auth_epoch t"
    if "(x, m) \<in># P" "m_type m = CLUSTERMSG_TYPE_FAILOVER_AUTH_REQUEST" "((inst N)(d \<mapsto> s')) (m_sender m) = Some t" for x m t
    using pool [OF that(1,2)]
  proof
    assume p: "(x, m) \<in># pool N"
    show ?thesis
      using that(3) I(6) [OF p that(2)] d mono(2) by (cases "m_sender m = d") (auto intro: order_trans)
  qed (use that(3) in simp)
  have fn: "c = c'" if "(v, e, c) \<in> B" "(v, e, c') \<in> B" for v e c c'
  proof (cases "(v, e, c) \<in> cast N \<and> (v, e, c') \<in> cast N")
    case True
    with I(7) show ?thesis by blast
  next
    case False
    then have n: "\<not> e \<le> lastVoteEpoch s" "v = d" using new [OF that(1) refl] new [OF that(2) refl] by auto
    then have "(v, e, c) \<notin> cast N" "(v, e, c') \<notin> cast N" using voted by auto
    with that cast' show ?thesis by auto
  qed
  have voter: "v \<in> V \<and> (\<exists>t. ((inst N)(d \<mapsto> s')) v = Some t \<and> e \<le> lastVoteEpoch t)" if "(v, e, c) \<in> B" for v e c
    using new [OF that refl]
  proof
    assume b: "(v, e, c) \<in> cast N"
    obtain t where "inst N v = Some t" "e \<le> lastVoteEpoch t" using I(9) [OF b] by blast
    then show ?thesis using I(8) [OF b] d mono(1) by (cases "v = d") (auto intro: order_trans)
  qed auto
  have cand: "e \<le> failover_auth_epoch t" if "(v, e, c) \<in> B" "((inst N)(d \<mapsto> s')) c = Some t" for v e c t
  proof -
    have "e \<le> failover_auth_epoch u" if "inst N c = Some u" for u
      using new [OF \<open>(v, e, c) \<in> B\<close> refl] I(10) [of v e c u] that by blast
    then show ?thesis using that(2) d mono(2) by (cases "c = d") (auto intro: order_trans)
  qed
  have tal: "k \<le> int (card (backing C' e c))" if "(c, e, k) \<in> T" for c e k
    using that count I(11) [of c e k] more [of e c] by (auto simp: T split: if_splits)
  show ?thesis
    unfolding net_inv_def using fin C'(2) acks server req fn voter cand tal by simp
qed

text \<open>What a server has sent.\<close>

lemma outbox_none: "votes s = [] \<Longrightarrow> outbox s = []"
  by (simp add: outbox_def)

lemma outbox_broadcast: "votes s = map (\<lambda>r. Send r rq) rs \<Longrightarrow> p \<in> set (outbox s) \<Longrightarrow> snd p = rq"
  by (auto simp: outbox_def addressed_def List.map_filter_def split: option.splits)

lemma outbox_one: "votes s = [Send r m] \<Longrightarrow> cheap s r = Some n \<Longrightarrow> outbox s = [(node_name n, m)]"
  by (simp add: outbox_def addressed_def List.map_filter_def)

lemma ack_keys_union: "ack_keys (P + Q) = ack_keys P + ack_keys Q"
  by (simp add: ack_keys_def)

lemma no_acks: "(\<And>p. p \<in> set ps \<Longrightarrow> \<not> is_ack p) \<Longrightarrow> ack_keys (mset ps) = {#} \<and> {p \<in> set ps. is_ack p} = {}"
  by (auto simp: ack_keys_def filter_empty_conv simp flip: mset_filter)

lemma ack_keys_diff: "p \<in># P \<Longrightarrow> ack_keys (P - {#p#}) = ack_keys P - (if is_ack p then {#ballot_of p#} else {#})"
  by (auto simp: ack_keys_def image_mset_Diff)

lemma ack_keys_less: "ack_keys (P - {#p#}) \<subseteq># ack_keys P"
  by (simp add: ack_keys_def image_mset_subseteq_mono multiset_filter_mono)

lemma fresh_simps [simp]:
  "currentEpoch (fresh s) = currentEpoch s" "lastVoteEpoch (fresh s) = lastVoteEpoch s"
  "failover_auth_epoch (fresh s) = failover_auth_epoch s" "failover_auth_sent (fresh s) = failover_auth_sent s"
  "failover_auth_count (fresh s) = failover_auth_count s" "effects (fresh s) = []" "votes (fresh s) = []"
  "myself (fresh s) = myself s" "own_entry (fresh s) = own_entry s" "cluster_inv (fresh s) = cluster_inv s"
  by (simp_all add: fresh_def own_entry_def cluster_inv_def slots_inv_def nodes_inv_def node_view_def)

lemma server_okD:
  assumes "server_ok d s"
  shows "cluster_inv (fresh s)" "(d, myself (fresh s)) \<in> own_entry (fresh s)" "lastVoteEpoch s \<le> currentEpoch s"
    "failover_auth_epoch s \<le> currentEpoch s"
  using assms by (simp_all add: server_ok_def)

section \<open>The steps keep the invariant\<close>

lemma event_keeps:
  assumes inv: "net_inv V C N" and d: "inst N d = Some s" and st: "cluster_step e (fresh s) = Some s'" "ordinary e"
    and wrap: "currentEpoch s \<le> currentEpoch s'"
  shows "net_inv V C (after_event N d s' (pool N))"
proof -
  note I = net_invD [OF inv]
  note ok = server_okD [OF I(4) [OF d]]
  have out: "outcome d (fresh s) s'" by (rule cluster_step_outcome [OF st ok(1,2)])
  then have base: "cluster_inv s'" "(d, myself s') \<in> own_entry s'" using ok(2) by (auto simp: outcome_def)
  have cnt: "failover_auth_count s \<le>
      (if failover_auth_sent s then int (card (backing C (failover_auth_epoch s) d)) else 0)" by (rule I(5) [OF d])
  have key: "lastVoteEpoch s' = lastVoteEpoch s \<and> failover_auth_epoch s \<le> failover_auth_epoch s' \<and>
      failover_auth_epoch s' \<le> currentEpoch s' \<and>
      (\<forall>p \<in> set (outbox s'). m_type (snd p) = CLUSTERMSG_TYPE_FAILOVER_AUTH_REQUEST \<and> m_sender (snd p) = d \<and>
         m_currentEpoch (snd p) \<le> failover_auth_epoch s') \<and>
      failover_auth_count s' \<le> (if failover_auth_sent s' then int (card (backing C (failover_auth_epoch s') d)) else 0)"
    using out unfolding outcome_def
  proof (elim conjE disjE)
    assume "still (fresh s) s'"
    then have "lastVoteEpoch s' = lastVoteEpoch s" "failover_auth_count s' = failover_auth_count s"
      "failover_auth_sent s' = failover_auth_sent s" "failover_auth_epoch s' = failover_auth_epoch s" "outbox s' = []"
      by (simp_all add: still_def election_view_def outbox_none)
    then show ?thesis using cnt order_trans [OF ok(4) wrap] by (auto split: if_splits)
  next
    assume "scheduled (fresh s) s'"
    then show ?thesis using ok(4) by (simp add: scheduled_def outbox_none)
  next
    assume sd: "started d (fresh s) s'"
    then obtain req rs where "votes s' = map (\<lambda>r. Send r req) rs" "m_type req = CLUSTERMSG_TYPE_FAILOVER_AUTH_REQUEST"
        "m_currentEpoch req = currentEpoch s + 1" "m_sender req = d"
      by (auto simp: started_def)
    moreover have "failover_auth_count s \<le> 0" using sd cnt by (simp add: started_def)
    moreover have "failover_auth_epoch s \<le> currentEpoch s + 1"
      using order_trans [OF ok(4) wrap] sd by (simp add: started_def)
    ultimately show ?thesis using sd outbox_broadcast [of s' req rs] by (auto simp: started_def)
  qed
  then have na: "ack_keys (mset (outbox s')) = {#}" "{p \<in> set (outbox s'). is_ack p} = {}"
    using no_acks [of "outbox s'"] by auto
  show ?thesis
    unfolding after_event_def
  proof (rule net_inv_step [OF inv d])
    show "server_ok d s'" using base key ok(3) wrap by (auto simp: server_ok_def)
    show "lastVoteEpoch s \<le> lastVoteEpoch s'" "failover_auth_epoch s \<le> failover_auth_epoch s'" using key by simp_all
    show "cast N \<union> ballot_of ` {p \<in> set (outbox s'). is_ack p} = cast N \<or>
       (\<exists>e c. cast N \<union> ballot_of ` {p \<in> set (outbox s'). is_ack p} = insert (d, e, c) (cast N) \<and> d \<in> V \<and>
          lastVoteEpoch s < e \<and> e \<le> lastVoteEpoch s' \<and> (\<forall>sc. inst N c = Some sc \<longrightarrow> e \<le> failover_auth_epoch sc))"
      by (simp only: na(2) image_empty Un_empty_right simp_thms)
    show "C \<subseteq> C" "C \<subseteq> cast N \<union> ballot_of ` {p \<in> set (outbox s'). is_ack p}" using I(2) by auto
    show "(x, m) \<in># pool N \<or> m_sender m = d \<and> m_currentEpoch m \<le> failover_auth_epoch s'"
      if "(x, m) \<in># pool N + mset (outbox s')" for x m using that key by fastforce
    show "ack_keys (pool N + mset (outbox s')) \<subseteq># mset_set (cast N \<union> ballot_of ` {p \<in> set (outbox s'). is_ack p} - C)"
      using I(3) unfolding na(2) by (simp add: ack_keys_union na(1))
    show "failover_auth_count s' \<le> (if failover_auth_sent s' then int (card (backing C (failover_auth_epoch s') d)) else 0)"
      using key by simp
  qed simp
qed

lemma unmoved_refl: "cluster_inv s \<Longrightarrow> unmoved s s"
  by (simp add: unmoved_def)

lemma request_keeps:
  assumes inv: "net_inv V C N" and d: "inst N d = Some s" and p: "(d, m) \<in># pool N"
    and ty: "m_type m = CLUSTERMSG_TYPE_FAILOVER_AUTH_REQUEST"
    and st: "cluster_step (Packet E l len m) (fresh s) = Some s'" and V: "outbox s' \<noteq> [] \<Longrightarrow> d \<in> V"
  shows "net_inv V C (after_event N d s' (pool N - {#(d, m)#}))"
proof -
  note I = net_invD [OF inv]
  note ok = server_okD [OF I(4) [OF d]]
  define P where "P = pool N - {#(d, m)#}"
  have res: "unmoved (fresh s) s' \<and> failover_auth_count s' = failover_auth_count s \<and>
    (lastVoteEpoch s' = lastVoteEpoch s \<and> votes s' = [] \<or>
     lastVoteEpoch s \<noteq> currentEpoch s' \<and> lastVoteEpoch s' = currentEpoch s' \<and> currentEpoch s' \<le> m_currentEpoch m \<and>
     (votes s' = [] \<or>
      (\<exists>ack r n. votes s' = [Send r ack] \<and> m_type ack = CLUSTERMSG_TYPE_FAILOVER_AUTH_ACK \<and>
         m_currentEpoch ack = currentEpoch s' \<and> m_sender ack = d \<and> cheap s' r = Some n \<and> node_name n = m_sender m)))"
  proof (cases "link_ok (fresh s) l")
    case True
    with st obtain b where "clusterProcessPacket E (fresh s) l len m = Some (s', b)" by auto
    from request_outcome [OF this ty ok(1,2)] show ?thesis by simp
  next
    case False
    with st ok(1) show ?thesis by (auto simp: unmoved_refl simp del: fresh_simps(10))
  qed
  have um: "cluster_inv s'" "(d, myself s') \<in> own_entry s'" "currentEpoch s \<le> currentEpoch s'"
      "failover_auth_sent s' = failover_auth_sent s" "failover_auth_epoch s' = failover_auth_epoch s"
    using res ok(2) by (auto simp: unmoved_def)
  have last: "lastVoteEpoch s' \<le> currentEpoch s'" "lastVoteEpoch s \<le> lastVoteEpoch s'"
    using res ok(3) um(3) by auto
  have ok': "server_ok d s'" using um last ok(4) by (simp add: server_ok_def)
  have cnt: "failover_auth_count s' \<le> (if failover_auth_sent s' then int (card (backing C (failover_auth_epoch s') d)) else 0)"
    using I(5) [OF d] unfolding um(4,5) conjunct1 [OF conjunct2 [OF res]] .
  have less: "ack_keys P \<subseteq># ack_keys (pool N)" unfolding P_def by (rule ack_keys_less)
  have old: "(x, m') \<in># pool N" if "(x, m') \<in># P" for x m' using that by (auto simp: P_def dest: in_diffD)
  show ?thesis
  proof (cases "votes s' = []")
    case True
    then have [simp]: "outbox s' = []" by (rule outbox_none)
    show ?thesis
      unfolding after_event_def P_def [symmetric]
      by (rule net_inv_step [OF inv d ok' last(2) _ _ _ _ _ _ cnt])
        (use um(5) I(2) subset_mset.order_trans [OF less I(3)] old in auto)
  next
    case False
    define k where "k = (d, currentEpoch s', m_sender m)"
    from False res obtain ack r n where v: "votes s' = [Send r ack]" "m_type ack = CLUSTERMSG_TYPE_FAILOVER_AUTH_ACK"
        "m_currentEpoch ack = currentEpoch s'" "m_sender ack = d" "cheap s' r = Some n" "node_name n = m_sender m"
      and e: "lastVoteEpoch s \<noteq> currentEpoch s'" "lastVoteEpoch s' = currentEpoch s'" "currentEpoch s' \<le> m_currentEpoch m"
      by auto
    have out: "outbox s' = [(m_sender m, ack)]" using outbox_one [OF v(1,5)] v(6) by simp
    have new: "lastVoteEpoch s < currentEpoch s'" using last(2) e(1,2) by simp
    have bal: "ballot_of ` {p \<in> set (outbox s'). is_ack p} = {k}"
      by (auto simp: out k_def v)
    have kn: "k \<notin> cast N" using I(9) [of d "currentEpoch s'" "m_sender m"] d new by (auto simp: k_def)
    have ks: "ack_keys (P + mset (outbox s')) = add_mset k (ack_keys P)"
      by (simp add: ack_keys_def out k_def v)
    have "ack_keys P \<subseteq># mset_set (cast N - C)" by (rule subset_mset.order_trans [OF less I(3)])
    moreover have "insert k (cast N) - C = insert k (cast N - C)" using kn I(2) by auto
    ultimately have acks: "ack_keys (P + mset (outbox s')) \<subseteq># mset_set (insert k (cast N) - C)"
      using kn I(1) by (simp add: ks)
    show ?thesis
      unfolding after_event_def P_def [symmetric] bal Un_insert_right Un_empty_right
    proof (rule net_inv_step [OF inv d ok' last(2) _ _ _ _ _ acks cnt])
      show "insert k (cast N) = cast N \<or>
        (\<exists>e c. insert k (cast N) = insert (d, e, c) (cast N) \<and> d \<in> V \<and> lastVoteEpoch s < e \<and> e \<le> lastVoteEpoch s' \<and>
           (\<forall>sc. inst N c = Some sc \<longrightarrow> e \<le> failover_auth_epoch sc))"
        using V out new e(2) order_trans [OF e(3) I(6) [OF p ty]] by (auto simp: k_def)
      show "(x, m') \<in># pool N \<or> m_sender m' = d \<and> m_currentEpoch m' \<le> failover_auth_epoch s'"
        if "(x, m') \<in># P + mset (outbox s')" "m_type m' = CLUSTERMSG_TYPE_FAILOVER_AUTH_REQUEST" for x m'
        using that old v(2) by (auto simp: out)
    qed (use um(5) I(2) in auto)
  qed
qed

lemma vote_keeps:
  assumes inv: "net_inv V C N" and d: "inst N d = Some s" and p: "(d, m) \<in># pool N"
    and ty: "m_type m = CLUSTERMSG_TYPE_FAILOVER_AUTH_ACK"
    and st: "cluster_step (Packet E l len m) (fresh s) = Some s'"
    and due: "failover_auth_sent s \<or> m_currentEpoch m < failover_auth_epoch s"
  shows "\<exists>C'. net_inv V C' (after_event N d s' (pool N - {#(d, m)#}))"
proof -
  note I = net_invD [OF inv]
  note ok = server_okD [OF I(4) [OF d]]
  define P where "P = pool N - {#(d, m)#}"
  define k where "k = (m_sender m, m_currentEpoch m, d)"
  have res: "unmoved (fresh s) s' \<and> lastVoteEpoch s' = lastVoteEpoch s \<and> votes s' = [] \<and>
    (failover_auth_count s' = failover_auth_count s \<or>
     failover_auth_count s' = failover_auth_count s + 1 \<and>
       (failover_auth_epoch s \<le> m_currentEpoch m \<or> failover_auth_epoch s = 0))"
  proof (cases "link_ok (fresh s) l")
    case True
    with st obtain b where "clusterProcessPacket E (fresh s) l len m = Some (s', b)" by auto
    from ack_outcome [OF this ty ok(1)] show ?thesis by simp
  next
    case False
    with st ok(1) show ?thesis by (auto simp: unmoved_refl simp del: fresh_simps(10))
  qed
  have um: "cluster_inv s'" "(d, myself s') \<in> own_entry s'" "currentEpoch s \<le> currentEpoch s'"
      "failover_auth_sent s' = failover_auth_sent s" "failover_auth_epoch s' = failover_auth_epoch s"
      "lastVoteEpoch s' = lastVoteEpoch s"
    using res ok(2) by (auto simp: unmoved_def)
  have ok': "server_ok d s'" using um ok(3,4) by (auto simp: server_ok_def)
  have [simp]: "outbox s' = []" using res by (simp add: outbox_none)
  have old: "(x, m') \<in># pool N" if "(x, m') \<in># P" for x m' using that by (auto simp: P_def dest: in_diffD)
  have less: "ack_keys P \<subseteq># ack_keys (pool N)" unfolding P_def by (rule ack_keys_less)
  have Pk: "ack_keys P = ack_keys (pool N) - {#k#}" using ack_keys_diff [OF p] ty by (simp add: P_def k_def)
  have "k \<in># ack_keys (pool N)" using p ty by (force simp: ack_keys_def k_def)
  then have "k \<in># mset_set (cast N - C)" using I(3) by (rule mset_subset_eqD [rotated])
  then have kin: "k \<in> cast N" "k \<notin> C" using I(1) by simp_all
  have fin: "finite C" using I(1,2) by (rule finite_subset [rotated])
  have le: "m_currentEpoch m \<le> failover_auth_epoch s" using I(10) [OF kin(1) [unfolded k_def] d] .
  show ?thesis
  proof (cases "failover_auth_count s' = failover_auth_count s")
    case True
    have "net_inv V C (after_event N d s' P)"
      unfolding after_event_def
      by (rule net_inv_step [OF inv d ok'])
        (use um(5,6) I(2) I(5) [OF d] True um(4) subset_mset.order_trans [OF less I(3)] old in auto)
    then show ?thesis unfolding P_def by blast
  next
    case False
    with res have c1: "failover_auth_count s' = failover_auth_count s + 1"
      and e: "m_currentEpoch m = failover_auth_epoch s" using le by auto
    have sent: "failover_auth_sent s" using due e by simp
    have "backing (insert k C) (failover_auth_epoch s) d = insert (m_sender m) (backing C (failover_auth_epoch s) d)"
      by (auto simp: backing_def k_def e)
    moreover have "m_sender m \<notin> backing C (failover_auth_epoch s) d" using kin(2) by (simp add: backing_def k_def e)
    ultimately have "card (backing (insert k C) (failover_auth_epoch s) d) = Suc (card (backing C (failover_auth_epoch s) d))"
      using finite_backing [OF fin] by simp
    then have cnt: "failover_auth_count s' \<le>
        (if failover_auth_sent s' then int (card (backing (insert k C) (failover_auth_epoch s') d)) else 0)"
      using I(5) [OF d] sent um(4,5) c1 by simp
    have "ack_keys P \<subseteq># mset_set (cast N - C) - {#k#}"
      unfolding Pk using mset_subset_eq_count [OF I(3)] by (intro mset_subset_eqI) (simp add: diff_le_mono)
    moreover have "mset_set (cast N - C) - {#k#} = mset_set (cast N - insert k C)"
    proof -
      have "cast N - insert k C = (cast N - C) - {k}" by blast
      then show ?thesis using kin I(1) by (simp add: mset_set_Diff)
    qed
    ultimately have acks: "ack_keys P \<subseteq># mset_set (cast N - insert k C)" by simp
    have "net_inv V (insert k C) (after_event N d s' P)"
      unfolding after_event_def
      by (rule net_inv_step [OF inv d ok' _ _ _ _ _ _ _ cnt])
        (use um(5,6) I(2) kin acks old in auto)
    then show ?thesis unfolding P_def by blast
  qed
qed

lemma lose_keeps: "net_inv V C N \<Longrightarrow> net_inv V C (N\<lparr>pool := pool N - {#p#}\<rparr>)"
  unfolding net_inv_def
  using subset_mset.order_trans [OF ack_keys_less [of "pool N" p]] by (auto dest: in_diffD)

lemma net_step_keeps: "net_step V N N' \<Longrightarrow> net_inv V C N \<Longrightarrow> \<exists>C'. net_inv V C' N'"
proof (induction rule: net_step.induct)
  case (event N d s e s')
  from event_keeps [OF event(5,1-4)] show ?case by blast
next
  case (request d m N s E l len s')
  from request_keeps [OF request(6,3,1,2,4,5)] show ?case by blast
next
  case (vote d m N s E l len s')
  from vote_keeps [OF vote(6,3,1,2,5,4)] show ?case .
next
  case (lose N p)
  from lose_keeps [OF lose] show ?case by blast
qed

lemma net_start_inv: "net_start N \<Longrightarrow> net_inv V {} N"
  by (auto simp: net_start_def net_inv_def ack_keys_def backing_def)

lemma net_reach_inv: "net_reach V N N' \<Longrightarrow> net_start N \<Longrightarrow> \<exists>C. net_inv V C N'"
  by (induction rule: net_reach.induct) (use net_start_inv net_step_keeps in blast)+

section \<open>Elections\<close>

text \<open>
  What a record of votes has to promise: there are finitely many voters, each votes for one
  candidate of an epoch, and a tally is backed by votes.
\<close>

locale ballot_box =
  fixes good :: "'w \<Rightarrow> bool"
    and box :: "'w \<Rightarrow> ('v \<times> 'e \<times> 'v) set"
    and counts :: "'w \<Rightarrow> ('v \<times> 'e \<times> int) set"
    and electors :: "'v set"
  assumes electors_finite: "good w \<Longrightarrow> finite electors"
    and electors_only: "good w \<Longrightarrow> (v, e, c) \<in> box w \<Longrightarrow> v \<in> electors"
    and one_vote: "good w \<Longrightarrow> (v, e, c) \<in> box w \<Longrightarrow> (v, e, c') \<in> box w \<Longrightarrow> c = c'"
    and backed: "good w \<Longrightarrow> (c, e, k) \<in> counts w \<Longrightarrow> k \<le> int (card {v. (v, e, c) \<in> box w})"
begin

lemma votes_shared:
  assumes "good w" "(c, e, k) \<in> counts w" "(c', e, k') \<in> counts w" "c \<noteq> c'"
  shows "k + k' \<le> int (card electors)"
proof -
  let ?A = "{v. (v, e, c) \<in> box w}" and ?B = "{v. (v, e, c') \<in> box w}"
  have sub: "?A \<subseteq> electors" "?B \<subseteq> electors" using electors_only [OF assms(1)] by blast+
  then have fin: "finite ?A" "finite ?B" using electors_finite [OF assms(1)] finite_subset by blast+
  have "?A \<inter> ?B = {}" using one_vote [OF assms(1)] assms(4) by blast
  then have "card ?A + card ?B = card (?A \<union> ?B)" using fin by (simp add: card_Un_disjoint)
  also have "\<dots> \<le> card electors" using sub electors_finite [OF assms(1)] by (intro card_mono) simp_all
  finally show ?thesis using backed [OF assms(1,2)] backed [OF assms(1,3)] by simp
qed

lemma majority_unique:
  assumes "good w" "(c, e, k) \<in> counts w" "(c', e, k') \<in> counts w"
    "int (card electors) < 2 * k" "int (card electors) < 2 * k'"
  shows "c = c'"
  using votes_shared [OF assms(1-3)] assms(4,5) by fastforce

end

definition net_good :: "bytes set \<Rightarrow> net \<Rightarrow> bool" where
  "net_good V N \<longleftrightarrow> finite V \<and> (\<exists>N0. net_start N0 \<and> net_reach V N0 N)"

interpretation nets: ballot_box "net_good V" cast tally V for V
proof
  fix N v e c c' k
  assume good: "net_good V N"
  then obtain C where inv: "net_inv V C N" using net_reach_inv unfolding net_good_def by blast
  note I = net_invD [OF inv]
  show "finite V" using good by (simp add: net_good_def)
  show "v \<in> V" if "(v, e, c) \<in> cast N" using I(8) that by blast
  show "c = c'" if "(v, e, c) \<in> cast N" "(v, e, c') \<in> cast N" using I(7) that by blast
  show "k \<le> int (card {v. (v, e, c) \<in> cast N})" if "(c, e, k) \<in> tally N"
    using I(11) [OF that] backing_mono [OF I(1,2), of e c] by (simp add: backing_def)
qed

text \<open>
  C2: At most one candidate of an epoch gets a majority.  In every run of a network of servers, from
  well-formed states in which no vote has been counted, the numbers of votes that two different
  candidates have stood at in the same epoch add up to no more than the number of servers that
  ever vote, so that not both have more than half of them.

  In the run the events of all servers interleave in any order, and election packets are delayed,
  reordered and lost, but not duplicated.  It excludes: \<open>CLUSTER RESET\<close>; restarts of a server, which
  would forget what \<open>nodes.conf\<close> had not saved; epochs that wrap around 64 bits; election packets
  that no server of the network has sent; and a vote of the last election that arrives while its
  receiver has scheduled the next election and not started it, which property \<open>stale_vote_counts\<close>
  shows the code to count for the next election.
\<close>

theorem one_majority_per_epoch:
  assumes "net_start N0" "net_reach V N0 N" "finite V" "(c, e, k) \<in> tally N" "(c', e, k') \<in> tally N" "c \<noteq> c'"
  shows "k + k' \<le> int (card V) \<and> \<not> (int (card V) < 2 * k \<and> int (card V) < 2 * k')"
proof -
  have "net_good V N" using assms(1-3) by (auto simp: net_good_def)
  from nets.votes_shared [OF this assms(4,5,6)] show ?thesis by linarith
qed

text \<open>
  C6: a slave takes the place of its master only after a majority of votes.  If one run of
  \<open>clusterHandleSlaveFailover\<close> turns the server into a master, it had asked for votes and counted at
  least half of the size of the cluster plus one.
\<close>

theorem takeover_needs_majority:
  assumes "clusterHandleSlaveFailover E s = Some s'" "cheap s (myself s) = Some me" "\<not> nodeIsMaster me"
    "cheap s' (myself s) = Some me'" "nodeIsMaster me'"
  shows "failover_auth_sent s \<and> failover_auth_count s \<ge> csize s div 2 + 1"
  using assms(1)
proof (cases rule: clusterHandleSlaveFailover_cases)
  case idle
  with assms show ?thesis by simp
next
  case (schedule t)
  with schedule_election_result(4) [OF schedule(3)] assms show ?thesis by simp
next
  case (start t)
  then have "cheap t (myself t) = Some me" using assms(2) by (simp add: frame_def table_view_def)
  with start_election_result(9) [OF start(4)] start assms show ?thesis by simp
next
  case (win t)
  then show ?thesis by (simp add: frame_def election_view_def quorum_def)
qed

end
