(* ===== verification/Cluster_Takeover.thy ===== *)
theory Cluster_Takeover
  imports Cluster_Net
begin

text \<open>
  The end of an election: a slave that has the votes becomes a master, gets every slot its master
  had and nothing else.  The operations of the takeover cannot fail in a well-formed state.
\<close>

section \<open>Operations that return\<close>

lemma owner_exists: "slots_inv s \<Longrightarrow> cslots s j = Some r \<Longrightarrow> \<exists>n. cheap s r = Some n"
  using slots_inv_owner [of s j r] by blast

lemma known_exists:
  assumes "cluster_inv s" "(nm, r) \<in> set (cnodes s)"
  shows "\<exists>n. cheap s r = Some n"
  using named_node [OF assms] by blast

text \<open>\<open>gives m P\<close>: the operation has a result, and it satisfies \<open>P\<close>.\<close>

definition gives :: "'a option \<Rightarrow> ('a \<Rightarrow> bool) \<Rightarrow> bool" where
  "gives m P \<longleftrightarrow> (\<exists>x. m = Some x \<and> P x)"

named_theorems total

lemma gives_rules [total]:
  "P x \<Longrightarrow> gives (Some x) P"
  "gives bm (\<lambda>x. gives (bf x) P) \<Longrightarrow> gives (Option.bind bm bf) P"
  "(b \<Longrightarrow> gives m P) \<Longrightarrow> (\<not> b \<Longrightarrow> gives n P) \<Longrightarrow> gives (if b then m else n) P"
  "(\<And>x. x = e \<Longrightarrow> gives (g x) P) \<Longrightarrow> gives (Let e g) P"
  "(z = None \<Longrightarrow> gives m P) \<Longrightarrow> (\<And>y. z = Some y \<Longrightarrow> gives (h y) P) \<Longrightarrow>
     gives (case z of None \<Rightarrow> m | Some y \<Rightarrow> h y) P"
  "(\<And>a b. p = (a, b) \<Longrightarrow> gives (k a b) P) \<Longrightarrow> gives (case p of (a, b) \<Rightarrow> k a b) P"
  by (auto simp: gives_def split: option.splits prod.splits)

lemma gives_known: "m = Some x \<Longrightarrow> P x \<Longrightarrow> gives m P"
  by (simp add: gives_def)

lemma gives_then: "gives m P \<Longrightarrow> (\<And>x. m = Some x \<Longrightarrow> P x \<Longrightarrow> Q x) \<Longrightarrow> gives m Q"
  by (auto simp: gives_def)

lemma gives_loop:
  assumes "P s" "\<And>x s. x \<in> set xs \<Longrightarrow> P s \<Longrightarrow> gives (f x s) P"
  shows "gives (loop f xs s) P"
  using loop_some [of P s xs f] assms by (simp add: gives_def)

lemma gives_ex: "gives m (\<lambda>_. True) \<longleftrightarrow> (\<exists>x. m = Some x)"
  by (simp add: gives_def)

lemma uncovered_returns:
  assumes "slots_inv s"
  shows "\<exists>b. uncovered s js = Some b"
proof (induction js)
  case (Cons j js)
  then obtain b where b: "uncovered s js = Some b" by blast
  show ?case
  proof (cases "cslots s j")
    case (Some r)
    with owner_exists [OF assms, of j] obtain n where "cheap s r = Some n" by blast
    with Some b show ?thesis by (cases "nodeFailed n") auto
  qed auto
qed auto

lemma count_masters_returns:
  assumes "cluster_inv s"
  shows "\<exists>p. count_masters s = Some p"
  unfolding count_masters_def gives_ex [symmetric]
  by (rule gives_loop) (use known_exists [OF assms] in \<open>fastforce simp: gives_def split: prod.splits\<close>)+

lemma clusterUpdateState_returns:
  assumes "cluster_inv s"
  shows "gives (clusterUpdateState E s) (\<lambda>s'. cheap s' = cheap s)"
proof -
  have views: "cluster_inv t \<and> cheap t = cheap s \<and> myself t = myself s"
    if "t = (if first_call_time u = 0 then u\<lparr>first_call_time := now E\<rparr> else u)"
      "u = s\<lparr>todo_before_sleep := todo_before_sleep s - {TODO_UPDATE_STATE}\<rparr>" for t u
  proof -
    have "frame t = frame s" by (simp add: that)
    with cluster_inv_frame [OF this] assms show ?thesis by (simp add: that)
  qed
  obtain me where me: "cheap s (myself s) = Some me" using assms by (rule cluster_inv_me)
  let ?st = "\<lambda>u t. u = s\<lparr>todo_before_sleep := todo_before_sleep s - {TODO_UPDATE_STATE}\<rparr> \<and>
    t = (if first_call_time u = 0 then u\<lparr>first_call_time := now E\<rparr> else u)"
  have known: "gives (cheap t (myself t)) Q" if "?st u t" "Q me" for u t Q
    using views [of t u] that me by (simp add: gives_def)
  have slots: "gives (if require_full_coverage E then uncovered t js else Some False) Q" if "?st u t" "\<And>b. Q b" for u t Q js
  proof (cases "require_full_coverage E")
    case True
    have "slots_inv t" using views [of t u] that slots_of_cluster by simp
    with True uncovered_returns [of t js] that(2) show ?thesis by (auto simp: gives_def)
  qed (auto simp: gives_def that(2))
  have masters: "gives (count_masters t) Q" if "?st u t" "\<And>p. Q p" for u t Q
  proof -
    have "cluster_inv t" using views [of t u] that by simp
    from count_masters_returns [OF this] that(2) show ?thesis by (auto simp: gives_def)
  qed
  show ?thesis
    unfolding clusterUpdateState_def
    by (rule gives_rules(4), rule gives_rules(4), rule gives_rules(2), rule known, rule conjI, assumption, assumption,
       rule gives_rules(3), rule gives_rules(1), (use views in blast)[1],
       rule gives_rules(2), rule slots, rule conjI, assumption, assumption,
       rule gives_rules(2), rule masters, rule conjI, assumption, assumption,
       rule gives_rules(6),
       (rule gives_rules(1,3,4) | (drule (1) views, simp split: if_splits)[1])+)
qed

lemma clusterBroadcastPong_returns:
  assumes "cluster_inv s"
  shows "gives (clusterBroadcastPong E s lcl) (\<lambda>s'. cheap s' = cheap s \<and> myself s' = myself s)"
proof -
  obtain me where me: "cheap s (myself s) = Some me" using assms by (rule cluster_inv_me)
  show ?thesis
    unfolding clusterBroadcastPong_def
    by (rule gives_loop)
      (use known_exists [OF assms] me in \<open>fastforce simp: gives_def clusterSendPing_def split: prod.splits\<close>)+
qed

section \<open>Taking over the slots\<close>

lemma takeover_slot_returns:
  assumes inv: "slots_inv s" and j: "j < REDIS_CLUSTER_SLOTS" and n: "cheap s (myself s) = Some n" "node_link n = None"
    and m: "cheap s m = Some mn" "m \<noteq> myself s"
  obtains s' n' where "takeover_slot m j s = Some s'" "slot_step s s'"
    "cslots s' = (if cslots s j = Some m then (cslots s)(j \<mapsto> myself s) else cslots s)"
    "cheap s' (myself s) = Some n'" "node_link n' = None" "node_flags n' = node_flags n" "configEpoch n' = configEpoch n"
proof (cases "cslots s j = Some m")
  case False
  then have "\<not> clusterNodeGetSlotBit mn j" using slot_bit [OF inv m(1) j] by (simp add: clusterNodeGetSlotBit_def)
  with False n m that [of s n] show thesis by (simp add: takeover_slot_def)
next
  case True
  then have bit: "clusterNodeGetSlotBit mn j" using slot_bit [OF inv m(1) j] by (simp add: clusterNodeGetSlotBit_def)
  then have old: "bitmapTestBit (node_slots mn) j" by (simp add: clusterNodeGetSlotBit_def)
  obtain t where t: "del_slot j s = Some t" "cheap t (myself s) = Some n" "myself t = myself s" "cslots t j = None"
    using True m old n by (auto simp: del_slot_def clusterDelSlot_def clusterNodeClearSlotBit_def Let_def)
  obtain u where u: "add_slot (myself t) j t = Some u"
      "cheap u (myself s) = Some (fst (clusterNodeSetSlotBit n j))"
    using t n by (simp add: add_slot_def clusterAddSlot_def)
  note mv = move_slot_step [OF inv j t(1) u(1)]
  show thesis
    by (rule that [of u "fst (clusterNodeSetSlotBit n j)"])
      (use m bit True mv t u n in \<open>simp_all add: takeover_slot_def clusterNodeSetSlotBit_def Let_def\<close>)
qed

lemma takeover_loop:
  assumes inv: "slots_inv u" and n: "cheap u (myself u) = Some n" "node_link n = None"
    and m: "cheap u m = Some mn" "m \<noteq> myself u" and k: "k \<le> REDIS_CLUSTER_SLOTS"
  shows "\<exists>s n'. loop (takeover_slot m) [0..<k] u = Some s \<and> slot_step u s \<and>
    cslots s = (\<lambda>j. if j < k \<and> cslots u j = Some m then Some (myself u) else cslots u j) \<and>
    cheap s (myself u) = Some n' \<and> node_link n' = None \<and> node_flags n' = node_flags n \<and> configEpoch n' = configEpoch n"
  using k
proof (induction k)
  case 0
  show ?case using n by simp
next
  case (Suc k)
  then obtain s n' where s: "loop (takeover_slot m) [0..<k] u = Some s" "slot_step u s"
      "cslots s = (\<lambda>j. if j < k \<and> cslots u j = Some m then Some (myself u) else cslots u j)"
      "cheap s (myself u) = Some n'" "node_link n' = None" "node_flags n' = node_flags n" "configEpoch n' = configEpoch n"
    by auto
  have me: "myself s = myself u" and si: "slots_inv s" using s(2) inv by (simp_all add: slot_step_def)
  have "map_option fst (node_view s m) = map_option fst (node_view u m)" using s(2) by (simp add: slot_step_def)
  then obtain mn' where m': "cheap s m = Some mn'" using m(1) by (auto simp: node_view_def)
  have k: "k < REDIS_CLUSTER_SLOTS" using Suc.prems by simp
  from s(4) have "cheap s (myself s) = Some n'" by (simp add: me)
  from takeover_slot_returns [OF si k this s(5) m'] m(2) me obtain t n'' where
      t: "takeover_slot m k s = Some t" "slot_step s t"
        "cslots t = (if cslots s k = Some m then (cslots s)(k \<mapsto> myself s) else cslots s)"
        "cheap t (myself s) = Some n''" "node_link n'' = None" "node_flags n'' = node_flags n'" "configEpoch n'' = configEpoch n'"
    by metis
  have "loop (takeover_slot m) [0..<Suc k] u = Some t" using s(1) t(1) by (simp add: loop_append)
  moreover have "cslots t = (\<lambda>j. if j < Suc k \<and> cslots u j = Some m then Some (myself u) else cslots u j)"
    using t(3) s(3) me by (auto simp: fun_eq_iff less_Suc_eq)
  ultimately show ?case
    using slot_step_trans [OF s(2) t(2)] t(4-7) s(6,7) me by auto
qed

lemma become_master:
  assumes "cluster_inv s" "cheap s (myself s) = Some me" "\<not> nodeIsMaster me" "slaveof me = Some m" "m \<noteq> myself s"
    "cheap s m = Some mn"
  obtains u n where "clusterSetNodeAsMaster s (myself s) = Some u" "cheap u (myself s) = Some n" "nodeIsMaster n"
    "node_link n = node_link me" "configEpoch n = configEpoch me" "cheap u m \<noteq> None"
  using assms
  by (auto simp: clusterSetNodeAsMaster_def remove_slave_def clusterDoBeforeSleep_def clusterNodeRemoveSlave_def)

lemma takeover_returns:
  assumes inv: "cluster_inv s" and me: "cheap s (myself s) = Some me" "\<not> nodeIsMaster me" "slaveof me = Some m"
    "m \<noteq> myself s" "node_link me = None" and mn: "cheap s m = Some mn"
  obtains s' n where "clusterFailoverReplaceYourMaster E s = Some s'" "slot_step s s'" 
    "cslots s' = (\<lambda>j. if cslots s j = Some m then Some (myself s) else cslots s j)"
    "cheap s' (myself s) = Some n" "nodeIsMaster n" "configEpoch n = configEpoch me"
proof -
  obtain u n where u: "clusterSetNodeAsMaster s (myself s) = Some u" "cheap u (myself s) = Some n" "nodeIsMaster n"
      "node_link n = None" "configEpoch n = configEpoch me" "cheap u m \<noteq> None"
    using become_master [OF inv me(1-4) mn] me(5) by metis
  define v where "v = emit u ReplicationUnsetMaster"
  have fv: "frame v = frame s" using clusterSetNodeAsMaster_frame [OF u(1)] by (simp add: v_def)
  then have same: "myself v = myself s" "cslots v = cslots s" by (simp_all add: frame_def table_view_def)
  have iv: "cluster_inv v" using cluster_inv_frame [OF fv] inv by simp
  obtain mv where mv: "cheap v m = Some mv" using u(6) by (auto simp: v_def)
  have nv: "cheap v (myself v) = Some n" using u(2) same by (simp add: v_def)
  obtain w n' where w: "loop (takeover_slot m) [0..<REDIS_CLUSTER_SLOTS] v = Some w" "slot_step v w"
      "cslots w = (\<lambda>j. if j < REDIS_CLUSTER_SLOTS \<and> cslots v j = Some m then Some (myself v) else cslots v j)"
      "cheap w (myself v) = Some n'" "node_flags n' = node_flags n" "configEpoch n' = configEpoch n"
    using takeover_loop [OF slots_of_cluster [OF iv] nv u(4) mv _ order_refl] me(4) same by auto
  have iw: "cluster_inv w" by (rule slot_step_inv [OF w(2) iv])
  obtain x where x: "clusterUpdateState E w = Some x" "cheap x = cheap w"
    using clusterUpdateState_returns [OF iw, of E] by (auto simp: gives_def)
  have fx: "frame (clusterSaveConfig x True) = frame w" using clusterUpdateState_frame [OF x(1)] by simp
  have "cluster_inv (clusterSaveConfig x True)" using cluster_inv_frame [OF fx] iw by simp
  then obtain y where y: "clusterBroadcastPong E (clusterSaveConfig x True) False = Some y"
      "cheap y = cheap (clusterSaveConfig x True)"
    using clusterBroadcastPong_returns [of "clusterSaveConfig x True" E False] by (auto simp: gives_def)
  have fz: "frame (resetManualFailover E y) = frame w" using clusterBroadcastPong_frame [OF y(1)] fx by simp
  have run: "clusterFailoverReplaceYourMaster E s = Some (resetManualFailover E y)"
    using me u(1) w(1) x(1) y(1) by (simp add: clusterFailoverReplaceYourMaster_def v_def)
  have cz: "cheap (resetManualFailover E y) = cheap w"
    using x(2) y(2) by (simp add: resetManualFailover_def Let_def clusterSaveConfig_def)
  have "cslots (resetManualFailover E y) = cslots w" using fz by (simp add: frame_def table_view_def)
  also have "\<dots> = (\<lambda>j. if cslots s j = Some m then Some (myself s) else cslots s j)"
    using w(3) same slots_inv_table [OF slots_of_cluster [OF inv]] by (auto simp: fun_eq_iff)
  finally have cs: "cslots (resetManualFailover E y) = \<dots>" .
  show thesis
    by (rule that [of _ n', OF run slot_step_trans [OF slot_step_frame [OF fv] slot_step_trans [OF w(2) slot_step_frame [OF fz]]] cs])
      (use cz w(4-6) same u(3,5) in simp_all)
qed

lemma majority_takes_over:
  assumes "cluster_inv s" "cheap s (myself s) = Some me" "\<not> nodeIsMaster me" "slaveof me = Some m" "m \<noteq> myself s"
    and "node_link me = None" "cheap s m = Some mn" "nodeFailed mn" "numslots mn \<noteq> 0" "\<not> data_too_old E"
    and "failover_auth_sent s" "failover_auth_count s \<ge> csize s div 2 + 1"
    and "failover_auth_time s \<le> now E" "now E - failover_auth_time s \<le> max 2000 (cluster_node_timeout E * 2)"
  shows "\<exists>s' n. clusterHandleSlaveFailover E s = Some s' \<and> cluster_inv s' \<and>
     cheap s' (myself s) = Some n \<and> nodeIsMaster n \<and> failover_auth_epoch s \<le> configEpoch n \<and>
     (\<forall>j. cslots s' j = (if cslots s j = Some m then Some (myself s) else cslots s j))"
proof -
  define u where "u = s\<lparr>todo_before_sleep := todo_before_sleep s - {TODO_HANDLE_FAILOVER}\<rparr>"
  define n0 where "n0 = (if configEpoch me < failover_auth_epoch u then me\<lparr>configEpoch := failover_auth_epoch u\<rparr> else me)"
  define v where "v = set_node u (myself u) n0"
  have fu: "frame u = frame s" "cheap u = cheap s" "myself u = myself s" by (simp_all add: u_def)
  have iu: "cluster_inv u" using cluster_inv_frame [OF fu(1)] assms(1) by simp
  have fv: "frame v = frame u"
    unfolding v_def by (rule set_node_frame [where n = me]) (simp_all add: fu n0_def assms(2))
  have iv: "cluster_inv v" using cluster_inv_frame [OF fv] iu by simp
  have handler: "clusterHandleSlaveFailover E s = win_election E u"
    unfolding clusterHandleSlaveFailover_def u_def [symmetric]
    using assms by (simp add: failover_needed_def adjust_rank_def u_def Let_def max_def split: if_splits)
  have win: "win_election E u = clusterFailoverReplaceYourMaster E v"
  proof -
    have me: "cheap u (myself u) = Some me" using assms(2) fu by simp
    then have "set_node u (myself u) me = u" by (cases u) (simp add: fun_upd_idem)
    with me show ?thesis by (simp add: win_election_def v_def n0_def Let_def)
  qed
  obtain s' n where s': "clusterFailoverReplaceYourMaster E v = Some s'" "slot_step v s'"
      "cslots s' = (\<lambda>j. if cslots v j = Some m then Some (myself v) else cslots v j)"
      "cheap s' (myself v) = Some n" "nodeIsMaster n" "configEpoch n = configEpoch n0"
    by (rule takeover_returns [where E = E, OF iv, of n0 m mn]) (use assms in \<open>auto simp: v_def n0_def fu\<close>)
  have "failover_auth_epoch s \<le> configEpoch n0" by (simp add: n0_def u_def not_less)
  moreover have "cslots v = cslots s" "myself v = myself s" by (simp_all add: v_def u_def)
  ultimately show ?thesis
    using s' slot_step_inv [OF s'(2) iv] handler win by auto
qed


section \<open>A concrete cluster\<close>

text \<open>
  Four servers: node 0 is a master that has failed and has slot 0, node 1 is a master with slot 1,
  nodes 2 and 3 are slaves of node 0 whose elections are due.  \<open>demo i\<close> is the state of server \<open>i\<close>.
\<close>

definition demo_env :: cluster_env where
  "demo_env = (cluster_env.truncate quiet_env)\<lparr>require_full_coverage := False, repl_down_since := 100\<rparr>"

definition demo_link :: "nref \<Rightarrow> nref \<Rightarrow> clusterLink option" where
  "demo_link i k = (if k = i then None else Some \<lparr>link_fd = int k + 10, link_ctime = 0\<rparr>)"

definition demo_node :: "nref \<Rightarrow> nref \<Rightarrow> clusterNode" where
  "demo_node i k =
    (let n = (createClusterNode 0 (node_id k) (if k = i then {REDIS_NODE_MYSELF} else {}))\<lparr>node_link := demo_link i k\<rparr>
     in if k = 0 then n\<lparr>node_flags := node_flags n \<union> {REDIS_NODE_MASTER, REDIS_NODE_FAIL}, numslots := 1,
                        node_slots := bitmapSetBit (node_slots n) 0, slaves := [2, 3]\<rparr>
        else if k = 1 then n\<lparr>node_flags := node_flags n \<union> {REDIS_NODE_MASTER}, numslots := 1,
                        node_slots := bitmapSetBit (node_slots n) 1\<rparr>
        else n\<lparr>node_flags := node_flags n \<union> {REDIS_NODE_SLAVE}, slaveof := Some 0\<rparr>)"

definition demo :: "nref \<Rightarrow> clusterState" where
  "demo i = (clusterInit demo_env (node_id i) False)
     \<lparr>myself := i, cheap := (\<lambda>k. if k < 4 then Some (demo_node i k) else None), csize := 2,
      cnodes := map (\<lambda>k. (node_id k, k)) [0, 1, 2, 3], next_ref := 4, currentEpoch := 3,
      cslots := [0 \<mapsto> 0, 1 \<mapsto> 1], failover_auth_time := 100000, failover_auth_epoch := 3,
      todo_before_sleep := {TODO_HANDLE_FAILOVER}, effects := []\<rparr>"

lemma node_id_eq: "k < 4 \<Longrightarrow> l < 4 \<Longrightarrow> node_id k = node_id l \<longleftrightarrow> k = l"
  by (auto simp: node_id_def word_of_nat_eq_iff take_bit_nat_eq_self simp del: of_nat_add)

lemma claimed_one: "j < 16384 \<Longrightarrow> claimed (bitmapSetBit (replicate 2048 0) j) = {j}"
  by (auto simp: claimed_def REDIS_CLUSTER_SLOTS_def bitmapSetBit_test)

lemma claimed_none: "claimed (replicate 2048 0) = {}"
  by (auto simp: claimed_def REDIS_CLUSTER_SLOTS_def)

lemma demo_inv: "i < 4 \<Longrightarrow> cluster_inv (demo i)"
  by (auto simp: cluster_inv_def slots_inv_def nodes_inv_def node_view_def demo_def demo_node_def createClusterNode_def
      claimed_one claimed_none node_id_eq REDIS_CLUSTER_SLOTS_def Let_def clusterInit_def split: if_splits)

text \<open>Server 2 with two votes.\<close>

definition demo_winner :: clusterState where
  "demo_winner = (demo 2)\<lparr>failover_auth_sent := True, failover_auth_count := 2\<rparr>"

lemma demo_winner_facts:
  "cluster_inv demo_winner" "cheap demo_winner (myself demo_winner) = Some (demo_node 2 2)" "\<not> nodeIsMaster (demo_node 2 2)"
  "slaveof (demo_node 2 2) = Some 0" "0 \<noteq> myself demo_winner" "node_link (demo_node 2 2) = None"
  "cheap demo_winner 0 = Some (demo_node 2 0)" "nodeFailed (demo_node 2 0)" "numslots (demo_node 2 0) \<noteq> 0"
  "\<not> data_too_old demo_env" "failover_auth_sent demo_winner"
  "failover_auth_count demo_winner \<ge> csize demo_winner div 2 + 1" "failover_auth_time demo_winner \<le> now demo_env"
  "now demo_env - failover_auth_time demo_winner \<le> max 2000 (cluster_node_timeout demo_env * 2)"
  "myself demo_winner = 2" "cslots demo_winner = [0 \<mapsto> 0, 1 \<mapsto> 1]"
proof -
  show "cluster_inv demo_winner"
    using demo_inv [of 2] cluster_inv_views [of demo_winner "demo 2"]
    by (simp add: demo_winner_def table_view_def node_view_def fun_eq_iff)
qed (simp_all add: demo_winner_def demo_def demo_node_def createClusterNode_def demo_link_def Let_def data_too_old_def
      demo_env_def quiet_env_def cluster_env.defs)

lemma demo_takeover:
  obtains s' n where "clusterHandleSlaveFailover demo_env demo_winner = Some s'" "cheap s' 2 = Some n" "nodeIsMaster n"
  using majority_takes_over [OF demo_winner_facts(1-14)] demo_winner_facts(15) by auto

text \<open>
  C5: a majority of votes is enough.  In a well-formed state of a slave whose master is marked as
  failed and has slots, whose data is not too old and whose election is running and has not timed
  out, \<open>clusterHandleSlaveFailover\<close> with a majority of votes returns, and then the server is a
  master, every slot of its old master is assigned to it and no other slot has moved, and its
  configuration epoch is at least the epoch of the election.
\<close>

theorem takeover_completes:
  assumes "cluster_inv s" "cheap s (myself s) = Some me" "\<not> nodeIsMaster me" "slaveof me = Some m" "m \<noteq> myself s"
    and "node_link me = None" "cheap s m = Some mn" "nodeFailed mn" "numslots mn \<noteq> 0" "\<not> data_too_old E"
    and "failover_auth_sent s" "failover_auth_count s \<ge> csize s div 2 + 1"
    and "failover_auth_time s \<le> now E" "now E - failover_auth_time s \<le> max 2000 (cluster_node_timeout E * 2)"
  shows "\<exists>s' n. clusterHandleSlaveFailover E s = Some s' \<and> cluster_inv s' \<and>
     cheap s' (myself s) = Some n \<and> nodeIsMaster n \<and> failover_auth_epoch s \<le> configEpoch n \<and>
     (\<forall>j. cslots s' j = (if cslots s j = Some m then Some (myself s) else cslots s j))"
  using majority_takes_over [OF assms] .

lemma takeover_completes_witness:
  "\<exists>s' n. clusterHandleSlaveFailover demo_env demo_winner = Some s' \<and>
     cheap s' 2 = Some n \<and> nodeIsMaster n \<and> cslots s' 0 = Some 2 \<and> cslots s' 1 = Some 1"
  using takeover_completes [OF demo_winner_facts(1-14)] unfolding demo_winner_facts(15,16) by fastforce

lemma takeover_needs_majority_witness:
  "failover_auth_sent demo_winner \<and> (\<exists>s' n. clusterHandleSlaveFailover demo_env demo_winner = Some s' \<and>
     cheap s' (myself demo_winner) = Some n \<and> nodeIsMaster n)"
proof -
  obtain s' n where r: "clusterHandleSlaveFailover demo_env demo_winner = Some s'" "cheap s' 2 = Some n" "nodeIsMaster n"
    by (rule demo_takeover)
  have m: "cheap s' (myself demo_winner) = Some n" using r(2) unfolding demo_winner_facts(15) .
  from takeover_needs_majority [OF r(1) demo_winner_facts(2,3) m r(3)] r(1,3) m show ?thesis by blast
qed

end
