(* ===== verification/Cluster_Ballot.thy ===== *)
theory Cluster_Ballot
  imports Cluster_Takeover
begin

text \<open>
  A concrete election: two slaves of one master ask for votes in the same epoch.
\<close>

lemma demo_node_fields:
  "node_flags (demo_node i k) = (if k = i then {REDIS_NODE_MYSELF} else {}) \<union>
     (if k = 0 then {REDIS_NODE_MASTER, REDIS_NODE_FAIL} else if k = 1 then {REDIS_NODE_MASTER} else {REDIS_NODE_SLAVE})"
  "node_link (demo_node i k) = demo_link i k" "slaveof (demo_node i k) = (if k < 2 then None else Some 0)"
  "numslots (demo_node i k) = (if k < 2 then 1 else 0)" "slaves (demo_node i k) = (if k = 0 then [2, 3] else [])"
  "node_name (demo_node i k) = node_id k" "configEpoch (demo_node i k) = 0" "repl_offset (demo_node i k) = 0"
  "voted_time (demo_node i k) = 0"
  by (simp_all add: demo_node_def createClusterNode_def Let_def)

lemma demo_fields:
  "myself (demo i) = i" "cheap (demo i) = (\<lambda>k. if k < 4 then Some (demo_node i k) else None)" "csize (demo i) = 2"
  "cnodes (demo i) = [(node_id 0, 0), (node_id 1, 1), (node_id 2, 2), (node_id 3, 3)]" "currentEpoch (demo i) = 3"
  "failover_auth_time (demo i) = 100000" "failover_auth_epoch (demo i) = 3" "failover_auth_rank (demo i) = 0"
  "failover_auth_sent (demo i) = False" "failover_auth_count (demo i) = 0" "mf_end (demo i) = 0" "lastVoteEpoch (demo i) = 0"
  "todo_before_sleep (demo i) = {TODO_HANDLE_FAILOVER}" "effects (demo i) = []" "health (demo i) = REDIS_CLUSTER_FAIL"
  "cslots (demo i) = [0 \<mapsto> 0, 1 \<mapsto> 1]"
  by (simp_all add: demo_def clusterInit_def clusterSaveConfig_def)

lemma demo_env_fields:
  "now demo_env = 100000" "unixtime demo_env = 100" "cluster_node_timeout demo_env = 15000"
  "require_full_coverage demo_env = False" "data_too_old demo_env = False" "slave_offset demo_env = 0"
  by (simp_all add: demo_env_def quiet_env_def cluster_env.defs data_too_old_def Let_def)

lemmas demo_simps = demo_node_fields demo_fields demo_env_fields demo_link_def fresh_def

definition demo_request :: "nref \<Rightarrow> clusterMsg" where
  "demo_request i =
    (the (clusterBuildMessageHdr demo_env ((demo i)\<lparr>currentEpoch := 4\<rparr>) CLUSTERMSG_TYPE_FAILOVER_AUTH_REQUEST))
      \<lparr>m_totlen := 2208\<rparr>"

text \<open>Server \<open>i\<close> has asked for votes in epoch 4.\<close>

definition asking :: "nref \<Rightarrow> clusterState \<Rightarrow> bool" where
  "asking i s \<longleftrightarrow> cheap s = cheap (demo i) \<and> cnodes s = cnodes (demo i) \<and> myself s = i \<and> currentEpoch s = 4 \<and>
     failover_auth_epoch s = 4 \<and> failover_auth_sent s \<and> failover_auth_count s = 0 \<and> mf_end s = 0 \<and>
     Send 1 (demo_request i) \<in> set (effects s)"

lemmas demo_election_defs = clusterBeforeSleep_def clusterHandleSlaveFailover_def failover_needed_def adjust_rank_def
  clusterGetSlaveRank_def start_election_def clusterRequestFailoverAuth_def clusterBuildMessageHdr_def
  clusterBroadcastMessage_def clusterDoBeforeSleep_def clusterUpdateState_def count_masters_def
  clusterSaveConfig_def asking_def demo_request_def

lemma demo_elects:
  assumes "i = 2 \<or> i = 3"
  obtains s where "cluster_step (BeforeSleep demo_env) (fresh (demo i)) = Some s" "asking i s"
proof -
  have "\<exists>s. cluster_step (BeforeSleep demo_env) (fresh (demo i)) = Some s \<and> asking i s"
    using assms
  proof
    assume "i = 2"
    then show ?thesis by (simp add: demo_election_defs demo_simps Let_def del: One_nat_def)
  next
    assume "i = 3"
    then show ?thesis by (simp add: demo_election_defs demo_simps Let_def del: One_nat_def)
  qed
  with that show thesis by blast
qed

lemma outbox_send:
  assumes "Send r m \<in> set (effects s)" "is_vote (Send r m)" "cheap s r = Some n"
  shows "(node_name n, m) \<in> set (outbox s)"
proof -
  have "addressed s (Send r m) = Some (node_name n, m)" using assms(3) by (simp add: addressed_def)
  moreover have "Send r m \<in> set (votes s)" using assms(1,2) by simp
  ultimately show ?thesis by (force simp: outbox_def List.map_filter_def)
qed

lemma newer_slot_none:
  assumes "\<And>j r. cslots s j = Some r \<Longrightarrow> \<exists>n. cheap s r = Some n \<and> configEpoch n \<le> epoch"
  shows "newer_slot s epoch bm js = Some False"
proof (induction js)
  case (Cons j js)
  show ?case
  proof (cases "cslots s j")
    case (Some r)
    with assms obtain n where "cheap s r = Some n" "configEpoch n \<le> epoch" by blast
    with Cons Some show ?thesis by simp
  qed (simp add: Cons)
qed simp

lemma demo_request_fields:
  "m_type (demo_request i) = CLUSTERMSG_TYPE_FAILOVER_AUTH_REQUEST \<and> m_currentEpoch (demo_request i) = 4 \<and>
   m_configEpoch (demo_request i) = 0 \<and> m_sender (demo_request i) = node_id i \<and>
   m_totlen (demo_request i) = 2208 \<and> m_ver (demo_request i) = 0"
  if "i < 4"
  using that by (simp add: demo_request_def clusterBuildMessageHdr_def demo_simps split: option.splits)

definition demo_ack :: clusterMsg where
  "demo_ack =
    (the (clusterBuildMessageHdr demo_env ((demo 1)\<lparr>currentEpoch := 4\<rparr>) CLUSTERMSG_TYPE_FAILOVER_AUTH_ACK))
      \<lparr>m_totlen := 2208\<rparr>"

lemma demo_ack_fields:
  "m_type demo_ack = CLUSTERMSG_TYPE_FAILOVER_AUTH_ACK" "m_currentEpoch demo_ack = 4" "m_configEpoch demo_ack = 0"
  "m_sender demo_ack = node_id 1" "m_totlen demo_ack = 2208" "m_ver demo_ack = 0"
  by (simp_all add: demo_ack_def clusterBuildMessageHdr_def demo_simps)

lemma demo_lookup: "k < 4 \<Longrightarrow> cnodes s = cnodes (demo i) \<Longrightarrow> clusterLookupNode s (node_id k) = Some k"
  by (auto simp: clusterLookupNode_def demo_simps node_id_eq numeral_eq_Suc less_Suc_eq)

text \<open>The master votes for server 2.\<close>

lemma demo_votes:
  obtains s where "cluster_step (Packet demo_env (Some 2) 2208 (demo_request 2)) (fresh (demo 1)) = Some s"
    "Send 2 demo_ack \<in> set (effects s)" "\<exists>n. cheap s 2 = Some n \<and> node_name n = node_id 2"
proof -
  have sane: "packet_sane 2208 (demo_request 2)" using demo_request_fields [of 2] by (simp add: packet_sane_def explen_def)
  have link: "link_ok (fresh (demo 1)) (Some 2)" by (simp add: link_ok_def demo_simps)
  have look: "clusterLookupNode (fresh (demo 1)) (node_id 2) = Some 2" by (rule demo_lookup) (simp_all add: fresh_def)
  note req = demo_request_fields [of 2, simplified]
  define n where "n = (demo_node 1 2)\<lparr>configEpoch := 0, repl_offset := m_offset (demo_request 2), repl_offset_time := 100000\<rparr>"
  define t where "t = (fresh (demo 1))\<lparr>currentEpoch := 4, cheap := (cheap (demo 1))(2 \<mapsto> n)\<rparr>"
  have t: "myself t = 1" "currentEpoch t = 4" "lastVoteEpoch t = 0" "cheap t 0 = Some (demo_node 1 0)" "mf_end t = 0"
    "cheap t 1 = Some (demo_node 1 1)" "cheap t 2 = Some n" "effects t = []" "health t = REDIS_CLUSTER_FAIL"
    by (simp_all add: t_def demo_simps)
  have n: "node_flags n = {REDIS_NODE_SLAVE}" "slaveof n = Some 0" "node_link n \<noteq> None" "node_name n = node_id 2"
    by (simp_all add: n_def demo_simps)
  have noted: "note_sender demo_env (fresh (demo 1)) (Some 2) (demo_request 2) = Some (t, 4, 0)"
    using req by (simp add: note_sender_def t_def n_def demo_simps Let_def)
  have newer: "newer_slot t 0 bm js = Some False" for bm js
    by (rule newer_slot_none) (auto simp: t_def n_def demo_simps split: if_splits)
  have ack: "clusterSendFailoverAuth demo_env t 2 = Some (emit t (Send 2 demo_ack))"
  proof -
    have "clusterBuildMessageHdr demo_env t CLUSTERMSG_TYPE_FAILOVER_AUTH_ACK =
        clusterBuildMessageHdr demo_env ((demo 1)\<lparr>currentEpoch := 4\<rparr>) CLUSTERMSG_TYPE_FAILOVER_AUTH_ACK"
      using t by (simp add: clusterBuildMessageHdr_def demo_fields demo_node_fields)
    moreover have "clusterBuildMessageHdr demo_env ((demo 1)\<lparr>currentEpoch := 4\<rparr>) CLUSTERMSG_TYPE_FAILOVER_AUTH_ACK \<noteq> None"
      by (simp add: clusterBuildMessageHdr_def demo_fields demo_node_fields)
    ultimately show ?thesis
      using t(7) n(3) by (auto simp: clusterSendFailoverAuth_def demo_ack_def)
  qed
  have "clusterSendFailoverAuthIfNeeded demo_env t 2 (demo_request 2) =
      Some (set_node ((emit t (Send 2 demo_ack))\<lparr>lastVoteEpoch := 4\<rparr>) 0 ((demo_node 1 0)\<lparr>voted_time := now demo_env\<rparr>))"
    using req n by (simp add: clusterSendFailoverAuthIfNeeded_def newer ack t demo_node_fields demo_env_fields del: One_nat_def)
  then have "cluster_step (Packet demo_env (Some 2) 2208 (demo_request 2)) (fresh (demo 1)) =
      Some (set_node ((emit t (Send 2 demo_ack))\<lparr>lastVoteEpoch := 4\<rparr>) 0 ((demo_node 1 0)\<lparr>voted_time := now demo_env\<rparr>))"
    using req sane link look noted by (simp add: clusterProcessPacket_def)
  then show thesis using that by (simp add: t n)
qed

text \<open>Server 2 counts the vote.\<close>

lemma demo_counts:
  assumes "asking 2 s"
  obtains u where "cluster_step (Packet demo_env (Some 1) 2208 demo_ack) (fresh s) = Some u"
    "failover_auth_count u = 1" "failover_auth_sent u" "failover_auth_epoch u = 4"
proof -
  have sane: "packet_sane 2208 demo_ack" by (simp add: packet_sane_def explen_def demo_ack_fields)
  have link: "link_ok (fresh s) (Some 1)" using assms by (simp add: link_ok_def asking_def demo_simps)
  have look: "clusterLookupNode (fresh s) (node_id 1) = Some 1"
    using assms by (intro demo_lookup) (simp_all add: fresh_def asking_def)
  have "\<exists>u. cluster_step (Packet demo_env (Some 1) 2208 demo_ack) (fresh s) = Some u \<and>
      failover_auth_count u = 1 \<and> failover_auth_sent u \<and> failover_auth_epoch u = 4"
    using assms sane link look
    by (simp add: clusterProcessPacket_def note_sender_def process_auth_ack_def
        demo_simps demo_ack_fields asking_def clusterDoBeforeSleep_def Let_def del: One_nat_def)
  with that show thesis by blast
qed

text \<open>The run: both slaves ask for votes, the master votes for one of them.\<close>

definition demo_net :: net where
  "demo_net = \<lparr>inst = [node_id 1 \<mapsto> demo 1, node_id 2 \<mapsto> demo 2, node_id 3 \<mapsto> demo 3],
     pool = {#}, cast = {}, tally = {}\<rparr>"

lemma demo_start: "net_start demo_net"
proof -
  have "server_ok (node_id i) (demo i) \<and> failover_auth_count (demo i) \<le> 0" if "i < 4" for i
    using demo_inv [OF that] that by (auto simp: server_ok_def own_entry_def demo_fields numeral_eq_Suc less_Suc_eq)
  then show ?thesis by (auto simp: net_start_def demo_net_def split: if_splits)
qed

lemma demo_run:
  obtains N where "net_reach {node_id 1} demo_net N" "(node_id 2, 4, 1) \<in> tally N" "(node_id 3, 4, 0) \<in> tally N"
proof -
  have ids: "node_id 1 \<noteq> node_id 2" "node_id 1 \<noteq> node_id 3" "node_id 2 \<noteq> node_id 3" by (simp_all add: node_id_eq)
  obtain s2 where s2: "cluster_step (BeforeSleep demo_env) (fresh (demo 2)) = Some s2" "asking 2 s2"
    using demo_elects [of 2] by blast
  obtain s3 where s3: "cluster_step (BeforeSleep demo_env) (fresh (demo 3)) = Some s3" "asking 3 s3"
    using demo_elects [of 3] by blast
  obtain s1 n where s1: "cluster_step (Packet demo_env (Some 2) 2208 (demo_request 2)) (fresh (demo 1)) = Some s1"
      "Send 2 demo_ack \<in> set (effects s1)" "cheap s1 2 = Some n" "node_name n = node_id 2"
    using demo_votes by blast
  obtain u where u: "cluster_step (Packet demo_env (Some 1) 2208 demo_ack) (fresh s2) = Some u"
      "failover_auth_count u = 1" "failover_auth_sent u" "failover_auth_epoch u = 4"
    using demo_counts [OF s2(2)] by blast
  define A where "A = after_event demo_net (node_id 2) s2 (pool demo_net)"
  define B where "B = after_event A (node_id 3) s3 (pool A)"
  define D where "D = after_event B (node_id 1) s1 (pool B - {#(node_id 1, demo_request 2)#})"
  define N where "N = after_event D (node_id 2) u (pool D - {#(node_id 2, demo_ack)#})"
  have a: "net_step {node_id 1} demo_net A"
    unfolding A_def
    by (rule net_step.event [OF _ s2(1)]) (use s2(2) ids in \<open>simp_all add: demo_net_def asking_def demo_fields\<close>)
  have b: "net_step {node_id 1} A B"
    unfolding B_def
    by (rule net_step.event [OF _ s3(1)])
      (use s3(2) ids in \<open>simp_all add: A_def after_event_def demo_net_def asking_def demo_fields\<close>)
  have req: "(node_id 1, demo_request 2) \<in> set (outbox s2)"
    using s2(2) outbox_send [of 1 "demo_request 2" s2 "demo_node 2 1"] demo_request_fields [of 2]
    by (simp add: asking_def demo_fields demo_node_fields)
  have d: "net_step {node_id 1} B D"
    unfolding D_def
    by (rule net_step.request [OF _ _ _ s1(1)])
      (use req ids demo_request_fields [of 2] in \<open>simp_all add: A_def B_def after_event_def demo_net_def\<close>)
  have ack: "(node_id 2, demo_ack) \<in> set (outbox s1)"
    using outbox_send [OF s1(2) _ s1(3)] s1(4) demo_ack_fields(1) by simp
  have e: "net_step {node_id 1} D N"
    unfolding N_def
    by (rule net_step.vote [OF _ _ _ _ u(1)])
      (use ack ids s2(2) demo_ack_fields(1) in \<open>simp_all add: A_def B_def D_def after_event_def demo_net_def asking_def\<close>)
  have "net_reach {node_id 1} demo_net N"
    by (rule net_reach.step [OF net_reach.step [OF net_reach.step [OF net_reach.step [OF net_reach.start a] b] d] e])
  moreover have "(node_id 2, 4, 1) \<in> tally N" using u by (simp add: N_def after_event_def)
  moreover have "(node_id 3, 4, 0) \<in> tally N"
    using s3(2) by (simp add: N_def D_def B_def after_event_def asking_def)
  ultimately show thesis by (rule that)
qed

lemma one_majority_per_epoch_witness:
  "\<exists>N. net_reach {node_id 1} demo_net N \<and> (node_id 2, 4, 1) \<in> tally N \<and> (node_id 3, 4, 0) \<in> tally N \<and>
     (1 :: int) + 0 \<le> int (card {node_id 1})"
proof -
  obtain N where N: "net_reach {node_id 1} demo_net N" "(node_id 2, 4, 1) \<in> tally N" "(node_id 3, 4, 0) \<in> tally N"
    by (rule demo_run)
  have "node_id 2 \<noteq> node_id 3" by (simp add: node_id_eq)
  from one_majority_per_epoch [OF demo_start N(1) _ N(2,3) this] N show ?thesis by auto
qed

section \<open>A vote of the last election\<close>

lemma note_sender_returns:
  assumes "cheap s r = Some n" "\<not> nodeInHandshake n" "cheap s (myself s) \<noteq> None" "m_currentEpoch m \<le> currentEpoch s"
  shows "gives (note_sender E s (Some r) m) (\<lambda>(t, ce, fe). ce = m_currentEpoch m \<and> currentEpoch t = currentEpoch s \<and>
    (\<exists>k. cheap t r = Some k \<and> node_flags k = node_flags n \<and> numslots k = numslots n) \<and> cheap t (myself t) \<noteq> None)"
proof -
  have known: "gives (cheap u (myself u)) Q" if "u = (v\<lparr>cheap := (cheap v)(r \<mapsto> k)\<rparr>)"
      "v = (if b then clusterDoBeforeSleep w td else w)" "w = (if m_currentEpoch m > currentEpoch s then w' else s)"
      "\<And>me. cheap u (myself u) = Some me \<Longrightarrow> Q me" for u v w w' k b td Q
  proof -
    have "cheap u (myself u) \<noteq> None"
      using that(1-3) assms(3,4) by (auto simp: clusterDoBeforeSleep_def not_less)
    then show ?thesis using that(4) by (auto simp: gives_def)
  qed
  show ?thesis
    unfolding note_sender_def option.case
    by (rule gives_rules(2), rule gives_known [OF assms(1)], rule gives_rules(3), (simp add: assms(2))[1],
        rule gives_rules(4), rule gives_rules(4), rule gives_rules(4), rule gives_rules(2), rule known, assumption, assumption,
        assumption, rule gives_rules(4), rule gives_rules(1),
        use assms(4) in \<open>auto simp: clusterDoBeforeSleep_def not_less\<close>)
qed

text \<open>
  C34: a vote can count for an election it was not cast for.  While a slave has scheduled its next
  election and not asked for votes yet, a late vote of its last election, from a known master with
  slots, is counted, and the count is still there when the slave asks for votes in the new epoch,
  which is greater than the epoch of the vote.  The comment in \<open>clusterProcessPacket\<close> says that only
  votes of the epoch of the election count.
\<close>

theorem stale_vote_counts:
  assumes "packet_sane len m" "m_type m = CLUSTERMSG_TYPE_FAILOVER_AUTH_ACK" "clusterLookupNode s (m_sender m) = Some r"
    and "cheap s r = Some n" "\<not> nodeInHandshake n" "nodeIsMaster n" "numslots n > 0" "cheap s (myself s) \<noteq> None"
    and "\<not> failover_auth_sent s" "m_currentEpoch m = failover_auth_epoch s"
    and "failover_auth_epoch s \<le> currentEpoch s" "currentEpoch s + 1 \<noteq> 0"
  shows "\<exists>t. clusterProcessPacket E s l len m = Some (t, True) \<and>
     failover_auth_count t = failover_auth_count s + 1 \<and>
     (\<forall>u. start_election E t = Some u \<longrightarrow>
        failover_auth_sent u \<and> failover_auth_count u = failover_auth_count s + 1 \<and> m_currentEpoch m < failover_auth_epoch u)"
proof -
  obtain t ce fe where t: "note_sender E s (Some r) m = Some (t, ce, fe)" "ce = m_currentEpoch m"
      "currentEpoch t = currentEpoch s" "\<exists>k. cheap t r = Some k \<and> node_flags k = node_flags n \<and> numslots k = numslots n"
      "cheap t (myself t) \<noteq> None"
    using note_sender_returns [OF assms(4,5,8), of m E] assms(10,11) by (auto simp: gives_def)
  have same: "failover_auth_epoch t = failover_auth_epoch s" "failover_auth_count t = failover_auth_count s"
    using note_sender_raise [OF t(1)] by (simp_all add: election_view_def)
  define v where "v = clusterDoBeforeSleep (t\<lparr>failover_auth_count := failover_auth_count t + 1\<rparr>) {TODO_HANDLE_FAILOVER}"
  obtain k where k: "cheap t r = Some k" "node_flags k = node_flags n" "numslots k = numslots n" using t(4) by blast
  have "process_auth_ack t (Some r) ce = Some v"
    using k t(2) assms(6,7,10) same by (simp add: process_auth_ack_def v_def)
  then have run: "clusterProcessPacket E s l len m = Some (v, True)"
    using assms(1-3) t(1) by (simp add: clusterProcessPacket_def)
  have v: "failover_auth_count v = failover_auth_count s + 1" "currentEpoch v = currentEpoch s" "cheap v (myself v) \<noteq> None"
    using t same by (simp_all add: v_def clusterDoBeforeSleep_def)
  have less: "failover_auth_epoch s < currentEpoch s + 1"
    using assms(11,12) unatSuc [of "currentEpoch s"] by (simp add: word_less_nat_alt word_le_nat_alt add.commute)
  have "failover_auth_sent u \<and> failover_auth_count u = failover_auth_count s + 1 \<and> m_currentEpoch m < failover_auth_epoch u"
    if u: "start_election E v = Some u" for u
  proof -
    obtain me where "cheap v (myself v) = Some me" using v(3) by blast
    note r = start_election_result [OF u this]
    show ?thesis using r(3-5) v less assms(10) by simp
  qed
  with run v show ?thesis by blast
qed

lemma stale_vote_counts_witness:
  "\<exists>t u. clusterProcessPacket demo_env (demo 2) (Some 1) 2208 (demo_ack\<lparr>m_currentEpoch := 3\<rparr>) = Some (t, True) \<and>
     start_election demo_env t = Some u \<and> failover_auth_count u = 1 \<and> failover_auth_epoch u = 4"
proof -
  let ?m = "demo_ack\<lparr>m_currentEpoch := 3\<rparr>"
  have sane: "packet_sane 2208 ?m" by (simp add: packet_sane_def explen_def demo_ack_fields)
  have look: "clusterLookupNode (demo 2) (m_sender ?m) = Some 1" by (simp add: demo_lookup demo_ack_fields)
  have "clusterProcessPacket demo_env (demo 2) (Some 1) 2208 ?m \<noteq> None"
    and el: "\<exists>u. start_election demo_env t = Some u \<and> failover_auth_epoch u = 4"
      if "clusterProcessPacket demo_env (demo 2) (Some 1) 2208 ?m = Some (t, True)" for t
    using sane look that
    by (auto simp: clusterProcessPacket_def note_sender_def process_auth_ack_def demo_ack_fields demo_simps Let_def
        demo_election_defs simp del: One_nat_def)
  from stale_vote_counts [OF sane _ look, of "demo_node 2 1" demo_env "Some 1"] el
  show ?thesis by (auto simp: demo_ack_fields demo_fields demo_node_fields)
qed

end
