(* ===== verification/Cluster_Flags.thy ===== *)
theory Cluster_Flags
  imports Cluster
begin

text \<open>
  The flags of a node as the code stores them.  The cluster theories keep the flags of a node as a
  set; \<open>cluster.h\<close> keeps them as the bits of a \<open>uint16_t\<close>.  Here the flags are ordered by their
  bits, the word of a set is computed, and the operations of the code on words (test, set, clear,
  and the comparison with zero) are shown to be those of the model on sets.
\<close>

unbundle bit_operations_syntax

text \<open>The constants of \<open>cluster.h\<close> are powers of two; this is the exponent.\<close>

fun flag_bit :: "node_flag \<Rightarrow> nat" where
  "flag_bit REDIS_NODE_MASTER = 0"
| "flag_bit REDIS_NODE_SLAVE = 1"
| "flag_bit REDIS_NODE_PFAIL = 2"
| "flag_bit REDIS_NODE_FAIL = 3"
| "flag_bit REDIS_NODE_MYSELF = 4"
| "flag_bit REDIS_NODE_HANDSHAKE = 5"
| "flag_bit REDIS_NODE_NOADDR = 6"
| "flag_bit REDIS_NODE_MEET = 7"
| "flag_bit REDIS_NODE_PROMOTED = 8"

lemma flag_bit_less: "flag_bit f < 16"
  by (cases f) simp_all

lemma flag_bit_inject: "flag_bit f = flag_bit g \<Longrightarrow> f = g"
  by (cases f; cases g) simp_all

instantiation node_flag :: linorder
begin

definition less_eq_node_flag :: "node_flag \<Rightarrow> node_flag \<Rightarrow> bool" where
  "less_eq_node_flag f g \<longleftrightarrow> flag_bit f \<le> flag_bit g"

definition less_node_flag :: "node_flag \<Rightarrow> node_flag \<Rightarrow> bool" where
  "less_node_flag f g \<longleftrightarrow> flag_bit f < flag_bit g"

instance
  by standard (auto simp: less_eq_node_flag_def less_node_flag_def intro: flag_bit_inject)

end

lemma finite_flags [simp]: "finite (F :: node_flag set)"
proof (rule finite_subset [OF subset_UNIV])
  have "inj flag_bit" by (rule injI) (rule flag_bit_inject)
  moreover have "range flag_bit \<subseteq> {..<16}" using flag_bit_less by blast
  ultimately show "finite (UNIV :: node_flag set)" by (meson finite_lessThan finite_subset inj_on_finite top_greatest)
qed

definition flag_mask :: "node_flag \<Rightarrow> u16" where
  "flag_mask f = push_bit (flag_bit f) 1"

fun or_masks :: "node_flag list \<Rightarrow> u16" where
  "or_masks [] = 0"
| "or_masks (f # fs) = flag_mask f OR or_masks fs"

text \<open>The word of a set of flags, from the lowest flag on.\<close>

definition flags_word :: "node_flag set \<Rightarrow> u16" where
  "flags_word F = or_masks (sorted_list_of_set F)"

lemma bit_flag_mask: "bit (flag_mask f) n \<longleftrightarrow> n = flag_bit f"
  using flag_bit_less [of f] by (auto simp: flag_mask_def bit_push_bit_iff bit_1_iff simp del: push_bit_of_1)

lemma bit_or_masks: "bit (or_masks fs) n \<longleftrightarrow> n \<in> flag_bit ` set fs"
  by (induction fs) (auto simp: bit_or_iff bit_flag_mask)

lemma bit_flags_word: "bit (flags_word F) n \<longleftrightarrow> n \<in> flag_bit ` F"
  by (simp add: flags_word_def bit_or_masks)

lemma flag_image: "flag_bit f \<in> flag_bit ` F \<longleftrightarrow> f \<in> F"
  using flag_bit_inject by blast

text \<open>\<open>n->flags & FLAG\<close>\<close>

lemma flags_test: "flags_word F AND flag_mask f \<noteq> 0 \<longleftrightarrow> f \<in> F"
proof -
  have "flags_word F AND flag_mask f \<noteq> 0 \<longleftrightarrow> (\<exists>n. bit (flags_word F AND flag_mask f) n)"
    by (metis bit_eqI bit_0_eq bot_apply bot_bool_def)
  also have "\<dots> \<longleftrightarrow> f \<in> F" by (auto simp: bit_and_iff bit_flags_word bit_flag_mask dest: flag_bit_inject)
  finally show ?thesis .
qed

text \<open>\<open>n->flags |= ...\<close>, \<open>n->flags &= ~...\<close>, \<open>flags == 0\<close>, and no two sets share a word.\<close>

lemma flags_set: "flags_word (F \<union> G) = flags_word F OR flags_word G"
  by (rule bit_eqI) (auto simp: bit_or_iff bit_flags_word)

lemma flags_clear: "flags_word (F - G) = flags_word F AND NOT (flags_word G)"
  by (rule bit_eqI) (auto simp: bit_and_iff bit_not_iff bit_flags_word flag_image dest: flag_bit_inject intro: bit_imp_le_length)

lemma flags_inject: "flags_word F = flags_word G \<Longrightarrow> F = G"
  by (metis bit_flags_word flag_image set_eqI)

lemma flags_zero: "flags_word F = 0 \<longleftrightarrow> F = {}"
proof -
  have "flags_word {} = 0" by (simp add: flags_word_def)
  then show ?thesis using flags_inject by metis
qed

end
