(* ===== verification/Spec2Isabelle.thy ===== *)
theory Spec2Isabelle
  imports Util Interfaces Intset Crc Sds Sds_Text Dict_Scan Adlist Aof Strings_Ref Multi_Props Cluster_Ballot Cluster_Flags
begin

text \<open>
  A verification library for the Redis 3.0 server whose sources are under \<open>src/hiredis/3.0/src\<close>
  (file names below are relative to that directory).  The theories translate the data structures,
  the codecs, the key space with the string commands and transactions, and the cluster of the
  server into definitions that compute, and prove what makes them correct.

  \<^bold>\<open>The program.\<close>  A client's bytes arrive in its query buffer and are cut into commands
  (\<open>networking.c\<close>).  \<open>processCommand\<close> (\<open>redis.c\<close>) looks the command up, refuses, queues or calls
  it; \<open>multi.c\<close> keeps queues and watched keys.  Commands work on databases (\<open>db.c\<close>,
  \<open>t_string.c\<close>), which are hash tables (\<open>dict.c\<close>) from strings (\<open>sds.c\<close>) to objects (\<open>object.c\<close>);
  small sets of integers are \<open>intset.c\<close>, lists of anything \<open>adlist.c\<close>.  What changes the data is
  appended to a file (\<open>aof.c\<close>), which is loaded when the server starts.  In a cluster every server
  has a view of the nodes and of the 16384 hash slots, exchanges it with the others and elects
  slaves of failed masters (\<open>cluster.c\<close>).

  \<^bold>\<open>Conventions.\<close>  A \<open>struct\<close> is a record, an enumeration a datatype.  Where widths matter,
  integers are words (\<open>byte\<close>, \<open>u16\<close>, \<open>u32\<close>, \<open>u64\<close> of \<open>Prelude\<close>; signed values read with \<open>sint\<close>), or numbers that
  are narrowed where the code stores or passes them (\<open>u32_of\<close>, \<open>s32_of\<close>, \<open>u64_of\<close>).  A string is its
  list of bytes; a C string ends before the first zero byte (\<open>c_str\<close>).  An operation returns \<open>None\<close>
  where the program aborts, fails an assertion, or touches memory it must not; memory that the code
  does not initialise is an argument (\<open>fill\<close>, \<open>garbage\<close>).  Loops are structural or have a
  termination proof; the three loops that may run forever on bad input (\<open>listDup_loop\<close>,
  \<open>listSearchKey_loop\<close>, \<open>scan_expansions\<close>) are partial functions whose \<open>None\<close> is non-termination,
  and the theorems show that they return.  No fuel is used.

  \<^bold>\<open>Theories.\<close>

  \<^item> \<open>Prelude\<close>: widths, byte strings, memory images, shared rules (\<open>mem_simps\<close>, \<open>byte_simps\<close>).

  \<^item> \<open>Interfaces\<close>: the contracts between components as locales.  \<open>set_store\<close> (a set with C's calling
  convention, with a bound on its size), \<open>kv_store\<close> (a map with the same), \<open>codec\<close> (an encoder and a
  self-delimiting decoder), \<open>checksum\<close> (a fold over bytes).  They are interpreted as \<open>iset\<close> (\<open>Intset\<close>),
  \<open>dict_kv\<close> (\<open>Dict_Map\<close>), \<open>aof\<close> (\<open>Aof\<close>), \<open>c16\<close> and \<open>c64\<close> (\<open>Crc\<close>).  \<open>ballot_box\<close>, the contract of a
  record of votes, is in \<open>Cluster_Net\<close> with its interpretation \<open>nets\<close> on runs of the network.

  \<^item> \<open>Util\<close>: the integer conversions of \<open>util.c\<close> on 64-bit words, against canonical decimal text.

  \<^item> \<open>Sds\<close>: header, buffer and operations of \<open>sds.c\<close>, with the \<open>unsigned int\<close> fields wrapping; a
  refinement by plain byte sequences within \<open>ops_fit\<close> (strings grow to less than 4 GB minus the
  largest preallocation, ranges and case maps work below 2 GB; the server allows 512 MB), and \<open>sdsgrowzero_wraps\<close> for what happens beyond.
  \<open>Sds_Text\<close>: number formatting, \<open>sdscatfmt\<close>, splitting, joining, quoting and the argument parser.

  \<^item> \<open>Intset\<close>: \<open>intset.c\<close> on its byte image, with upgrades of the encoding and 32-bit sizes.

  \<^item> \<open>Crc\<close>: \<open>crc16.c\<close>, \<open>crc64.c\<close> with their tables, against polynomial division, and \<open>keyHashSlot\<close>.

  \<^item> \<open>Adlist\<close>: \<open>adlist.c\<close> on a heap of nodes with an arbitrary allocator.

  \<^item> \<open>Dict\<close>: tables, chains, resizing, incremental rehashing and iterators of \<open>dict.c\<close>.  The
  assertion in \<open>dictRehash\<close> is shown to hold in every turn of its loop (\<open>dictRehash_asserts_hold\<close>).
  \<open>Dict_Map\<close>: the hash functions and the refinement by a map, up to \<open>2 ^ 30\<close> entries.  \<open>Dict_Scan\<close>:
  \<open>dictScan\<close> with its reverse-binary cursor: what it covers and what it misses.

  \<^item> \<open>Clib\<close>: \<open>strtol\<close> and \<open>atoi\<close> on buffers.  \<open>Resp\<close>: the request parser of \<open>networking.c\<close> and
  the encoder of the same format.  \<open>Aof\<close>: feeding, the rewrite buffer and the loader of \<open>aof.c\<close>.

  \<^item> \<open>Object\<close>: string objects in their three encodings and the replies that print them.  \<open>Db\<close>: the
  state of the server (record \<open>server\<close>: databases, clients, settings) and \<open>db.c\<close>; hash tables are maps
  there, as \<open>Dict_Map\<close> allows.  \<open>Db_Inv\<close>: the invariant \<open>srv_inv\<close> and the relation \<open>reaches\<close> that every
  command keeps: a change of a watched value marks the watchers.

  \<^item> \<open>Strings\<close>: the commands of \<open>t_string.c\<close>; \<open>Strings_Ref\<close>: their refinement by operations on a map of
  byte strings, replies and errors included.  The parameter \<open>mem\<close> is the length to which the
  allocator can grow a string.

  \<^item> \<open>Multi\<close>: the command table, dispatch with all refusals, and \<open>multi.c\<close>; \<open>Multi_Inv\<close>: the server as a
  step relation \<open>server_step\<close> (requests, connections, expiring keys, the clock) and its invariant
  \<open>tx_inv\<close>; \<open>Multi_Props\<close>: what transactions guarantee (\<open>watched_key_unchanged\<close>,
  \<open>server_never_aborts\<close>) and where they do not.  \<open>event_ok\<close> says which requests these theorems
  cover; \<open>debug_line_overflow\<close>, \<open>setrange_overflow_aborts\<close> and \<open>move_not_noticed\<close> show that the
  exclusions are needed.

  \<^item> \<open>Cluster\<close>: nodes in a store of references, slots, epochs, failure reports, the blacklist.
  \<open>Cluster_Bus\<close>: packets, votes, elections, manual failover, migration, the timer.  \<open>Cluster_Cmd\<close>:
  the \<open>CLUSTER\<close> command.  \<open>Cluster_Flags\<close>: node flags as the bits of a \<open>uint16_t\<close>, in their order.

  \<^item> \<open>Cluster_Frame\<close>, \<open>Cluster_Slots\<close>, \<open>Cluster_Inv\<close>, \<open>Cluster_Vote\<close>, \<open>Cluster_Timer\<close>: what each
  operation leaves alone, the invariant \<open>cluster_inv\<close> of slots and nodes, what a step does to an
  election.  \<open>Cluster_Run\<close>: runs of one server (packets, timer, hook before sleeping, startup check,
  commands) and their invariants.  \<open>Cluster_Net\<close>: a network of servers with election packets delayed,
  reordered and lost; at most one candidate of an epoch gets a majority.  \<open>Cluster_Takeover\<close>: a slave
  with a majority does take over, by total-correctness rules (\<open>gives\<close>).  \<open>Cluster_Ballot\<close>: a concrete
  election, and a vote that counts for an election it was not cast for.

  \<^bold>\<open>Correspondence.\<close>  Definitions have the names of the functions they translate; parts of a long
  function have names of their own (\<open>process_pong\<close>, \<open>addslots_command\<close>).  Global variables are fields of
  the state record of their component, pointers are references into a store where they are shared
  (\<open>adlist.c\<close>, \<open>cluster.c\<close>) and values elsewhere.  Sending is an entry in a list of effects.

  \<^bold>\<open>Not modelled.\<close>  The event loop, sockets, threads and the output side of clients, which are
  interfaces of the operating system.  RDB files, replication and the child processes of rewrites:
  they read the values of all types, of which only strings are modelled; values of other types are
  opaque.  Lists, sets, hashes, sorted sets, their compact encodings and \<open>SORT\<close>.  \<open>INCRBYFLOAT\<close> and
  HyperLogLog (floating point), Pub/Sub, blocking commands, scripting (a vendored interpreter),
  configuration files, statistics and monitoring.  Of \<open>redis.c\<close>: everything but dispatch, the table
  entries of the modelled commands and expiry of a single key.  Of \<open>cluster.c\<close>: links and their
  buffers, the random choice of gossip entries in a ping, \<open>clusterLoadConfig\<close> (\<open>clusterInit\<close> is the
  start without a configuration file), and \<open>DUMP\<close>, \<open>RESTORE\<close>, \<open>MIGRATE\<close>.  Sentinel, the client
  library, tools and vendored code.  The tree \<open>src/hiredis/hiredis/3.0\<close> is a second copy of the same
  sources.
\<close>

end
